(* ===== verification/Prelude.thy ===== *)
theory Prelude
  imports Main "HOL-Library.Word"
begin

text \<open>
  Shared vocabulary of the development: the machine types of the 32-bit ARM target the sources
  are compiled for (\<^verbatim>\<open>include/types.h\<close>, \<^verbatim>\<open>include/arm/types.h\<close>), the error numbers of
  \<^verbatim>\<open>include/errno.h\<close>, the byte-order macros, and the generic lemmas on lists, optional
  values, alignment and words that the component theories use.
\<close>

unbundle bit_operations_syntax

named_theorems align_simps
named_theorems byte_order_simps

section \<open>Machine types\<close>

type_synonym u8 = "8 word"
type_synonym u16 = "16 word"
type_synonym u32 = "32 word"

text \<open>Word-granular memory: the 32-bit cell at a 4-byte aligned address.\<close>

type_synonym memory = "nat \<Rightarrow> nat"

abbreviation (input) NULL :: nat where "NULL \<equiv> 0"

text \<open>Error numbers of \<^verbatim>\<open>include/errno.h\<close>; functions return them negated.\<close>

abbreviation (input) ENOENT :: int where "ENOENT \<equiv> 2"
abbreviation (input) EIO :: int where "EIO \<equiv> 5"
abbreviation (input) ENOMEM :: int where "ENOMEM \<equiv> 12"
abbreviation (input) EACCES :: int where "EACCES \<equiv> 13"
abbreviation (input) EFAULT :: int where "EFAULT \<equiv> 14"
abbreviation (input) EBUSY :: int where "EBUSY \<equiv> 16"
abbreviation (input) ENODEV :: int where "ENODEV \<equiv> 19"
abbreviation (input) ENOTDIR :: int where "ENOTDIR \<equiv> 20"
abbreviation (input) EINVAL :: int where "EINVAL \<equiv> 22"
abbreviation (input) ENOSPC :: int where "ENOSPC \<equiv> 28"
abbreviation (input) ENODATA :: int where "ENODATA \<equiv> 61"
abbreviation (input) ETIMEDOUT :: int where "ETIMEDOUT \<equiv> 110"
abbreviation (input) ENOTSUPP :: int where "ENOTSUPP \<equiv> 524"

section \<open>Word alignment\<close>

text \<open>
  \<^verbatim>\<open>WORD_SIZE\<close> is \<^verbatim>\<open>sizeof(long)\<close>, four bytes. The macros mask with
  \<^verbatim>\<open>~(WORD_SIZE - 1)\<close>, which clears the two low bits of a 32-bit value; the addition in
  \<^verbatim>\<open>WORD_ALIGN_UP\<close> is taken modulo the width.
\<close>

definition WORD_ALIGN_DOWN :: "nat \<Rightarrow> nat" where
  "WORD_ALIGN_DOWN a = a div 4 * 4"

definition WORD_ALIGN_UP :: "nat \<Rightarrow> nat" where
  "WORD_ALIGN_UP a = (a + 3) mod 2 ^ 32 div 4 * 4"

lemma and_not_mask_eq: "a AND NOT (mask n) = push_bit n (drop_bit n a)" for a :: "'a::len word"
  by (rule bit_eqI) (auto simp: bit_simps)

lemma WORD_ALIGN_DOWN_mask: "WORD_ALIGN_DOWN (unat a) = unat (a AND NOT 3)" for a :: u32
proof -
  have "unat a < 2 ^ 32"
    using unsigned_less [where 'a = nat, of a] by simp
  then have "unat a div 4 < 1073741824" by simp
  then have "unat (push_bit 2 (drop_bit 2 a)) = unat a div 4 * 4"
    by (simp add: push_bit_eq_mult unat_word_ariths unsigned_drop_bit_eq drop_bit_eq_div)
  with and_not_mask_eq [of a 2] show ?thesis
    by (simp add: WORD_ALIGN_DOWN_def mask_eq_exp_minus_1)
qed

lemma WORD_ALIGN_DOWN_le [align_simps]: "WORD_ALIGN_DOWN a \<le> a"
  by (simp add: WORD_ALIGN_DOWN_def)

lemma WORD_ALIGN_DOWN_dvd [align_simps]: "4 dvd WORD_ALIGN_DOWN a"
  by (simp add: WORD_ALIGN_DOWN_def)

lemma WORD_ALIGN_UP_dvd [align_simps]: "4 dvd WORD_ALIGN_UP a"
  by (simp add: WORD_ALIGN_UP_def)

lemma WORD_ALIGN_UP_ge: "a + 3 < 2 ^ 32 \<Longrightarrow> a \<le> WORD_ALIGN_UP a"
  by (simp add: WORD_ALIGN_UP_def)

lemma or_one_aligned [align_simps]: "4 dvd x \<Longrightarrow> x OR Suc 0 = Suc x"
  using or_one_eq [of x] by (auto elim: dvdE)

section \<open>32-bit address and size arithmetic\<close>

definition add32 :: "nat \<Rightarrow> nat \<Rightarrow> nat" where
  "add32 a b = (a + b) mod 2 ^ 32"

definition sub32 :: "nat \<Rightarrow> nat \<Rightarrow> nat" where
  "sub32 a b = (a + (2 ^ 32 - b mod 2 ^ 32)) mod 2 ^ 32"

lemma add32_eq [simp]: "a + b < 2 ^ 32 \<Longrightarrow> add32 a b = a + b"
  by (simp add: add32_def)

lemma sub32_eq [simp]: "b \<le> a \<Longrightarrow> a < 2 ^ 32 \<Longrightarrow> sub32 a b = a - b"
proof -
  assume "b \<le> a" "a < 2 ^ 32"
  then have "a + (2 ^ 32 - b mod 2 ^ 32) = (a - b) + 2 ^ 32" "a - b < 2 ^ 32" by simp_all
  then show ?thesis by (metis sub32_def mod_add_self2 mod_less)
qed

lemma add32_word: "add32 (unat a) (unat b) = unat (a + b)" for a b :: u32
  by (simp add: add32_def unat_word_ariths)

lemma sub32_word: "sub32 (unat a) (unat b) = unat (a - b)" for a b :: u32
proof -
  have "unat a < 2 ^ 32" "unat b < 2 ^ 32"
    using unsigned_less [where 'a = nat, of a] unsigned_less [where 'a = nat, of b] by simp_all
  then show ?thesis
    by (auto simp: sub32_def unat_sub_if' mod_if)
qed

section \<open>Byte order\<close>

text \<open>
  The target is little endian (\<^verbatim>\<open>-D__LITTLE_ENDIAN\<close> in the Makefile), so the four macros swap
  bytes.
\<close>

definition CPU_TO_BE16 :: "u16 \<Rightarrow> u16" where
  "CPU_TO_BE16 v = drop_bit 8 v OR push_bit 8 (v AND 0xff)"

definition BE16_TO_CPU :: "u16 \<Rightarrow> u16" where
  "BE16_TO_CPU v = drop_bit 8 v OR push_bit 8 (v AND 0xff)"

definition CPU_TO_BE32 :: "u32 \<Rightarrow> u32" where
  "CPU_TO_BE32 v = (drop_bit 24 v AND 0xff) OR (drop_bit 8 v AND 0xff00)
     OR (push_bit 8 v AND 0xff0000) OR push_bit 24 v"

definition BE32_TO_CPU :: "u32 \<Rightarrow> u32" where
  "BE32_TO_CPU v = (drop_bit 24 v AND 0xff) OR (drop_bit 8 v AND 0xff00)
     OR (push_bit 8 v AND 0xff0000) OR push_bit 24 v"

lemma mask_literals:
  "(0xff::'a::len word) = mask 8" "(0xff00::'a::len word) = push_bit 8 (mask 8)"
  "(0xff0000::'a::len word) = push_bit 16 (mask 8)"
  by (simp_all add: mask_eq_exp_minus_1 push_bit_eq_mult)

lemma bit_CPU_TO_BE16: "bit (CPU_TO_BE16 v) n \<longleftrightarrow> n < 16 \<and> bit v ((n + 8) mod 16)"
proof -
  consider "n < 8" | "8 \<le> n \<and> n < 16" | "16 \<le> n" by linarith
  then show ?thesis
  proof cases
    case 1
    then show ?thesis
      by (simp add: CPU_TO_BE16_def mask_literals bit_simps add.commute)
  next
    case 2
    then have "n + 8 = (n - 8) + 16" "n - 8 < 16" by linarith+
    then have "(n + 8) mod 16 = n - 8"
      by (metis mod_add_self2 mod_less)
    with 2 show ?thesis
      by (auto simp: CPU_TO_BE16_def mask_literals bit_simps dest: bit_imp_le_length)
  next
    case 3
    then show ?thesis by (auto simp: bit_simps dest: bit_imp_le_length)
  qed
qed

lemma bit_CPU_TO_BE32:
  "bit (CPU_TO_BE32 v) n \<longleftrightarrow> n < 32 \<and> bit v (24 - n div 8 * 8 + n mod 8)"
proof -
  consider "n < 8" | "8 \<le> n \<and> n < 16" | "16 \<le> n \<and> n < 24" | "24 \<le> n \<and> n < 32" | "32 \<le> n"
    by linarith
  then show ?thesis
  proof cases
    case 1
    then show ?thesis
      by (simp add: CPU_TO_BE32_def mask_literals bit_simps add.commute)
  next
    case 2
    then have "n = (n - 8) + 8" "n - 8 < 8" by linarith+
    then obtain k where "n = k + 8" "k < 8" by blast
    moreover from this have "(k + 8) div 8 = 1" "(k + 8) mod 8 = k"
      using div_mult_self1 [of 8 k 1] mod_mult_self1 [of k 1 8] by simp_all
    ultimately show ?thesis
      by (simp add: CPU_TO_BE32_def mask_literals bit_simps add.commute)
  next
    case 3
    then have "n = (n - 16) + 16" "n - 16 < 8" by linarith+
    then obtain k where "n = k + 16" "k < 8" by blast
    moreover from this have "(k + 16) div 8 = 2" "(k + 16) mod 8 = k"
      using div_mult_self1 [of 8 k 2] mod_mult_self1 [of k 2 8] by simp_all
    ultimately show ?thesis
      by (simp add: CPU_TO_BE32_def mask_literals bit_simps add.commute)
  next
    case 4
    then have "n = (n - 24) + 24" "n - 24 < 8" by linarith+
    then obtain k where "n = k + 24" "k < 8" by blast
    moreover from this have "(k + 24) div 8 = 3" "(k + 24) mod 8 = k"
      using div_mult_self1 [of 8 k 3] mod_mult_self1 [of k 3 8] by simp_all
    ultimately show ?thesis
      by (simp add: CPU_TO_BE32_def mask_literals bit_simps add.commute)
  next
    case 5
    then show ?thesis by (auto dest: bit_imp_le_length)
  qed
qed

lemma BE16_TO_CPU_eq [byte_order_simps]: "BE16_TO_CPU = CPU_TO_BE16"
  by (simp add: fun_eq_iff BE16_TO_CPU_def CPU_TO_BE16_def)

lemma BE32_TO_CPU_eq [byte_order_simps]: "BE32_TO_CPU = CPU_TO_BE32"
  by (simp add: fun_eq_iff BE32_TO_CPU_def CPU_TO_BE32_def)

lemma CPU_TO_BE16_invol [byte_order_simps]: "CPU_TO_BE16 (CPU_TO_BE16 v) = v"
proof (rule bit_word_eqI)
  fix n :: nat
  assume "n < LENGTH(16)"
  then have "((n + 8) mod 16 + 8) mod 16 = n" "n < 16" by (simp_all add: mod_add_left_eq)
  then show "bit (CPU_TO_BE16 (CPU_TO_BE16 v)) n \<longleftrightarrow> bit v n"
    by (simp add: bit_CPU_TO_BE16)
qed

lemma CPU_TO_BE32_invol [byte_order_simps]: "CPU_TO_BE32 (CPU_TO_BE32 v) = v"
proof (rule bit_word_eqI)
  fix n :: nat
  assume "n < LENGTH(32)"
  then have n: "n < 32" by simp
  define q r where "q = n div 8" and "r = n mod 8"
  have q: "q \<le> 3" and r: "r < 8" and nqr: "n = q * 8 + r"
    using n by (simp_all add: q_def r_def)
  have "24 - q * 8 + r = (3 - q) * 8 + r" by (simp add: diff_mult_distrib)
  then have "(24 - q * 8 + r) div 8 = 3 - q" "(24 - q * 8 + r) mod 8 = r"
    using r by simp_all
  moreover have "24 - (3 - q) * 8 + r = n" using q nqr by (simp add: diff_mult_distrib)
  moreover have "24 - q * 8 + r < 32" using r by simp
  ultimately show "bit (CPU_TO_BE32 (CPU_TO_BE32 v)) n \<longleftrightarrow> bit v n"
    using n by (simp add: bit_CPU_TO_BE32 flip: q_def r_def)
qed

section \<open>Bits of small numbers\<close>

lemma bit_less_power: "bit m i \<Longrightarrow> m < 2 ^ k \<Longrightarrow> i < k" for m :: nat
proof (rule ccontr)
  assume b: "bit m i" and m: "m < 2 ^ k" and "\<not> i < k"
  then have "(2::nat) ^ k \<le> 2 ^ i" by (intro power_increasing) auto
  then have "m < 2 ^ i" using m by linarith
  then show False using b by (simp add: bit_iff_odd)
qed

end
