(* ===== verification/ListHead.thy ===== *)
theory ListHead
  imports Prelude
begin

text \<open>
  The intrusive doubly linked list of \<^verbatim>\<open>include/list.h\<close>. A \<^verbatim>\<open>struct list_head\<close> at address
  \<open>p\<close> is two memory cells, \<^verbatim>\<open>next\<close> at \<open>p\<close> and \<^verbatim>\<open>prev\<close> at \<open>p + 4\<close>; every operation is the
  sequence of pointer writes of the source. \<open>dlist m h ns\<close> says that memory \<open>m\<close> holds the ring
  with head \<open>h\<close> and the nodes \<open>ns\<close> in order. The locale \<open>intrusive_list\<close> is the contract its
  clients rely on.
\<close>

section \<open>Operations\<close>

definition list_next :: "memory \<Rightarrow> nat \<Rightarrow> nat" where
  "list_next m p = m p"

definition list_prev :: "memory \<Rightarrow> nat \<Rightarrow> nat" where
  "list_prev m p = m (p + 4)"

definition INIT_LIST_HEAD :: "memory \<Rightarrow> nat \<Rightarrow> memory" where
  "INIT_LIST_HEAD m h = m(h := h, h + 4 := h)"

text \<open>\<^verbatim>\<open>__list_add\<close>, the four writes in the order of the source.\<close>

definition list_add_between :: "memory \<Rightarrow> nat \<Rightarrow> nat \<Rightarrow> nat \<Rightarrow> memory" where
  "list_add_between m new_node prev next =
     (let m1 = m(next + 4 := new_node);
          m2 = m1(new_node := next);
          m3 = m2(new_node + 4 := prev)
      in m3(prev := new_node))"

definition list_add :: "memory \<Rightarrow> nat \<Rightarrow> nat \<Rightarrow> memory" where
  "list_add m new_node head = list_add_between m new_node head (list_next m head)"

definition list_add_tail :: "memory \<Rightarrow> nat \<Rightarrow> nat \<Rightarrow> memory" where
  "list_add_tail m new_node head = list_add_between m new_node (list_prev m head) head"

text \<open>\<^verbatim>\<open>__list_del\<close>.\<close>

definition list_del_between :: "memory \<Rightarrow> nat \<Rightarrow> nat \<Rightarrow> memory" where
  "list_del_between m prev next = m(next + 4 := prev, prev := next)"

definition list_del :: "memory \<Rightarrow> nat \<Rightarrow> memory" where
  "list_del m node = list_del_between m (list_prev m node) (list_next m node)"

definition list_del_init :: "memory \<Rightarrow> nat \<Rightarrow> memory" where
  "list_del_init m node =
     INIT_LIST_HEAD (list_del_between m (list_prev m node) (list_next m node)) node"

definition list_empty :: "memory \<Rightarrow> nat \<Rightarrow> bool" where
  "list_empty m head \<longleftrightarrow> list_next m head = head"

text \<open>
  \<^verbatim>\<open>list_for_each(iter, head)\<close> with a body that leaves the loop at the first node that
  satisfies \<open>P\<close>: \<open>Some None\<close> when the loop reaches the head, \<open>Some (Some n)\<close> when it stops at
  \<open>n\<close>, and \<open>None\<close> when the walk never comes back to the head.
\<close>

partial_function (option) list_for_each ::
  "memory \<Rightarrow> nat \<Rightarrow> (nat \<Rightarrow> bool) \<Rightarrow> nat \<Rightarrow> nat option option" where
  "list_for_each m head P iter =
     (if iter = head then Some None
      else if P iter then Some (Some iter)
      else list_for_each m head P (list_next m iter))"

declare list_for_each.simps [code]

section \<open>What memory holds\<close>

fun dseg :: "memory \<Rightarrow> nat \<Rightarrow> nat list \<Rightarrow> nat \<Rightarrow> bool" where
  "dseg m p [] q \<longleftrightarrow> m p = q \<and> m (q + 4) = p"
| "dseg m p (n # ns) q \<longleftrightarrow> m p = n \<and> m (n + 4) = p \<and> dseg m n ns q"

definition node_cells :: "nat \<Rightarrow> nat set" where
  "node_cells n = {n, n + 4}"

text \<open>No two of the nodes share a cell.\<close>

definition nodes_apart :: "nat list \<Rightarrow> bool" where
  "nodes_apart ns \<longleftrightarrow> distinct ns \<and> (\<forall>a\<in>set ns. \<forall>b\<in>set ns. a \<noteq> b + 4)"

definition dlist :: "memory \<Rightarrow> nat \<Rightarrow> nat list \<Rightarrow> bool" where
  "dlist m h ns \<longleftrightarrow> nodes_apart (h # ns) \<and> dseg m h ns h"

lemma node_cells_disjoint_iff:
  "node_cells a \<inter> node_cells b = {} \<longleftrightarrow> a \<noteq> b \<and> a \<noteq> b + 4 \<and> b \<noteq> a + 4"
  by (auto simp: node_cells_def)

lemma dseg_append: "dseg m p (xs @ n # ys) q \<longleftrightarrow> dseg m p xs n \<and> dseg m n ys q"
  by (induction xs arbitrary: p) auto

lemma dseg_first: "dseg m p ns q \<Longrightarrow> m p = hd (ns @ [q])"
  by (cases ns) auto

lemma dseg_last: "dseg m p ns q \<Longrightarrow> m (q + 4) = last (p # ns)"
  by (induction ns arbitrary: p) auto

lemma dseg_frame:
  assumes "dseg m p ns q" "\<forall>a\<in>set (p # ns). m' a = m a"
    and "\<forall>b\<in>set (ns @ [q]). m' (b + 4) = m (b + 4)"
  shows "dseg m' p ns q"
  using assms by (induction ns arbitrary: p) auto

text \<open>Redirecting the end of a segment to another node.\<close>

lemma dseg_retarget:
  assumes "dseg m p ns q" "\<forall>a\<in>set (butlast (p # ns)). m' a = m a"
    and "\<forall>b\<in>set ns. m' (b + 4) = m (b + 4)"
    and "m' (last (p # ns)) = r" "m' (r + 4) = last (p # ns)"
  shows "dseg m' p ns r"
  using assms by (induction ns arbitrary: p) auto

lemma dseg_front_retarget:
  assumes "dseg m p ns q" "\<forall>a\<in>set ns. m' a = m a"
    and "\<forall>b\<in>set (tl (ns @ [q])). m' (b + 4) = m (b + 4)"
    and "m' r = hd (ns @ [q])" "m' (hd (ns @ [q]) + 4) = r"
  shows "dseg m' r ns q"
  using assms by (cases ns) (auto intro!: dseg_frame [of m])

lemma in_butlast:
  assumes "distinct xs" "a \<in> set (butlast xs)"
  shows "a \<noteq> last xs \<and> a \<in> set xs"
  using assms by (induction xs) (auto split: if_splits)

section \<open>Every operation on a well-formed ring\<close>

lemma dlist_init: "dlist (INIT_LIST_HEAD m h) h []"
  by (simp add: dlist_def INIT_LIST_HEAD_def nodes_apart_def)

lemma dlist_empty: "dlist m h ns \<Longrightarrow> list_empty m h \<longleftrightarrow> ns = []"
  by (cases ns) (auto simp: dlist_def list_empty_def list_next_def nodes_apart_def)

lemma dlist_next: "dlist m h ns \<Longrightarrow> list_next m h = hd (ns @ [h])"
  by (simp add: dlist_def list_next_def dseg_first)

lemma nodes_apart_snoc:
  "nodes_apart (ns @ [new])
     \<longleftrightarrow> nodes_apart ns \<and> (\<forall>k\<in>set ns. node_cells new \<inter> node_cells k = {})"
  by (auto simp: nodes_apart_def node_cells_disjoint_iff)

lemma dlist_add_tail:
  assumes "dlist m h ns" and new: "\<forall>k\<in>set (h # ns). node_cells new \<inter> node_cells k = {}"
  shows "dlist (list_add_tail m new h) h (ns @ [new])"
proof -
  let ?l = "last (h # ns)" and ?m = "list_add_tail m new h"
  from assms(1) have ap: "nodes_apart (h # ns)" and sg: "dseg m h ns h"
    by (auto simp: dlist_def)
  have l: "?l \<in> set (h # ns)" by (rule last_in_set) simp
  have m': "?m = m(h + 4 := new, new := h, new + 4 := ?l, ?l := new)"
    using dseg_last [OF sg] by (simp add: list_add_tail_def list_add_between_def list_prev_def Let_def)
  have sep: "c + 4 \<noteq> d" if "c \<in> set (h # ns)" "d \<in> set (h # ns)" for c d
    using ap that unfolding nodes_apart_def by metis
  have lne: "?l \<noteq> b + 4" if "b \<in> set (h # ns)" for b
    using l ap that by (auto simp: nodes_apart_def)
  have nne: "new \<noteq> b" "new \<noteq> b + 4" "b \<noteq> new + 4" if "b \<in> set (h # ns)" for b
    using new that by (auto simp: node_cells_disjoint_iff)
  have "dseg ?m h ns new"
  proof (rule dseg_retarget [OF sg])
    show "\<forall>a\<in>set (butlast (h # ns)). ?m a = m a"
    proof
      fix a assume a: "a \<in> set (butlast (h # ns))"
      then have "a \<noteq> ?l" "a \<in> set (h # ns)"
        using in_butlast [of "h # ns" a] ap unfolding nodes_apart_def by blast+
      then show "?m a = m a" using nne [of a] sep [of h a] by (auto simp: m')
    qed
    show "\<forall>b\<in>set ns. ?m (b + 4) = m (b + 4)"
      using lne nne ap by (auto simp: m' nodes_apart_def)
  qed (use nne [OF l] in \<open>simp_all add: m'\<close>)
  moreover have "?m new = h" "?m (h + 4) = new"
    using nne [of h] nne [OF l] lne [of h] by (auto simp: m')
  ultimately show ?thesis
    using ap new nodes_apart_snoc [of "h # ns" new] by (simp add: dlist_def dseg_append)
qed

lemma dlist_del:
  assumes "dlist m h (xs @ n # ys)"
  shows "dlist (list_del m n) h (xs @ ys)"
proof -
  let ?a = "last (h # xs)" and ?b = "hd (ys @ [h])" and ?m = "list_del m n"
  from assms have ap: "nodes_apart (h # xs @ n # ys)" and sx: "dseg m h xs n" and sy: "dseg m n ys h"
    by (auto simp: dlist_def dseg_append)
  have m': "?m = m(?b + 4 := ?a, ?a := ?b)"
    using dseg_last [OF sx] dseg_first [OF sy]
    by (simp add: list_del_def list_del_between_def list_prev_def list_next_def)
  have a: "?a \<in> set (h # xs)" by (rule last_in_set) simp
  have b: "?b \<in> set (h # ys)" by (cases ys) auto
  have sep: "d \<noteq> c + 4" if "c \<in> set (h # xs @ ys)" "d \<in> set (h # xs @ ys)" for c d
    using ap that by (auto simp: nodes_apart_def)
  have ane: "?a \<noteq> d + 4" if "d \<in> set (h # xs @ ys)" for d
    using a that by (intro sep) auto
  have bne: "?b + 4 \<noteq> d" if "d \<in> set (h # xs @ ys)" for d
    using b that by (intro not_sym [OF sep]) auto
  have dx: "distinct (h # xs)" using ap by (auto simp: nodes_apart_def)
  have "dseg ?m h xs ?b"
  proof (rule dseg_retarget [OF sx])
    show "\<forall>c\<in>set (butlast (h # xs)). ?m c = m c"
    proof
      fix c assume c: "c \<in> set (butlast (h # xs))"
      from in_butlast [OF dx c] have "c \<noteq> ?a" "c \<in> set (h # xs)" by blast+
      then show "?m c = m c" using bne [of c] by (auto simp: m')
    qed
    show "\<forall>d\<in>set xs. ?m (d + 4) = m (d + 4)"
    proof
      fix d assume d: "d \<in> set xs"
      then have "d \<noteq> ?b" using b ap by (auto simp: nodes_apart_def)
      then show "?m (d + 4) = m (d + 4)" using ane [of d] d by (auto simp: m')
    qed
    have "?b \<in> set (h # xs @ ys)" using b by auto
    then have "?a \<noteq> ?b + 4" by (rule ane)
    then show "?m ?a = ?b" "?m (?b + 4) = ?a" by (metis m' fun_upd_apply)+
  qed
  moreover have "dseg ?m (hd ys) (tl ys) h" if "ys \<noteq> []"
  proof (rule dseg_frame)
    show "dseg m (hd ys) (tl ys) h" using sy that by (cases ys) auto
    show "\<forall>c\<in>set (hd ys # tl ys). ?m c = m c"
    proof
      fix c assume "c \<in> set (hd ys # tl ys)"
      then have c: "c \<in> set ys" using that by simp
      then have "c \<noteq> ?a" using a ap unfolding nodes_apart_def by auto
      moreover have "c \<noteq> ?b + 4" using c bne [of c] by simp
      ultimately show "?m c = m c" by (simp only: m' fun_upd_apply if_False)
    qed
    show "\<forall>d\<in>set (tl ys @ [h]). ?m (d + 4) = m (d + 4)"
    proof
      fix d assume d: "d \<in> set (tl ys @ [h])"
      then have "d \<noteq> hd ys" using that ap unfolding nodes_apart_def by (cases ys) auto
      moreover have "d + 4 \<noteq> ?a" using d ane [of d] by (auto dest: list.set_sel(2) [OF that])
      ultimately show "?m (d + 4) = m (d + 4)" using that by (simp add: m')
    qed
  qed
  ultimately have "dseg ?m h (xs @ ys) h"
    by (cases ys) (auto simp: dseg_append)
  then show ?thesis using ap by (auto simp: dlist_def nodes_apart_def)
qed

lemma dlist_frame:
  assumes "dlist m h ns" "\<forall>k\<in>set (h # ns). \<forall>c\<in>node_cells k. m' c = m c"
  shows "dlist m' h ns"
  using assms by (auto simp: dlist_def node_cells_def intro!: dseg_frame [of m])

lemma list_add_tail_frame:
  assumes "dlist m h ns" "\<forall>k\<in>set (new # h # ns). c \<notin> node_cells k"
  shows "list_add_tail m new h c = m c"
proof -
  have "list_prev m h = last (h # ns)"
    using assms(1) by (simp only: dlist_def list_prev_def dseg_last)
  then have "list_prev m h \<in> set (h # ns)" by (simp only: last_in_set list.discI not_False_eq_True)
  then show ?thesis
    using assms(2) by (auto simp: list_add_tail_def list_add_between_def node_cells_def Let_def)
qed

lemma list_del_frame:
  assumes "dlist m h (xs @ n # ys)" "\<forall>k\<in>set (h # xs @ ys). c \<notin> node_cells k"
  shows "list_del m n c = m c"
proof -
  from assms(1) have "dseg m h xs n" "dseg m n ys h" by (auto simp: dlist_def dseg_append)
  then have "list_prev m n = last (h # xs)" "list_next m n = hd (ys @ [h])"
    by (simp_all only: list_prev_def list_next_def dseg_last dseg_first)
  moreover have "last (h # xs) \<in> set (h # xs)" by (rule last_in_set) simp
  moreover have "hd (ys @ [h]) \<in> set (h # ys)" by (cases ys) auto
  ultimately show ?thesis
    using assms(2) by (auto simp: list_del_def list_del_between_def node_cells_def)
qed

text \<open>The walk returns, with the first node that satisfies the predicate.\<close>

lemma list_for_each_seg:
  assumes "dseg m p ns h" "h \<notin> set ns"
  shows "list_for_each m h P (list_next m p) = Some (find P ns)"
  using assms
proof (induction ns arbitrary: p)
  case Nil
  then show ?case by (subst list_for_each.simps) (simp add: list_next_def)
next
  case (Cons n ns)
  then have "list_next m p = n" "n \<noteq> h" by (auto simp: list_next_def)
  with Cons show ?case by (subst list_for_each.simps) auto
qed

lemma list_for_each_find:
  "dlist m h ns \<Longrightarrow> list_for_each m h P (list_next m h) = Some (find P ns)"
  by (rule list_for_each_seg) (auto simp: dlist_def nodes_apart_def)

section \<open>The contract of the list\<close>

text \<open>
  What a client of the list relies on: the representation relation is kept by every operation,
  only the cells of the nodes involved are written, and a walk finds the first match. \<open>cells n\<close>
  is the footprint of a node.
\<close>

locale intrusive_list =
  fixes rep :: "memory \<Rightarrow> nat \<Rightarrow> nat list \<Rightarrow> bool"
    and cells :: "nat \<Rightarrow> nat set"
    and init :: "memory \<Rightarrow> nat \<Rightarrow> memory"
    and insert_tail :: "memory \<Rightarrow> nat \<Rightarrow> nat \<Rightarrow> memory"
    and remove :: "memory \<Rightarrow> nat \<Rightarrow> memory"
    and first :: "memory \<Rightarrow> nat \<Rightarrow> nat"
    and search :: "memory \<Rightarrow> nat \<Rightarrow> (nat \<Rightarrow> bool) \<Rightarrow> nat \<Rightarrow> nat option option"
  assumes rep_init: "rep (init m h) h []"
    and rep_insert: "rep m h ns \<Longrightarrow> \<forall>k\<in>set (h # ns). cells new \<inter> cells k = {} \<Longrightarrow>
          rep (insert_tail m new h) h (ns @ [new])"
    and rep_remove: "rep m h (xs @ n # ys) \<Longrightarrow> rep (remove m n) h (xs @ ys)"
    and rep_frame: "rep m h ns \<Longrightarrow> \<forall>k\<in>set (h # ns). \<forall>c\<in>cells k. m' c = m c \<Longrightarrow> rep m' h ns"
    and insert_frame: "rep m h ns \<Longrightarrow> \<forall>k\<in>set (new # h # ns). c \<notin> cells k \<Longrightarrow>
          insert_tail m new h c = m c"
    and remove_frame: "rep m h (xs @ n # ys) \<Longrightarrow> \<forall>k\<in>set (h # xs @ ys). c \<notin> cells k \<Longrightarrow>
          remove m n c = m c"
    and first_eq: "rep m h ns \<Longrightarrow> first m h = hd (ns @ [h])"
    and search_eq: "rep m h ns \<Longrightarrow> search m h P (first m h) = Some (find P ns)"
begin

text \<open>Taking a found node off the list leaves the others in order.\<close>

lemma rep_remove1:
  assumes "rep m h ns" "n \<in> set ns"
  shows "rep (remove m n) h (remove1 n ns)"
proof -
  obtain xs ys where ns: "ns = xs @ n # ys" and "n \<notin> set xs"
    using assms(2) by (blast dest: split_list_first)
  then have "remove1 n ns = xs @ ys" by (simp add: remove1_append)
  with assms(1) ns show ?thesis by (simp add: rep_remove)
qed

lemma remove1_frame:
  assumes "rep m h ns" "n \<in> set ns" "\<forall>k\<in>set (h # remove1 n ns). c \<notin> cells k"
  shows "remove m n c = m c"
proof -
  obtain xs ys where ns: "ns = xs @ n # ys" and "n \<notin> set xs"
    using assms(2) by (blast dest: split_list_first)
  then have "remove1 n ns = xs @ ys" by (simp add: remove1_append)
  with assms ns show ?thesis by (simp add: remove_frame)
qed

text \<open>A queue filled at the tail and emptied at the front is first in, first out.\<close>

lemma fifo:
  assumes "rep m h (n # ns)" "\<forall>k\<in>set (h # n # ns). cells new \<inter> cells k = {}"
  shows "first (insert_tail m new h) h = n"
    and "rep (remove (insert_tail m new h) n) h (ns @ [new])"
proof -
  have r: "rep (insert_tail m new h) h ((n # ns) @ [new])"
    using assms by (rule rep_insert)
  from first_eq [OF r] show "first (insert_tail m new h) h = n" by simp
  from r show "rep (remove (insert_tail m new h) n) h (ns @ [new])"
    using rep_remove [where xs = "[]" and ys = "ns @ [new]"] by simp
qed

lemma search_None: "rep m h ns \<Longrightarrow> search m h P (first m h) = Some None \<longleftrightarrow> (\<forall>n\<in>set ns. \<not> P n)"
  by (auto simp: search_eq find_None_iff)

lemma search_Some:
  "rep m h ns \<Longrightarrow> search m h P (first m h) = Some (Some n) \<Longrightarrow> n \<in> set ns \<and> P n"
  by (auto simp: search_eq find_Some_iff)

end

interpretation lh: intrusive_list dlist node_cells INIT_LIST_HEAD list_add_tail list_del list_next
    list_for_each
  by unfold_locales
    (blast intro: dlist_init dlist_add_tail dlist_del dlist_frame list_add_tail_frame list_del_frame
      dlist_next list_for_each_find)+

end
