(* ===== verification/Heap.thy ===== *)
theory Heap
  imports ListHead
begin

text \<open>
  The heap of \<^verbatim>\<open>mm/heap/malloc.c\<close>: a boundary-tag allocator. A region at address \<open>r\<close> has the
  cells \<^verbatim>\<open>pre_size\<close> (\<open>r\<close>), \<^verbatim>\<open>curr_size\<close> (\<open>r + 4\<close>) and, while it is free, the list node
  \<^verbatim>\<open>ln_mem_region\<close> (\<open>r + 8\<close>). Bit 0 of a size cell marks a used region. The free regions are on
  the ring whose head is \<^verbatim>\<open>g_free_region_list\<close>; its address is the argument \<open>fl\<close>.
  \<^verbatim>\<open>lock_irq_psr\<close> and \<^verbatim>\<open>unlock_irq_psr\<close> only mask interrupts and leave no trace in the model.
  The second half relates memory to a list of blocks and shows that every operation keeps the
  relation.
\<close>

section \<open>The allocator\<close>

definition DWORD_SIZE :: nat where "DWORD_SIZE = 8"

definition LIST_NODE_ALIGN :: "nat \<Rightarrow> nat" where
  "LIST_NODE_ALIGN sz = add32 sz 7 div 8 * 8"

definition MIN_HEAP_LEN :: nat where "MIN_HEAP_LEN = 1024"

definition sizeof_mem_region :: nat where "sizeof_mem_region = 16"

definition IS_FREE :: "nat \<Rightarrow> bool" where
  "IS_FREE sz \<longleftrightarrow> sz mod 4 = 0"

definition pre_size :: "memory \<Rightarrow> nat \<Rightarrow> nat" where "pre_size m region = m region"

definition curr_size :: "memory \<Rightarrow> nat \<Rightarrow> nat" where "curr_size m region = m (region + 4)"

definition ln_mem_region :: "nat \<Rightarrow> nat" where "ln_mem_region region = region + 8"

definition GET_SIZE :: "memory \<Rightarrow> nat \<Rightarrow> nat" where
  "GET_SIZE m region = WORD_ALIGN_DOWN (curr_size m region)"

definition get_successor :: "memory \<Rightarrow> nat \<Rightarrow> nat" where
  "get_successor m region = add32 (add32 region DWORD_SIZE) (GET_SIZE m region)"

definition get_predeccessor :: "memory \<Rightarrow> nat \<Rightarrow> nat" where
  "get_predeccessor m region =
     sub32 (sub32 region (WORD_ALIGN_DOWN (pre_size m region))) DWORD_SIZE"

definition region_set_size :: "memory \<Rightarrow> nat \<Rightarrow> nat \<Rightarrow> memory" where
  "region_set_size m region sz =
     (let m1 = m(region + 4 := sz);
          succ_region = get_successor m1 region
      in m1(succ_region := sz))"

text \<open>\<^verbatim>\<open>__heap_init\<close>.\<close>

definition heap_init_range :: "memory \<Rightarrow> nat \<Rightarrow> nat \<Rightarrow> nat \<Rightarrow> memory \<times> int" where
  "heap_init_range m fl start0 end0 =
     (let start = WORD_ALIGN_UP start0;
          end' = WORD_ALIGN_DOWN end0
      in if end' \<le> add32 start MIN_HEAP_LEN then (m, - EINVAL)
         else
           let first = start;
               tail = sub32 end' DWORD_SIZE;
               sz = sub32 (sub32 tail first) DWORD_SIZE;
               m1 = m(first := 1);
               m2 = m1(first + 4 := sz);
               m3 = m2(tail := sz);
               m4 = m3(tail + 4 := 1)
           in (list_add_tail m4 (ln_mem_region first) fl, 0))"

text \<open>
  \<^verbatim>\<open>heap_init\<close> with \<^verbatim>\<open>CONFIG_NORMAL_SPACE\<close> or without it: the linker symbols and the sizes
  are the arguments.
\<close>

definition heap_init_normal :: "memory \<Rightarrow> nat \<Rightarrow> nat \<Rightarrow> nat \<Rightarrow> memory \<times> int" where
  "heap_init_normal m fl end_sym heap_size =
     (let heap_start = end_sym;
          heap_end = add32 heap_start heap_size
      in heap_init_range m fl heap_start heap_end)"

definition heap_init_below :: "memory \<Rightarrow> nat \<Rightarrow> nat \<Rightarrow> nat \<Rightarrow> nat \<Rightarrow> memory \<times> int" where
  "heap_init_below m fl start_sym head_size heap_size =
     (let heap_end = sub32 start_sym head_size;
          heap_start = sub32 heap_end heap_size
      in heap_init_range m fl heap_start heap_end)"

text \<open>\<^verbatim>\<open>malloc\<close>: \<open>None\<close> only when the walk over the free list never ends.\<close>

definition malloc :: "memory \<Rightarrow> nat \<Rightarrow> nat \<Rightarrow> (memory \<times> nat) option" where
  "malloc m fl sz =
     (let alloc_size = LIST_NODE_ALIGN sz
      in case list_for_each m fl (\<lambda>iter. alloc_size \<le> curr_size m (sub32 iter 8)) (list_next m fl) of
           None \<Rightarrow> None
         | Some None \<Rightarrow> Some (m, NULL)
         | Some (Some iter) \<Rightarrow>
             let curr_region = sub32 iter 8;
                 m1 = list_del m iter;
                 reset_size = sub32 (curr_size m1 curr_region) alloc_size;
                 m2 = (if reset_size < sizeof_mem_region
                       then region_set_size m1 curr_region (curr_size m1 curr_region OR 1)
                       else
                         let m1' = region_set_size m1 curr_region (alloc_size OR 1);
                             succ_region = get_successor m1' curr_region;
                             m1'' = region_set_size m1' succ_region (sub32 reset_size DWORD_SIZE)
                         in list_add_tail m1'' (ln_mem_region succ_region) fl)
             in Some (m2, ln_mem_region curr_region))"

definition free :: "memory \<Rightarrow> nat \<Rightarrow> nat \<Rightarrow> memory" where
  "free m fl p =
     (let curr_region = sub32 p DWORD_SIZE;
          succ_region = get_successor m curr_region;
          m1 = (if IS_FREE (curr_size m succ_region)
                then list_del
                       (region_set_size m curr_region
                          (add32 (add32 (GET_SIZE m curr_region) (curr_size m succ_region)) DWORD_SIZE))
                       (ln_mem_region succ_region)
                else region_set_size m curr_region (GET_SIZE m curr_region))
      in if IS_FREE (pre_size m1 curr_region)
         then let prev_region = get_predeccessor m1 curr_region
              in region_set_size m1 prev_region
                   (add32 (add32 (curr_size m1 prev_region) (curr_size m1 curr_region)) DWORD_SIZE)
         else list_add_tail m1 (ln_mem_region curr_region) fl)"

text \<open>
  \<^verbatim>\<open>memset(p, 0, size)\<close> seen on word cells: a cell whose four bytes are all among the \<open>size\<close>
  bytes from \<open>p\<close> on becomes zero; the last cell, when only its \<open>n < 4\<close> first (low) bytes are
  among them, loses these. \<^verbatim>\<open>zalloc\<close> is \<^verbatim>\<open>malloc\<close> followed by this.
\<close>

definition memset_zero :: "memory \<Rightarrow> nat \<Rightarrow> nat \<Rightarrow> memory" where
  "memset_zero m p sz =
     (\<lambda>c. if p \<le> c \<and> c < p + sz \<and> (c - p) mod 4 = 0
          then let n = p + sz - c in if 4 \<le> n then 0 else m c div 256 ^ n * 256 ^ n
          else m c)"

definition zalloc :: "memory \<Rightarrow> nat \<Rightarrow> nat \<Rightarrow> (memory \<times> nat) option" where
  "zalloc m fl sz =
     (case malloc m fl sz of
        None \<Rightarrow> None
      | Some (m1, p) \<Rightarrow> Some (if p \<noteq> NULL then memset_zero m1 p sz else m1, p))"

definition dma_alloc_coherent :: "memory \<Rightarrow> nat \<Rightarrow> nat \<Rightarrow> (memory \<times> nat \<times> nat option) option" where
  "dma_alloc_coherent m fl sz =
     (case malloc m fl sz of
        None \<Rightarrow> None
      | Some (m1, va) \<Rightarrow> if va = NULL then Some (m1, NULL, None) else Some (m1, va, Some va))"

section \<open>Blocks\<close>

text \<open>
  A block is its size and whether it is used; \<open>tag\<close> is the value of its size cell. \<open>bseg m a pre
  bs\<close> says that from address \<open>a\<close> on memory holds the headers of the blocks \<open>bs\<close>, the first with
  \<^verbatim>\<open>pre_size\<close> \<open>pre\<close>. The tail region is the block \<open>(0, True)\<close>.
\<close>

type_synonym block = "nat \<times> bool"

fun tag :: "block \<Rightarrow> nat" where
  "tag (s, u) = (if u then s + 1 else s)"

fun end_addr :: "nat \<Rightarrow> block list \<Rightarrow> nat" where
  "end_addr a [] = a"
| "end_addr a (b # bs) = end_addr (a + 8 + fst b) bs"

fun last_tag :: "nat \<Rightarrow> block list \<Rightarrow> nat" where
  "last_tag pre [] = pre"
| "last_tag pre (b # bs) = last_tag (tag b) bs"

fun bseg :: "memory \<Rightarrow> nat \<Rightarrow> nat \<Rightarrow> block list \<Rightarrow> bool" where
  "bseg m a pre [] \<longleftrightarrow> True"
| "bseg m a pre (b # bs) \<longleftrightarrow> m a = pre \<and> m (a + 4) = tag b \<and> bseg m (a + 8 + fst b) (tag b) bs"

fun addrs :: "nat \<Rightarrow> block list \<Rightarrow> nat list" where
  "addrs a [] = []"
| "addrs a (b # bs) = a # addrs (a + 8 + fst b) bs"

fun free_addrs :: "nat \<Rightarrow> block list \<Rightarrow> nat list" where
  "free_addrs a [] = []"
| "free_addrs a (b # bs) = (if snd b then id else (#) a) (free_addrs (a + 8 + fst b) bs)"

fun coalesced :: "block list \<Rightarrow> bool" where
  "coalesced (b # c # bs) \<longleftrightarrow> (snd b \<or> snd c) \<and> coalesced (c # bs)"
| "coalesced bs \<longleftrightarrow> True"

definition wf_blocks :: "block list \<Rightarrow> bool" where
  "wf_blocks bs \<longleftrightarrow> (\<forall>b\<in>set bs. 4 dvd fst b \<and> 8 \<le> fst b)"

definition heap_inv :: "memory \<Rightarrow> nat \<Rightarrow> nat \<Rightarrow> block list \<Rightarrow> nat list \<Rightarrow> bool" where
  "heap_inv m fl a bs ns \<longleftrightarrow>
     bseg m a 1 (bs @ [(0, True)]) \<and> wf_blocks bs \<and> coalesced bs
     \<and> 0 < a \<and> 4 dvd a \<and> end_addr a bs + 8 < 2 ^ 32
     \<and> dlist m fl ns \<and> set ns = ln_mem_region ` set (free_addrs a bs)
     \<and> (fl + 8 \<le> a \<or> end_addr a bs + 8 \<le> fl)"

section \<open>Geometry of the blocks\<close>

lemma end_addr_append [simp]: "end_addr a (xs @ ys) = end_addr (end_addr a xs) ys"
  by (induction xs arbitrary: a) auto

lemma last_tag_append [simp]: "last_tag pre (xs @ ys) = last_tag (last_tag pre xs) ys"
  by (induction xs arbitrary: pre) auto

lemma addrs_append [simp]: "addrs a (xs @ ys) = addrs a xs @ addrs (end_addr a xs) ys"
  by (induction xs arbitrary: a) auto

lemma free_addrs_append [simp]:
  "free_addrs a (xs @ ys) = free_addrs a xs @ free_addrs (end_addr a xs) ys"
  by (induction xs arbitrary: a) auto

lemma bseg_append [simp]:
  "bseg m a pre (xs @ ys) \<longleftrightarrow> bseg m a pre xs \<and> bseg m (end_addr a xs) (last_tag pre xs) ys"
  by (induction xs arbitrary: a pre) auto

lemma wf_blocks_append [simp]: "wf_blocks (xs @ ys) \<longleftrightarrow> wf_blocks xs \<and> wf_blocks ys"
  by (auto simp: wf_blocks_def)

lemma wf_blocks_Cons [simp]: "wf_blocks (b # bs) \<longleftrightarrow> 4 dvd fst b \<and> 8 \<le> fst b \<and> wf_blocks bs"
  by (auto simp: wf_blocks_def)

lemma wf_blocks_Nil [simp]: "wf_blocks []"
  by (simp add: wf_blocks_def)

lemma coalesced_append:
  "coalesced (xs @ ys) \<longleftrightarrow>
     coalesced xs \<and> coalesced ys \<and> (xs \<noteq> [] \<longrightarrow> ys \<noteq> [] \<longrightarrow> snd (last xs) \<or> snd (hd ys))"
  by (induction xs rule: coalesced.induct) (cases ys; auto)+

lemma end_addr_ge: "a \<le> end_addr a bs"
  by (induction a bs rule: end_addr.induct) auto

lemma addrs_range: "b \<in> set (addrs a bs) \<Longrightarrow> a \<le> b \<and> b + 8 \<le> end_addr a bs"
proof (induction bs arbitrary: a)
  case (Cons c bs)
  then show ?case using end_addr_ge [of "a + 8 + fst c" bs] by fastforce
qed simp

lemma free_addrs_range: "wf_blocks bs \<Longrightarrow> k \<in> set (free_addrs a bs) \<Longrightarrow> a \<le> k \<and> k + 16 \<le> end_addr a bs"
proof (induction bs arbitrary: a)
  case (Cons c bs)
  then show ?case using end_addr_ge [of "a + 8 + fst c" bs] by (fastforce split: if_splits)
qed simp

lemma free_addrs_distinct: "distinct (free_addrs a bs)"
proof (induction bs arbitrary: a)
  case (Cons c bs)
  have "a < k" if "k \<in> set (free_addrs (a + 8 + fst c) bs)" for k
  proof -
    have "b \<le> k" if "k \<in> set (free_addrs b bs)" for b k
      using that by (induction bs arbitrary: b) (fastforce split: if_splits)+
    from this [OF that] show ?thesis by simp
  qed
  with Cons show ?case by auto
qed simp

lemma free_addrs_split:
  "k \<in> set (free_addrs a bs) \<Longrightarrow> \<exists>xs s ys. bs = xs @ (s, False) # ys \<and> k = end_addr a xs"
proof (induction bs arbitrary: a)
  case (Cons c bs)
  show ?case
  proof (cases "k = a \<and> \<not> snd c")
    case True
    then have "c # bs = [] @ (fst c, False) # bs" "k = end_addr a []" by (auto simp: prod_eq_iff)
    then show ?thesis by blast
  next
    case False
    then have "k \<in> set (free_addrs (a + 8 + fst c) bs)" using Cons.prems by (auto split: if_splits)
    then obtain xs s ys where "bs = xs @ (s, False) # ys" "k = end_addr (a + 8 + fst c) xs"
      using Cons.IH by blast
    then have "c # bs = (c # xs) @ (s, False) # ys" "k = end_addr a (c # xs)" by auto
    then show ?thesis by blast
  qed
qed simp

text \<open>The header cells of the blocks and the list nodes of the free blocks share no cell.\<close>

definition tag_cells :: "nat \<Rightarrow> block list \<Rightarrow> nat set" where
  "tag_cells a bs = (\<Union>b\<in>set (addrs a bs). {b, b + 4})"

definition free_nodes :: "nat \<Rightarrow> block list \<Rightarrow> nat set" where
  "free_nodes a bs = ln_mem_region ` set (free_addrs a bs)"

lemma tag_cells_append [simp]:
  "tag_cells a (xs @ ys) = tag_cells a xs \<union> tag_cells (end_addr a xs) ys"
  by (auto simp: tag_cells_def)

lemma free_nodes_append [simp]:
  "free_nodes a (xs @ ys) = free_nodes a xs \<union> free_nodes (end_addr a xs) ys"
  by (auto simp: free_nodes_def)

lemma tag_cells_Cons: "tag_cells a (b # bs) = {a, a + 4} \<union> tag_cells (a + 8 + fst b) bs"
  by (auto simp: tag_cells_def)

lemma tag_cells_next:
  "end_addr a xs \<in> tag_cells a (xs @ ys @ [b])"
  "end_addr a xs + 4 \<in> tag_cells a (xs @ c # zs)"
  by (cases ys; auto simp: tag_cells_def)+

lemma free_nodes_Cons:
  "free_nodes a (b # bs) = (if snd b then {} else {a + 8}) \<union> free_nodes (a + 8 + fst b) bs"
  by (auto simp: free_nodes_def ln_mem_region_def)

lemma tag_cells_range: "c \<in> tag_cells a bs \<Longrightarrow> a \<le> c \<and> c < end_addr a bs"
  by (auto simp: tag_cells_def dest: addrs_range)

lemma free_nodes_range: "wf_blocks bs \<Longrightarrow> n \<in> free_nodes a bs \<Longrightarrow> a + 8 \<le> n \<and> n + 8 \<le> end_addr a bs"
  by (auto simp: free_nodes_def ln_mem_region_def dest: free_addrs_range)

lemma tag_node_apart:
  assumes "wf_blocks bs" "c \<in> tag_cells a (bs @ [(0, True)])" "n \<in> free_nodes a bs"
  shows "c \<notin> node_cells n"
  using assms
proof (induction bs arbitrary: a)
  case (Cons b bs)
  let ?a = "a + 8 + fst b"
  have c: "c \<in> {a, a + 4} \<or> c \<in> tag_cells ?a (bs @ [(0, True)])"
    using Cons.prems(2) by (auto simp: tag_cells_def)
  have n: "n = a + 8 \<or> n \<in> free_nodes ?a bs"
    using Cons.prems(3) by (auto simp: free_nodes_def ln_mem_region_def split: if_splits)
  have hi: "?a \<le> c" if "c \<in> tag_cells ?a (bs @ [(0, True)])"
    using tag_cells_range [OF that] by simp
  have ni: "?a + 8 \<le> n" if "n \<in> free_nodes ?a bs"
    using free_nodes_range [OF _ that] Cons.prems(1) by simp
  show ?case
    using c n hi ni Cons.IH [of ?a] Cons.prems(1) by (auto simp: node_cells_def)
qed (simp add: free_nodes_def)

lemma bseg_cong:
  assumes "bseg m a pre bs" "\<forall>c\<in>tag_cells a bs. m' c = m c"
  shows "bseg m' a pre bs"
  using assms
proof (induction bs arbitrary: a pre)
  case (Cons b bs)
  then show ?case by (auto simp: tag_cells_Cons)
qed simp

section \<open>Single steps on memory\<close>

abbreviation headers :: "memory \<Rightarrow> nat \<Rightarrow> block list \<Rightarrow> bool" where
  "headers m a bs \<equiv> bseg m a 1 (bs @ [(0, True)])"

abbreviation outside :: "nat \<Rightarrow> nat \<Rightarrow> block list \<Rightarrow> bool" where
  "outside fl a bs \<equiv> fl + 8 \<le> a \<or> end_addr a bs + 8 \<le> fl"

lemma align_down_tag [simp]: "4 dvd s \<Longrightarrow> WORD_ALIGN_DOWN s = s" "4 dvd s \<Longrightarrow> WORD_ALIGN_DOWN (Suc s) = s"
  by (auto simp: WORD_ALIGN_DOWN_def elim: dvdE)

lemma IS_FREE_tag: "4 dvd fst b \<Longrightarrow> IS_FREE (tag b) \<longleftrightarrow> \<not> snd b"
  by (cases b) (auto simp: IS_FREE_def elim!: dvdE)

lemma region_set_size_eq:
  assumes "4 dvd s" "v = s \<or> v = s + 1" "r + 8 + s < 2 ^ 32"
  shows "region_set_size m r v = m(r + 4 := v, r + 8 + s := v)"
  using assms
  by (auto simp: region_set_size_def get_successor_def GET_SIZE_def curr_size_def DWORD_SIZE_def Let_def)

lemma get_successor_eq:
  assumes "m (r + 4) = tag (s, u)" "4 dvd s" "r + 8 + s < 2 ^ 32"
  shows "get_successor m r = r + 8 + s"
  using assms by (auto simp: get_successor_def GET_SIZE_def curr_size_def DWORD_SIZE_def)

lemma dlist_write:
  assumes "dlist m fl ns" "set ns \<subseteq> free_nodes a bs" "wf_blocks bs" "outside fl a bs"
    and "\<forall>c. c \<notin> tag_cells a (bs @ [(0, True)]) \<longrightarrow> m' c = m c"
  shows "dlist m' fl ns"
proof (rule lh.rep_frame [OF assms(1)])
  show "\<forall>k\<in>set (fl # ns). \<forall>c\<in>node_cells k. m' c = m c"
  proof (intro ballI)
    fix k c assume k: "k \<in> set (fl # ns)" and c: "c \<in> node_cells k"
    have "c \<notin> tag_cells a (bs @ [(0, True)])"
    proof (cases "k = fl")
      case True
      then show ?thesis
        using c assms(4) tag_cells_range [of c a "bs @ [(0, True)]"]
        by (auto simp: node_cells_def)
    next
      case False
      then have "k \<in> free_nodes a bs" using k assms(2) by auto
      then show ?thesis using tag_node_apart [OF assms(3)] c by blast
    qed
    then show "m' c = m c" using assms(5) by blast
  qed
qed

lemma headers_list:
  assumes "headers m a bs" "wf_blocks bs" "outside fl a bs"
    and "\<forall>c. (\<forall>k\<in>insert fl (free_nodes a bs). c \<notin> node_cells k) \<longrightarrow> m' c = m c"
  shows "headers m' a bs"
proof (rule bseg_cong [OF assms(1)], rule ballI)
  fix c assume c: "c \<in> tag_cells a (bs @ [(0, True)])"
  have "c \<notin> node_cells fl"
    using tag_cells_range [OF c] assms(3) by (auto simp: node_cells_def)
  then show "m' c = m c" using tag_node_apart [OF assms(2) c] assms(4) by blast
qed

lemma headers_replace:
  assumes "headers m a (xs @ mid @ ys)" "end_addr (end_addr a xs) mid' = end_addr (end_addr a xs) mid"
    and "\<forall>c. c < end_addr a xs \<or> end_addr a (xs @ mid) < c \<longrightarrow> m' c = m c"
    and "bseg m' (end_addr a xs) (last_tag 1 xs) mid'"
    and "m' (end_addr a (xs @ mid)) = last_tag (last_tag 1 xs) mid'"
  shows "headers m' a (xs @ mid' @ ys)"
proof -
  let ?e = "end_addr a (xs @ mid)"
  have "bseg m' a 1 xs"
    using assms(1,3) by (auto intro!: bseg_cong [of m] dest!: tag_cells_range)
  moreover have "bseg m' ?e (last_tag (last_tag 1 xs) mid') (ys @ [(0, True)])"
  proof -
    obtain b zs where b: "ys @ [(0, True)] = b # zs" by (cases ys) auto
    have "bseg m ?e (last_tag 1 (xs @ mid)) (ys @ [(0, True)])"
      using assms(1) by simp
    then have "bseg m ?e (last_tag 1 (xs @ mid)) (b # zs)" by (simp only: b)
    then have "bseg m (?e + 8 + fst b) (tag b) zs" "m (?e + 4) = tag b" by auto
    moreover from this have "bseg m' (?e + 8 + fst b) (tag b) zs"
      using assms(3) by (auto intro!: bseg_cong [of m] dest!: tag_cells_range)
    ultimately show ?thesis using assms(3,5) b by simp
  qed
  ultimately show ?thesis using assms(2,4) by simp
qed

lemma headers_del:
  assumes "headers m a bs" "wf_blocks bs" "outside fl a bs" "dlist m fl ns"
    and "set (remove1 n ns) \<subseteq> free_nodes a bs" "n \<in> set ns"
  shows "headers (list_del m n) a bs"
proof (rule headers_list [OF assms(1-3)], intro allI impI)
  fix c assume "\<forall>k\<in>insert fl (free_nodes a bs). c \<notin> node_cells k"
  then have "\<forall>k\<in>set (fl # remove1 n ns). c \<notin> node_cells k"
    using assms(5) by auto
  then show "list_del m n c = m c" by (rule lh.remove1_frame [OF assms(4,6)])
qed

lemma headers_add:
  assumes "headers m a bs" "wf_blocks bs" "outside fl a bs" "dlist m fl ns"
    and "set (n # ns) \<subseteq> free_nodes a bs"
  shows "headers (list_add_tail m n fl) a bs"
proof (rule headers_list [OF assms(1-3)], intro allI impI)
  fix c assume "\<forall>k\<in>insert fl (free_nodes a bs). c \<notin> node_cells k"
  then have "\<forall>k\<in>set (n # fl # ns). c \<notin> node_cells k" using assms(5) by auto
  then show "list_add_tail m n fl c = m c" by (rule lh.insert_frame [OF assms(4)])
qed

text \<open>The nodes of two different free blocks are apart, and apart from the head.\<close>

lemma free_nodes_apart:
  assumes "wf_blocks bs" "n \<in> free_nodes a bs" "k \<in> free_nodes a bs" "n \<noteq> k"
  shows "node_cells n \<inter> node_cells k = {}"
  using assms
proof (induction bs arbitrary: a)
  case (Cons b bs)
  let ?a = "a + 8 + fst b"
  have *: "n = a + 8 \<or> n \<in> free_nodes ?a bs" "k = a + 8 \<or> k \<in> free_nodes ?a bs"
    using Cons.prems(2,3) by (auto simp: free_nodes_def ln_mem_region_def split: if_splits)
  have **: "?a + 8 \<le> j" if "j \<in> free_nodes ?a bs" for j
    using free_nodes_range [OF _ that] Cons.prems(1) by simp
  show ?case
    using * **[of n] **[of k] Cons.IH [of ?a] Cons.prems(1,4) by (auto simp: node_cells_disjoint_iff)
qed (simp add: free_nodes_def)

lemma head_apart:
  assumes "wf_blocks bs" "outside fl a bs" "n \<in> free_nodes a bs"
  shows "node_cells n \<inter> node_cells fl = {}"
  using free_nodes_range [OF assms(1,3)] assms(2) by (auto simp: node_cells_disjoint_iff)

lemma dlist_add_free:
  assumes "dlist m fl ns" "wf_blocks bs" "outside fl a bs" "set (n # ns) \<subseteq> free_nodes a bs" "n \<notin> set ns"
  shows "dlist (list_add_tail m n fl) fl (ns @ [n])"
proof (rule lh.rep_insert [OF assms(1)], rule ballI)
  fix k assume k: "k \<in> set (fl # ns)"
  show "node_cells n \<inter> node_cells k = {}"
  proof (cases "k = fl")
    case True
    then show ?thesis using head_apart [OF assms(2,3)] assms(4) by simp
  next
    case False
    then have "n \<in> free_nodes a bs" "k \<in> free_nodes a bs" "n \<noteq> k" using k assms(4,5) by auto
    then show ?thesis by (rule free_nodes_apart [OF assms(2)])
  qed
qed

section \<open>Initialisation\<close>

lemma heap_init_heap_inv:
  assumes "dlist m fl []" "0 < start0" "start0 + 1027 < 2 ^ 32" "end0 < 2 ^ 32"
    and fl: "fl + 8 \<le> start0 \<or> end0 \<le> fl"
    and ok: "heap_init_range m fl start0 end0 = (m', 0)"
  shows "heap_inv m' fl (WORD_ALIGN_UP start0)
           [(WORD_ALIGN_DOWN end0 - WORD_ALIGN_UP start0 - 16, False)]
           [ln_mem_region (WORD_ALIGN_UP start0)]"
proof -
  define st en where "st = WORD_ALIGN_UP start0" and "en = WORD_ALIGN_DOWN end0"
  define s where "s = en - st - 16"
  have st: "start0 \<le> st" "st \<le> start0 + 3" "4 dvd st"
    using assms(3) by (auto simp: st_def WORD_ALIGN_UP_def)
  have en: "en \<le> end0" "4 dvd en" by (auto simp: en_def align_simps)
  have big: "st + 1024 < en"
    using ok st assms(3) by (auto simp: heap_init_range_def MIN_HEAP_LEN_def Let_def
        simp flip: st_def en_def split: if_splits)
  have sz: "4 dvd s" "8 \<le> s" "st + 16 + s = en" using big st en by (auto simp: s_def)
  have bounds: "en < 2 ^ 32" "st < en" using big en assms(4) by auto
  let ?m4 = "m(st := 1, st + 4 := s, st + 8 + s := s, st + 12 + s := 1)"
  have m': "m' = list_add_tail ?m4 (st + 8) fl"
  proof -
    have "sub32 en 8 = st + 8 + s" "sub32 (sub32 (st + 8 + s) st) 8 = s"
      using sz bounds by auto
    then show ?thesis
      using ok big st assms(3)
      by (auto simp: heap_init_range_def MIN_HEAP_LEN_def DWORD_SIZE_def ln_mem_region_def Let_def
          ac_simps simp flip: st_def en_def split: if_splits)
  qed
  have wf: "wf_blocks [(s, False)]" using sz by simp
  have out: "outside fl st [(s, False)]" using fl st en sz by auto
  have fn: "free_nodes st [(s, False)] = {st + 8}" by (simp add: free_nodes_def ln_mem_region_def)
  have hd4: "headers ?m4 st [(s, False)]" using sz by (simp add: algebra_simps)
  have dl4: "dlist ?m4 fl []"
    by (rule dlist_write [OF assms(1) _ wf out]) (auto simp: tag_cells_def)
  have "headers m' st [(s, False)]"
    unfolding m' by (rule headers_add [OF hd4 wf out dl4]) (simp add: fn)
  moreover have "dlist m' fl [st + 8]"
    unfolding m' using dlist_add_free [OF dl4 wf out, of "st + 8"] by (simp add: fn)
  ultimately have "heap_inv m' fl st [(s, False)] [st + 8]"
    using wf out sz st bounds assms(2) by (simp add: heap_inv_def ln_mem_region_def)
  then show ?thesis by (simp add: ln_mem_region_def s_def flip: st_def en_def)
qed

section \<open>The parts of the invariant\<close>

lemma heap_invD:
  assumes "heap_inv m fl a bs ns"
  shows "headers m a bs" "wf_blocks bs" "coalesced bs" "0 < a" "4 dvd a" "end_addr a bs + 8 < 2 ^ 32"
    "dlist m fl ns" "set ns = free_nodes a bs" "outside fl a bs"
  using assms by (auto simp: heap_inv_def free_nodes_def)

section \<open>The used blocks belong to the client\<close>

text \<open>
  \<open>used a bs\<close> are the payloads, address and length, of the used blocks. No operation of the
  allocator writes into one of them, and what the client writes there leaves the heap intact.
\<close>

fun used :: "nat \<Rightarrow> block list \<Rightarrow> (nat \<times> nat) set" where
  "used a [] = {}"
| "used a (b # bs) = (if snd b then {(a + 8, fst b)} else {}) \<union> used (a + 8 + fst b) bs"

definition payload :: "nat \<Rightarrow> block list \<Rightarrow> nat set" where
  "payload a bs = (\<Union>(p, n)\<in>used a bs. {p..<p + n})"

lemma used_append [simp]: "used a (xs @ ys) = used a xs \<union> used (end_addr a xs) ys"
  by (induction xs arbitrary: a) auto

lemma payload_append [simp]: "payload a (xs @ ys) = payload a xs \<union> payload (end_addr a xs) ys"
  by (auto simp: payload_def)

lemma payload_Cons:
  "payload a (b # bs) = (if snd b then {a + 8..<a + 8 + fst b} else {}) \<union> payload (a + 8 + fst b) bs"
  by (auto simp: payload_def)

lemma payload_Nil [simp]: "payload a [] = {}"
  by (simp add: payload_def)

lemma used_range: "(p, n) \<in> used a bs \<Longrightarrow> a + 8 \<le> p \<and> p + n \<le> end_addr a bs"
proof (induction bs arbitrary: a)
  case (Cons b bs)
  then show ?case using end_addr_ge [of "a + 8 + fst b" bs] by (fastforce split: if_splits)
qed simp

lemma payload_range: "c \<in> payload a bs \<Longrightarrow> a + 8 \<le> c \<and> c < end_addr a bs"
  unfolding payload_def using used_range by fastforce

lemma payload_apart:
  assumes "wf_blocks bs" "c \<in> payload a bs"
  shows "c \<notin> tag_cells a (bs @ [(0, True)])" "n \<in> free_nodes a bs \<Longrightarrow> c \<notin> node_cells n"
proof -
  have "c \<notin> tag_cells a (bs @ [(0, True)]) \<and> (n \<in> free_nodes a bs \<longrightarrow> c \<notin> node_cells n)"
    using assms
  proof (induction bs arbitrary: a)
    case (Cons b bs)
    let ?a = "a + 8 + fst b"
    have lo: "?a \<le> d" if "d \<in> tag_cells ?a (bs @ [(0, True)])" for d
      using tag_cells_range [OF that] by simp
    have fn: "?a + 8 \<le> n" if "n \<in> free_nodes ?a bs"
      using free_nodes_range [OF _ that] Cons.prems(1) by simp
    have "?a + 8 \<le> c" if "c \<in> payload ?a bs" using payload_range [OF that] by simp
    then show ?case
      using Cons.IH [of ?a] Cons.prems lo [of c] fn
      by (auto simp: payload_Cons tag_cells_Cons free_nodes_Cons node_cells_def split: if_splits)
  qed simp
  then show "c \<notin> tag_cells a (bs @ [(0, True)])" "n \<in> free_nodes a bs \<Longrightarrow> c \<notin> node_cells n" by blast+
qed

lemma payload_head: "outside fl a bs \<Longrightarrow> c \<in> payload a bs \<Longrightarrow> c \<notin> node_cells fl"
  by (auto simp: node_cells_def dest: payload_range)

lemma used_split: "(p, n) \<in> used a bs \<Longrightarrow> \<exists>xs ys. bs = xs @ (n, True) # ys \<and> p = ln_mem_region (end_addr a xs)"
proof (induction bs arbitrary: a)
  case (Cons b bs)
  show ?case
  proof (cases "b = (n, True) \<and> p = a + 8")
    case True
    then have "b # bs = [] @ (n, True) # bs \<and> p = ln_mem_region (end_addr a [])" by (simp add: ln_mem_region_def)
    then show ?thesis by blast
  next
    case False
    then have "(p, n) \<in> used (a + 8 + fst b) bs" using Cons.prems by (cases b) (auto split: if_splits)
    then obtain xs ys where "bs = xs @ (n, True) # ys" "p = ln_mem_region (end_addr (a + 8 + fst b) xs)"
      using Cons.IH by blast
    then have "b # bs = (b # xs) @ (n, True) # ys \<and> p = ln_mem_region (end_addr a (b # xs))" by simp
    then show ?thesis by blast
  qed
qed simp

lemma used_disjoint:
  "(p, n) \<in> used a bs \<Longrightarrow> (q, k) \<in> used a bs \<Longrightarrow> (p, n) \<noteq> (q, k) \<Longrightarrow> {p..<p + n} \<inter> {q..<q + k} = {} \<and> p + n \<noteq> q + k"
proof (induction bs arbitrary: a)
  case (Cons b bs)
  have "a + 8 + fst b + 8 \<le> x" if "(x, y) \<in> used (a + 8 + fst b) bs" for x y
    using used_range [OF that] by simp
  with Cons show ?case by (fastforce split: if_splits)
qed simp

text \<open>Client writes leave the invariant.\<close>

lemma heap_inv_frame:
  assumes inv: "heap_inv m fl a bs ns" and eq: "\<And>c. c \<notin> payload a bs \<Longrightarrow> m' c = m c"
  shows "heap_inv m' fl a bs ns"
proof -
  note inv' = heap_invD [OF inv]
  have "headers m' a bs"
    by (rule bseg_cong [OF inv'(1)]) (use payload_apart(1) [OF inv'(2)] eq in blast)
  moreover have "dlist m' fl ns"
  proof (rule lh.rep_frame [OF inv'(7)], intro ballI)
    fix k c assume k: "k \<in> set (fl # ns)" and c: "c \<in> node_cells k"
    have "c \<notin> payload a bs"
      using k c payload_apart(2) [OF inv'(2)] payload_head [OF inv'(9)] inv'(8) by auto
    then show "m' c = m c" by (rule eq)
  qed
  ultimately show ?thesis using inv by (simp add: heap_inv_def)
qed

lemma remove_frame_payload:
  assumes "dlist m fl ns" "n \<in> set ns" "set ns \<subseteq> free_nodes a bs" "wf_blocks bs" "outside fl a bs"
    and "c \<in> payload a bs"
  shows "list_del m n c = m c"
proof (rule lh.remove1_frame [OF assms(1,2)], rule ballI)
  fix k assume "k \<in> set (fl # remove1 n ns)"
  then have "k = fl \<or> k \<in> free_nodes a bs" using assms(3) set_remove1_subset [of n ns] by auto
  then show "c \<notin> node_cells k"
    using payload_head [OF assms(5,6)] payload_apart(2) [OF assms(4,6)] by blast
qed

text \<open>Cells of the other used blocks are outside the block at \<open>r\<close> and the header after it.\<close>

lemma payload_around:
  assumes "c \<in> payload a xs \<union> payload (r + 8 + s) ys" "r = end_addr a xs"
  shows "c \<in> payload a (xs @ (s, u) # ys)" "c < r \<or> r + 8 + s + 8 \<le> c"
  using assms by (auto simp: payload_Cons dest!: payload_range)

lemma insert_frame_payload:
  assumes "dlist m fl ns" "set ns \<subseteq> free_nodes a bs" "wf_blocks bs" "outside fl a bs"
    and "c \<in> payload a bs" "c \<notin> node_cells n"
  shows "list_add_tail m n fl c = m c"
proof (rule lh.insert_frame [OF assms(1)], rule ballI)
  fix k assume "k \<in> set (n # fl # ns)"
  then show "c \<notin> node_cells k"
    using assms(2,6) payload_apart(2) [OF assms(3,5)] payload_head [OF assms(4,5)] by auto
qed

section \<open>Allocation\<close>

lemma LIST_NODE_ALIGN_props:
  assumes "0 < sz" "sz \<le> 2 ^ 32 - 8"
  shows "sz \<le> LIST_NODE_ALIGN sz" "8 \<le> LIST_NODE_ALIGN sz" "8 dvd LIST_NODE_ALIGN sz"
    "LIST_NODE_ALIGN sz < sz + 8"
proof -
  have e: "LIST_NODE_ALIGN sz = (sz + 7) div 8 * 8" using assms by (simp add: LIST_NODE_ALIGN_def)
  have "(sz + 7) div 8 * 8 + (sz + 7) mod 8 = sz + 7" "(sz + 7) mod 8 < 8" by simp_all
  then have "sz \<le> (sz + 7) div 8 * 8" "(sz + 7) div 8 * 8 < sz + 8" by linarith+
  moreover have "8 dvd (sz + 7) div 8 * 8" by simp
  ultimately show "sz \<le> LIST_NODE_ALIGN sz" "8 dvd LIST_NODE_ALIGN sz" "LIST_NODE_ALIGN sz < sz + 8"
    by (simp_all add: e)
  then show "8 \<le> LIST_NODE_ALIGN sz" using assms(1) by (auto elim!: dvdE)
qed

text \<open>What allocation makes of a free block of \<open>s\<close> bytes: all of it, or two blocks.\<close>

definition carve :: "nat \<Rightarrow> nat \<Rightarrow> block list" where
  "carve al s = (if s - al < 16 then [(s, True)] else [(al, True), (s - al - 8, False)])"

lemma carve_props:
  assumes "al \<le> s" "8 \<le> al" "4 dvd al" "4 dvd s"
  shows "wf_blocks (carve al s)" "end_addr a (carve al s) = a + 8 + s"
    "snd (hd (carve al s))" "coalesced (carve al s)" "carve al s \<noteq> []"
  using assms by (auto simp: carve_def)

lemma coalesced_carve:
  assumes "coalesced (xs @ (s, False) # ys)" "al \<le> s" "8 \<le> al" "4 dvd al" "4 dvd s"
  shows "coalesced (xs @ carve al s @ ys)"
proof -
  from assms(1) have "coalesced xs" "coalesced ys" "ys \<noteq> [] \<longrightarrow> snd (hd ys)"
    by (cases ys; auto simp: coalesced_append)+
  with carve_props [OF assms(2-5)] show ?thesis
    by (auto simp: coalesced_append)
qed


text \<open>The free list and the blocks agree on which regions are free and how large they are.\<close>

lemma free_node_size:
  assumes "headers m a bs" "wf_blocks bs" "end_addr a bs + 8 < 2 ^ 32" "n \<in> free_nodes a bs"
  obtains xs s ys where "bs = xs @ (s, False) # ys" "n = ln_mem_region (end_addr a xs)"
    "sub32 n 8 = end_addr a xs" "m (end_addr a xs + 4) = s"
proof -
  from assms(4) obtain xs s ys where bs: "bs = xs @ (s, False) # ys" and n: "n = end_addr a xs + 8"
    by (auto simp: free_nodes_def ln_mem_region_def dest!: free_addrs_split)
  have "n + 8 \<le> end_addr a bs" using free_nodes_range [OF assms(2,4)] by simp
  then have "sub32 n 8 = end_addr a xs" using n assms(3) by simp
  with that [OF bs] n assms(1) bs show ?thesis by (simp add: ln_mem_region_def)
qed

text \<open>Writing the header of one block over one or more old blocks of the same extent.\<close>

lemma headers_write:
  assumes "headers m a (xs @ mid @ ys)" "mid \<noteq> []" "r = end_addr a xs" "end_addr r mid = r + 8 + fst b"
  shows "headers (m(r + 4 := tag b, r + 8 + fst b := tag b)) a (xs @ b # ys)"
proof -
  have pre: "m r = last_tag 1 xs" using assms(1-3) by (cases mid) auto
  have "headers (m(r + 4 := tag b, r + 8 + fst b := tag b)) a (xs @ [b] @ ys)"
    by (rule headers_replace [OF assms(1)]) (auto simp: pre assms(4) simp flip: assms(3))
  then show ?thesis by simp
qed

lemma headers_split:
  assumes "headers m a (xs @ (s, u) # ys)" "r = end_addr a xs" "q + 8 + fst c = r + 8 + s"
    and "q = r + 8 + fst b"
  shows "headers (m(r + 4 := tag b, q := tag b, q + 4 := tag c, r + 8 + s := tag c)) a (xs @ b # c # ys)"
proof -
  have pre: "m r = last_tag 1 xs" using assms(1,2) by simp
  have "headers (m(r + 4 := tag b, q := tag b, q + 4 := tag c, r + 8 + s := tag c)) a (xs @ [b, c] @ ys)"
    by (rule headers_replace [where mid = "[(s, u)]"])
      (use assms(1,3) in \<open>auto simp: pre assms(4) simp flip: assms(2)\<close>)
  then show ?thesis by simp
qed

text \<open>The state between taking the region at \<open>r\<close> off the list and writing its header.\<close>

lemma malloc_unlink:
  assumes inv: "heap_inv m fl a (xs @ (s, False) # ys) ns" and r: "r = end_addr a xs"
  shows "headers (list_del m (r + 8)) a (xs @ (s, False) # ys)"
    and "dlist (list_del m (r + 8)) fl (remove1 (r + 8) ns)"
    and "set (remove1 (r + 8) ns) = free_nodes a xs \<union> free_nodes (r + 8 + s) ys"
    and "r + 8 + s + 8 < 2 ^ 32"
proof -
  let ?bs = "xs @ (s, False) # ys"
  note inv = heap_invD [OF inv]
  have fn: "free_nodes a ?bs = insert (r + 8) (free_nodes a xs \<union> free_nodes (r + 8 + s) ys)"
    by (auto simp: free_nodes_def ln_mem_region_def r)
  then have nin: "r + 8 \<in> set ns" using inv(8) by simp
  show "headers (list_del m (r + 8)) a ?bs"
    by (rule headers_del [OF inv(1,2,9,7)]) (use inv(8) nin set_remove1_subset [of "r + 8" ns] in auto)
  show "dlist (list_del m (r + 8)) fl (remove1 (r + 8) ns)"
    by (rule lh.rep_remove1 [OF inv(7) nin])
  have "r + 8 \<notin> free_nodes a xs" "r + 8 \<notin> free_nodes (r + 8 + s) ys"
    using free_nodes_range [of xs "r + 8" a] free_nodes_range [of ys "r + 8" "r + 8 + s"] inv(2)
    by (auto simp: r)
  then show "set (remove1 (r + 8) ns) = free_nodes a xs \<union> free_nodes (r + 8 + s) ys"
    using inv(7,8) fn by (auto simp: dlist_def nodes_apart_def)
  show "r + 8 + s + 8 < 2 ^ 32"
    using inv(6) end_addr_ge [of "r + 8 + s" ys] by (simp add: r)
qed

lemma heap_invI_same_extent:
  assumes "heap_inv m fl a bs ns" "end_addr a bs' = end_addr a bs"
    and "headers m' a bs'" "dlist m' fl ns'" "set ns' = free_nodes a bs'" "wf_blocks bs'" "coalesced bs'"
  shows "heap_inv m' fl a bs' ns'"
  using assms by (simp add: heap_inv_def free_nodes_def)

text \<open>The memory that \<^verbatim>\<open>malloc\<close> leaves when it takes \<open>al\<close> of the \<open>s\<close> bytes of the region at \<open>r\<close>.\<close>

definition malloc_take :: "memory \<Rightarrow> nat \<Rightarrow> nat \<Rightarrow> nat \<Rightarrow> nat \<Rightarrow> memory" where
  "malloc_take m1 fl r s al =
     (if s - al < 16 then region_set_size m1 r (s OR 1)
      else list_add_tail (region_set_size (region_set_size m1 r (al OR 1)) (r + 8 + al) (s - al - 8))
             (r + 8 + al + 8) fl)"

lemma malloc_take_whole:
  assumes inv: "heap_inv m fl a (xs @ (s, False) # ys) ns" and r: "r = end_addr a xs"
    and m1: "m1 = list_del m (r + 8)" and al: "s - al < 16"
  shows "malloc_take m1 fl r s al = m1(r + 4 := tag (s, True), r + 8 + s := tag (s, True))"
    and "heap_inv (malloc_take m1 fl r s al) fl a (xs @ (s, True) # ys) (remove1 (r + 8) ns)"
proof -
  note inv' = heap_invD [OF inv] and ul = malloc_unlink [OF inv r, folded m1]
  let ?bs = "xs @ (s, True) # ys" and ?m = "m1(r + 4 := tag (s, True), r + 8 + s := tag (s, True))"
  have s4: "4 dvd s" "8 \<le> s" using inv'(2) by auto
  have wf: "wf_blocks ?bs" "coalesced ?bs"
    using inv'(2,3) by (cases ys; auto simp: coalesced_append)+
  have ns: "set (remove1 (r + 8) ns) = free_nodes a ?bs" by (simp add: ul(3) free_nodes_Cons flip: r)
  have "headers ?m a ?bs"
    using headers_write [of m1 a xs "[(s, False)]" ys r "(s, True)"] ul(1) r by simp
  moreover have "dlist ?m fl (remove1 (r + 8) ns)"
  proof (rule dlist_write [OF ul(2) _ wf(1)])
    show "\<forall>c. c \<notin> tag_cells a (?bs @ [(0, True)]) \<longrightarrow> ?m c = m1 c"
      using tag_cells_next(1) [of a "xs @ [(s, True)]" ys] tag_cells_next(2) [of a xs]
      by (auto simp: fun_upd_apply simp flip: r)
  qed (use inv'(9) ns in auto)
  ultimately have "heap_inv ?m fl a ?bs (remove1 (r + 8) ns)"
    by (intro heap_invI_same_extent [OF inv]) (use ns wf in auto)
  moreover show "malloc_take m1 fl r s al = ?m"
    using region_set_size_eq [of s "s OR 1" r m1] s4 ul(4) al by (simp add: or_one_aligned malloc_take_def)
  ultimately show "heap_inv (malloc_take m1 fl r s al) fl a ?bs (remove1 (r + 8) ns)" by simp
qed

lemma malloc_split_headers:
  assumes inv: "heap_inv m fl a (xs @ (s, False) # ys) ns" and r: "r = end_addr a xs"
    and m1: "m1 = list_del m (r + 8)" and al: "8 \<le> al" "4 dvd al" "al + 16 \<le> s"
    and q: "q = r + 8 + al" and t: "t = s - al - 8"
    and m2: "m2 = m1(r + 4 := tag (al, True), q := tag (al, True), q + 4 := tag (t, False), r + 8 + s := tag (t, False))"
    and bs: "bs = xs @ (al, True) # (t, False) # ys"
  shows "wf_blocks bs" "coalesced bs" "end_addr a bs = end_addr a (xs @ (s, False) # ys)"
    "free_nodes a bs = insert (q + 8) (set (remove1 (r + 8) ns))"
    "headers m2 a bs" "dlist m2 fl (remove1 (r + 8) ns)"
proof -
  note inv' = heap_invD [OF inv] and ul = malloc_unlink [OF inv r, folded m1]
  let ?ns = "remove1 (r + 8) ns"
  have t': "4 dvd t" "8 \<le> t" "q + 8 + t = r + 8 + s" using inv'(2) al q t by auto
  show wf: "wf_blocks bs" "coalesced bs"
    unfolding bs using inv'(2,3) al t' by (cases ys; auto simp: coalesced_append)+
  show fn: "free_nodes a bs = insert (q + 8) (set ?ns)"
    using t'(3) by (auto simp: bs ul(3) free_nodes_Cons q ac_simps simp flip: r)
  show ext: "end_addr a bs = end_addr a (xs @ (s, False) # ys)" 
    using t'(3) q by (auto intro!: arg_cong [where f = "\<lambda>e. end_addr e ys"] simp: bs simp flip: r)
  show "headers m2 a bs"
    using headers_split [OF ul(1) r, of q "(t, False)" "(al, True)"] t'(3) q by (simp add: m2 bs)
  show "dlist m2 fl ?ns"
  proof (rule dlist_write [OF ul(2) _ wf(1)])
    show "\<forall>c. c \<notin> tag_cells a (bs @ [(0, True)]) \<longrightarrow> m2 c = m1 c"
      using tag_cells_next(1) [of a "xs @ [(al, True), (t, False)]" ys] tag_cells_next(2) [of a xs]
        tag_cells_next(1) [of a "xs @ [(al, True)]" "(t, False) # ys"]
        tag_cells_next(2) [of a "xs @ [(al, True)]"] t'(3) q
      by (auto simp: bs m2 fun_upd_apply ac_simps simp flip: r)
    show "outside fl a bs" using inv'(9) ext by simp
  qed (use fn in auto)
qed

lemma malloc_take_split:
  assumes inv: "heap_inv m fl a (xs @ (s, False) # ys) ns" and r: "r = end_addr a xs"
    and m1: "m1 = list_del m (r + 8)" and al: "8 \<le> al" "4 dvd al" "al + 16 \<le> s"
    and q: "q = r + 8 + al" and t: "t = s - al - 8"
    and m2: "m2 = m1(r + 4 := tag (al, True), q := tag (al, True), q + 4 := tag (t, False), r + 8 + s := tag (t, False))"
  shows "malloc_take m1 fl r s al = list_add_tail m2 (q + 8) fl"
    and "heap_inv (malloc_take m1 fl r s al) fl a (xs @ (al, True) # (t, False) # ys)
           (remove1 (r + 8) ns @ [q + 8])"
proof -
  note inv' = heap_invD [OF inv] and ul = malloc_unlink [OF inv r, folded m1]
    and sp = malloc_split_headers [OF inv r m1 al q t m2 refl]
  let ?bs = "xs @ (al, True) # (t, False) # ys" and ?ns = "remove1 (r + 8) ns"
  have t': "4 dvd t" "8 \<le> t" "q + 8 + t = r + 8 + s" using inv'(2) al q t by auto
  have out: "outside fl a ?bs" using inv'(9) sp(3) by simp
  have "q + 8 \<notin> set ?ns"
    unfolding ul(3)
    using free_nodes_range [of xs "q + 8" a] free_nodes_range [of ys "q + 8" "r + 8 + s"] inv'(2) al
    by (auto simp: r q)
  then have hi: "heap_inv (list_add_tail m2 (q + 8) fl) fl a ?bs (?ns @ [q + 8])"
    using headers_add [OF sp(5,1) out sp(6), of "q + 8"] dlist_add_free [OF sp(6,1) out, of "q + 8"]
    by (intro heap_invI_same_extent [OF inv sp(3)]) (use sp(1,2,4) in auto)
  have "region_set_size m' q t = m'(q + 4 := t, r + 8 + s := t)" for m'
    using region_set_size_eq [of t t q m'] ul(4) t' by simp
  moreover have "region_set_size m1 r (al OR 1) = m1(r + 4 := al + 1, q := al + 1)"
    using region_set_size_eq [of al "al OR 1" r m1] ul(4) al q by (simp add: or_one_aligned)
  ultimately show eq: "malloc_take m1 fl r s al = list_add_tail m2 (q + 8) fl"
    using al(3) by (auto simp: malloc_take_def m2 simp flip: q t [simplified])
  show "heap_inv (malloc_take m1 fl r s al) fl a ?bs (?ns @ [q + 8])" unfolding eq by (rule hi)
qed

text \<open>No cell of a used block is written.\<close>

lemma malloc_take_frame:
  assumes inv: "heap_inv m fl a (xs @ (s, False) # ys) ns" and r: "r = end_addr a xs"
    and m1: "m1 = list_del m (r + 8)" and al: "8 \<le> al" "4 dvd al" "al \<le> s"
    and c: "c \<in> payload a (xs @ (s, False) # ys)"
  shows "malloc_take m1 fl r s al c = m c"
proof -
  note inv' = heap_invD [OF inv]
  have cr: "c \<in> payload a xs \<union> payload (r + 8 + s) ys" using c by (auto simp: payload_Cons r)
  note around = payload_around [OF cr r]
  have "r + 8 \<in> set ns" using inv'(8) by (simp add: free_nodes_Cons r)
  then have m1c: "m1 c = m c"
    unfolding m1 by (rule remove_frame_payload [OF inv'(7) _ _ inv'(2,9) c]) (simp add: inv'(8))
  show ?thesis
  proof (cases "s - al < 16")
    case True
    then show ?thesis using malloc_take_whole(1) [OF inv r m1] around(2) m1c by auto
  next
    case False
    then have al': "al + 16 \<le> s" by simp
    define bs q m2 where "bs = xs @ (al, True) # (s - al - 8, False) # ys" and "q = r + 8 + al"
      and "m2 = m1(r + 4 := tag (al, True), q := tag (al, True), q + 4 := tag (s - al - 8, False),
                 r + 8 + s := tag (s - al - 8, False))"
    note sp = malloc_split_headers [OF inv r m1 al(1,2) al' q_def refl m2_def bs_def]
    have out: "outside fl a bs" using inv'(9) sp(3) by simp
    have "set (remove1 (r + 8) ns) \<subseteq> free_nodes a bs" unfolding sp(4) by blast
    moreover have "c \<notin> node_cells (q + 8)" using around(2) al' by (auto simp: node_cells_def q_def)
    moreover have "c \<in> payload a bs"
      using cr al' by (auto simp: bs_def payload_Cons r ac_simps)
    ultimately have "malloc_take m1 fl r s al c = m2 c"
      unfolding malloc_take_split(1) [OF inv r m1 al(1,2) al' q_def refl m2_def]
      by (intro insert_frame_payload [OF sp(6) _ sp(1) out])
    then show ?thesis using m1c around(2) al' by (auto simp: m2_def q_def)
  qed
qed

lemma malloc_none:
  assumes "list_for_each m fl (\<lambda>iter. LIST_NODE_ALIGN sz \<le> curr_size m (sub32 iter 8)) (list_next m fl)
             = Some None"
  shows "malloc m fl sz = Some (m, NULL)"
  unfolding malloc_def Let_def assms by simp

lemma malloc_found:
  assumes walk: "list_for_each m fl (\<lambda>iter. LIST_NODE_ALIGN sz \<le> curr_size m (sub32 iter 8)) (list_next m fl)
             = Some (Some (r + 8))"
    and m1: "m1 = list_del m (r + 8)" "m1 (r + 4) = s" and al: "al = LIST_NODE_ALIGN sz" "al \<le> s" "4 dvd al"
    and lim: "r + 8 + s + 8 < 2 ^ 32"
  shows "malloc m fl sz = Some (malloc_take m1 fl r s al, ln_mem_region r)"
proof -
  have "sub32 (r + 8) 8 = r" "sub32 s al = s - al" using lim al(2) by simp_all
  moreover have "get_successor (region_set_size m1 r (al OR 1)) r = r + 8 + al"
    using get_successor_eq [of _ r al True] region_set_size_eq [of al "al OR 1" r m1] al lim
    by (simp add: or_one_aligned)
  moreover have "sub32 (s - al) DWORD_SIZE = s - al - 8" if "\<not> s - al < 16"
    using that lim by (simp add: DWORD_SIZE_def)
  ultimately show ?thesis
    unfolding malloc_def Let_def walk
    by (simp add: malloc_take_def curr_size_def m1(2) sizeof_mem_region_def ln_mem_region_def flip: m1(1) al(1))
qed

text \<open>
  \<^verbatim>\<open>malloc\<close> on a well-formed heap: it always returns; it returns \<^verbatim>\<open>NULL\<close>, with memory unchanged,
  exactly when no free block is large enough, and otherwise the payload of a free block that it
  marks used, whole or split; no cell of a used block changes.
\<close>

definition malloc_post :: "memory \<Rightarrow> nat \<Rightarrow> nat \<Rightarrow> block list \<Rightarrow> nat \<Rightarrow> (memory \<times> nat) option \<Rightarrow> bool" where
  "malloc_post m fl a bs sz res \<longleftrightarrow>
     (res = Some (m, NULL) \<and> (\<forall>b\<in>set bs. \<not> snd b \<longrightarrow> fst b < LIST_NODE_ALIGN sz))
     \<or> (\<exists>xs s ys m' ns'. bs = xs @ (s, False) # ys \<and> LIST_NODE_ALIGN sz \<le> s
           \<and> res = Some (m', ln_mem_region (end_addr a xs))
           \<and> heap_inv m' fl a (xs @ carve (LIST_NODE_ALIGN sz) s @ ys) ns'
           \<and> (\<forall>c\<in>payload a bs. m' c = m c))"

lemma malloc_full:
  assumes inv: "heap_inv m fl a bs ns" and b: "b \<in> set bs" "\<not> snd b"
    and none: "find (\<lambda>iter. al \<le> curr_size m (sub32 iter 8)) ns = None"
  shows "fst b < al"
proof -
  note inv' = heap_invD [OF inv]
  obtain xs ys where bs: "bs = xs @ b # ys" using b(1) by (blast dest: split_list)
  then have "end_addr a xs + 8 \<in> set ns" using b(2) inv'(8) by (simp add: free_nodes_Cons)
  then have "\<not> al \<le> curr_size m (sub32 (end_addr a xs + 8) 8)" using none by (auto simp: find_None_iff)
  with inv'(1,6) bs b(2) end_addr_ge [of "end_addr a xs + 8 + fst b" ys]
  show ?thesis by (cases b) (auto simp: curr_size_def)
qed

lemma malloc_correct:
  assumes inv: "heap_inv m fl a bs ns" and sz: "0 < sz" "sz \<le> 2 ^ 32 - 8"
  shows "malloc_post m fl a bs sz (malloc m fl sz)"
proof -
  let ?al = "LIST_NODE_ALIGN sz" and ?P = "\<lambda>iter. LIST_NODE_ALIGN sz \<le> curr_size m (sub32 iter 8)"
  note inv' = heap_invD [OF inv] and al = LIST_NODE_ALIGN_props [OF sz]
  have walk: "list_for_each m fl ?P (list_next m fl) = Some (find ?P ns)"
    by (rule lh.search_eq [OF inv'(7)])
  show ?thesis
  proof (cases "find ?P ns")
    case None
    then show ?thesis using malloc_none walk malloc_full [OF inv _ _ None] by (simp add: malloc_post_def)
  next
    case (Some n)
    then have n: "n \<in> free_nodes a bs" "?P n" using inv'(8) by (auto simp: find_Some_iff)
    from free_node_size [OF inv'(1,2,6) n(1)] obtain xs s ys where
      bs: "bs = xs @ (s, False) # ys" and nx: "n = end_addr a xs + 8" and rx: "sub32 n 8 = end_addr a xs"
      and ms: "m (end_addr a xs + 4) = s" by (auto simp: ln_mem_region_def)
    define r m1 where "r = end_addr a xs" and "m1 = list_del m (r + 8)"
    have als: "?al \<le> s" and al4: "4 dvd ?al"
      using n(2) ms al(3) by (auto simp: curr_size_def rx intro: dvd_trans)
    note inv_bs = inv [unfolded bs]
    note ul = malloc_unlink [OF inv_bs r_def, folded m1_def]
    have res: "malloc m fl sz = Some (malloc_take m1 fl r s ?al, ln_mem_region r)"
      by (rule malloc_found) (use walk Some nx r_def m1_def ul(1,4) als al4 in auto)
    have "?al + 16 \<le> s" if "\<not> s - ?al < 16" using that by linarith
    then have "\<exists>ns'. heap_inv (malloc_take m1 fl r s ?al) fl a (xs @ carve ?al s @ ys) ns'"
      using malloc_take_whole(2) [OF inv_bs r_def m1_def, of ?al]
        malloc_take_split(2) [OF inv_bs r_def m1_def al(2) al4 _ refl refl refl]
      by (cases "s - ?al < 16") (auto simp: carve_def)
    moreover have "\<forall>c\<in>payload a bs. malloc_take m1 fl r s ?al c = m c"
      using malloc_take_frame [OF inv_bs r_def m1_def al(2) al4 als] bs by blast
    ultimately show ?thesis unfolding malloc_post_def res r_def [symmetric] using bs als r_def by blast
  qed
qed

section \<open>Release\<close>

text \<open>
  What \<^verbatim>\<open>free\<close> makes of the blocks: the released block is merged with a free successor, then with
  a free predecessor.
\<close>

fun merge_right :: "nat \<Rightarrow> block list \<Rightarrow> nat \<times> block list" where
  "merge_right s ((s2, False) # ys) = (s + s2 + 8, ys)"
| "merge_right s ys = (s, ys)"

definition merge_left :: "block list \<Rightarrow> nat \<Rightarrow> block list \<times> nat" where
  "merge_left xs s =
     (if xs \<noteq> [] \<and> \<not> snd (last xs) then (butlast xs, fst (last xs) + s + 8) else (xs, s))"

definition free_blocks :: "block list \<Rightarrow> nat \<Rightarrow> block list \<Rightarrow> block list" where
  "free_blocks xs s ys =
     (let (s1, ys1) = merge_right s ys; (xs1, s2) = merge_left xs s1 in xs1 @ (s2, False) # ys1)"

lemma IS_FREE_mod: "4 dvd s \<Longrightarrow> IS_FREE s" "4 dvd s \<Longrightarrow> \<not> IS_FREE (Suc s)" "\<not> IS_FREE 1"
  by (auto simp: IS_FREE_def elim!: dvdE)

text \<open>
  After the first half of \<^verbatim>\<open>free\<close>, begun in memory \<open>m0\<close>: the block at the end of \<open>xs\<close> is free but
  not on the list, and the used blocks are as they were.
\<close>

definition freed_right :: "memory \<Rightarrow> memory \<Rightarrow> nat \<Rightarrow> nat \<Rightarrow> block list \<Rightarrow> nat \<Rightarrow> block list \<Rightarrow> bool" where
  "freed_right m0 m fl a xs s ys \<longleftrightarrow>
     headers m a (xs @ (s, False) # ys) \<and> wf_blocks ((s, False) # ys) \<and> coalesced ((s, False) # ys)
     \<and> (\<exists>ns. dlist m fl ns \<and> set ns = free_nodes a xs \<union> free_nodes (end_addr a xs + 8 + s) ys)
     \<and> (\<forall>c\<in>payload a xs \<union> payload (end_addr a xs + 8 + s) ys. m c = m0 c)"

definition free_step1 :: "memory \<Rightarrow> nat \<Rightarrow> memory" where
  "free_step1 m r =
     (if IS_FREE (curr_size m (get_successor m r))
      then list_del
             (region_set_size m r
                (add32 (add32 (GET_SIZE m r) (curr_size m (get_successor m r))) DWORD_SIZE))
             (ln_mem_region (get_successor m r))
      else region_set_size m r (GET_SIZE m r))"

lemma free_curr:
  assumes inv: "heap_inv m fl a (xs @ (s, True) # ys) ns" and r: "r = end_addr a xs"
  shows "4 dvd s" "8 \<le> s" "r + 8 + s + 8 < 2 ^ 32" "get_successor m r = r + 8 + s" "GET_SIZE m r = s"
    "set ns = free_nodes a xs \<union> free_nodes (r + 8 + s) ys"
proof -
  note inv' = heap_invD [OF inv]
  show s4: "4 dvd s" "8 \<le> s" using inv'(2) by auto
  show lim: "r + 8 + s + 8 < 2 ^ 32"
    using inv'(6) end_addr_ge [of "r + 8 + s" ys] by (simp add: r)
  have mr4: "m (r + 4) = s + 1" using inv'(1) by (simp add: r)
  show "get_successor m r = r + 8 + s"
    using get_successor_eq [of m r s True] mr4 s4 lim by simp
  show "GET_SIZE m r = s" using mr4 s4 by (simp add: GET_SIZE_def curr_size_def)
  show "set ns = free_nodes a xs \<union> free_nodes (r + 8 + s) ys"
    using inv'(8) by (simp add: free_nodes_Cons flip: r)
qed

lemma free_step1_used:
  assumes inv: "heap_inv m fl a (xs @ (s, True) # ys) ns" and r: "r = end_addr a xs"
    and used: "ys \<noteq> [] \<longrightarrow> snd (hd ys)"
  shows "freed_right m (free_step1 m r) fl a xs s ys"
proof -
  note inv' = heap_invD [OF inv] and fc = free_curr [OF inv r]
  obtain b zs where b: "ys @ [(0, True)] = b # zs" by (cases ys) auto
  have "bseg m (r + 8 + s) (s + 1) (ys @ [(0, True)])" using inv'(1) by (simp add: r)
  then have "curr_size m (r + 8 + s) = tag b" by (simp add: b curr_size_def)
  moreover have "snd b" "4 dvd fst b" using used b inv'(2) by (cases ys; auto)+
  ultimately have m1: "free_step1 m r = m(r + 4 := s, r + 8 + s := s)"
    using region_set_size_eq [of s s r m] fc by (simp add: free_step1_def IS_FREE_tag)
  have "headers (free_step1 m r) a (xs @ (s, False) # ys)"
    unfolding m1 using headers_write [of m a xs "[(s, True)]" ys r "(s, False)"] inv'(1) r by simp
  moreover have "dlist (free_step1 m r) fl ns"
  proof (rule dlist_write [OF inv'(7) _ inv'(2,9)])
    show "\<forall>c. c \<notin> tag_cells a ((xs @ (s, True) # ys) @ [(0, True)]) \<longrightarrow> free_step1 m r c = m c"
      using tag_cells_next(1) [of a "xs @ [(s, True)]" ys] tag_cells_next(2) [of a xs]
      by (auto simp: m1 simp flip: r)
  qed (use inv'(8) in simp)
  moreover have "free_step1 m r c = m c" if "c \<in> payload a xs \<union> payload (r + 8 + s) ys" for c
    using payload_around(2) [OF that r] by (auto simp: m1)
  ultimately show ?thesis
    using fc inv'(2,3) used by (cases ys) (auto simp: freed_right_def coalesced_append simp flip: r)
qed

lemma free_merge_nodes:
  assumes inv: "heap_inv m fl a (xs @ (s, True) # (s2, False) # ys) ns" and r: "r = end_addr a xs"
  shows "set (remove1 (r + 8 + s + 8) ns) = free_nodes a xs \<union> free_nodes (r + 8 + (s + s2 + 8)) ys"
    (is "set (remove1 ?n ns) = _ \<union> free_nodes ?a ys")
proof -
  note inv' = heap_invD [OF inv] and fc = free_curr [OF inv r]
  have "?n \<notin> free_nodes a xs" "?n \<notin> free_nodes ?a ys"
    using free_nodes_range [of xs ?n a] free_nodes_range [of ys ?n ?a] inv'(2) by (auto simp: r)
  moreover have "free_nodes (r + 8 + s) ((s2, False) # ys) = insert ?n (free_nodes ?a ys)"
    by (simp add: free_nodes_Cons ac_simps)
  ultimately show ?thesis using fc(6) inv'(7) by (auto simp: dlist_def nodes_apart_def)
qed

lemma free_step1_merge:
  assumes inv: "heap_inv m fl a (xs @ (s, True) # (s2, False) # ys) ns" and r: "r = end_addr a xs"
  shows "freed_right m (free_step1 m r) fl a xs (s + s2 + 8) ys"
proof -
  let ?v = "s + s2 + 8" and ?n = "r + 8 + s + 8"
  note inv' = heap_invD [OF inv] and fc = free_curr [OF inv r]
  have s24: "4 dvd s2" "8 \<le> s2" using inv'(2) by auto
  have lim2: "r + 8 + ?v + 8 < 2 ^ 32"
    using inv'(6) end_addr_ge [of "r + 8 + s + 8 + s2" ys] by (simp add: r)
  have c2: "m (r + 8 + s + 4) = s2" using inv'(1) by (simp add: r)
  define m0 where "m0 = m(r + 4 := ?v, r + 8 + ?v := ?v)"
  have v4: "4 dvd ?v" using fc(1) s24 by simp
  have m1: "free_step1 m r = list_del m0 ?n"
    using region_set_size_eq [OF v4, of ?v r m] fc s24 lim2 c2
    by (simp add: free_step1_def m0_def IS_FREE_mod curr_size_def DWORD_SIZE_def ln_mem_region_def)
  have h0: "headers m0 a (xs @ (?v, False) # ys)"
    using headers_write [of m a xs "[(s, True), (s2, False)]" ys r "(?v, False)"] inv'(1) r
    by (simp add: m0_def)
  have d0: "dlist m0 fl ns"
  proof (rule dlist_write [OF inv'(7) _ inv'(2,9)])
    have "r + 8 + ?v \<in> tag_cells a (xs @ (s, True) # (s2, False) # ys @ [(0, True)])"
      using tag_cells_next(1) [of a "xs @ [(s, True), (s2, False)]" ys] by (simp add: ac_simps flip: r)
    then show "\<forall>c. c \<notin> tag_cells a ((xs @ (s, True) # (s2, False) # ys) @ [(0, True)]) \<longrightarrow> m0 c = m c"
      using tag_cells_next(2) [of a xs] by (auto simp: m0_def simp flip: r)
  qed (use inv'(8) in simp)
  have nin: "?n \<in> set ns" by (simp add: fc(6) free_nodes_Cons)
  note nodes = free_merge_nodes [OF inv r]
  have wf1: "wf_blocks (xs @ (?v, False) # ys)" using inv'(2) v4 by auto
  have out1: "outside fl a (xs @ (?v, False) # ys)" using inv'(9) by (simp add: ac_simps flip: r)
  have "headers (free_step1 m r) a (xs @ (?v, False) # ys)"
    unfolding m1 by (rule headers_del [OF h0 wf1 out1 d0 _ nin], unfold nodes)
      (auto simp: free_nodes_Cons simp flip: r)
  moreover have "dlist (free_step1 m r) fl (remove1 ?n ns)"
    unfolding m1 by (rule lh.rep_remove1 [OF d0 nin])
  moreover have "coalesced ((?v, False) # ys)"
    using inv'(3) by (cases ys) (auto simp: coalesced_append)
  moreover have "free_step1 m r c = m c" if c: "c \<in> payload a xs \<union> payload (r + 8 + ?v) ys" for c
  proof -
    have "c \<in> payload a (xs @ (s, True) # (s2, False) # ys)" using c by (auto simp: payload_Cons r ac_simps)
    from remove_frame_payload [OF d0 nin _ inv'(2,9) this] have "free_step1 m r c = m0 c"
      by (simp add: m1 inv'(8))
    then show ?thesis using payload_around(2) [OF c r] by (auto simp: m0_def)
  qed
  ultimately show ?thesis
    using nodes wf1 by (auto simp: freed_right_def simp flip: r)
qed

lemma free_step1_correct:
  assumes inv: "heap_inv m fl a (xs @ (s, True) # ys) ns" and r: "r = end_addr a xs"
    and mr: "merge_right s ys = (s1, ys1)"
  shows "freed_right m (free_step1 m r) fl a xs s1 ys1" "end_addr (r + 8 + s1) ys1 = end_addr (r + 8 + s) ys"
proof -
  consider (merge) s2 zs where "ys = (s2, False) # zs" | (used) "ys \<noteq> [] \<longrightarrow> snd (hd ys)"
    by (cases "ys \<noteq> [] \<longrightarrow> snd (hd ys)"; cases ys) auto
  then have "freed_right m (free_step1 m r) fl a xs s1 ys1 \<and> end_addr (r + 8 + s1) ys1 = end_addr (r + 8 + s) ys"
  proof cases
    case merge
    then show ?thesis using free_step1_merge [OF inv [unfolded merge] r] mr by (auto simp: ac_simps)
  next
    case used
    then have "s1 = s" "ys1 = ys" using mr by (cases ys; auto)+
    then show ?thesis using free_step1_used [OF inv r used] by simp
  qed
  then show "freed_right m (free_step1 m r) fl a xs s1 ys1" "end_addr (r + 8 + s1) ys1 = end_addr (r + 8 + s) ys"
    by blast+
qed

text \<open>The second half of \<^verbatim>\<open>free\<close>.\<close>

definition free_step2 :: "memory \<Rightarrow> nat \<Rightarrow> nat \<Rightarrow> memory" where
  "free_step2 m fl r =
     (if IS_FREE (pre_size m r)
      then region_set_size m (get_predeccessor m r)
             (add32 (add32 (curr_size m (get_predeccessor m r)) (curr_size m r)) DWORD_SIZE)
      else list_add_tail m (ln_mem_region r) fl)"

lemma free_steps: "sub32 p 8 = r \<Longrightarrow> free m fl p = free_step2 (free_step1 m r) fl r"
  by (simp add: free_def free_step1_def free_step2_def Let_def DWORD_SIZE_def)

lemma free_step2_insert:
  assumes fr: "freed_right m0 m fl a xs s ys" and r: "r = end_addr a xs" and wf: "wf_blocks xs"
    and out: "outside fl a (xs @ (s, False) # ys)" and used: "xs \<noteq> [] \<longrightarrow> snd (last xs)"
  obtains ns where "headers (free_step2 m fl r) a (xs @ (s, False) # ys)" "dlist (free_step2 m fl r) fl ns"
    "set ns = free_nodes a (xs @ (s, False) # ys)"
    "\<forall>c\<in>payload a xs \<union> payload (r + 8 + s) ys. free_step2 m fl r c = m0 c"
proof -
  from fr obtain ns where hd: "headers m a (xs @ (s, False) # ys)" and wf2: "wf_blocks ((s, False) # ys)"
    and dl: "dlist m fl ns" and ns: "set ns = free_nodes a xs \<union> free_nodes (r + 8 + s) ys"
    and m0: "\<forall>c\<in>payload a xs \<union> payload (r + 8 + s) ys. m c = m0 c"
    by (auto simp: freed_right_def r)
  have "\<not> IS_FREE (last_tag 1 xs)"
    using used wf by (cases xs rule: rev_cases) (auto simp: IS_FREE_mod IS_FREE_tag)
  moreover have "m r = last_tag 1 xs" using hd by (simp add: r)
  ultimately have m': "free_step2 m fl r = list_add_tail m (r + 8) fl"
    by (simp add: free_step2_def pre_size_def ln_mem_region_def)
  have fn: "free_nodes a (xs @ (s, False) # ys) = insert (r + 8) (set ns)"
    by (simp add: ns free_nodes_Cons flip: r)
  have "r + 8 \<notin> set ns"
    unfolding ns using free_nodes_range [of xs "r + 8" a] free_nodes_range [of ys "r + 8" "r + 8 + s"] wf wf2
    by (auto simp: r)
  moreover have wf': "wf_blocks (xs @ (s, False) # ys)" using wf wf2 by simp
  moreover have "free_step2 m fl r c = m0 c" if c: "c \<in> payload a xs \<union> payload (r + 8 + s) ys" for c
  proof -
    have "c \<notin> node_cells (r + 8)" using payload_around(2) [OF c r] wf2 by (auto simp: node_cells_def)
    then show ?thesis
      unfolding m' using insert_frame_payload [OF dl _ wf' out payload_around(1) [OF c r]] fn m0 c by auto
  qed
  ultimately show ?thesis
    using headers_add [OF hd _ out dl, of "r + 8"] dlist_add_free [OF dl _ out, of "r + 8"]
    by (intro that [of "ns @ [r + 8]"] ballI) (simp_all only: m' fn set_append list.set subset_refl
        Un_insert_right Un_empty_right simp_thms)
qed

lemma free_step2_merge:
  assumes fr: "freed_right m0 m fl a (zs @ [(p, False)]) s ys" and r: "r = end_addr a (zs @ [(p, False)])"
    and wf: "wf_blocks (zs @ [(p, False)])" and out: "outside fl a (zs @ (p, False) # (s, False) # ys)"
    and lim: "r + 8 + s < 2 ^ 32"
  obtains ns where "headers (free_step2 m fl r) a (zs @ (p + s + 8, False) # ys)"
    "dlist (free_step2 m fl r) fl ns" "set ns = free_nodes a (zs @ (p + s + 8, False) # ys)"
    "\<forall>c\<in>payload a (zs @ [(p, False)]) \<union> payload (r + 8 + s) ys. free_step2 m fl r c = m0 c"
proof -
  let ?old = "zs @ (p, False) # (s, False) # ys"
  define q where "q = end_addr a zs"
  have rq: "r = q + 8 + p" by (simp add: r q_def)
  from fr obtain ns where hd: "headers m a ?old" and wf2: "wf_blocks ((s, False) # ys)"
    and dl: "dlist m fl ns" and ns: "set ns = free_nodes a (zs @ [(p, False)]) \<union> free_nodes (r + 8 + s) ys"
    and m0: "\<forall>c\<in>payload a (zs @ [(p, False)]) \<union> payload (r + 8 + s) ys. m c = m0 c"
    by (auto simp: freed_right_def r)
  have p4: "4 dvd p" and s4: "4 dvd s" and v4: "4 dvd p + s + 8" using wf wf2 by auto
  have mr: "m r = p" "m (r + 4) = s" "m (q + 4) = p" using hd by (auto simp: rq simp flip: q_def)
  have "get_predeccessor m r = q"
    using mr p4 lim by (simp add: get_predeccessor_def pre_size_def DWORD_SIZE_def rq)
  then have m': "free_step2 m fl r = m(q + 4 := p + s + 8, q + 8 + (p + s + 8) := p + s + 8)"
    using region_set_size_eq [OF v4, of "p + s + 8" q m] mr p4 lim
    by (simp add: free_step2_def IS_FREE_mod pre_size_def curr_size_def DWORD_SIZE_def rq)
  have "headers (free_step2 m fl r) a (zs @ (p + s + 8, False) # ys)"
    unfolding m' using headers_write [of m a zs "[(p, False), (s, False)]" ys q "(p + s + 8, False)"] hd q_def
    by simp
  moreover have "dlist (free_step2 m fl r) fl ns"
  proof (rule dlist_write [OF dl _ _ out])
    have "q + 8 + (p + s + 8) \<in> tag_cells a (?old @ [(0, True)])"
      using tag_cells_next(1) [of a "zs @ [(p, False), (s, False)]" ys] by (simp add: ac_simps flip: q_def)
    then show "\<forall>c. c \<notin> tag_cells a (?old @ [(0, True)]) \<longrightarrow> free_step2 m fl r c = m c"
      using tag_cells_next(2) [of a zs] by (auto simp: m' simp flip: q_def)
    show "set ns \<subseteq> free_nodes a ?old" unfolding ns by (auto simp: free_nodes_Cons free_nodes_def r)
  qed (use wf wf2 in auto)
  moreover have "set ns = free_nodes a (zs @ (p + s + 8, False) # ys)"
    unfolding ns by (auto simp: free_nodes_Cons free_nodes_def rq ac_simps simp flip: q_def)
  moreover have "free_step2 m fl r c = m0 c"
    if c: "c \<in> payload a (zs @ [(p, False)]) \<union> payload (r + 8 + s) ys" for c
  proof -
    have "c < q \<or> q + 8 + (p + s + 8) + 8 \<le> c"
      using c by (auto simp: payload_Cons rq q_def dest!: payload_range)
    then show ?thesis using m0 c by (auto simp: m')
  qed
  ultimately show ?thesis by (intro that ballI)
qed

lemma free_correct:
  assumes inv: "heap_inv m fl a (xs @ (s, True) # ys) ns" and m': "m' = free m fl (ln_mem_region (end_addr a xs))"
  shows "\<exists>ns'. heap_inv m' fl a (free_blocks xs s ys) ns'"
    and "\<forall>c\<in>payload a xs \<union> payload (end_addr a xs + 8 + s) ys. m' c = m c"
proof -
  define r where "r = end_addr a xs"
  obtain s1 ys1 where mr: "merge_right s ys = (s1, ys1)" by fastforce
  note inv' = heap_invD [OF inv] and fc = free_curr [OF inv r_def]
    and st = free_step1_correct [OF inv r_def mr]
  let ?m = "free_step1 m r" and ?P = "payload a xs \<union> payload (r + 8 + s) ys"
  have eq: "m' = free_step2 ?m fl r"
    unfolding m' by (rule free_steps) (use fc(3) in \<open>simp add: ln_mem_region_def r_def\<close>)
  have pl: "payload (r + 8 + s1) ys1 = payload (r + 8 + s) ys"
    using mr by (cases "(s, ys)" rule: merge_right.cases) (auto simp: payload_Cons ac_simps)
  have wf: "wf_blocks xs" "wf_blocks ((s1, False) # ys1)" "coalesced ((s1, False) # ys1)" "coalesced xs"
    using inv'(2,3) st(1) by (auto simp: freed_right_def coalesced_append)
  have ext: "end_addr a (xs @ (s1, False) # ys1) = end_addr a (xs @ (s, True) # ys)"
    using st(2) by (simp flip: r_def)
  have out: "outside fl a (xs @ (s1, False) # ys1)" unfolding ext by (rule inv'(9))
  consider (merge) zs p where "xs = zs @ [(p, False)]" | (ins) "xs \<noteq> [] \<longrightarrow> snd (last xs)"
    by (cases "xs \<noteq> [] \<longrightarrow> snd (last xs)"; cases xs rule: rev_cases) auto
  then have "(\<exists>ns'. heap_inv m' fl a (free_blocks xs s ys) ns') \<and> (\<forall>c\<in>?P. m' c = m c)"
  proof cases
    case ins
    obtain ns' where h: "headers m' a (xs @ (s1, False) # ys1)" "dlist m' fl ns'"
      "set ns' = free_nodes a (xs @ (s1, False) # ys1)" and fr: "\<forall>c\<in>?P. m' c = m c"
      unfolding eq by (rule free_step2_insert [OF st(1) r_def wf(1) out ins, unfolded pl])
    from heap_invI_same_extent [OF inv ext h] have "heap_inv m' fl a (xs @ (s1, False) # ys1) ns'"
      using wf ins by (auto simp: coalesced_append)
    moreover have "free_blocks xs s ys = xs @ (s1, False) # ys1"
      using ins by (auto simp: free_blocks_def mr merge_left_def)
    ultimately show ?thesis using fr by auto
  next
    case merge
    have lim: "r + 8 + s1 < 2 ^ 32" using inv'(6) ext end_addr_ge [of "r + 8 + s1" ys1] by (simp flip: r_def)
    obtain ns' where h: "headers m' a (zs @ (p + s1 + 8, False) # ys1)" "dlist m' fl ns'"
      "set ns' = free_nodes a (zs @ (p + s1 + 8, False) # ys1)" and fr: "\<forall>c\<in>?P. m' c = m c"
      unfolding eq using free_step2_merge [of m ?m fl a zs p s1 ys1 r] st(1) r_def wf(1) out lim merge pl
      by auto
    have "end_addr a (zs @ (p + s1 + 8, False) # ys1) = end_addr a (xs @ (s, True) # ys)"
      using ext merge by (simp add: ac_simps)
    from heap_invI_same_extent [OF inv this h] have "heap_inv m' fl a (zs @ (p + s1 + 8, False) # ys1) ns'"
      using wf merge by (cases ys1) (auto simp: coalesced_append)
    moreover have "free_blocks xs s ys = zs @ (p + s1 + 8, False) # ys1"
      using merge by (simp add: free_blocks_def mr merge_left_def)
    ultimately show ?thesis using fr by auto
  qed
  then show "\<exists>ns'. heap_inv m' fl a (free_blocks xs s ys) ns'"
    "\<forall>c\<in>payload a xs \<union> payload (end_addr a xs + 8 + s) ys. m' c = m c"
    unfolding r_def by blast+
qed

section \<open>The contract of an allocator\<close>

text \<open>
  A client of an allocator: memory, the allocations it holds with the sizes it asked for, and
  the values it has written into them. It allocates, frees what it holds, and writes where it
  may.
\<close>

type_synonym client = "memory \<times> (nat \<rightharpoonup> nat) \<times> (nat \<rightharpoonup> nat)"

inductive client_step ::
  "(memory \<Rightarrow> nat \<Rightarrow> (memory \<times> nat) option) \<Rightarrow> (memory \<Rightarrow> nat \<Rightarrow> memory) \<Rightarrow> nat \<Rightarrow> client \<Rightarrow> client \<Rightarrow> bool"
  for alloc release max_request where
  client_alloc: "0 < n \<Longrightarrow> n \<le> max_request \<Longrightarrow> alloc m n = Some (m', p) \<Longrightarrow> p \<noteq> NULL \<Longrightarrow>
    client_step alloc release max_request (m, L, V) (m', L(p \<mapsto> n), V)"
| client_fail: "0 < n \<Longrightarrow> n \<le> max_request \<Longrightarrow> alloc m n = Some (m', NULL) \<Longrightarrow>
    client_step alloc release max_request (m, L, V) (m', L, V)"
| client_free: "L p = Some n \<Longrightarrow>
    client_step alloc release max_request (m, L, V) (release m p, L(p := None), V |` (- {p..<p + n}))"
| client_write: "L p = Some n \<Longrightarrow> p \<le> c \<Longrightarrow> c < p + n \<Longrightarrow>
    client_step alloc release max_request (m, L, V) (m(c := v), L, V(c \<mapsto> v))"

locale allocator =
  fixes holds :: "memory \<Rightarrow> (nat \<rightharpoonup> nat) \<Rightarrow> bool"
    and alloc :: "memory \<Rightarrow> nat \<Rightarrow> (memory \<times> nat) option"
    and release :: "memory \<Rightarrow> nat \<Rightarrow> memory"
    and max_request :: nat
  assumes alloc_returns: "holds m L \<Longrightarrow> 0 < n \<Longrightarrow> n \<le> max_request \<Longrightarrow> \<exists>m' p. alloc m n = Some (m', p)"
    and alloc_null: "holds m L \<Longrightarrow> 0 < n \<Longrightarrow> n \<le> max_request \<Longrightarrow> alloc m n = Some (m', NULL) \<Longrightarrow> m' = m"
    and alloc_new: "holds m L \<Longrightarrow> 0 < n \<Longrightarrow> n \<le> max_request \<Longrightarrow> alloc m n = Some (m', p) \<Longrightarrow> p \<noteq> NULL \<Longrightarrow>
          L p = None \<and> holds m' (L(p \<mapsto> n))"
    and alloc_keeps: "holds m L \<Longrightarrow> 0 < n \<Longrightarrow> n \<le> max_request \<Longrightarrow> alloc m n = Some (m', p) \<Longrightarrow>
          L q = Some k \<Longrightarrow> q \<le> c \<Longrightarrow> c < q + k \<Longrightarrow> m' c = m c"
    and release_holds: "holds m L \<Longrightarrow> L p = Some n \<Longrightarrow> holds (release m p) (L(p := None))"
    and release_keeps: "holds m L \<Longrightarrow> L p = Some n \<Longrightarrow> L q = Some k \<Longrightarrow> q \<noteq> p \<Longrightarrow> q \<le> c \<Longrightarrow> c < q + k \<Longrightarrow>
          release m p c = m c"
    and holds_write: "holds m L \<Longrightarrow> L p = Some n \<Longrightarrow> p \<le> c \<Longrightarrow> c < p + n \<Longrightarrow> holds (m(c := v)) L"
    and holds_apart: "holds m L \<Longrightarrow> L p = Some n \<Longrightarrow> L q = Some k \<Longrightarrow> p \<noteq> q \<Longrightarrow> {p..<p + n} \<inter> {q..<q + k} = {}"
begin

definition client_ok :: "client \<Rightarrow> bool" where
  "client_ok s \<longleftrightarrow> (case s of (m, L, V) \<Rightarrow>
     holds m L \<and> (\<forall>c v. V c = Some v \<longrightarrow> m c = v \<and> (\<exists>p n. L p = Some n \<and> p \<le> c \<and> c < p + n)))"

lemma client_okD:
  assumes "client_ok (m, L, V)"
  shows "holds m L" "V c = Some v \<Longrightarrow> m c = v" "V c = Some v \<Longrightarrow> \<exists>p n. L p = Some n \<and> p \<le> c \<and> c < p + n"
  using assms by (auto simp: client_ok_def)

lemma client_okI:
  assumes "holds m L" "\<And>c v. V c = Some v \<Longrightarrow> m c = v \<and> (\<exists>p n. L p = Some n \<and> p \<le> c \<and> c < p + n)"
  shows "client_ok (m, L, V)"
  using assms by (auto simp: client_ok_def)

lemma client_step_ok: "client_step alloc release max_request s t \<Longrightarrow> client_ok s \<Longrightarrow> client_ok t"
proof (induction rule: client_step.induct)
  case (client_alloc n m m' p L V)
  note ok = client_okD [OF client_alloc.prems] and new = alloc_new [OF ok(1) client_alloc.hyps]
  show ?case
  proof (rule client_okI)
    fix c v assume V: "V c = Some v"
    then obtain q k where q: "L q = Some k" "q \<le> c" "c < q + k" using ok(3) by blast
    then have "m' c = m c" using alloc_keeps [OF ok(1) client_alloc.hyps(1-3)] by blast
    moreover have "q \<noteq> p" using q(1) new by auto
    ultimately show "m' c = v \<and> (\<exists>q k. (L(p \<mapsto> n)) q = Some k \<and> q \<le> c \<and> c < q + k)"
      using q ok(2) [OF V] by auto
  qed (use new in blast)
next
  case (client_fail n m m' L V)
  then show ?case using alloc_null client_okD(1) by blast
next
  case (client_free L p n m V)
  note ok = client_okD [OF client_free.prems]
  show ?case
  proof (rule client_okI)
    fix c v assume "(V |` (- {p..<p + n})) c = Some v"
    then have V: "V c = Some v" "c \<notin> {p..<p + n}" by (auto simp: restrict_map_def split: if_splits)
    obtain q k where q: "L q = Some k" "q \<le> c" "c < q + k" using ok(3) [OF V(1)] by blast
    then have "q \<noteq> p" using V(2) client_free.hyps by auto
    then show "release m p c = v \<and> (\<exists>q k. (L(p := None)) q = Some k \<and> q \<le> c \<and> c < q + k)"
      using q release_keeps [OF ok(1) client_free.hyps] ok(2) [OF V(1)] by auto
  qed (rule release_holds [OF ok(1) client_free.hyps])
next
  case (client_write L p n c m V v)
  note ok = client_okD [OF client_write.prems]
  show ?case
    by (rule client_okI) (use ok holds_write [OF ok(1)] client_write.hyps in \<open>auto split: if_splits\<close>)
qed

lemma client_run_ok: "(client_step alloc release max_request)\<^sup>*\<^sup>* s t \<Longrightarrow> client_ok s \<Longrightarrow> client_ok t"
  by (induction rule: rtranclp_induct) (auto intro: client_step_ok)

lemma client_run:
  assumes "(client_step alloc release max_request)\<^sup>*\<^sup>* (m0, Map.empty, Map.empty) (m, L, V)" "holds m0 Map.empty"
  shows "V c = Some v \<Longrightarrow> m c = v"
    and "0 < n \<Longrightarrow> n \<le> max_request \<Longrightarrow> \<exists>m' p. alloc m n = Some (m', p)"
    and "L p = Some i \<Longrightarrow> L q = Some k \<Longrightarrow> p \<noteq> q \<Longrightarrow> {p..<p + i} \<inter> {q..<q + k} = {}"
proof -
  have ok: "client_ok (m, L, V)"
    using client_run_ok [OF assms(1)] client_okI [OF assms(2), of Map.empty] by simp
  show "V c = Some v \<Longrightarrow> m c = v" using client_okD(2) [OF ok] by blast
  show "0 < n \<Longrightarrow> n \<le> max_request \<Longrightarrow> \<exists>m' p. alloc m n = Some (m', p)"
    using alloc_returns [OF client_okD(1) [OF ok]] by blast
  show "L p = Some i \<Longrightarrow> L q = Some k \<Longrightarrow> p \<noteq> q \<Longrightarrow> {p..<p + i} \<inter> {q..<q + k} = {}"
    using holds_apart [OF client_okD(1) [OF ok]] by blast
qed

end

text \<open>The heap between \<open>a\<close> and \<open>e\<close> holds the allocations \<open>L\<close>.\<close>

definition heap_holds :: "nat \<Rightarrow> nat \<Rightarrow> nat \<Rightarrow> memory \<Rightarrow> (nat \<rightharpoonup> nat) \<Rightarrow> bool" where
  "heap_holds fl a e m L \<longleftrightarrow> (\<exists>bs ns. heap_inv m fl a bs ns \<and> end_addr a bs = e
     \<and> (\<forall>p n. L p = Some n \<longrightarrow> (\<exists>k\<ge>n. (p, k) \<in> used a bs)))"

lemma heap_holdsE:
  assumes "heap_holds fl a e m L"
  obtains bs ns where "heap_inv m fl a bs ns" "end_addr a bs = e"
    "\<And>p n. L p = Some n \<Longrightarrow> \<exists>k\<ge>n. (p, k) \<in> used a bs"
  using assms unfolding heap_holds_def by blast

lemma live_payload:
  assumes "\<And>p n. L p = Some n \<Longrightarrow> \<exists>k\<ge>n. (p, k) \<in> used a bs" "L p = Some n" "p \<le> c" "c < p + n"
  shows "c \<in> payload a bs"
proof -
  obtain k where "n \<le> k" "(p, k) \<in> used a bs" using assms(1) [OF assms(2)] by blast
  then show ?thesis unfolding payload_def using assms(3,4) by (intro UN_I [of "(p, k)"]) auto
qed

lemma used_carve:
  assumes "al \<le> s" "r = end_addr a xs"
  shows "used a (xs @ (s, False) # ys) \<subseteq> used a (xs @ carve al s @ ys)"
    "\<exists>k\<ge>al. (ln_mem_region r, k) \<in> used a (xs @ carve al s @ ys)"
proof -
  have "\<not> s - al < 16 \<Longrightarrow> 16 + (end_addr a xs + s) - 8 = end_addr a xs + 8 + s" by simp
  then show "used a (xs @ (s, False) # ys) \<subseteq> used a (xs @ carve al s @ ys)"
    using assms by (auto simp: carve_def ac_simps)
  show "\<exists>k\<ge>al. (ln_mem_region r, k) \<in> used a (xs @ carve al s @ ys)"
    using assms by (auto simp: carve_def ln_mem_region_def)
qed

lemma used_free_blocks:
  "used a (free_blocks xs s ys) = used a xs \<union> used (end_addr a xs + 8 + s) ys"
proof -
  obtain s1 ys1 where mr: "merge_right s ys = (s1, ys1)" by fastforce
  have "used (e + 8 + s1) ys1 = used (e + 8 + s) ys" for e
    using mr by (cases "(s, ys)" rule: merge_right.cases) (auto simp: ac_simps)
  from this [of "end_addr a xs"] show ?thesis
    by (cases xs rule: rev_cases) (auto simp: free_blocks_def mr merge_left_def ac_simps)
qed

lemma end_addr_free_blocks: "end_addr a (free_blocks xs s ys) = end_addr a (xs @ (s, True) # ys)"
proof -
  obtain s1 ys1 where mr: "merge_right s ys = (s1, ys1)" by fastforce
  have "end_addr (e + 8 + s1) ys1 = end_addr (e + 8 + s) ys" for e
    using mr by (cases "(s, ys)" rule: merge_right.cases) (auto simp: ac_simps)
  from this [of "end_addr a xs"] show ?thesis
    by (cases xs rule: rev_cases) (auto simp: free_blocks_def mr merge_left_def ac_simps)
qed

lemma used_inj: "wf_blocks bs \<Longrightarrow> (p, n) \<in> used a bs \<Longrightarrow> (p, k) \<in> used a bs \<Longrightarrow> n = k"
proof (rule ccontr)
  assume wf: "wf_blocks bs" and u: "(p, n) \<in> used a bs" "(p, k) \<in> used a bs" and ne: "n \<noteq> k"
  have "8 \<le> n" using used_split [OF u(1)] wf by auto
  moreover have "8 \<le> k" using used_split [OF u(2)] wf by auto
  ultimately have "p \<in> {p..<p + n} \<inter> {p..<p + k}" by simp
  then show False using used_disjoint [OF u] ne by blast
qed

lemma free_not_used:
  assumes inv: "heap_inv m fl a bs ns" and bs: "bs = xs @ (s, False) # ys"
  shows "(ln_mem_region (end_addr a xs), k) \<notin> used a bs"
proof
  let ?p = "end_addr a xs + 8"
  assume u: "(ln_mem_region (end_addr a xs), k) \<in> used a bs"
  then have "8 \<le> k" using used_split [OF u] heap_invD(2) [OF inv] by auto
  then show False
    using u used_range [of ?p k a xs] used_range [of ?p k "?p + s" ys] bs by (auto simp: ln_mem_region_def)
qed

lemma heap_malloc_cases:
  assumes h: "heap_holds fl a e m L" and n: "0 < n" "n \<le> 2 ^ 32 - 8" "malloc m fl n = Some (m', p)"
  shows "p = NULL \<and> m' = m \<or> p \<noteq> NULL \<and> L p = None \<and> heap_holds fl a e m' (L(p \<mapsto> n))"
    and "L q = Some k \<Longrightarrow> q \<le> c \<Longrightarrow> c < q + k \<Longrightarrow> m' c = m c"
proof -
  from h obtain bs ns where inv: "heap_inv m fl a bs ns" and e: "end_addr a bs = e"
    and L: "\<And>p n. L p = Some n \<Longrightarrow> \<exists>k\<ge>n. (p, k) \<in> used a bs" by (rule heap_holdsE) blast
  let ?al = "LIST_NODE_ALIGN n"
  note al = LIST_NODE_ALIGN_props [OF n(1,2)]
  from malloc_correct [OF inv n(1,2)] consider (full) "p = NULL" "m' = m"
    | (got) xs s ys ns' where "bs = xs @ (s, False) # ys" "?al \<le> s" "p = ln_mem_region (end_addr a xs)"
      "heap_inv m' fl a (xs @ carve ?al s @ ys) ns'" "\<forall>c\<in>payload a bs. m' c = m c"
    unfolding malloc_post_def n(3) by auto
  then have "(p = NULL \<and> m' = m \<or> p \<noteq> NULL \<and> L p = None \<and> heap_holds fl a e m' (L(p \<mapsto> n)))
    \<and> (L q = Some k \<longrightarrow> q \<le> c \<longrightarrow> c < q + k \<longrightarrow> m' c = m c)"
  proof cases
    case got
    note sub = used_carve [OF got(2) refl, of a xs ys, folded got(1,3)]
    have s4: "4 dvd s" using heap_invD(2) [OF inv] got(1) by simp
    have al4: "4 dvd ?al" using al(3) by (auto elim: dvd_trans [rotated])
    have "end_addr a (xs @ carve ?al s @ ys) = e"
      using carve_props(2) [OF got(2) al(2) al4 s4, of "end_addr a xs"] e got(1) by simp
    moreover have "\<exists>i\<ge>k. (q, i) \<in> used a (xs @ carve ?al s @ ys)" if "(L(p \<mapsto> n)) q = Some k" for q k
    proof (cases "q = p")
      case True
      then have "k = n" using that by simp
      moreover obtain i where "?al \<le> i" "(p, i) \<in> used a (xs @ carve ?al s @ ys)" using sub(2) by blast
      ultimately show ?thesis using True al(1) le_trans by blast
    next
      case False
      then have "L q = Some k" using that by simp
      then show ?thesis using L sub(1) by blast
    qed
    ultimately have "heap_holds fl a e m' (L(p \<mapsto> n))" unfolding heap_holds_def using got(4) by blast
    moreover have "L p = None" using L free_not_used [OF inv got(1)] got(3) by (cases "L p") auto
    ultimately show ?thesis using got(3,5) live_payload [of L a bs q k c] L by (auto simp: ln_mem_region_def)
  qed auto
  then show "p = NULL \<and> m' = m \<or> p \<noteq> NULL \<and> L p = None \<and> heap_holds fl a e m' (L(p \<mapsto> n))"
    and "L q = Some k \<Longrightarrow> q \<le> c \<Longrightarrow> c < q + k \<Longrightarrow> m' c = m c" by blast+
qed

lemma heap_free_cases:
  assumes h: "heap_holds fl a e m L" and p: "L p = Some n"
  shows "heap_holds fl a e (free m fl p) (L(p := None))"
    and "L q = Some k \<Longrightarrow> q \<noteq> p \<Longrightarrow> q \<le> c \<Longrightarrow> c < q + k \<Longrightarrow> free m fl p c = m c"
proof -
  from h obtain bs ns where inv: "heap_inv m fl a bs ns" and e: "end_addr a bs = e"
    and L: "\<And>p n. L p = Some n \<Longrightarrow> \<exists>k\<ge>n. (p, k) \<in> used a bs" by (rule heap_holdsE) blast
  obtain s where "(p, s) \<in> used a bs" using L [OF p] by blast
  then obtain xs ys where bs: "bs = xs @ (s, True) # ys" and px: "p = ln_mem_region (end_addr a xs)"
    using used_split by blast
  note fc = free_correct [OF inv [unfolded bs] refl, folded px]
  have keep: "(q, k) \<in> used a xs \<union> used (end_addr a xs + 8 + s) ys" if "(q, k) \<in> used a bs" "q \<noteq> p" for q k
    using that by (auto simp: bs px ln_mem_region_def)
  obtain ns' where inv': "heap_inv (free m fl p) fl a (free_blocks xs s ys) ns'" using fc(1) by blast
  have e': "end_addr a (free_blocks xs s ys) = e"
    using end_addr_free_blocks e bs by simp
  show "heap_holds fl a e (free m fl p) (L(p := None))"
    unfolding heap_holds_def
  proof (rule exI [of _ "free_blocks xs s ys"], rule exI [of _ ns'], intro conjI allI impI)
    fix q k assume "(L(p := None)) q = Some k"
    then have "q \<noteq> p" "L q = Some k" by (auto split: if_splits)
    then show "\<exists>i\<ge>k. (q, i) \<in> used a (free_blocks xs s ys)"
      unfolding used_free_blocks using L keep by blast
  qed (fact inv' e')+
  show "free m fl p c = m c" if q: "L q = Some k" "q \<noteq> p" "q \<le> c" "c < q + k"
  proof -
    obtain i where "k \<le> i" "(q, i) \<in> used a xs \<union> used (end_addr a xs + 8 + s) ys"
      using L [OF q(1)] keep q(2) by blast
    then have "c \<in> payload a xs \<union> payload (end_addr a xs + 8 + s) ys"
      using q(3,4) by (auto simp: payload_def intro!: bexI [of _ "(q, i)"])
    then show ?thesis using fc(2) by blast
  qed
qed

lemma heap_holds_frame:
  assumes "heap_holds fl a e m L" "L p = Some n" "\<And>c. c \<notin> {p..<p + n} \<Longrightarrow> m' c = m c"
  shows "heap_holds fl a e m' L"
proof -
  from assms(1) obtain bs ns where inv: "heap_inv m fl a bs ns" "end_addr a bs = e"
    and L: "\<And>p n. L p = Some n \<Longrightarrow> \<exists>k\<ge>n. (p, k) \<in> used a bs" by (rule heap_holdsE) blast
  have "c \<in> payload a bs" if "c \<in> {p..<p + n}" for c
    by (rule live_payload [of L, OF _ assms(2)]) (use L that in auto)
  then have "heap_inv m' fl a bs ns" using heap_inv_frame [OF inv(1)] assms(3) by blast
  then show ?thesis unfolding heap_holds_def using inv(2) L by blast
qed

lemma heap_holds_write:
  assumes "heap_holds fl a e m L" "L p = Some n" "p \<le> c" "c < p + n"
  shows "heap_holds fl a e (m(c := v)) L"
  using assms(3,4) by (auto intro: heap_holds_frame [OF assms(1,2)])

lemma heap_holds_apart:
  assumes "heap_holds fl a e m L" "L p = Some n" "L q = Some k" "p \<noteq> q"
  shows "{p..<p + n} \<inter> {q..<q + k} = {}"
proof -
  from assms(1) obtain bs ns where inv: "heap_inv m fl a bs ns"
    and L: "\<And>p n. L p = Some n \<Longrightarrow> \<exists>k\<ge>n. (p, k) \<in> used a bs" by (rule heap_holdsE) blast
  obtain i j where "n \<le> i" "(p, i) \<in> used a bs" "k \<le> j" "(q, j) \<in> used a bs"
    using L [OF assms(2)] L [OF assms(3)] by blast
  with used_disjoint [of p i a bs q j] assms(4) show ?thesis by fastforce
qed

lemma heap_malloc_returns:
  assumes "heap_holds fl a e m L" "0 < n" "n \<le> 2 ^ 32 - 8"
  shows "\<exists>m' p. malloc m fl n = Some (m', p)"
proof -
  from assms(1) obtain bs ns where "heap_inv m fl a bs ns" by (rule heap_holdsE) blast
  from malloc_correct [OF this assms(2,3)] show ?thesis unfolding malloc_post_def by blast
qed

interpretation ha: allocator "heap_holds fl a e" "\<lambda>m n. malloc m fl n" "\<lambda>m p. free m fl p" "2 ^ 32 - 8"
proof
  fix m m' :: memory and L :: "nat \<rightharpoonup> nat" and n p :: nat
  assume h: "heap_holds fl a e m L" "0 < n" "n \<le> 2 ^ 32 - 8"
  show "\<exists>m' p. malloc m fl n = Some (m', p)" by (rule heap_malloc_returns [OF h])
  show "malloc m fl n = Some (m', NULL) \<Longrightarrow> m' = m"
    using heap_malloc_cases(1) [OF h] by blast
  show "malloc m fl n = Some (m', p) \<Longrightarrow> p \<noteq> NULL \<Longrightarrow> L p = None \<and> heap_holds fl a e m' (L(p \<mapsto> n))"
    using heap_malloc_cases(1) [OF h] by blast
qed (fact heap_malloc_cases(2) heap_free_cases heap_holds_write heap_holds_apart)+

lemma heap_init_holds:
  assumes "dlist m fl []" "0 < start0" "start0 + 1027 < 2 ^ 32" "end0 < 2 ^ 32"
    and "fl + 8 \<le> start0 \<or> end0 \<le> fl" "heap_init_range m fl start0 end0 = (m', 0)"
  shows "\<exists>e. heap_holds fl (WORD_ALIGN_UP start0) e m' Map.empty"
  unfolding heap_holds_def using heap_init_heap_inv [OF assms] by blast

lemma memset_zero_frame: "c \<notin> {p..<p + n} \<Longrightarrow> memset_zero m p n c = m c"
  by (auto simp: memset_zero_def)

section \<open>Properties of the heap\<close>

text \<open>
  C1: whatever a client does with a freshly initialised heap (allocate blocks of at least one and at
  most \<open>2 ^ 32 - 8\<close> bytes, free what it holds, write anywhere inside what it holds), every value it
  wrote into an allocation it still holds is still there, the allocations it holds never overlap, and the
  next such \<^verbatim>\<open>malloc\<close> returns. The sizes left out do break the heap: a request of zero bytes, and a
  larger one that is rounded to zero (\<open>malloc_size_wraps\<close>), gives a block whose release
  overwrites the header behind it (\<open>free_empty_block\<close>).
\<close>

theorem heap_client_run:
  assumes "dlist m fl []" "0 < start0" "start0 + 1027 < 2 ^ 32" "end0 < 2 ^ 32"
    and "fl + 8 \<le> start0 \<or> end0 \<le> fl" "heap_init_range m fl start0 end0 = (m0, 0)"
    and "(client_step (\<lambda>m n. malloc m fl n) (\<lambda>m p. free m fl p) (2 ^ 32 - 8))\<^sup>*\<^sup>*
           (m0, Map.empty, Map.empty) (m', L, V)"
  shows "(\<forall>c v. V c = Some v \<longrightarrow> m' c = v)
     \<and> (\<forall>p i q k. L p = Some i \<longrightarrow> L q = Some k \<longrightarrow> p \<noteq> q \<longrightarrow> {p..<p + i} \<inter> {q..<q + k} = {})
     \<and> (\<forall>n. 0 < n \<and> n \<le> 2 ^ 32 - 8 \<longrightarrow> (\<exists>m'' r. malloc m' fl n = Some (m'', r)))"
proof -
  obtain e where h: "heap_holds fl (WORD_ALIGN_UP start0) e m0 Map.empty"
    using heap_init_holds [OF assms(1-6)] by blast
  show ?thesis using ha.client_run [OF assms(7) h] by blast
qed

text \<open>A memory in which the free list at address 16 is empty, and a heap of 4096 bytes in it.\<close>

definition demo_memory :: memory where
  "demo_memory = INIT_LIST_HEAD (\<lambda>_. 0) 16"

definition demo_heap :: memory where
  "demo_heap = fst (heap_init_range demo_memory 16 4096 8192)"

lemma demo_memory_empty: "dlist demo_memory 16 []"
  unfolding demo_memory_def by (rule lh.rep_init)

lemma demo_memory_eq: "demo_memory = (\<lambda>_. 0)(16 := 16, 20 := 16)"
  by (simp add: demo_memory_def INIT_LIST_HEAD_def fun_eq_iff)

lemmas demo_simps = demo_memory_eq heap_init_range_def WORD_ALIGN_UP_def WORD_ALIGN_DOWN_def add32_def
  sub32_def MIN_HEAP_LEN_def DWORD_SIZE_def ln_mem_region_def list_add_tail_def list_add_between_def
  list_prev_def list_next_def Let_def

lemma demo_heap_init: "heap_init_range demo_memory 16 4096 8192 = (demo_heap, 0)"
  by (simp add: demo_heap_def demo_simps)

lemma demo_heap_eq: "demo_heap = (\<lambda>_. 0)(16 := 4104, 20 := 4104, 4096 := 1, 4100 := 4080,
    4104 := 16, 4108 := 16, 8184 := 4080, 8188 := 1)"
  by (auto simp add: demo_heap_def demo_simps fun_eq_iff)

lemma demo_malloc: "malloc demo_heap 16 40 = Some (malloc_take (list_del demo_heap 4104) 16 4096 4080 40, 4104)"
  using malloc_found [of demo_heap 16 40 4096 "list_del demo_heap 4104" 4080 40]
  by (simp add: demo_heap_eq list_for_each.simps curr_size_def LIST_NODE_ALIGN_def list_del_def
      list_del_between_def demo_simps)

theorem heap_client_run_witness:
  "let m1 = malloc_take (list_del demo_heap 4104) 16 4096 4080 40
   in (m1(4104 := 7)) 4104 = 7 \<and> (\<exists>m'' r. malloc (m1(4104 := 7)) 16 8 = Some (m'', r))"
proof -
  let ?m1 = "malloc_take (list_del demo_heap 4104) 16 4096 4080 40"
    and ?step = "client_step (\<lambda>m n. malloc m 16 n) (\<lambda>m p. free m 16 p) (2 ^ 32 - 8)"
  have s1: "?step (demo_heap, Map.empty, Map.empty) (?m1, [4104 \<mapsto> 40], Map.empty)"
    using demo_malloc by (intro client_alloc) auto
  have s2: "?step (?m1, [4104 \<mapsto> 40], Map.empty) (?m1(4104 := 7), [4104 \<mapsto> 40], [4104 \<mapsto> 7])"
    by (rule client_write) auto
  from s1 s2 have "?step\<^sup>*\<^sup>* (demo_heap, Map.empty, Map.empty) (?m1(4104 := 7), [4104 \<mapsto> 40], [4104 \<mapsto> 7])"
    by (meson converse_rtranclp_into_rtranclp rtranclp.rtrancl_refl)
  from heap_client_run [OF demo_memory_empty _ _ _ _ demo_heap_init this]
  have "\<exists>m'' r. malloc (?m1(4104 := 7)) 16 8 = Some (m'', r)" by auto
  then show ?thesis unfolding Let_def by simp
qed

text \<open>
  C2: on a well-formed heap \<^verbatim>\<open>malloc\<close> of at least one and at most \<open>2 ^ 32 - 8\<close> bytes always
  returns. It returns \<^verbatim>\<open>NULL\<close>, changing nothing, only
  when no free block has the aligned size; otherwise it returns the payload of a free block, used
  whole or split as \<open>carve\<close> says, in a heap that is well-formed again, and no cell of a block in
  use has changed.
\<close>

theorem malloc_spec:
  assumes "heap_inv m fl a bs ns" "0 < sz" "sz \<le> 2 ^ 32 - 8"
  shows "malloc_post m fl a bs sz (malloc m fl sz)"
  using assms by (rule malloc_correct)

lemma demo_heap_inv: "heap_inv demo_heap 16 4096 [(4080, False)] [4104]"
  using heap_init_heap_inv [OF demo_memory_empty _ _ _ _ demo_heap_init]
  by (simp add: WORD_ALIGN_UP_def WORD_ALIGN_DOWN_def ln_mem_region_def)

theorem malloc_spec_witness: "malloc_post demo_heap 16 4096 [(4080, False)] 40 (malloc demo_heap 16 40)"
  using malloc_spec [OF demo_heap_inv, of 40] by simp

text \<open>
  C3: freeing a used block of a well-formed heap gives a well-formed heap in which the block is
  free and merged with its free neighbours on both sides (so no two adjacent blocks are free),
  and no cell of another block in use has changed.
\<close>

theorem free_spec:
  assumes "heap_inv m fl a (xs @ (s, True) # ys) ns"
  shows "(\<exists>ns'. heap_inv (free m fl (ln_mem_region (end_addr a xs))) fl a (free_blocks xs s ys) ns')
     \<and> coalesced (free_blocks xs s ys)
     \<and> (\<forall>c\<in>payload a xs \<union> payload (end_addr a xs + 8 + s) ys.
           free m fl (ln_mem_region (end_addr a xs)) c = m c)"
  using free_correct [OF assms refl] heap_invD(3) by blast

lemma demo_taken_inv:
  "heap_inv (malloc_take (list_del demo_heap 4104) 16 4096 4080 40) 16 4096 ([] @ (40, True) # [(4032, False)]) [4152]"
  using malloc_take_split(2) [of demo_heap 16 4096 "[]" 4080 "[]" "[4104]" 4096 _ 40, OF _ _ refl] demo_heap_inv
  by simp

theorem free_spec_witness:
  "(\<exists>ns'. heap_inv (free (malloc_take (list_del demo_heap 4104) 16 4096 4080 40) 16 4104) 16 4096 [(4080, False)] ns')"
  using free_spec [OF demo_taken_inv] by (simp add: ln_mem_region_def free_blocks_def merge_left_def)

text \<open>
  \<^verbatim>\<open>zalloc\<close> returns; when the pointer is not \<^verbatim>\<open>NULL\<close> the client holds it in addition to what it
  held, every whole word of it reads zero, and what the client had in its other allocations is
  unchanged.
\<close>

theorem zalloc_spec:
  assumes "heap_holds fl a e m L" "0 < n" "n \<le> 2 ^ 32 - 8"
  shows "\<exists>m' p. zalloc m fl n = Some (m', p)
     \<and> (p \<noteq> NULL \<longrightarrow> heap_holds fl a e m' (L(p \<mapsto> n)) \<and> (\<forall>i. 4 * i + 4 \<le> n \<longrightarrow> m' (p + 4 * i) = 0)
         \<and> (\<forall>q k c. L q = Some k \<and> q \<le> c \<and> c < q + k \<longrightarrow> m' c = m c))"
proof -
  obtain m1 p where mp: "malloc m fl n = Some (m1, p)" using heap_malloc_returns [OF assms] by blast
  note hm = heap_malloc_cases [OF assms mp]
  show ?thesis
  proof (cases "p = NULL")
    case False
    let ?m = "memset_zero m1 p n"
    have held: "L p = None" "heap_holds fl a e m1 (L(p \<mapsto> n))" using hm(1) False by auto
    have "heap_holds fl a e ?m (L(p \<mapsto> n))"
      by (rule heap_holds_frame [OF held(2), of p n]) (auto simp: memset_zero_frame)
    moreover have "?m (p + 4 * i) = 0" if "4 * i + 4 \<le> n" for i
      using that by (auto simp: memset_zero_def Let_def)
    moreover have "?m c = m c" if q: "L q = Some k" "q \<le> c" "c < q + k" for q k c
    proof -
      have "q \<noteq> p" using q(1) held(1) by auto
      then have "{p..<p + n} \<inter> {q..<q + k} = {}"
        using heap_holds_apart [OF held(2), of p n q k] q(1) by simp
      then show ?thesis using q hm(2) [OF q] by (subst memset_zero_frame) auto
    qed
    ultimately show ?thesis using mp False by (auto simp: zalloc_def)
  qed (use mp in \<open>simp add: zalloc_def\<close>)
qed

theorem zalloc_spec_witness: "\<exists>m' p. zalloc demo_heap 16 40 = Some (m', p)"
proof -
  have "heap_holds 16 4096 8184 demo_heap Map.empty"
    unfolding heap_holds_def using demo_heap_inv by fastforce
  from zalloc_spec [OF this, of 40] show ?thesis by auto
qed

text \<open>
  The size rounding of \<^verbatim>\<open>malloc\<close> wraps for the requests above \<open>2 ^ 32 - 8\<close> that the specifications above leave
  out: such a request is treated as one of zero bytes, so a free block however small satisfies it.
\<close>

theorem malloc_size_wraps:
  assumes "2 ^ 32 - 8 < sz" "sz < 2 ^ 32"
  shows "LIST_NODE_ALIGN sz = 0 \<and> malloc m fl sz = malloc m fl 0"
proof -
  have "add32 sz 7 < 8"
  proof -
    have "add32 sz 7 = sz + 7 - 2 ^ 32"
      using assms le_mod_geq [of "2 ^ 32" "sz + 7"] unfolding add32_def by simp
    then show ?thesis using assms by linarith
  qed
  then have "LIST_NODE_ALIGN sz = 0" by (simp add: LIST_NODE_ALIGN_def)
  moreover have "LIST_NODE_ALIGN 0 = 0" by (simp add: LIST_NODE_ALIGN_def)
  ultimately show ?thesis by (simp add: malloc_def)
qed

theorem malloc_size_wraps_witness: "malloc demo_heap 16 4294967295 = malloc demo_heap 16 0"
  using malloc_size_wraps [of 4294967295 demo_heap 16] by simp

text \<open>
  Requests of zero bytes, which the specifications leave out as well. \<^verbatim>\<open>malloc\<close> serves one with a block
  of no bytes at all, and a free block keeps its list links in its payload: when such a block
  stands between blocks in use, freeing it writes the links over the header of the block behind it.
\<close>

theorem free_empty_block:
  assumes "curr_size m r = 1" "\<not> IS_FREE (pre_size m r)" "\<not> IS_FREE (curr_size m (r + 8))"
    and "r + 16 < 2 ^ 32" "fl \<notin> {r + 8, r + 12}" "fl + 4 \<notin> {r + 8, r + 12}" "list_prev m fl \<notin> {r + 8, r + 12}"
    and "fl \<notin> {r + 4, r + 8}" "fl + 4 \<notin> {r + 4, r + 8}"
  shows "pre_size (free m fl (r + 8)) (r + 8) = fl \<and> curr_size (free m fl (r + 8)) (r + 8) = list_prev m fl"
proof -
  have s: "get_successor m r = r + 8" "sub32 (r + 8) 8 = r" "GET_SIZE m r = 0"
    using assms(1,4) by (simp_all add: get_successor_def GET_SIZE_def WORD_ALIGN_DOWN_def curr_size_def DWORD_SIZE_def)
  have "region_set_size m r 0 = m(r + 4 := 0, r + 8 := 0)"
    using assms(4) by (simp add: region_set_size_def Let_def get_successor_def GET_SIZE_def WORD_ALIGN_DOWN_def curr_size_def DWORD_SIZE_def)
  then show ?thesis
    using assms s by (auto simp: free_def Let_def DWORD_SIZE_def pre_size_def curr_size_def ln_mem_region_def IS_FREE_def
        list_add_tail_def list_add_between_def list_prev_def list_next_def)
qed

lemma demo_malloc_zero:
  "malloc demo_heap 16 0 = Some (malloc_take (list_del demo_heap 4104) 16 4096 4080 0, 4104)"
  using malloc_found [of demo_heap 16 0 4096 "list_del demo_heap 4104" 4080 0]
  by (simp add: demo_heap_eq list_for_each.simps curr_size_def LIST_NODE_ALIGN_def list_del_def
      list_del_between_def demo_simps)

lemma demo_zero_eq: "malloc_take (list_del demo_heap 4104) 16 4096 4080 0 = (\<lambda>_. 0)(16 := 4112, 20 := 4112, 4096 := 1, 4100 := 1,
    4104 := 1, 4108 := 4072, 4112 := 16, 4116 := 16, 8184 := 4072, 8188 := 1)"
  by (auto simp add: malloc_take_def demo_heap_eq list_del_def list_del_between_def demo_simps region_set_size_def
      get_successor_def GET_SIZE_def curr_size_def fun_eq_iff)

theorem free_empty_block_witness:
  "\<exists>m1 m2. malloc demo_heap 16 0 = Some (m1, 4104) \<and> malloc m1 16 40 = Some (m2, 4112)
     \<and> curr_size m2 4104 = 41 \<and> pre_size (free m2 16 4104) 4104 = 16"
proof -
  let ?m1 = "malloc_take (list_del demo_heap 4104) 16 4096 4080 0"
  let ?m2 = "malloc_take (list_del ?m1 4112) 16 4104 4072 40"
  have m2: "malloc ?m1 16 40 = Some (?m2, 4112)"
    unfolding demo_zero_eq
    using malloc_found [of ?m1 16 40 4104 "list_del ?m1 4112" 4072 40] unfolding demo_zero_eq
    by (simp add: list_for_each.simps curr_size_def LIST_NODE_ALIGN_def list_del_def
        list_del_between_def demo_simps)
  have e: "?m2 = (\<lambda>_. 0)(16 := 4160, 20 := 4160, 4096 := 1, 4100 := 1, 4104 := 1, 4108 := 41, 4112 := 16, 4116 := 16,
      4152 := 41, 4156 := 4024, 4160 := 16, 4164 := 16, 8184 := 4024, 8188 := 1)"
    unfolding demo_zero_eq
    by (auto simp add: malloc_take_def list_del_def list_del_between_def demo_simps region_set_size_def
      get_successor_def GET_SIZE_def curr_size_def fun_eq_iff)
  have "curr_size ?m2 4096 = 1" "\<not> IS_FREE (pre_size ?m2 4096)" "\<not> IS_FREE (curr_size ?m2 4104)" "curr_size ?m2 4104 = 41"
    "list_prev ?m2 16 = 4160"
    unfolding e by (simp_all add: curr_size_def pre_size_def IS_FREE_def list_prev_def)
  moreover from this have "pre_size (free ?m2 16 4104) 4104 = 16"
    using free_empty_block [of ?m2 4096 16] by simp
  ultimately show ?thesis using demo_malloc_zero m2 by blast
qed

end
