(* ===== verification/NandEcc.thy ===== *)
theory NandEcc
  imports Prelude
begin

unbundle bit_operations_syntax

text \<open>
  The error-correcting code of \<^verbatim>\<open>driver/flash/nand/nand_ecc.c\<close>: three bytes of column and row
  parities for a block of 256 or 512 bytes, and the correction of one wrong bit. The routine works
  on 32-bit words and unrolled loops; the theorems compare it with the parity of the data bits that
  each bit of the code stands for.
\<close>

section \<open>The tables\<close>

definition invparity :: "nat list" where
  "invparity = [
    1, 0, 0, 1, 0, 1, 1, 0, 0, 1, 1, 0, 1, 0, 0, 1, 0, 1, 1, 0, 1, 0, 0, 1, 1, 0, 0, 1, 0, 1, 1, 0,
    0, 1, 1, 0, 1, 0, 0, 1, 1, 0, 0, 1, 0, 1, 1, 0, 1, 0, 0, 1, 0, 1, 1, 0, 0, 1, 1, 0, 1, 0, 0, 1,
    0, 1, 1, 0, 1, 0, 0, 1, 1, 0, 0, 1, 0, 1, 1, 0, 1, 0, 0, 1, 0, 1, 1, 0, 0, 1, 1, 0, 1, 0, 0, 1,
    1, 0, 0, 1, 0, 1, 1, 0, 0, 1, 1, 0, 1, 0, 0, 1, 0, 1, 1, 0, 1, 0, 0, 1, 1, 0, 0, 1, 0, 1, 1, 0,
    0, 1, 1, 0, 1, 0, 0, 1, 1, 0, 0, 1, 0, 1, 1, 0, 1, 0, 0, 1, 0, 1, 1, 0, 0, 1, 1, 0, 1, 0, 0, 1,
    1, 0, 0, 1, 0, 1, 1, 0, 0, 1, 1, 0, 1, 0, 0, 1, 0, 1, 1, 0, 1, 0, 0, 1, 1, 0, 0, 1, 0, 1, 1, 0,
    1, 0, 0, 1, 0, 1, 1, 0, 0, 1, 1, 0, 1, 0, 0, 1, 0, 1, 1, 0, 1, 0, 0, 1, 1, 0, 0, 1, 0, 1, 1, 0,
    0, 1, 1, 0, 1, 0, 0, 1, 1, 0, 0, 1, 0, 1, 1, 0, 1, 0, 0, 1, 0, 1, 1, 0, 0, 1, 1, 0, 1, 0, 0, 1]"

definition bitsperbyte :: "nat list" where
  "bitsperbyte = [
    0, 1, 1, 2, 1, 2, 2, 3, 1, 2, 2, 3, 2, 3, 3, 4, 1, 2, 2, 3, 2, 3, 3, 4, 2, 3, 3, 4, 3, 4, 4, 5,
    1, 2, 2, 3, 2, 3, 3, 4, 2, 3, 3, 4, 3, 4, 4, 5, 2, 3, 3, 4, 3, 4, 4, 5, 3, 4, 4, 5, 4, 5, 5, 6,
    1, 2, 2, 3, 2, 3, 3, 4, 2, 3, 3, 4, 3, 4, 4, 5, 2, 3, 3, 4, 3, 4, 4, 5, 3, 4, 4, 5, 4, 5, 5, 6,
    2, 3, 3, 4, 3, 4, 4, 5, 3, 4, 4, 5, 4, 5, 5, 6, 3, 4, 4, 5, 4, 5, 5, 6, 4, 5, 5, 6, 5, 6, 6, 7,
    1, 2, 2, 3, 2, 3, 3, 4, 2, 3, 3, 4, 3, 4, 4, 5, 2, 3, 3, 4, 3, 4, 4, 5, 3, 4, 4, 5, 4, 5, 5, 6,
    2, 3, 3, 4, 3, 4, 4, 5, 3, 4, 4, 5, 4, 5, 5, 6, 3, 4, 4, 5, 4, 5, 5, 6, 4, 5, 5, 6, 5, 6, 6, 7,
    2, 3, 3, 4, 3, 4, 4, 5, 3, 4, 4, 5, 4, 5, 5, 6, 3, 4, 4, 5, 4, 5, 5, 6, 4, 5, 5, 6, 5, 6, 6, 7,
    3, 4, 4, 5, 4, 5, 5, 6, 4, 5, 5, 6, 5, 6, 6, 7, 4, 5, 5, 6, 5, 6, 6, 7, 5, 6, 6, 7, 6, 7, 7, 8]"

definition addressbits :: "nat list" where
  "addressbits = [
    0, 0, 1, 1, 0, 0, 1, 1, 2, 2, 3, 3, 2, 2, 3, 3, 0, 0, 1, 1, 0, 0, 1, 1, 2, 2, 3, 3, 2, 2, 3, 3,
    4, 4, 5, 5, 4, 4, 5, 5, 6, 6, 7, 7, 6, 6, 7, 7, 4, 4, 5, 5, 4, 4, 5, 5, 6, 6, 7, 7, 6, 6, 7, 7,
    0, 0, 1, 1, 0, 0, 1, 1, 2, 2, 3, 3, 2, 2, 3, 3, 0, 0, 1, 1, 0, 0, 1, 1, 2, 2, 3, 3, 2, 2, 3, 3,
    4, 4, 5, 5, 4, 4, 5, 5, 6, 6, 7, 7, 6, 6, 7, 7, 4, 4, 5, 5, 4, 4, 5, 5, 6, 6, 7, 7, 6, 6, 7, 7,
    8, 8, 9, 9, 8, 8, 9, 9, 10, 10, 11, 11, 10, 10, 11, 11, 8, 8, 9, 9, 8, 8, 9, 9, 10, 10, 11, 11, 10, 10, 11, 11,
    12, 12, 13, 13, 12, 12, 13, 13, 14, 14, 15, 15, 14, 14, 15, 15, 12, 12, 13, 13, 12, 12, 13, 13, 14, 14, 15, 15, 14, 14, 15, 15,
    8, 8, 9, 9, 8, 8, 9, 9, 10, 10, 11, 11, 10, 10, 11, 11, 8, 8, 9, 9, 8, 8, 9, 9, 10, 10, 11, 11, 10, 10, 11, 11,
    12, 12, 13, 13, 12, 12, 13, 13, 14, 14, 15, 15, 14, 14, 15, 15, 12, 12, 13, 13, 12, 12, 13, 13, 14, 14, 15, 15, 14, 14, 15, 15]"

section \<open>The code of a block\<close>

text \<open>The variables that live across rounds of the loop.\<close>

record parities =
  par :: u32
  rp4 :: u32
  rp6 :: u32
  rp8 :: u32
  rp10 :: u32
  rp12 :: u32
  rp14 :: u32
  rp16 :: u32

text \<open>\<^verbatim>\<open>*bp++\<close>: the \<open>k\<close>-th word of the buffer, on a little-endian machine.\<close>

definition bp_word :: "u8 list \<Rightarrow> nat \<Rightarrow> u32" where
  "bp_word buf k =
     ucast (buf ! (4 * k)) OR push_bit 8 (ucast (buf ! (4 * k + 1)))
       OR push_bit 16 (ucast (buf ! (4 * k + 2))) OR push_bit 24 (ucast (buf ! (4 * k + 3)))"

text \<open>One round of the unrolled loop: \<open>w\<close> gives the sixteen words it reads.\<close>

definition ecc_round :: "nat \<Rightarrow> nat \<Rightarrow> (nat \<Rightarrow> u32) \<Rightarrow> parities \<Rightarrow> parities" where
  "ecc_round eccsize_mult i w st =
     (let rp4 = rp4 st; rp6 = rp6 st; rp8 = rp8 st; rp10 = rp10 st;
          cur = w 0; tmppar = cur; rp4 = rp4 XOR cur;
          cur = w 1; tmppar = tmppar XOR cur; rp6 = rp6 XOR tmppar;
          cur = w 2; tmppar = tmppar XOR cur; rp4 = rp4 XOR cur;
          cur = w 3; tmppar = tmppar XOR cur; rp8 = rp8 XOR tmppar;
          cur = w 4; tmppar = tmppar XOR cur; rp4 = rp4 XOR cur; rp6 = rp6 XOR cur;
          cur = w 5; tmppar = tmppar XOR cur; rp6 = rp6 XOR cur;
          cur = w 6; tmppar = tmppar XOR cur; rp4 = rp4 XOR cur;
          cur = w 7; tmppar = tmppar XOR cur; rp10 = rp10 XOR tmppar;
          cur = w 8; tmppar = tmppar XOR cur; rp4 = rp4 XOR cur; rp6 = rp6 XOR cur; rp8 = rp8 XOR cur;
          cur = w 9; tmppar = tmppar XOR cur; rp6 = rp6 XOR cur; rp8 = rp8 XOR cur;
          cur = w 10; tmppar = tmppar XOR cur; rp4 = rp4 XOR cur; rp8 = rp8 XOR cur;
          cur = w 11; tmppar = tmppar XOR cur; rp8 = rp8 XOR cur;
          cur = w 12; tmppar = tmppar XOR cur; rp4 = rp4 XOR cur; rp6 = rp6 XOR cur;
          cur = w 13; tmppar = tmppar XOR cur; rp6 = rp6 XOR cur;
          cur = w 14; tmppar = tmppar XOR cur; rp4 = rp4 XOR cur;
          cur = w 15; tmppar = tmppar XOR cur
      in \<lparr> par = par st XOR tmppar, rp4 = rp4, rp6 = rp6, rp8 = rp8, rp10 = rp10,
           rp12 = (if i mod 2 = 0 then rp12 st XOR tmppar else rp12 st),
           rp14 = (if i div 2 mod 2 = 0 then rp14 st XOR tmppar else rp14 st),
           rp16 = (if eccsize_mult = 2 \<and> i div 4 mod 2 = 0 then rp16 st XOR tmppar else rp16 st) \<rparr>)"

definition ecc_loop :: "u8 list \<Rightarrow> nat \<Rightarrow> nat \<Rightarrow> parities" where
  "ecc_loop buf eccsize_mult n =
     fold (\<lambda>i. ecc_round eccsize_mult i (\<lambda>j. bp_word buf (16 * i + j))) [0..<n]
       \<lparr> par = 0, rp4 = 0, rp6 = 0, rp8 = 0, rp10 = 0, rp12 = 0, rp14 = 0, rp16 = 0 \<rparr>"

text \<open>Folding a word onto its low byte.\<close>

definition fold_byte :: "u32 \<Rightarrow> u32" where
  "fold_byte rp = (let rp = rp XOR drop_bit 16 rp; rp = rp XOR drop_bit 8 rp in rp AND 0xff)"

definition invpar :: "u32 \<Rightarrow> u8" where
  "invpar rp = of_nat (invparity ! unat rp)"

text \<open>
  \<^verbatim>\<open>__nand_calculate_ecc\<close>, with \<^verbatim>\<open>CONFIG_MTD_NAND_ECC_SMC\<close> unset as in the default configurations:
  the bytes of \<^verbatim>\<open>code\<close>.
\<close>

definition nand_calculate_ecc_block :: "u8 list \<Rightarrow> nat \<Rightarrow> u8 \<times> u8 \<times> u8" where
  "nand_calculate_ecc_block buf eccsize =
     (let eccsize_mult = eccsize div 256;
          st = ecc_loop buf eccsize_mult (eccsize_mult * 4);
          rp4 = fold_byte (rp4 st); rp6 = fold_byte (rp6 st); rp8 = fold_byte (rp8 st);
          rp10 = fold_byte (rp10 st); rp12 = fold_byte (rp12 st); rp14 = fold_byte (rp14 st);
          rp16 = (if eccsize_mult = 2 then fold_byte (rp16 st) else rp16 st);
          par = par st;
          rp3 = drop_bit 16 par; rp3 = rp3 XOR drop_bit 8 rp3; rp3 = rp3 AND 0xff;
          rp2 = par AND 0xffff; rp2 = rp2 XOR drop_bit 8 rp2; rp2 = rp2 AND 0xff;
          par = par XOR drop_bit 16 par;
          rp1 = drop_bit 8 par AND 0xff;
          rp0 = par AND 0xff;
          par = par XOR drop_bit 8 par;
          par = par AND 0xff;
          rp5 = (par XOR rp4) AND 0xff; rp7 = (par XOR rp6) AND 0xff; rp9 = (par XOR rp8) AND 0xff;
          rp11 = (par XOR rp10) AND 0xff; rp13 = (par XOR rp12) AND 0xff; rp15 = (par XOR rp14) AND 0xff;
          rp17 = (if eccsize_mult = 2 then (par XOR rp16) AND 0xff else 0);
          code1 = push_bit 7 (invpar rp7) OR push_bit 6 (invpar rp6) OR push_bit 5 (invpar rp5)
            OR push_bit 4 (invpar rp4) OR push_bit 3 (invpar rp3) OR push_bit 2 (invpar rp2)
            OR push_bit 1 (invpar rp1) OR invpar rp0;
          code0 = push_bit 7 (invpar rp15) OR push_bit 6 (invpar rp14) OR push_bit 5 (invpar rp13)
            OR push_bit 4 (invpar rp12) OR push_bit 3 (invpar rp11) OR push_bit 2 (invpar rp10)
            OR push_bit 1 (invpar rp9) OR invpar rp8;
          cp = push_bit 7 (invpar (par AND 0xf0)) OR push_bit 6 (invpar (par AND 0x0f))
            OR push_bit 5 (invpar (par AND 0xcc)) OR push_bit 4 (invpar (par AND 0x33))
            OR push_bit 3 (invpar (par AND 0xaa)) OR push_bit 2 (invpar (par AND 0x55));
          code2 = (if eccsize_mult = 1 then cp OR 3
                   else cp OR push_bit 1 (invpar rp17) OR push_bit 0 (invpar rp16))
      in (code0, code1, code2))"

text \<open>\<^verbatim>\<open>nand_calculate_ecc\<close>: \<^verbatim>\<open>nand->master->ecc_data_len\<close> is the size.\<close>

definition nand_calculate_ecc :: "nat \<Rightarrow> u8 list \<Rightarrow> int \<times> (u8 \<times> u8 \<times> u8)" where
  "nand_calculate_ecc ecc_data_len buf = (0, nand_calculate_ecc_block buf ecc_data_len)"

section \<open>Correction\<close>

text \<open>\<^verbatim>\<open>__nand_correct_data\<close>: the return value and the buffer.\<close>

definition nand_correct_block :: "u8 list \<Rightarrow> u8 \<times> u8 \<times> u8 \<Rightarrow> u8 \<times> u8 \<times> u8 \<Rightarrow> nat \<Rightarrow> int \<times> u8 list" where
  "nand_correct_block buf read_ecc calc_ecc eccsize =
     (case (read_ecc, calc_ecc) of ((r0, r1, r2), (c0, c1, c2)) \<Rightarrow>
      let eccsize_mult = eccsize div 256;
          b0 = r1 XOR c1;
          b1 = r0 XOR c0;
          b2 = r2 XOR c2
      in if b0 OR b1 OR b2 = 0 then (0, buf)
         else if (b0 XOR drop_bit 1 b0) AND 0x55 = 0x55 \<and> (b1 XOR drop_bit 1 b1) AND 0x55 = 0x55
             \<and> (eccsize_mult = 1 \<and> (b2 XOR drop_bit 1 b2) AND 0x54 = 0x54
                \<or> eccsize_mult = 2 \<and> (b2 XOR drop_bit 1 b2) AND 0x55 = 0x55)
         then let byte_addr = (if eccsize_mult = 1
                               then addressbits ! unat b1 * 16 + addressbits ! unat b0
                               else addressbits ! unat (b2 AND 3) * 256 + addressbits ! unat b1 * 16
                                 + addressbits ! unat b0);
                  bit_addr = addressbits ! unat (drop_bit 2 b2)
              in (1, buf[byte_addr := buf ! byte_addr XOR push_bit bit_addr 1])
         else if bitsperbyte ! unat b0 + bitsperbyte ! unat b1 + bitsperbyte ! unat b2 = 1 then (1, buf)
         else (-1, buf))"

text \<open>\<^verbatim>\<open>nand_correct_data\<close> as it stands: the call to the correction follows a \<^verbatim>\<open>return\<close>.\<close>

definition nand_correct_data :: "u8 list \<Rightarrow> u8 \<times> u8 \<times> u8 \<Rightarrow> u8 \<times> u8 \<times> u8 \<Rightarrow> int \<times> u8 list" where
  "nand_correct_data buf read_ecc calc_ecc = (0, buf)"

section \<open>What the tables hold\<close>

text \<open>
  A table built by doubling: the second half of each step is the first half plus a constant. All
  three tables are of this kind, which gives every entry as a sum over the bits of its index.
\<close>

fun doubled :: "(nat \<Rightarrow> nat) \<Rightarrow> nat \<Rightarrow> nat list" where
  "doubled f 0 = [0]"
| "doubled f (Suc k) = doubled f k @ map ((+) (f k)) (doubled f k)"

lemma length_doubled [simp]: "length (doubled f k) = 2 ^ k"
  by (induction k) auto

lemma bit_add_power:
  fixes m :: nat
  assumes "m < 2 ^ k"
  shows "bit (2 ^ k + m) i \<longleftrightarrow> i = k \<or> bit m i"
proof -
  have "2 ^ k + m = 2 ^ k OR m"
    using bit_less_power [OF _ assms] by (intro disjunctive_add) (auto simp: bit_simps)
  then show ?thesis by (auto simp: bit_simps)
qed

lemma nth_doubled: "n < 2 ^ k \<Longrightarrow> doubled f k ! n = (\<Sum>i<k. if bit n i then f i else 0)"
proof (induction k arbitrary: n)
  case (Suc k)
  show ?case
  proof (cases "n < 2 ^ k")
    case True
    then have "\<not> bit n k" by (simp add: bit_iff_odd)
    with True Suc.IH [of n] show ?thesis by (simp add: nth_append)
  next
    case False
    define m where "m = n - 2 ^ k"
    then have n: "n = 2 ^ k + m" and m: "m < 2 ^ k" using False Suc.prems by auto
    have "(\<Sum>i<k. if bit n i then f i else 0) = (\<Sum>i<k. if bit m i then f i else 0)"
      by (rule sum.cong) (auto simp: n bit_add_power [OF m])
    with n m Suc.IH [OF m] show ?thesis by (simp add: nth_append bit_add_power)
  qed
qed simp

lemma bitsperbyte_doubled: "bitsperbyte = doubled (\<lambda>_. 1) 8"
  by code_simp

lemma invparity_doubled: "invparity = map (\<lambda>n. of_bool (even n)) (doubled (\<lambda>_. 1) 8)"
  by code_simp

lemma addressbits_doubled: "addressbits = doubled (\<lambda>i. if odd i then 2 ^ (i div 2) else 0) 8"
  by code_simp

lemma sum_lt_4: "(\<Sum>i<4. f i) = f 0 + f 1 + f 2 + f (3::nat)" for f :: "nat \<Rightarrow> nat"
  by (simp add: eval_nat_numeral)

lemma sum_lt_8: "(\<Sum>i<8. f i) = f 0 + f 1 + f 2 + f 3 + f 4 + f 5 + f 6 + f (7::nat)" for f :: "nat \<Rightarrow> nat"
  by (simp add: eval_nat_numeral)

lemma all_less_4: "(\<forall>k<4. P k) \<longleftrightarrow> P 0 \<and> P 1 \<and> P 2 \<and> P (3::nat)"
proof -
  have "k < 4 \<longleftrightarrow> k = 0 \<or> k = 1 \<or> k = 2 \<or> k = 3" for k :: nat by linarith
  then show ?thesis by metis
qed

lemma all_less_8: "(\<forall>b<8. P b) \<longleftrightarrow> P 0 \<and> P 1 \<and> P 2 \<and> P 3 \<and> P 4 \<and> P 5 \<and> P 6 \<and> P (7::nat)"
proof -
  have "b < 8 \<longleftrightarrow> b = 0 \<or> b = 1 \<or> b = 2 \<or> b = 3 \<or> b = 4 \<or> b = 5 \<or> b = 6 \<or> b = 7" for b :: nat by linarith
  then show ?thesis by metis
qed

lemma bit_unat: "bit (unat x) i \<longleftrightarrow> bit x i" for x :: "'a::len word"
  by (simp add: bit_simps bit_imp_le_length)

text \<open>Number of bits of a byte, and its parity.\<close>

definition ones :: "'a::len word \<Rightarrow> nat" where
  "ones x = (\<Sum>i<8. of_bool (bit x i))"

lemma bitsperbyte_ones: "bitsperbyte ! unat b = ones b" for b :: u8
  using nth_doubled [of "unat b" 8 "\<lambda>_. 1"] unsigned_less [of b]
  by (simp add: bitsperbyte_doubled ones_def bit_unat of_bool_def)

lemma invpar_parity: "x < 256 \<Longrightarrow> invpar x = of_bool (even (ones x))"
  using nth_doubled [of "unat x" 8 "\<lambda>_. 1"]
  by (simp add: invpar_def invparity_doubled ones_def bit_unat of_bool_def word_less_nat_alt)

lemma addressbits_sum: "addressbits ! unat b = (\<Sum>k<4. if bit b (2 * k + 1) then 2 ^ k else 0)" for b :: u8
proof -
  have "addressbits ! unat b = (\<Sum>i<8. if bit b i then if odd i then 2 ^ (i div 2) else 0 else 0)"
    using nth_doubled [of "unat b" 8 "\<lambda>i. if odd i then 2 ^ (i div 2) else 0"] unsigned_less [of b]
    by (simp add: addressbits_doubled bit_unat)
  also have "\<dots> = (\<Sum>k<4. if bit b (2 * k + 1) then 2 ^ k else 0)"
    unfolding sum_lt_4 sum_lt_8 by simp
  finally show ?thesis .
qed

section \<open>Parities of the data\<close>

text \<open>
  The reference: the parity of the data bits, by byte \<open>n\<close> and bit \<open>b\<close>, that a predicate selects.
\<close>

definition data_parity :: "(nat \<Rightarrow> nat \<Rightarrow> bool) \<Rightarrow> u8 list \<Rightarrow> bool" where
  "data_parity S buf = odd (\<Sum>n<length buf. \<Sum>b<8. of_bool (S n b \<and> bit (buf ! n) b) :: nat)"

lemma odd_sum_xor:
  "odd (\<Sum>i\<in>A. of_bool (p i \<noteq> q i) :: nat) \<longleftrightarrow> odd (\<Sum>i\<in>A. of_bool (p i) :: nat) \<noteq> odd (\<Sum>i\<in>A. of_bool (q i) :: nat)"
  by (induction A rule: infinite_finite_induct) (auto simp del: sum_of_bool_eq)

lemma odd_sum_cong: "(\<And>i. i \<in> A \<Longrightarrow> odd (f i) \<longleftrightarrow> odd (g i)) \<Longrightarrow> odd (sum f A) \<longleftrightarrow> odd (sum g A)"
  for f g :: "'a \<Rightarrow> nat"
  by (induction A rule: infinite_finite_induct) auto

lemma odd_sum2_xor:
  "odd (\<Sum>i\<in>A. \<Sum>j\<in>B. of_bool (p i j \<noteq> q i j) :: nat) \<longleftrightarrow>
     odd (\<Sum>i\<in>A. \<Sum>j\<in>B. of_bool (p i j) :: nat) \<noteq> odd (\<Sum>i\<in>A. \<Sum>j\<in>B. of_bool (q i j) :: nat)"
proof (induction A rule: infinite_finite_induct)
  case (insert x F)
  then show ?case using odd_sum_xor [of "p x" "q x" B] by auto
qed auto

lemma data_parity_xor:
  "data_parity (\<lambda>n b. S n b \<noteq> T n b) buf \<longleftrightarrow> data_parity S buf \<noteq> data_parity T buf"
proof -
  have "((S n b \<noteq> T n b) \<and> x) = ((S n b \<and> x) \<noteq> (T n b \<and> x))" for n b x by blast
  then show ?thesis unfolding data_parity_def by (simp only: odd_sum2_xor)
qed

lemma data_parity_cong:
  "(\<And>n b. n < length buf \<Longrightarrow> b < 8 \<Longrightarrow> S n b = T n b) \<Longrightarrow> data_parity S buf = data_parity T buf"
  unfolding data_parity_def by (intro arg_cong [where f = odd] sum.cong refl) auto

text \<open>Flipping one data bit.\<close>

definition flip_bit_at :: "nat \<times> nat \<Rightarrow> u8 list \<Rightarrow> u8 list" where
  "flip_bit_at p buf = buf[fst p := buf ! fst p XOR push_bit (snd p) 1]"

lemma length_flip [simp]: "length (flip_bit_at p buf) = length buf"
  by (simp add: flip_bit_at_def)

lemma bit_flip_byte: "b < 8 \<Longrightarrow> bit (x XOR push_bit c 1) b = (bit x b \<noteq> (b = c))" for x :: u8
  by (auto simp: bit_simps)

lemma flip_flip: "fst p < length buf \<Longrightarrow> flip_bit_at p (flip_bit_at p buf) = buf"
  by (simp add: flip_bit_at_def xor.assoc)

lemma data_parity_flip:
  assumes "fst p < length buf" "snd p < 8"
  shows "data_parity S (flip_bit_at p buf) \<longleftrightarrow> data_parity S buf \<noteq> S (fst p) (snd p)"
proof -
  obtain n0 b0 where p: "p = (n0, b0)" by (cases p)
  have bits: "(S n b \<and> bit (flip_bit_at p buf ! n) b) = ((S n b \<and> bit (buf ! n) b) \<noteq> (n = n0 \<and> b = b0 \<and> S n b))"
    if "n < length buf" "b < 8" for n b
    using that bit_flip_byte [of b "buf ! n" b0] assms by (auto simp: p flip_bit_at_def nth_list_update)
  have "data_parity S (flip_bit_at p buf) \<longleftrightarrow>
    odd (\<Sum>n<length buf. \<Sum>b<8. of_bool ((S n b \<and> bit (buf ! n) b) \<noteq> (n = n0 \<and> b = b0 \<and> S n b)) :: nat)"
    unfolding data_parity_def length_flip
    by (intro arg_cong [where f = odd] sum.cong refl) (simp add: bits)
  also have "\<dots> \<longleftrightarrow> data_parity S buf \<noteq>
    odd (\<Sum>n<length buf. \<Sum>b<8. of_bool (n = n0 \<and> b = b0 \<and> S n b) :: nat)"
    unfolding odd_sum2_xor data_parity_def ..
  also have "(\<Sum>n<length buf. \<Sum>b<8. of_bool (n = n0 \<and> b = b0 \<and> S n b) :: nat)
    = (\<Sum>n<length buf. if n = n0 then of_bool (S n0 b0) else 0)"
    by (rule sum.cong [OF refl]) (use assms in \<open>auto simp: p of_bool_conj sum.delta\<close>)
  also have "\<dots> = of_bool (S n0 b0)" using assms by (simp add: p)
  finally show ?thesis by (simp add: p)
qed

section \<open>From words to bytes\<close>

lemma bit_bp_word:
  assumes "j < 4" "b < 8"
  shows "bit (bp_word buf k) (8 * j + b) \<longleftrightarrow> bit (buf ! (4 * k + j)) b"
proof -
  have no: "\<not> bit x n" if "8 \<le> n" for x :: u8 and n using that bit_imp_le_length [of x n] by auto
  from assms consider "j = 0" | "j = 1" | "j = 2" | "j = 3" by linarith
  then show ?thesis
    by cases (use assms(2) in \<open>simp_all add: bp_word_def bit_or_iff bit_push_bit_iff bit_ucast_iff no\<close>)
qed

text \<open>The accumulators hold the exclusive or of the words that a predicate selects.\<close>

definition xor_words :: "(nat \<Rightarrow> bool) \<Rightarrow> (nat \<Rightarrow> u32) \<Rightarrow> nat \<Rightarrow> u32" where
  "xor_words K w n = fold (\<lambda>k a. if K k then a XOR w k else a) [0..<n] 0"

definition xor_round :: "(nat \<Rightarrow> bool) \<Rightarrow> (nat \<Rightarrow> u32) \<Rightarrow> u32 \<Rightarrow> u32" where
  "xor_round C w = fold (\<lambda>j a. if C j then a XOR w j else a) [0..<16]"

lemma xor_words_round:
  assumes "\<And>j. j < 16 \<Longrightarrow> K (n + j) = C j"
  shows "xor_words K w (n + 16) = xor_round C (\<lambda>j. w (n + j)) (xor_words K w n)"
proof -
  have "[0..<n + 16] = [0..<n] @ map (\<lambda>j. n + j) [0..<16]"
    using upt_add_eq_append [of 0 n 16] map_add_upt [of n 16] by (simp add: add.commute)
  then have "xor_words K w (n + 16)
      = fold (\<lambda>j a. if K (n + j) then a XOR w (n + j) else a) [0..<16] (xor_words K w n)"
    by (simp add: xor_words_def fold_map comp_def)
  also have "\<dots> = xor_round C (\<lambda>j. w (n + j)) (xor_words K w n)"
    unfolding xor_round_def by (rule fold_cong) (use assms in \<open>auto simp: fun_eq_iff\<close>)
  finally show ?thesis .
qed

lemma upt_16: "[0..<16] = [0, 1, 2, 3, 4, 5, 6, 7, 8, 9, 10, 11, 12, 13, 14, 15::nat]"
  by code_simp

lemma xor_round_const: "xor_round (\<lambda>_. c) w a = (if c then xor_round (\<lambda>_. True) w a else a)"
  by (simp add: xor_round_def upt_16)

lemma xor_round_unroll:
  "xor_round (\<lambda>_. True) w a = a XOR w 0 XOR w 1 XOR w 2 XOR w 3 XOR w 4 XOR w 5 XOR w 6 XOR w 7
     XOR w 8 XOR w 9 XOR w 10 XOR w 11 XOR w 12 XOR w 13 XOR w 14 XOR w 15"
  "xor_round even w a = a XOR w 0 XOR w 2 XOR w 4 XOR w 6 XOR w 8 XOR w 10 XOR w 12 XOR w 14"
  "xor_round (\<lambda>j. even (j div 2)) w a = a XOR w 0 XOR w 1 XOR w 4 XOR w 5 XOR w 8 XOR w 9 XOR w 12 XOR w 13"
  "xor_round (\<lambda>j. even (j div 4)) w a = a XOR w 0 XOR w 1 XOR w 2 XOR w 3 XOR w 8 XOR w 9 XOR w 10 XOR w 11"
  "xor_round (\<lambda>j. even (j div 8)) w a = a XOR w 0 XOR w 1 XOR w 2 XOR w 3 XOR w 4 XOR w 5 XOR w 6 XOR w 7"
  by (simp_all add: xor_round_def upt_16 xor.assoc)

text \<open>The unrolled body is this round, for each accumulator.\<close>

lemma ecc_round_xor:
  "ecc_round m i w st =
     \<lparr> par = xor_round (\<lambda>_. True) w (par st), rp4 = xor_round even w (rp4 st),
       rp6 = xor_round (\<lambda>j. even (j div 2)) w (rp6 st), rp8 = xor_round (\<lambda>j. even (j div 4)) w (rp8 st),
       rp10 = xor_round (\<lambda>j. even (j div 8)) w (rp10 st), rp12 = xor_round (\<lambda>_. even i) w (rp12 st),
       rp14 = xor_round (\<lambda>_. even (i div 2)) w (rp14 st),
       rp16 = xor_round (\<lambda>_. m = 2 \<and> even (i div 4)) w (rp16 st) \<rparr>"
  unfolding xor_round_const [of "even i"] xor_round_const [of "even (i div 2)"]
    xor_round_const [of "m = 2 \<and> even (i div 4)"]
  by (simp only: ecc_round_def Let_def xor_round_unroll xor.assoc even_iff_mod_2_eq_zero [symmetric])

lemma bit_xor_words: "bit (xor_words K w n) i \<longleftrightarrow> odd (\<Sum>k<n. of_bool (K k \<and> bit (w k) i) :: nat)"
  by (induction n) (auto simp: xor_words_def bit_xor_iff simp del: sum_of_bool_eq)

lemma round_div:
  "(16 * n + j) div 2 = 8 * n + j div 2" "(16 * n + j) div 4 = 4 * n + j div 4"
  "(16 * n + j) div 8 = 2 * n + j div 8"
  "j < 16 \<Longrightarrow> (16 * n + j) div 16 = n" "j < 16 \<Longrightarrow> (16 * n + j) div 32 = n div 2"
  "j < 16 \<Longrightarrow> (16 * n + j) div 64 = n div 4" for n j :: nat
  by linarith+

lemma ecc_loop_words:
  "ecc_loop buf m n =
     \<lparr> par = xor_words (\<lambda>k. True) (bp_word buf) (16 * n),
       rp4 = xor_words even (bp_word buf) (16 * n),
       rp6 = xor_words (\<lambda>k. even (k div 2)) (bp_word buf) (16 * n),
       rp8 = xor_words (\<lambda>k. even (k div 4)) (bp_word buf) (16 * n),
       rp10 = xor_words (\<lambda>k. even (k div 8)) (bp_word buf) (16 * n),
       rp12 = xor_words (\<lambda>k. even (k div 16)) (bp_word buf) (16 * n),
       rp14 = xor_words (\<lambda>k. even (k div 32)) (bp_word buf) (16 * n),
       rp16 = xor_words (\<lambda>k. m = 2 \<and> even (k div 64)) (bp_word buf) (16 * n) \<rparr>"
proof (induction n)
  case (Suc n)
  have step: "ecc_loop buf m (Suc n) = ecc_round m n (\<lambda>j. bp_word buf (16 * n + j)) (ecc_loop buf m n)"
    by (simp add: ecc_loop_def)
  have more: "16 * Suc n = 16 * n + 16" by simp
  show ?case
    unfolding step more Suc.IH ecc_round_xor
    by (intro parities.equality) (simp_all add: xor_words_round round_div)
qed (simp add: ecc_loop_def xor_words_def)

section \<open>The code bits are parities\<close>

text \<open>The parity of byte \<open>j\<close> of a word, restricted to the bits of \<open>M\<close>.\<close>

definition byte_parity :: "nat \<Rightarrow> (nat \<Rightarrow> bool) \<Rightarrow> u32 \<Rightarrow> bool" where
  "byte_parity j M x = odd (\<Sum>b<8. of_bool (M b \<and> bit x (8 * j + b)) :: nat)"

lemma sum_residue:
  assumes "j < (4::nat)"
  shows "(\<Sum>n<4 * N. if n mod 4 = j then g n else 0) = (\<Sum>k<N. g (4 * k + j) :: nat)"
proof (induction N)
  case (Suc N)
  have split: "(\<Sum>n<4 * N + 4. f n) = (\<Sum>n<4 * N. f n) + f (4 * N) + f (4 * N + 1) + f (4 * N + 2) + f (4 * N + 3)"
    for f :: "nat \<Rightarrow> nat" by (simp add: eval_nat_numeral)
  have "4 * Suc N = 4 * N + 4" by simp
  moreover have "(4 * N + 1) mod 4 = 1" "(4 * N + 2) mod 4 = 2" "(4 * N + 3) mod 4 = 3" by presburger+
  moreover have "j = 0 \<or> j = 1 \<or> j = 2 \<or> j = 3" using assms by linarith
  ultimately show ?case using Suc by (elim disjE) (simp_all only: split, simp_all)
qed simp

lemma byte_parity_words:
  assumes j: "j < 4" and len: "length buf = 4 * N"
  shows "byte_parity j M (xor_words K (bp_word buf) N) \<longleftrightarrow>
    data_parity (\<lambda>n b. K (n div 4) \<and> n mod 4 = j \<and> M b) buf"
proof -
  let ?f = "\<lambda>k b. of_bool (K k \<and> M b \<and> bit (buf ! (4 * k + j)) b) :: nat"
  have "byte_parity j M (xor_words K (bp_word buf) N) \<longleftrightarrow> odd (\<Sum>b<8. \<Sum>k<N. ?f k b)"
    unfolding byte_parity_def
  proof (rule odd_sum_cong)
    fix b :: nat assume "b \<in> {..<8}"
    then have "bit (bp_word buf k) (8 * j + b) = bit (buf ! (4 * k + j)) b" for k
      by (simp add: bit_bp_word [OF j])
    then show "odd (of_bool (M b \<and> bit (xor_words K (bp_word buf) N) (8 * j + b)) :: nat) = odd (\<Sum>k<N. ?f k b)"
      by (cases "M b") (simp_all add: bit_xor_words del: sum_of_bool_eq)
  qed
  also have "(\<Sum>b<8. \<Sum>k<N. ?f k b) = (\<Sum>k<N. \<Sum>b<8. ?f k b)" by (rule sum.swap)
  also have "\<dots> = (\<Sum>n<4 * N. if n mod 4 = j then \<Sum>b<8. of_bool (K (n div 4) \<and> M b \<and> bit (buf ! n) b) else 0)"
    using j by (subst sum_residue) (auto intro!: sum.cong simp del: sum_of_bool_eq)
  also have "\<dots> = (\<Sum>n<length buf. \<Sum>b<8. of_bool ((K (n div 4) \<and> n mod 4 = j \<and> M b) \<and> bit (buf ! n) b))"
    unfolding len by (rule sum.cong [OF refl]) (auto simp del: sum_of_bool_eq)
  finally show ?thesis unfolding data_parity_def .
qed

lemma bit_and_ff: "bit (x AND 0xff) b \<longleftrightarrow> b < 8 \<and> bit x b" for x :: u32
proof -
  have "(0xff :: u32) = mask 8" by (simp add: mask_eq_exp_minus_1)
  then show ?thesis using bit_imp_possible_bit [of x b] by (auto simp only: bit_and_iff bit_mask_iff)
qed

lemma bit_and_ffff: "bit (x AND 0xffff) b \<longleftrightarrow> b < 16 \<and> bit x b" for x :: u32
proof -
  have "(0xffff :: u32) = mask 16" by (simp add: mask_eq_exp_minus_1)
  then show ?thesis using bit_imp_possible_bit [of x b] by (auto simp only: bit_and_iff bit_mask_iff)
qed

lemma and_ff_less: "x AND 0xff < 256" "x < 256 \<Longrightarrow> x AND m < 256" for x m :: u32
  using word_and_le1 [of x "0xff"] word_and_le2 [of x m] by (auto simp: word_le_less_eq word_less_nat_alt)

lemma ones_cong: "\<forall>b<8. bit x b = p b \<Longrightarrow> ones x = (\<Sum>b<8. of_bool (p b))"
  unfolding ones_def by (intro sum.cong) auto

lemma odd_ones_xor: "odd (ones (x XOR y)) \<longleftrightarrow> odd (ones x) \<noteq> odd (ones y)"
  unfolding ones_def bit_xor_iff odd_sum_xor ..

lemma ones_and_ff: "ones (x AND 0xff) = ones x" for x :: u32
  by (simp add: ones_def bit_and_ff del: sum_of_bool_eq)

abbreviation whole :: "nat \<Rightarrow> u32 \<Rightarrow> bool" where
  "whole j x \<equiv> byte_parity j (\<lambda>_. True) x"

lemma odd_ones_bytes:
  "odd (ones (fold_byte x)) \<longleftrightarrow> (whole 0 x \<noteq> whole 1 x) \<noteq> (whole 2 x \<noteq> whole 3 x)"
  "odd (ones ((drop_bit 16 x XOR drop_bit 8 (drop_bit 16 x)) AND 0xff)) \<longleftrightarrow> whole 2 x \<noteq> whole 3 x"
  "odd (ones (((x AND 0xffff) XOR drop_bit 8 (x AND 0xffff)) AND 0xff)) \<longleftrightarrow> whole 0 x \<noteq> whole 1 x"
  "odd (ones (drop_bit 8 (x XOR drop_bit 16 x) AND 0xff)) \<longleftrightarrow> whole 1 x \<noteq> whole 3 x"
  "odd (ones ((x XOR drop_bit 16 x) AND 0xff)) \<longleftrightarrow> whole 0 x \<noteq> whole 2 x"
proof -
  note eqs = bit_and_ff bit_and_ffff bit_xor_iff bit_drop_bit_eq o_def
  have *: "\<forall>b<8. bit (fold_byte x) b = ((bit x b \<noteq> bit x (8 + b)) \<noteq> (bit x (16 + b) \<noteq> bit x (24 + b)))"
    by (auto simp: fold_byte_def Let_def eqs)
  show "odd (ones (fold_byte x)) \<longleftrightarrow> (whole 0 x \<noteq> whole 1 x) \<noteq> (whole 2 x \<noteq> whole 3 x)"
    unfolding ones_cong [OF *] odd_sum_xor byte_parity_def by simp
  have *: "\<forall>b<8. bit ((drop_bit 16 x XOR drop_bit 8 (drop_bit 16 x)) AND 0xff) b = (bit x (16 + b) \<noteq> bit x (24 + b))"
    by (auto simp: eqs)
  show "odd (ones ((drop_bit 16 x XOR drop_bit 8 (drop_bit 16 x)) AND 0xff)) \<longleftrightarrow> whole 2 x \<noteq> whole 3 x"
    unfolding ones_cong [OF *] odd_sum_xor byte_parity_def by simp
  have *: "\<forall>b<8. bit (((x AND 0xffff) XOR drop_bit 8 (x AND 0xffff)) AND 0xff) b = (bit x b \<noteq> bit x (8 + b))"
    by (auto simp: eqs)
  show "odd (ones (((x AND 0xffff) XOR drop_bit 8 (x AND 0xffff)) AND 0xff)) \<longleftrightarrow> whole 0 x \<noteq> whole 1 x"
    unfolding ones_cong [OF *] odd_sum_xor byte_parity_def by simp
  have *: "\<forall>b<8. bit (drop_bit 8 (x XOR drop_bit 16 x) AND 0xff) b = (bit x (8 + b) \<noteq> bit x (24 + b))"
    by (auto simp: eqs)
  show "odd (ones (drop_bit 8 (x XOR drop_bit 16 x) AND 0xff)) \<longleftrightarrow> whole 1 x \<noteq> whole 3 x"
    unfolding ones_cong [OF *] odd_sum_xor byte_parity_def by simp
  have *: "\<forall>b<8. bit ((x XOR drop_bit 16 x) AND 0xff) b = (bit x b \<noteq> bit x (16 + b))"
    by (auto simp: eqs)
  show "odd (ones ((x XOR drop_bit 16 x) AND 0xff)) \<longleftrightarrow> whole 0 x \<noteq> whole 2 x"
    unfolding ones_cong [OF *] odd_sum_xor byte_parity_def by simp
qed

lemma odd_ones_mask:
  assumes "\<forall>b<8. bit (m :: u32) b = M b"
  shows "odd (ones (fold_byte x AND m)) \<longleftrightarrow>
    (byte_parity 0 M x \<noteq> byte_parity 1 M x) \<noteq> (byte_parity 2 M x \<noteq> byte_parity 3 M x)"
proof -
  have *: "\<forall>b<8. bit (fold_byte x AND m) b = (((M b \<and> bit x b) \<noteq> (M b \<and> bit x (8 + b))) \<noteq>
      ((M b \<and> bit x (16 + b)) \<noteq> (M b \<and> bit x (24 + b))))"
    using assms by (auto simp: fold_byte_def Let_def bit_and_iff [of _ m] bit_and_ff bit_xor_iff bit_drop_bit_eq)
  show ?thesis unfolding ones_cong [OF *] odd_sum_xor byte_parity_def by simp
qed

text \<open>Each of these in terms of the data.\<close>

lemma parity_words:
  assumes len: "length buf = 4 * N" and x: "x = xor_words K (bp_word buf) N"
  shows "odd (ones (fold_byte x)) \<longleftrightarrow> data_parity (\<lambda>n b. K (n div 4)) buf"
  unfolding odd_ones_bytes x by (simp only: byte_parity_words [OF _ len] data_parity_xor [symmetric])
    (rule data_parity_cong; auto)

lemma parity_rows:
  assumes len: "length buf = 4 * N" and x: "x = xor_words (\<lambda>_. True) (bp_word buf) N"
  shows "odd (ones ((drop_bit 16 x XOR drop_bit 8 (drop_bit 16 x)) AND 0xff)) \<longleftrightarrow> data_parity (\<lambda>n b. bit n 1) buf"
    "odd (ones (((x AND 0xffff) XOR drop_bit 8 (x AND 0xffff)) AND 0xff)) \<longleftrightarrow> data_parity (\<lambda>n b. \<not> bit n 1) buf"
    "odd (ones (drop_bit 8 (x XOR drop_bit 16 x) AND 0xff)) \<longleftrightarrow> data_parity (\<lambda>n b. bit n 0) buf"
    "odd (ones ((x XOR drop_bit 16 x) AND 0xff)) \<longleftrightarrow> data_parity (\<lambda>n b. \<not> bit n 0) buf"
proof -
  have bits: "bit n 0 \<longleftrightarrow> n mod 4 = 1 \<or> n mod 4 = 3" "bit n 1 \<longleftrightarrow> n mod 4 = 2 \<or> n mod 4 = 3"
    "n mod 4 = 0 \<or> n mod 4 = 1 \<or> n mod 4 = 2 \<or> n mod 4 = 3" for n :: nat
    by (simp_all add: bit_iff_odd) presburger+
  show "odd (ones ((drop_bit 16 x XOR drop_bit 8 (drop_bit 16 x)) AND 0xff)) \<longleftrightarrow> data_parity (\<lambda>n b. bit n 1) buf"
    unfolding odd_ones_bytes x by (simp only: byte_parity_words [OF _ len] data_parity_xor [symmetric])
      (rule data_parity_cong; use bits in auto)
  show "odd (ones (((x AND 0xffff) XOR drop_bit 8 (x AND 0xffff)) AND 0xff)) \<longleftrightarrow> data_parity (\<lambda>n b. \<not> bit n 1) buf"
    unfolding odd_ones_bytes x by (simp only: byte_parity_words [OF _ len] data_parity_xor [symmetric])
      (rule data_parity_cong; use bits in auto)
  show "odd (ones (drop_bit 8 (x XOR drop_bit 16 x) AND 0xff)) \<longleftrightarrow> data_parity (\<lambda>n b. bit n 0) buf"
    unfolding odd_ones_bytes x by (simp only: byte_parity_words [OF _ len] data_parity_xor [symmetric])
      (rule data_parity_cong; use bits in auto)
  show "odd (ones ((x XOR drop_bit 16 x) AND 0xff)) \<longleftrightarrow> data_parity (\<lambda>n b. \<not> bit n 0) buf"
    unfolding odd_ones_bytes x by (simp only: byte_parity_words [OF _ len] data_parity_xor [symmetric])
      (rule data_parity_cong; use bits in auto)
qed

lemma parity_columns:
  assumes len: "length buf = 4 * N" and x: "x = xor_words (\<lambda>_. True) (bp_word buf) N"
    and m: "\<forall>b<8. bit (m :: u32) b = M b"
  shows "odd (ones (fold_byte x AND m)) \<longleftrightarrow> data_parity (\<lambda>n b. M b) buf"
  unfolding odd_ones_mask [OF m] x by (simp only: byte_parity_words [OF _ len] data_parity_xor [symmetric])
    (rule data_parity_cong; auto)

text \<open>
  The check that bit \<open>j\<close> of the code (bytes 1, 0 and 2, least significant bit first) makes: the row
  parities 0 to 17 look at bit \<open>j div 2\<close> of the byte's index, the column parities at the bit's.
\<close>

definition ecc_check :: "nat \<Rightarrow> nat \<times> nat \<Rightarrow> bool" where
  "ecc_check j p =
     (let v = (if j < 18 then bit (fst p) (j div 2) else bit (snd p) ((j - 18) div 2))
      in if odd j then v else \<not> v)"

definition pack8 :: "bool list \<Rightarrow> u8" where
  "pack8 c = push_bit 7 (of_bool (c ! 7)) OR push_bit 6 (of_bool (c ! 6)) OR push_bit 5 (of_bool (c ! 5))
     OR push_bit 4 (of_bool (c ! 4)) OR push_bit 3 (of_bool (c ! 3)) OR push_bit 2 (of_bool (c ! 2))
     OR push_bit 1 (of_bool (c ! 1)) OR of_bool (c ! 0)"

lemma bit_pack8: "j < 8 \<Longrightarrow> bit (pack8 c) j = c ! j"
proof -
  assume "j < 8"
  then consider "j = 0" | "j = 1" | "j = 2" | "j = 3" | "j = 4" | "j = 5" | "j = 6" | "j = 7" by linarith
  then show ?thesis
    by cases (auto simp: pack8_def bit_or_iff bit_push_bit_iff bit_of_bool_iff)
qed

text \<open>The value the code should have in each bit: the inverted parity of the data that is checked.\<close>

definition code_bit :: "u8 list \<Rightarrow> nat \<Rightarrow> bool" where
  "code_bit buf j \<longleftrightarrow> \<not> data_parity (\<lambda>n b. ecc_check j (n, b)) buf"

lemma invpar_of_bool: "x < 256 \<Longrightarrow> odd (ones x) \<longleftrightarrow> \<not> c \<Longrightarrow> invpar x = of_bool c"
  using invpar_parity [of x] by (cases c) auto

lemma code_bit_row: "2 * i + 1 < 18 \<Longrightarrow> code_bit buf (2 * i + 1) \<longleftrightarrow> \<not> data_parity (\<lambda>n b. bit n i) buf"
  "2 * i < 18 \<Longrightarrow> code_bit buf (2 * i) \<longleftrightarrow> \<not> data_parity (\<lambda>n b. \<not> bit n i) buf"
  by (simp_all add: code_bit_def ecc_check_def)

lemma code_bit_column: "code_bit buf (2 * i + 19) \<longleftrightarrow> \<not> data_parity (\<lambda>n b. bit b i) buf"
  "code_bit buf (2 * i + 18) \<longleftrightarrow> \<not> data_parity (\<lambda>n b. \<not> bit b i) buf"
  by (simp_all add: code_bit_def ecc_check_def)

lemma even_div_bit: "even (n div 4 div 2 ^ k) \<longleftrightarrow> \<not> bit n (k + 2)" for n :: nat
  by (simp add: bit_iff_odd div_mult2_eq power_add mult.commute)

lemma fold_byte_less: "fold_byte x < 256" "(x AND 0xff) < 256" "fold_byte x AND m < 256" for x :: u32
  by (simp_all add: fold_byte_def Let_def and_ff_less)

lemma row_even:
  assumes "length buf = 4 * N" "i < 7" "x = xor_words (\<lambda>k. even (k div 2 ^ i)) (bp_word buf) N"
  shows "invpar (fold_byte x) = of_bool (code_bit buf (2 * (i + 2)))"
proof (rule invpar_of_bool [OF fold_byte_less(1)])
  have "odd (ones (fold_byte x)) = data_parity (\<lambda>n b. even (n div 4 div 2 ^ i)) buf"
    by (rule parity_words [OF assms(1,3)])
  then show "odd (ones (fold_byte x)) \<longleftrightarrow> \<not> code_bit buf (2 * (i + 2))"
    using assms(2) code_bit_row(2) [of "i + 2" buf] by (simp add: even_div_bit)
qed

lemma row_odd:
  assumes "length buf = 4 * N" "i < 7" "x = xor_words (\<lambda>k. even (k div 2 ^ i)) (bp_word buf) N"
    and p: "p = xor_words (\<lambda>_. True) (bp_word buf) N"
  shows "invpar ((fold_byte p XOR fold_byte x) AND 0xff) = of_bool (code_bit buf (2 * (i + 2) + 1))"
proof (rule invpar_of_bool [OF fold_byte_less(2)])
  have "odd (ones (fold_byte x)) = data_parity (\<lambda>n b. even (n div 4 div 2 ^ i)) buf"
    by (rule parity_words [OF assms(1,3)])
  moreover have "odd (ones (fold_byte p)) = data_parity (\<lambda>n b. True) buf"
    by (rule parity_words [OF assms(1) p])
  ultimately have "odd (ones (fold_byte p XOR fold_byte x))
      = data_parity (\<lambda>n b. True \<noteq> even (n div 4 div 2 ^ i)) buf"
    unfolding odd_ones_xor data_parity_xor by simp
  then show "odd (ones ((fold_byte p XOR fold_byte x) AND 0xff)) \<longleftrightarrow> \<not> code_bit buf (2 * (i + 2) + 1)"
    using assms(2) code_bit_row(1) [of "i + 2" buf] by (simp add: even_div_bit ones_and_ff)
qed

lemma rows_low:
  assumes "length buf = 4 * N" "x = xor_words (\<lambda>_. True) (bp_word buf) N"
  shows "invpar ((drop_bit 16 x XOR drop_bit 8 (drop_bit 16 x)) AND 0xff) = of_bool (code_bit buf 3)"
    "invpar (((x AND 0xffff) XOR drop_bit 8 (x AND 0xffff)) AND 0xff) = of_bool (code_bit buf 2)"
    "invpar (drop_bit 8 (x XOR drop_bit 16 x) AND 0xff) = of_bool (code_bit buf 1)"
    "invpar ((x XOR drop_bit 16 x) AND 0xff) = of_bool (code_bit buf 0)"
  using code_bit_row [of 1 buf] code_bit_row [of 0 buf]
  by (intro invpar_of_bool fold_byte_less; simp only: parity_rows [OF assms]; simp)+

lemma columns:
  assumes "length buf = 4 * N" "x = xor_words (\<lambda>_. True) (bp_word buf) N"
  shows "invpar (fold_byte x AND 0xf0) = of_bool (code_bit buf 23)"
    "invpar (fold_byte x AND 0x0f) = of_bool (code_bit buf 22)"
    "invpar (fold_byte x AND 0xcc) = of_bool (code_bit buf 21)"
    "invpar (fold_byte x AND 0x33) = of_bool (code_bit buf 20)"
    "invpar (fold_byte x AND 0xaa) = of_bool (code_bit buf 19)"
    "invpar (fold_byte x AND 0x55) = of_bool (code_bit buf 18)"
proof -
  have col: "invpar (fold_byte x AND m) = of_bool (code_bit buf j)"
    if "\<forall>b<8. bit m b = M b" "code_bit buf j \<longleftrightarrow> \<not> data_parity (\<lambda>n b. M b) buf" for m M j
    using that parity_columns [OF assms that(1)] by (intro invpar_of_bool fold_byte_less) simp
  show "invpar (fold_byte x AND 0xf0) = of_bool (code_bit buf 23)"
    by (rule col [where M = "\<lambda>b. bit b 2"]) (use code_bit_column(1) [of buf 2] in \<open>simp_all add: all_less_8 bit_0 bit_Suc_0_iff\<close>)
  show "invpar (fold_byte x AND 0x0f) = of_bool (code_bit buf 22)"
    by (rule col [where M = "\<lambda>b. \<not> bit b 2"]) (use code_bit_column(2) [of buf 2] in \<open>simp_all add: all_less_8 bit_0 bit_Suc_0_iff\<close>)
  show "invpar (fold_byte x AND 0xcc) = of_bool (code_bit buf 21)"
    by (rule col [where M = "\<lambda>b. bit b 1"]) (use code_bit_column(1) [of buf 1] in \<open>simp_all add: all_less_8 bit_0 bit_Suc_0_iff\<close>)
  show "invpar (fold_byte x AND 0x33) = of_bool (code_bit buf 20)"
    by (rule col [where M = "\<lambda>b. \<not> bit b 1"]) (use code_bit_column(2) [of buf 1] in \<open>simp_all add: all_less_8 bit_0 bit_Suc_0_iff\<close>)
  show "invpar (fold_byte x AND 0xaa) = of_bool (code_bit buf 19)"
    by (rule col [where M = "\<lambda>b. bit b 0"]) (use code_bit_column(1) [of buf 0] in \<open>simp_all add: all_less_8 bit_0 bit_Suc_0_iff\<close>)
  show "invpar (fold_byte x AND 0x55) = of_bool (code_bit buf 18)"
    by (rule col [where M = "\<lambda>b. \<not> bit b 0"]) (use code_bit_column(2) [of buf 0] in \<open>simp_all add: all_less_8 bit_0 bit_Suc_0_iff\<close>)
qed

lemma rows_high:
  assumes "length buf = 4 * N" "p = xor_words (\<lambda>_. True) (bp_word buf) N"
  shows
    "invpar (fold_byte (xor_words even (bp_word buf) N)) = of_bool (code_bit buf 4)"
    "invpar (fold_byte (xor_words (\<lambda>k. even (k div 2)) (bp_word buf) N)) = of_bool (code_bit buf 6)"
    "invpar (fold_byte (xor_words (\<lambda>k. even (k div 4)) (bp_word buf) N)) = of_bool (code_bit buf 8)"
    "invpar (fold_byte (xor_words (\<lambda>k. even (k div 8)) (bp_word buf) N)) = of_bool (code_bit buf 10)"
    "invpar (fold_byte (xor_words (\<lambda>k. even (k div 16)) (bp_word buf) N)) = of_bool (code_bit buf 12)"
    "invpar (fold_byte (xor_words (\<lambda>k. even (k div 32)) (bp_word buf) N)) = of_bool (code_bit buf 14)"
    "invpar (fold_byte (xor_words (\<lambda>k. even (k div 64)) (bp_word buf) N)) = of_bool (code_bit buf 16)"
    "invpar ((fold_byte p XOR fold_byte (xor_words even (bp_word buf) N)) AND 0xff) = of_bool (code_bit buf 5)"
    "invpar ((fold_byte p XOR fold_byte (xor_words (\<lambda>k. even (k div 2)) (bp_word buf) N)) AND 0xff) = of_bool (code_bit buf 7)"
    "invpar ((fold_byte p XOR fold_byte (xor_words (\<lambda>k. even (k div 4)) (bp_word buf) N)) AND 0xff) = of_bool (code_bit buf 9)"
    "invpar ((fold_byte p XOR fold_byte (xor_words (\<lambda>k. even (k div 8)) (bp_word buf) N)) AND 0xff) = of_bool (code_bit buf 11)"
    "invpar ((fold_byte p XOR fold_byte (xor_words (\<lambda>k. even (k div 16)) (bp_word buf) N)) AND 0xff) = of_bool (code_bit buf 13)"
    "invpar ((fold_byte p XOR fold_byte (xor_words (\<lambda>k. even (k div 32)) (bp_word buf) N)) AND 0xff) = of_bool (code_bit buf 15)"
    "invpar ((fold_byte p XOR fold_byte (xor_words (\<lambda>k. even (k div 64)) (bp_word buf) N)) AND 0xff) = of_bool (code_bit buf 17)"
  using row_even [OF assms(1) _ refl, of 0] row_even [OF assms(1) _ refl, of 1] row_even [OF assms(1) _ refl, of 2]
    row_even [OF assms(1) _ refl, of 3] row_even [OF assms(1) _ refl, of 4] row_even [OF assms(1) _ refl, of 5]
    row_even [OF assms(1) _ refl, of 6] row_odd [OF assms(1) _ refl assms(2), of 0]
    row_odd [OF assms(1) _ refl assms(2), of 1] row_odd [OF assms(1) _ refl assms(2), of 2]
    row_odd [OF assms(1) _ refl assms(2), of 3] row_odd [OF assms(1) _ refl assms(2), of 4]
    row_odd [OF assms(1) _ refl assms(2), of 5] row_odd [OF assms(1) _ refl assms(2), of 6]
  by simp_all

lemma ecc_block_pack:
  assumes size: "eccsize = 256 \<or> eccsize = 512" and buf: "length buf = eccsize"
  shows "nand_calculate_ecc_block buf eccsize =
    (pack8 (map (code_bit buf) [8..<16]), pack8 (map (code_bit buf) [0..<8]),
     pack8 ((if eccsize = 256 then [True, True] else map (code_bit buf) [16, 17]) @ map (code_bit buf) [18..<24]))"
proof -
  define m N p where "m = eccsize div 256" and "N = 16 * (m * 4)"
    and "p = xor_words (\<lambda>_. True) (bp_word buf) N"
  have len: "length buf = 4 * N" using buf size by (auto simp: m_def N_def)
  have upts: "[8..<16] = [8, 9, 10, 11, 12, 13, 14, 15::nat]" "[0..<8] = [0, 1, 2, 3, 4, 5, 6, 7::nat]"
    "[18..<24] = [18, 19, 20, 21, 22, 23::nat]" by code_simp+
  have par: "((p XOR drop_bit 16 p) XOR drop_bit 8 (p XOR drop_bit 16 p)) AND 0xff = fold_byte p"
    by (simp only: fold_byte_def Let_def)
  have three: "x OR 3 = x OR push_bit 1 (of_bool True) OR of_bool True" for x :: u8 by simp
  note calc = nand_calculate_ecc_block_def Let_def m_def [symmetric] ecc_loop_words N_def [symmetric]
      parities.simps p_def [symmetric] par
  note eqs = rows_high [OF len p_def] rows_low [OF len p_def] columns [OF len p_def]
  from size have "m = 1 \<and> eccsize = 256 \<or> m = 2 \<and> eccsize = 512" by (auto simp: m_def)
  then show ?thesis
  proof (elim disjE conjE)
    assume "m = 1" "eccsize = 256"
    moreover from this have "(m = 1) = True" "(m = 2) = False" "(eccsize = 256) = True" by simp_all
    ultimately show ?thesis
      unfolding calc pack8_def upts by (simp only: eqs three list.map append.simps nth_Cons_0 if_True) (simp add: or.assoc)
  next
    assume "m = 2" "eccsize = 512"
    then have "(m = 1) = False" "(m = 2) = True" "(eccsize = 256) = False" by simp_all
    then show ?thesis
      unfolding calc pack8_def upts by (simp only: eqs list.map append.simps if_True if_False simp_thms push_bit_0_id id_apply)
        (simp add: or.assoc)
  qed
qed

text \<open>The bits of a code of three bytes, in the order of the checks.\<close>

fun ecc_bit :: "u8 \<times> u8 \<times> u8 \<Rightarrow> nat \<Rightarrow> bool" where
  "ecc_bit (c0, c1, c2) j = (if j < 8 then bit c1 j else if j < 16 then bit c0 (j - 8) else bit c2 (j - 16))"

text \<open>The checks in use: a block of 256 bytes leaves the two of index bit 8 out.\<close>

definition checked :: "nat \<Rightarrow> nat \<Rightarrow> bool" where
  "checked eccsize j \<longleftrightarrow> j < 24 \<and> (eccsize = 256 \<longrightarrow> j \<noteq> 16 \<and> j \<noteq> 17)"

lemma ecc_bit_block:
  assumes "eccsize = 256 \<or> eccsize = 512" "length buf = eccsize" "j < 24"
  shows "ecc_bit (nand_calculate_ecc_block buf eccsize) j \<longleftrightarrow> \<not> checked eccsize j \<or> code_bit buf j"
proof -
  consider "j < 8" | "8 \<le> j" "j < 16" | "j = 16 \<or> j = 17" | "18 \<le> j" using assms(3) by linarith
  then show ?thesis
  proof cases
    case 3
    then show ?thesis by (auto simp: ecc_block_pack [OF assms(1,2)] bit_pack8 checked_def)
  qed (use assms(3) in \<open>auto simp: ecc_block_pack [OF assms(1,2)] bit_pack8 checked_def nth_append simp del: upt_rec_numeral\<close>)
qed

lemma code_bit_flip:
  assumes "fst p < length buf" "snd p < 8"
  shows "code_bit (flip_bit_at p buf) j \<longleftrightarrow> code_bit buf j \<noteq> ecc_check j p"
  unfolding code_bit_def data_parity_flip [OF assms] by auto

lemma pairs_55: "(x XOR drop_bit 1 x) AND 0x55 = 0x55 \<longleftrightarrow> (\<forall>k<4. bit x (2 * k) \<noteq> bit x (2 * k + 1))" for x :: u8
proof -
  have "(x XOR drop_bit 1 x) AND 0x55 = 0x55 \<longleftrightarrow> (\<forall>b<8. bit ((x XOR drop_bit 1 x) AND 0x55) b = bit (0x55::u8) b)"
    by (auto intro: bit_word_eqI)
  also have "\<dots> \<longleftrightarrow> (\<forall>k<4. bit x (2 * k) \<noteq> bit x (2 * k + 1))"
    unfolding all_less_4 all_less_8
    by (simp add: bit_and_iff bit_xor_iff bit_drop_bit_eq bit_0 numeral_3_eq_3 [symmetric] even_drop_bit_iff_not_bit even_and_iff even_xor_iff)
  finally show ?thesis .
qed

lemma pairs_54: "(x XOR drop_bit 1 x) AND 0x54 = 0x54 \<longleftrightarrow> (\<forall>k<4. 0 < k \<longrightarrow> bit x (2 * k) \<noteq> bit x (2 * k + 1))" for x :: u8
proof -
  have "(x XOR drop_bit 1 x) AND 0x54 = 0x54 \<longleftrightarrow> (\<forall>b<8. bit ((x XOR drop_bit 1 x) AND 0x54) b = bit (0x54::u8) b)"
    by (auto intro: bit_word_eqI)
  also have "\<dots> \<longleftrightarrow> (\<forall>k<4. 0 < k \<longrightarrow> bit x (2 * k) \<noteq> bit x (2 * k + 1))"
    unfolding all_less_4 all_less_8
    by (simp add: bit_and_iff bit_xor_iff bit_drop_bit_eq bit_0 numeral_3_eq_3 [symmetric] even_drop_bit_iff_not_bit even_and_iff even_xor_iff)
  finally show ?thesis .
qed

lemma sum_bits: "(\<Sum>k<w. if bit n k then 2 ^ k else 0) = n mod 2 ^ w" for n :: nat
  using take_bit_sum [of w n]
  by (simp add: take_bit_eq_mod lessThan_atLeast0 push_bit_eq_mult of_bool_def if_distrib cong: if_cong)

section \<open>Correction from the syndrome\<close>

definition syndrome :: "u8 \<times> u8 \<times> u8 \<Rightarrow> u8 \<times> u8 \<times> u8 \<Rightarrow> nat \<Rightarrow> bool" where
  "syndrome r c j \<longleftrightarrow> ecc_bit r j \<noteq> ecc_bit c j"

lemma bit_u8_less: "bit x n \<Longrightarrow> n < 8" for x :: u8
  using bit_imp_le_length [of x n] by simp

lemma syndrome_bytes:
  assumes "r = (r0, r1, r2)" "c = (c0, c1, c2)"
  shows "j < 8 \<Longrightarrow> bit (r1 XOR c1) j = syndrome r c j"
    "j < 8 \<Longrightarrow> bit (r0 XOR c0) j = syndrome r c (8 + j)"
    "bit (r2 XOR c2) j = syndrome r c (16 + j)"
  using assms by (auto simp: syndrome_def bit_xor_iff)

lemma addressbits_index:
  fixes x :: u8
  assumes "\<forall>k<4. bit x (2 * k + 1) = bit v k"
  shows "addressbits ! unat x = v mod 16"
  using assms sum_bits [where w = 4 and n = v] by (simp add: addressbits_sum)

lemma ones_total:
  assumes "r = (r0, r1, r2)" "c = (c0, c1, c2)"
  shows "ones (r1 XOR c1) + ones (r0 XOR c0) + ones (r2 XOR c2) = (\<Sum>j<24. of_bool (syndrome r c j))"
proof -
  have "(\<Sum>j<24. f j) = (\<Sum>j<8. f j) + (\<Sum>j<8. f (8 + j)) + (\<Sum>j<8. f (16 + j))" for f :: "nat \<Rightarrow> nat"
    unfolding sum_lt_8 by (simp add: eval_nat_numeral)
  then show ?thesis unfolding ones_def using syndrome_bytes [OF assms] by (simp del: sum_of_bool_eq)
qed

lemma syndrome_zero:
  assumes "r = (r0, r1, r2)" "c = (c0, c1, c2)"
  shows "(r1 XOR c1) OR (r0 XOR c0) OR (r2 XOR c2) = 0 \<longleftrightarrow> (\<forall>j<24. \<not> syndrome r c j)"
proof -
  have "(r1 XOR c1) OR (r0 XOR c0) OR (r2 XOR c2) = 0 \<longleftrightarrow>
    (\<forall>j<8. \<not> bit (r1 XOR c1) j \<and> \<not> bit (r0 XOR c0) j \<and> \<not> bit (r2 XOR c2) j)"
    using bit_u8_less by (auto simp: bit_eq_iff bit_or_iff simp del: bit_xor_iff)
  also have "\<dots> \<longleftrightarrow> (\<forall>j<8. \<not> syndrome r c j \<and> \<not> syndrome r c (8 + j) \<and> \<not> syndrome r c (16 + j))"
    using syndrome_bytes [OF assms] by simp
  also have "\<dots> \<longleftrightarrow> (\<forall>j<24. \<not> syndrome r c j)"
  proof
    assume *: "\<forall>j<8. \<not> syndrome r c j \<and> \<not> syndrome r c (8 + j) \<and> \<not> syndrome r c (16 + j)"
    show "\<forall>j<24. \<not> syndrome r c j"
    proof (intro allI impI)
      fix j :: nat assume "j < 24"
      then consider "j < 8" | "8 \<le> j" "j - 8 < 8" | "16 \<le> j" "j - 16 < 8" by linarith
      then show "\<not> syndrome r c j"
      proof cases
        case 2 then show ?thesis using *[rule_format, of "j - 8"] by simp
      next
        case 3 then show ?thesis using *[rule_format, of "j - 16"] by simp
      qed (use * in blast)
    qed
  qed simp
  finally show ?thesis .
qed

text \<open>The pattern of one wrong data bit: in every pair of checks in use exactly one fails.\<close>

lemma single_pattern:
  assumes "r = (r0, r1, r2)" "c = (c0, c1, c2)"
  shows "((r1 XOR c1) XOR drop_bit 1 (r1 XOR c1)) AND 0x55 = 0x55 \<longleftrightarrow> (\<forall>k<4. syndrome r c (2 * k) \<noteq> syndrome r c (2 * k + 1))"
    "((r0 XOR c0) XOR drop_bit 1 (r0 XOR c0)) AND 0x55 = 0x55 \<longleftrightarrow> (\<forall>k<4. syndrome r c (2 * k + 8) \<noteq> syndrome r c (2 * k + 9))"
    "((r2 XOR c2) XOR drop_bit 1 (r2 XOR c2)) AND 0x55 = 0x55 \<longleftrightarrow> (\<forall>k<4. syndrome r c (2 * k + 16) \<noteq> syndrome r c (2 * k + 17))"
    "((r2 XOR c2) XOR drop_bit 1 (r2 XOR c2)) AND 0x54 = 0x54 \<longleftrightarrow> (\<forall>k<4. 0 < k \<longrightarrow> syndrome r c (2 * k + 16) \<noteq> syndrome r c (2 * k + 17))"
  unfolding pairs_55 pairs_54 using syndrome_bytes [OF assms] by (simp_all add: add.commute)

text \<open>The decision of the correction, in terms of the syndrome.\<close>

lemma correct_block_syndrome:
  assumes r: "r = (r0, r1, r2)" "c = (c0, c1, c2)"
  shows "nand_correct_block buf r c eccsize =
    (if \<forall>j<24. \<not> syndrome r c j then (0, buf)
     else if (\<forall>k<4. syndrome r c (2 * k) \<noteq> syndrome r c (2 * k + 1))
         \<and> (\<forall>k<4. syndrome r c (2 * k + 8) \<noteq> syndrome r c (2 * k + 9))
         \<and> (eccsize div 256 = 1 \<and> (\<forall>k<4. 0 < k \<longrightarrow> syndrome r c (2 * k + 16) \<noteq> syndrome r c (2 * k + 17))
            \<or> eccsize div 256 = 2 \<and> (\<forall>k<4. syndrome r c (2 * k + 16) \<noteq> syndrome r c (2 * k + 17)))
     then (1, flip_bit_at
            ((if eccsize div 256 = 1 then 0 else addressbits ! unat ((r2 XOR c2) AND 3) * 256)
               + addressbits ! unat (r0 XOR c0) * 16 + addressbits ! unat (r1 XOR c1),
             addressbits ! unat (drop_bit 2 (r2 XOR c2))) buf)
     else if (\<Sum>j<24. of_bool (syndrome r c j)) = (1::nat) then (1, buf)
     else (-1, buf))"
  unfolding ones_total [OF r, symmetric] syndrome_zero [OF r, symmetric] single_pattern [OF r, symmetric]
  unfolding nand_correct_block_def r prod.case Let_def bitsperbyte_ones flip_bit_at_def
  by (simp only: if_distrib [where f = "\<lambda>x. x + _"] add_0 fst_conv snd_conv cong: if_cong)

text \<open>The syndrome of one wrong bit at \<open>(n, b)\<close> spells the address out.\<close>

definition points_at :: "nat \<Rightarrow> u8 \<times> u8 \<times> u8 \<Rightarrow> u8 \<times> u8 \<times> u8 \<Rightarrow> nat \<times> nat \<Rightarrow> bool" where
  "points_at eccsize r c p \<longleftrightarrow> (\<forall>j<24. syndrome r c j \<longleftrightarrow> checked eccsize j \<and> ecc_check j p)"

lemma points_at_row:
  assumes "points_at eccsize r c (n, b)" "k < 8 \<or> k = 8 \<and> eccsize = 512"
  shows "syndrome r c (2 * k) \<longleftrightarrow> \<not> bit n k" "syndrome r c (2 * k + 1) \<longleftrightarrow> bit n k"
  using assms by (auto simp: points_at_def checked_def ecc_check_def)

lemma points_at_column:
  assumes "points_at eccsize r c (n, b)" "k < 3"
  shows "syndrome r c (2 * k + 18) \<longleftrightarrow> \<not> bit b k" "syndrome r c (2 * k + 19) \<longleftrightarrow> bit b k"
  using assms by (auto simp: points_at_def checked_def ecc_check_def)

lemma points_at_byte:
  assumes pt: "points_at eccsize r c (n, b)" and r: "r = (r0, r1, r2)" "c = (c0, c1, c2)"
  shows "addressbits ! unat (r1 XOR c1) = n mod 16" "addressbits ! unat (r0 XOR c0) = n div 16 mod 16"
    "eccsize = 512 \<Longrightarrow> addressbits ! unat ((r2 XOR c2) AND 3) = n div 256 mod 2"
proof -
  note sb = syndrome_bytes [OF r] and row = points_at_row [OF pt]
  show "addressbits ! unat (r1 XOR c1) = n mod 16"
    by (rule addressbits_index) (use row sb(1) in simp)
  show "addressbits ! unat (r0 XOR c0) = n div 16 mod 16"
  proof (rule addressbits_index, intro allI impI)
    fix k :: nat assume "k < 4"
    then have "bit (r0 XOR c0) (2 * k + 1) = syndrome r c (2 * (k + 4) + 1)" using sb(2) [of "2 * k + 1"] by simp
    also have "\<dots> = bit n (k + 4)" using row(2) [of "k + 4"] \<open>k < 4\<close> by simp
    also have "\<dots> = bit (n div 16) k" by (simp add: bit_iff_odd power_add mult.commute flip: div_mult2_eq)
    finally show "bit (r0 XOR c0) (2 * k + 1) = bit (n div 16) k" .
  qed
  assume 512: "eccsize = 512"
  have "bit ((r2 XOR c2) AND 3) (2 * k + 1) \<longleftrightarrow> k = 0 \<and> bit n 8" if "k < 4" for k
  proof -
    have "(3::u8) = mask 2" by (simp add: mask_eq_exp_minus_1)
    then have "bit ((r2 XOR c2) AND 3) (2 * k + 1) \<longleftrightarrow> k = 0 \<and> bit (r2 XOR c2) 1"
      by (auto simp add: bit_and_iff bit_mask_iff bit_1_iff simp del: bit_xor_iff)
    also have "bit (r2 XOR c2) 1 = bit n 8" using sb(3) [of 1] row(2) [of 8] 512 by simp
    finally show ?thesis .
  qed
  from this [of 0] this [of 1] this [of 2] this [of 3]
  have "addressbits ! unat ((r2 XOR c2) AND 3) = of_bool (bit n 8)"
    unfolding addressbits_sum sum_lt_4 by simp
  then show "addressbits ! unat ((r2 XOR c2) AND 3) = n div 256 mod 2"
    by (simp add: bit_iff_odd of_bool_odd_eq_mod_2)
qed

lemma points_at_bit:
  assumes pt: "points_at eccsize r c (n, b)" and r: "r = (r0, r1, r2)" "c = (c0, c1, c2)" and b: "b < 8"
  shows "addressbits ! unat (drop_bit 2 (r2 XOR c2)) = b"
proof -
  have "addressbits ! unat (drop_bit 2 (r2 XOR c2)) = b mod 16"
  proof (rule addressbits_index, intro allI impI)
    fix k :: nat assume "k < 4"
    have "bit (drop_bit 2 (r2 XOR c2)) (2 * k + 1) = bit (r2 XOR c2) (2 * k + 3)"
      unfolding bit_drop_bit_eq o_def by (simp add: numeral_3_eq_3)
    also have "\<dots> = bit b k"
    proof (cases "k < 3")
      case True
      then show ?thesis using syndrome_bytes(3) [OF r, of "2 * k + 3"] points_at_column(2) [OF pt True] by (simp add: add.commute)
    next
      case False
      then have "k = 3" using \<open>k < 4\<close> by simp
      then show ?thesis using bit_u8_less [of "r2 XOR c2" 9] bit_less_power [of b 3 3] b by auto
    qed
    finally show "bit (drop_bit 2 (r2 XOR c2)) (2 * k + 1) = bit b k" .
  qed
  then show ?thesis using b by simp
qed

lemma points_at_pattern:
  assumes pt: "points_at eccsize r c (n, b)"
  shows "\<forall>k<4. syndrome r c (2 * k) \<noteq> syndrome r c (2 * k + 1)"
    "\<forall>k<4. syndrome r c (2 * k + 8) \<noteq> syndrome r c (2 * k + 9)"
    "\<forall>k<4. 0 < k \<longrightarrow> syndrome r c (2 * k + 16) \<noteq> syndrome r c (2 * k + 17)"
    "eccsize = 512 \<Longrightarrow> \<forall>k<4. syndrome r c (2 * k + 16) \<noteq> syndrome r c (2 * k + 17)"
  unfolding all_less_4
  using points_at_row [OF pt, of 0] points_at_row [OF pt, of 1] points_at_row [OF pt, of 2]
    points_at_row [OF pt, of 3] points_at_row [OF pt, of 4] points_at_row [OF pt, of 5]
    points_at_row [OF pt, of 6] points_at_row [OF pt, of 7] points_at_row [OF pt, of 8]
    points_at_column [OF pt, of 0] points_at_column [OF pt, of 1] points_at_column [OF pt, of 2]
  by (simp_all del: bit_0)

lemma correct_single:
  assumes size: "eccsize = 256 \<or> eccsize = 512" and p: "n < eccsize" "b < 8"
    and pt: "points_at eccsize r c (n, b)"
  shows "nand_correct_block buf r c eccsize = (1, flip_bit_at (n, b) buf)"
proof -
  obtain r0 r1 r2 c0 c1 c2 where r: "r = (r0, r1, r2)" "c = (c0, c1, c2)" by (cases r, cases c) blast
  note pat = points_at_pattern [OF pt]
  have "syndrome r c 0 \<or> syndrome r c 1" using pat(1) [rule_format, of 0] by auto
  then have nz: "\<not> (\<forall>j<24. \<not> syndrome r c j)" by force
  have addr: "n div 256 * 256 + n div 16 mod 16 * 16 + n mod 16 = n"
  proof -
    have "n div 256 = n div 16 div 16" by (simp flip: div_mult2_eq)
    then show ?thesis using div_mult_mod_eq [of "n div 16" 16] div_mult_mod_eq [of n 16] by linarith
  qed
  note byte = points_at_byte [OF pt r] and bit = points_at_bit [OF pt r p(2)]
  from size show ?thesis
    unfolding correct_block_syndrome [OF r]
    using nz pat p(1) addr byte bit by (elim disjE) simp_all
qed

text \<open>Checks that fail in pairs: the block is not touched, and the result is an error.\<close>

lemma correct_paired:
  assumes pair: "\<forall>k<12. syndrome r c (2 * k) = syndrome r c (2 * k + 1)" and ex: "j < 24" "syndrome r c j"
  shows "nand_correct_block buf r c eccsize = (-1, buf)"
proof -
  obtain r0 r1 r2 c0 c1 c2 where r: "r = (r0, r1, r2)" "c = (c0, c1, c2)" by (cases r, cases c) blast
  have np: "\<not> (\<forall>k<4. syndrome r c (2 * k) \<noteq> syndrome r c (2 * k + 1))"
    using pair by (auto intro!: exI [of _ 0])
  have "(\<Sum>j<24. of_bool (syndrome r c j) :: nat)
      = (\<Sum>k<12. of_bool (syndrome r c (2 * k)) + of_bool (syndrome r c (2 * k + 1)))"
    by (simp add: eval_nat_numeral del: sum_of_bool_eq)
  also have "\<dots> = (\<Sum>k<12. 2 * of_bool (syndrome r c (2 * k)))"
    using pair by (intro sum.cong) auto
  finally have "even (\<Sum>j<24. of_bool (syndrome r c j) :: nat)"
    by (simp add: sum_distrib_left [symmetric] del: sum_of_bool_eq)
  then have one: "(\<Sum>j<24. of_bool (syndrome r c j)) \<noteq> (1::nat)" by (metis odd_one)
  have nz: "\<not> (\<forall>j<24. \<not> syndrome r c j)" using ex by blast
  show ?thesis unfolding correct_block_syndrome [OF r]
    by (subst if_not_P [OF nz], subst if_not_P, use np in blast, subst if_not_P [OF one], rule refl)
qed

text \<open>A single failing check is a wrong bit of the stored code: the block is right as it is.\<close>

lemma correct_code_bit:
  assumes j: "j < 24" and syn: "\<forall>i<24. syndrome r c i \<longleftrightarrow> i = j"
  shows "nand_correct_block buf r c eccsize = (1, buf)"
proof -
  obtain r0 r1 r2 c0 c1 c2 where r: "r = (r0, r1, r2)" "c = (c0, c1, c2)" by (cases r, cases c) blast
  have np: "\<not> (\<forall>k<4. syndrome r c (2 * k) \<noteq> syndrome r c (2 * k + 1))"
  proof
    assume "\<forall>k<4. syndrome r c (2 * k) \<noteq> syndrome r c (2 * k + 1)"
    from this [rule_format, of 0] this [rule_format, of 1] show False
      using syn by auto
  qed
  have "(\<Sum>i<24. of_bool (syndrome r c i) :: nat) = (\<Sum>i<24. if i = j then 1 else 0)"
    using syn by (intro sum.cong) auto
  also have "\<dots> = 1" using j by simp
  finally show ?thesis
    unfolding correct_block_syndrome [OF r] using np j syn by (auto simp del: sum_of_bool_eq)
qed

section \<open>The contract of a parity code\<close>

text \<open>
  What a code made of parity checks promises: flipping one data bit changes exactly the checks
  that look at it, and different positions are looked at by different checks. A reader of the code
  can then tell a wrong bit from its position, and two wrong bits never cancel out. The bits of the
  code in use are \<open>inuse\<close>.
\<close>

locale parity_code =
  fixes flip :: "'p \<Rightarrow> 'd \<Rightarrow> 'd"
    and positions :: "'d \<Rightarrow> 'p set"
    and code :: "'d \<Rightarrow> nat \<Rightarrow> bool"
    and check :: "nat \<Rightarrow> 'p \<Rightarrow> bool"
    and inuse :: "nat set"
  assumes code_flip: "p \<in> positions d \<Longrightarrow> j \<in> inuse \<Longrightarrow> code (flip p d) j \<longleftrightarrow> code d j \<noteq> check j p"
    and positions_flip: "positions (flip p d) = positions d"
    and check_differs: "p \<in> positions d \<Longrightarrow> q \<in> positions d \<Longrightarrow> p \<noteq> q \<Longrightarrow> \<exists>j\<in>inuse. check j p \<noteq> check j q"
begin

lemma single: "p \<in> positions d \<Longrightarrow> j \<in> inuse \<Longrightarrow> code d j \<noteq> code (flip p d) j \<longleftrightarrow> check j p"
  by (auto simp: code_flip)

lemma double:
  "p \<in> positions d \<Longrightarrow> q \<in> positions d \<Longrightarrow> j \<in> inuse \<Longrightarrow>
     code d j \<noteq> code (flip p (flip q d)) j \<longleftrightarrow> check j p \<noteq> check j q"
  by (auto simp: code_flip positions_flip)

lemma single_locates:
  assumes "p \<in> positions d" "q \<in> positions d" "\<And>j. j \<in> inuse \<Longrightarrow> code (flip p d) j = code (flip q d) j"
  shows "p = q"
  using check_differs [OF assms(1,2)] assms by (fastforce simp: code_flip)

lemma double_seen:
  assumes "p \<in> positions d" "q \<in> positions d" "p \<noteq> q"
  shows "\<exists>j\<in>inuse. code d j \<noteq> code (flip p (flip q d)) j"
  using check_differs [OF assms] double [OF assms(1,2)] by blast

end

definition block_positions :: "nat \<Rightarrow> u8 list \<Rightarrow> (nat \<times> nat) set" where
  "block_positions eccsize buf = {p. length buf = eccsize \<and> fst p < eccsize \<and> snd p < 8}"

lemma ecc_check_differs:
  assumes size: "eccsize = 256 \<or> eccsize = 512" and p: "p \<in> block_positions eccsize d" "q \<in> block_positions eccsize d"
    and ne: "p \<noteq> q"
  shows "\<exists>j\<in>{j. checked eccsize j}. ecc_check j p \<noteq> ecc_check j q"
proof (cases "fst p = fst q")
  case False
  define w :: nat where "w = (if eccsize = 256 then 8 else 9)"
  have lt: "fst p < 2 ^ w" "fst q < 2 ^ w" using p size by (auto simp: block_positions_def w_def)
  obtain k where k: "bit (fst p) k \<noteq> bit (fst q) k" using False by (auto simp: bit_eq_iff)
  then have "k < w" using bit_less_power lt by blast
  then show ?thesis using k size by (intro bexI [of _ "2 * k + 1"]) (auto simp: ecc_check_def checked_def w_def split: if_splits)
next
  case True
  then have "snd p \<noteq> snd q" using ne by (auto simp: prod_eq_iff)
  then obtain k where k: "bit (snd p) k \<noteq> bit (snd q) k" by (auto simp: bit_eq_iff)
  moreover have "snd p < 2 ^ 3" "snd q < 2 ^ 3" using p by (auto simp: block_positions_def)
  ultimately have "k < 3" using bit_less_power by blast
  then show ?thesis using k size by (intro bexI [of _ "2 * k + 19"]) (auto simp: ecc_check_def checked_def)
qed

lemma nand_parity_code:
  assumes size: "eccsize = 256 \<or> eccsize = 512"
  shows "parity_code flip_bit_at (block_positions eccsize) (\<lambda>d. ecc_bit (nand_calculate_ecc_block d eccsize))
    ecc_check {j. checked eccsize j}"
proof
  fix p d j assume p: "p \<in> block_positions eccsize d" and j: "j \<in> {j. checked eccsize j}"
  have len: "length d = eccsize" "fst p < length d" "snd p < 8" using p by (auto simp: block_positions_def)
  have "j < 24" using j by (simp add: checked_def)
  then show "ecc_bit (nand_calculate_ecc_block (flip_bit_at p d) eccsize) j
      \<longleftrightarrow> ecc_bit (nand_calculate_ecc_block d eccsize) j \<noteq> ecc_check j p"
    using j len code_bit_flip [OF len(2,3)] by (simp add: ecc_bit_block [OF size])
next
  show "block_positions eccsize (flip_bit_at p d) = block_positions eccsize d" for p d
    by (simp add: block_positions_def)
qed (rule ecc_check_differs [OF size])

interpretation nand256: parity_code flip_bit_at "block_positions 256"
    "\<lambda>d. ecc_bit (nand_calculate_ecc_block d 256)" ecc_check "{j. checked 256 j}"
  by (rule nand_parity_code) simp

interpretation nand512: parity_code flip_bit_at "block_positions 512"
    "\<lambda>d. ecc_bit (nand_calculate_ecc_block d 512)" ecc_check "{j. checked 512 j}"
  by (rule nand_parity_code) simp

lemma unchecked_equal:
  assumes "eccsize = 256 \<or> eccsize = 512" "length d = eccsize" "length d' = eccsize" "j < 24" "\<not> checked eccsize j"
  shows "\<not> syndrome (nand_calculate_ecc_block d eccsize) (nand_calculate_ecc_block d' eccsize) j"
  using ecc_bit_block [OF assms(1,2,4)] ecc_bit_block [OF assms(1,3,4)] assms(5) by (simp add: syndrome_def)

lemma points_at_flip:
  assumes size: "eccsize = 256 \<or> eccsize = 512" and p: "p \<in> block_positions eccsize d"
  shows "points_at eccsize (nand_calculate_ecc_block d eccsize) (nand_calculate_ecc_block (flip_bit_at p d) eccsize) p"
  unfolding points_at_def
proof (intro allI impI)
  fix j :: nat assume "j < 24"
  then show "syndrome (nand_calculate_ecc_block d eccsize) (nand_calculate_ecc_block (flip_bit_at p d) eccsize) j
      \<longleftrightarrow> checked eccsize j \<and> ecc_check j p"
    using unchecked_equal [OF size, of d "flip_bit_at p d" j] p parity_code.single [OF nand_parity_code [OF size] p, of j]
    by (cases "checked eccsize j") (auto simp: block_positions_def syndrome_def)
qed

section \<open>Properties of the code\<close>

text \<open>
  C33: the optimised routine computes the code it is meant to compute. For a block of 256 or 512
  bytes, bit \<open>j\<close> of the three bytes is the inverted parity of exactly the data bits that check \<open>j\<close>
  covers: those whose byte index (or bit index, for the last six) has the bit \<open>j div 2\<close> clear, for
  even \<open>j\<close>, or set, for odd \<open>j\<close>. The two checks a small block does not need read 1.
\<close>

theorem nand_ecc_reference:
  assumes "eccsize = 256 \<or> eccsize = 512" "length buf = eccsize" "j < 24"
  shows "ecc_bit (snd (nand_calculate_ecc eccsize buf)) j \<longleftrightarrow>
    (if eccsize = 256 \<and> (j = 16 \<or> j = 17) then True
     else \<not> data_parity (\<lambda>n b. if j < 18 then bit n (j div 2) = odd j else bit b ((j - 18) div 2) = odd j) buf)"
proof -
  have "(\<lambda>n b. ecc_check j (n, b)) = (\<lambda>n b. if j < 18 then bit n (j div 2) = odd j else bit b ((j - 18) div 2) = odd j)"
    by (auto simp: ecc_check_def fun_eq_iff)
  then show ?thesis
    using ecc_bit_block [OF assms] assms(3) by (auto simp: nand_calculate_ecc_def code_bit_def checked_def)
qed

theorem nand_ecc_reference_witness:
  "ecc_bit (snd (nand_calculate_ecc 256 (replicate 256 0))) 3 \<longleftrightarrow>
     \<not> data_parity (\<lambda>n b. bit n 1 = True) (replicate 256 (0::u8))"
  using nand_ecc_reference [of 256 "replicate 256 0" 3] by simp

text \<open>
  C32: one wrong bit is repaired. Whatever bit of the block is flipped after its code was stored,
  the correction routine, given the stored code and the code of what was read, reports one
  correction and gives back the original block.
\<close>

theorem nand_ecc_corrects:
  assumes "eccsize = 256 \<or> eccsize = 512" "length buf = eccsize" "n < eccsize" "b < 8"
  shows "nand_correct_block (flip_bit_at (n, b) buf) (nand_calculate_ecc_block buf eccsize)
      (nand_calculate_ecc_block (flip_bit_at (n, b) buf) eccsize) eccsize = (1, buf)"
proof -
  have "(n, b) \<in> block_positions eccsize buf" using assms by (simp add: block_positions_def)
  from points_at_flip [OF assms(1) this] show ?thesis
    using correct_single [OF assms(1,3,4)] flip_flip [of "(n, b)" buf] assms(2,3) by simp
qed

theorem nand_ecc_corrects_witness:
  "nand_correct_block (flip_bit_at (300, 5) (replicate 512 0xa5)) (nand_calculate_ecc_block (replicate 512 0xa5) 512)
     (nand_calculate_ecc_block (flip_bit_at (300, 5) (replicate 512 0xa5)) 512) 512 = (1, replicate 512 0xa5)"
  by (rule nand_ecc_corrects) simp_all

text \<open>
  C34: two wrong bits are never taken for one. Whatever two different bits of the block are
  flipped, the correction routine reports an uncorrectable error and leaves the block alone.
\<close>

theorem nand_ecc_detects_double:
  assumes size: "eccsize = 256 \<or> eccsize = 512" and p: "p \<in> block_positions eccsize buf" "q \<in> block_positions eccsize buf"
    and ne: "p \<noteq> q"
  shows "nand_correct_block (flip_bit_at p (flip_bit_at q buf)) (nand_calculate_ecc_block buf eccsize)
      (nand_calculate_ecc_block (flip_bit_at p (flip_bit_at q buf)) eccsize) eccsize
    = (-1, flip_bit_at p (flip_bit_at q buf))"
proof -
  let ?d = "flip_bit_at p (flip_bit_at q buf)"
  let ?r = "nand_calculate_ecc_block buf eccsize" and ?c = "nand_calculate_ecc_block ?d eccsize"
  have len: "length buf = eccsize" "length ?d = eccsize" using p by (auto simp: block_positions_def)
  have syn: "syndrome ?r ?c j \<longleftrightarrow> checked eccsize j \<and> ecc_check j p \<noteq> ecc_check j q" if "j < 24" for j
    using unchecked_equal [OF size len that] parity_code.double [OF nand_parity_code [OF size] p, of j]
    by (cases "checked eccsize j") (auto simp: syndrome_def)
  obtain j where "checked eccsize j" "ecc_check j p \<noteq> ecc_check j q"
    using ecc_check_differs [OF size p ne] by blast
  moreover from this have "j < 24" by (simp add: checked_def)
  moreover have "syndrome ?r ?c (2 * k) = syndrome ?r ?c (2 * k + 1)" if "k < 12" for k
  proof -
    have "checked eccsize (2 * k) = checked eccsize (2 * k + 1)" using that by (auto simp: checked_def)
    moreover have "(2 * k - 17) div 2 = (2 * k - 18) div 2" if "\<not> k < 9"
    proof -
      obtain i where "k = 9 + i" using \<open>\<not> k < 9\<close> by (metis le_Suc_ex not_less)
      then show ?thesis by simp
    qed
    then have "ecc_check (2 * k + 1) x \<longleftrightarrow> \<not> ecc_check (2 * k) x" for x
      by (auto simp: ecc_check_def)
    ultimately show ?thesis using that by (auto simp: syn)
  qed
  ultimately show ?thesis using syn by (intro correct_paired [of _ _ j]) auto
qed

theorem nand_ecc_detects_double_witness:
  "fst (nand_correct_block (flip_bit_at (0, 1) (flip_bit_at (255, 7) (replicate 256 0)))
     (nand_calculate_ecc_block (replicate 256 0) 256)
     (nand_calculate_ecc_block (flip_bit_at (0, 1) (flip_bit_at (255, 7) (replicate 256 0))) 256) 256) = -1"
  using nand_ecc_detects_double [of 256 "(0, 1)" "replicate 256 0" "(255, 7)"] by (simp add: block_positions_def)

text \<open>
  A block that was read without an error is reported as such, and a wrong bit in the stored
  code alone is recognised: in both cases the block is not touched.
\<close>

theorem nand_ecc_clean:
  assumes "j < 24" "\<forall>i<24. ecc_bit stored i \<longleftrightarrow> ecc_bit (nand_calculate_ecc_block buf eccsize) i \<noteq> (i = j)"
  shows "nand_correct_block buf (nand_calculate_ecc_block buf eccsize) (nand_calculate_ecc_block buf eccsize) eccsize = (0, buf)
     \<and> nand_correct_block buf stored (nand_calculate_ecc_block buf eccsize) eccsize = (1, buf)"
proof -
  obtain c0 c1 c2 where c: "nand_calculate_ecc_block buf eccsize = (c0, c1, c2)" by (cases "nand_calculate_ecc_block buf eccsize")
  have "nand_correct_block buf (nand_calculate_ecc_block buf eccsize) (nand_calculate_ecc_block buf eccsize) eccsize = (0, buf)"
    unfolding correct_block_syndrome [OF c c] by (simp add: syndrome_def)
  moreover have "nand_correct_block buf stored (nand_calculate_ecc_block buf eccsize) eccsize = (1, buf)"
    using assms by (intro correct_code_bit [of j]) (auto simp: syndrome_def)
  ultimately show ?thesis ..
qed

lemma ecc_bit_flip_first:
  "\<forall>i<24. ecc_bit (c0, c1 XOR 1, c2) i \<longleftrightarrow> ecc_bit (c0, c1, c2) i \<noteq> (i = 0)"
  by (auto simp: bit_xor_iff bit_1_iff)

theorem nand_ecc_clean_witness:
  "case nand_calculate_ecc_block (replicate 256 0) 256 of (c0, c1, c2) \<Rightarrow>
     nand_correct_block (replicate 256 0) (c0, c1 XOR 1, c2) (c0, c1, c2) 256 = (1, replicate 256 0)"
proof -
  obtain c0 c1 c2 where c: "nand_calculate_ecc_block (replicate 256 0) 256 = (c0, c1, c2)"
    by (cases "nand_calculate_ecc_block (replicate 256 0) 256")
  from nand_ecc_clean [of 0 "(c0, c1 XOR 1, c2)" "replicate 256 0" 256] show ?thesis
    using ecc_bit_flip_first [of c0 c1 c2] by (simp add: c)
qed

text \<open>
  The entry point of the correction is switched off: \<^verbatim>\<open>nand_correct_data\<close> returns 0 before it
  calls the routine, so a block with one wrong bit is reported as read without an error and stays
  wrong.
\<close>

theorem nand_correct_data_disabled:
  assumes "n < length buf" "b < 8"
  shows "nand_correct_data (flip_bit_at (n, b) buf) stored calculated = (0, flip_bit_at (n, b) buf)
     \<and> flip_bit_at (n, b) buf \<noteq> buf"
proof -
  have "bit (flip_bit_at (n, b) buf ! n) b \<noteq> bit (buf ! n) b"
    using assms bit_flip_byte [of b "buf ! n" b] by (simp add: flip_bit_at_def)
  then show ?thesis by (auto simp: nand_correct_data_def)
qed

theorem nand_correct_data_disabled_witness:
  "nand_correct_data (flip_bit_at (0, 0) [5]) (0, 0, 0) (0, 0, 0) = (0, flip_bit_at (0, 0) [5])
     \<and> flip_bit_at (0, 0) [5] \<noteq> [5]"
  by (rule nand_correct_data_disabled) simp_all

end
