(* ===== verification/Image.thy ===== *)
theory Image
  imports NandEcc
begin

text \<open>
  Recognition of boot images, \<^verbatim>\<open>lib/extra/image.c\<close>: magic numbers at fixed offsets, and for a YAFFS1
  image the error-correcting code of the tags in the spare area.
\<close>

section \<open>The tags\<close>

text \<open>
  \<^verbatim>\<open>YAFFS_TAGS_UNION\<close>: eight bytes, which the compiler also lays out as the bit fields \<^verbatim>\<open>chunkId\<close>
  (20 bits), \<^verbatim>\<open>serialNumber\<close> (2), \<^verbatim>\<open>byteCount\<close> (10), \<^verbatim>\<open>objectId\<close> (18), \<^verbatim>\<open>ecc\<close> (12) and
  \<^verbatim>\<open>unusedStuff\<close> (2), from the least significant bit up. Byte \<open>i\<close> holds the bits from \<open>8 * i\<close> on.
\<close>

type_synonym YAFFS_TAGS = "64 word"

definition asBytes :: "YAFFS_TAGS \<Rightarrow> nat \<Rightarrow> u8" where
  "asBytes tags i = ucast (drop_bit (8 * i) tags)"

definition tags_ecc :: "YAFFS_TAGS \<Rightarrow> u32" where
  "tags_ecc tags = ucast (take_bit 12 (drop_bit 50 tags))"

definition set_tags_ecc :: "YAFFS_TAGS \<Rightarrow> u32 \<Rightarrow> YAFFS_TAGS" where
  "set_tags_ecc tags e =
     (tags AND NOT (push_bit 50 (mask 12))) OR push_bit 50 (take_bit 12 (ucast e))"

definition flip_tags_bit :: "YAFFS_TAGS \<Rightarrow> nat \<Rightarrow> nat \<Rightarrow> YAFFS_TAGS" where
  "flip_tags_bit tags byte_no bit_no = tags XOR push_bit (8 * byte_no + bit_no) 1"

text \<open>
  \<^verbatim>\<open>yaffs_calc_tags_ecc\<close>: \<^verbatim>\<open>j\<close> runs over the powers \<open>2 ^ k\<close> below 256 and \<^verbatim>\<open>bit\<close> counts the bits seen.
\<close>

definition yaffs_ecc_loop :: "YAFFS_TAGS \<Rightarrow> u32 \<times> u32" where
  "yaffs_ecc_loop tags =
     fold (\<lambda>i st. fold (\<lambda>k (ecc, nbit).
         let nbit = nbit + 1
         in (if bit (asBytes tags i) k then ecc XOR nbit else ecc, nbit)) [0..<8] st)
       [0..<8] (0, 0)"

definition yaffs_calc_tags_ecc :: "YAFFS_TAGS \<Rightarrow> YAFFS_TAGS" where
  "yaffs_calc_tags_ecc tags =
     (let tags = set_tags_ecc tags 0;
          ecc = fst (yaffs_ecc_loop tags)
      in set_tags_ecc tags ecc)"

definition yaffs_check_ecc_ontags :: "YAFFS_TAGS \<Rightarrow> int \<times> YAFFS_TAGS" where
  "yaffs_check_ecc_ontags tags =
     (let ecc = tags_ecc tags;
          tags = yaffs_calc_tags_ecc tags;
          ecc = ecc XOR tags_ecc tags
      in if ecc \<noteq> 0 \<and> ecc \<le> 64
         then let ecc = ecc - 1;
                  tags = flip_tags_bit tags (unat (ecc div 8)) (unat (ecc AND 7))
              in (1, yaffs_calc_tags_ecc tags)
         else if ecc \<noteq> 0 then (-1, tags)
         else (0, tags))"

section \<open>Detection\<close>

text \<open>The non-empty entries of \<^verbatim>\<open>g_yaffs_oob.free_region\<close>, offset and length.\<close>

definition yaffs_free_region :: "(nat \<times> nat) list" where
  "yaffs_free_region = [(0, 4), (6, 2), (11, 2)]"

abbreviation (input) YAFFS_OOB_SIZE :: nat where "YAFFS_OOB_SIZE \<equiv> 16"

definition tags_of_bytes :: "u8 list \<Rightarrow> YAFFS_TAGS" where
  "tags_of_bytes bs = foldr (\<lambda>b t. push_bit 8 t OR ucast b) (take 8 bs) 0"

text \<open>\<^verbatim>\<open>check_yaffs1_image\<close>: \<open>buf\<close> is the data at the pointer it is given.\<close>

definition check_yaffs1_image :: "(nat \<Rightarrow> u8) \<Rightarrow> bool" where
  "check_yaffs1_image buf =
     (let copied = concat (map (\<lambda>(offset, len). map (\<lambda>k. buf (offset + k)) [0..<len]) yaffs_free_region);
          free_oob_buff = copied @ replicate (YAFFS_OOB_SIZE - length copied) 0;
          (ret, _) = yaffs_check_ecc_ontags (tags_of_bytes free_oob_buff)
      in \<not> ret < 0)"

datatype image_t = IMG_UNKNOWN | IMG_GTH | IMG_GBH | IMG_UEFI | IMG_UBOOT | IMG_LINUX | IMG_WITOS
  | IMG_MSWIN | IMG_ANDROID | IMG_INITRD | IMG_JFFS2 | IMG_YAFFS1 | IMG_YAFFS2 | IMG_CRAMFS
  | IMG_UBIFS | IMG_NTFS | IMG_FAT | IMG_MAX

definition GTH_MAGIC :: u32 where
  "GTH_MAGIC = push_bit 24 71 OR push_bit 16 66 OR push_bit 8 19 OR 104"

definition GBH_MAGIC :: u32 where
  "GBH_MAGIC = push_bit 24 71 OR push_bit 16 66 OR push_bit 8 1 OR 104"

definition LINUX_MAGIC :: u32 where "LINUX_MAGIC = 0x016f2818"
definition JFFS2_MAGIC :: u16 where "JFFS2_MAGIC = 0x1985"
definition UBIFS_MAGIC :: u32 where "UBIFS_MAGIC = 0x06101831"

definition load32 :: "(nat \<Rightarrow> u8) \<Rightarrow> nat \<Rightarrow> u32" where
  "load32 data p = ucast (data p) OR push_bit 8 (ucast (data (p + 1)))
     OR push_bit 16 (ucast (data (p + 2))) OR push_bit 24 (ucast (data (p + 3)))"

definition load16 :: "(nat \<Rightarrow> u8) \<Rightarrow> nat \<Rightarrow> u16" where
  "load16 data p = ucast (data p) OR push_bit 8 (ucast (data (p + 1)))"

definition image_type_detect :: "(nat \<Rightarrow> u8) \<Rightarrow> image_t" where
  "image_type_detect data =
     (if GTH_MAGIC = load32 data 32 then IMG_GTH
      else if GBH_MAGIC = load32 data 32 then IMG_GBH
      else if LINUX_MAGIC = load32 data 0x24 then IMG_LINUX
      else if JFFS2_MAGIC = load16 data 0 then IMG_JFFS2
      else if UBIFS_MAGIC = load32 data 0 then IMG_UBIFS
      else if check_yaffs1_image (\<lambda>k. data (YAFFS_OOB_SIZE + k)) then IMG_YAFFS1
      else IMG_UNKNOWN)"

section \<open>The code of the tags\<close>

text \<open>The exclusive or of the positions, counted from one, of the bits that are set.\<close>

definition position_xor :: "YAFFS_TAGS \<Rightarrow> nat \<Rightarrow> u32" where
  "position_xor tags n = fold (\<lambda>p e. if bit tags p then e XOR of_nat (p + 1) else e) [0..<n] 0"

lemma bit_asBytes: "k < 8 \<Longrightarrow> bit (asBytes tags i) k \<longleftrightarrow> bit tags (8 * i + k)"
  by (simp add: asBytes_def bit_simps)

lemma position_xor_Suc:
  "position_xor tags (Suc n) = (if bit tags n then position_xor tags n XOR of_nat (n + 1) else position_xor tags n)"
  by (simp add: position_xor_def)

lemma ecc_inner:
  "m \<le> 8 \<Longrightarrow> fold (\<lambda>k (ecc, nbit). let nbit = nbit + 1
         in (if bit (asBytes tags i) k then ecc XOR nbit else ecc, nbit)) [0..<m]
       (position_xor tags (8 * i), of_nat (8 * i))
     = (position_xor tags (8 * i + m), of_nat (8 * i + m))"
  by (induction m) (auto simp: bit_asBytes position_xor_Suc Let_def ac_simps)

lemma ecc_outer:
  "fold (\<lambda>i st. fold (\<lambda>k (ecc, nbit). let nbit = nbit + 1
         in (if bit (asBytes tags i) k then ecc XOR nbit else ecc, nbit)) [0..<8] st) [0..<n]
       (position_xor tags 0, of_nat 0)
     = (position_xor tags (8 * n), of_nat (8 * n))"
proof (induction n)
  case (Suc n)
  have "8 * Suc n = 8 * n + 8" by simp
  with Suc ecc_inner [of 8 tags n] show ?case by (simp add: add.commute del: upt_rec_numeral)
qed simp

lemma yaffs_ecc_loop_eq: "fst (yaffs_ecc_loop tags) = position_xor tags 64"
  using ecc_outer [of tags 8] by (simp add: yaffs_ecc_loop_def position_xor_def [of tags 0] del: upt_rec_numeral)

lemma bit_position_xor:
  "n \<le> 64 \<Longrightarrow> bit (position_xor tags n) j \<longleftrightarrow> odd (\<Sum>p<n. of_bool (bit tags p \<and> bit (p + 1) j) :: nat)"
proof (induction n)
  case (Suc n)
  have "bit (of_nat (n + 1) :: u32) j \<longleftrightarrow> bit (n + 1) j"
    using Suc.prems bit_less_power [of "n + 1" j 32] by (auto simp: bit_of_nat_iff simp del: of_nat_add of_nat_Suc)
  with Suc show ?case by (auto simp: position_xor_Suc bit_xor_iff simp del: sum_of_bool_eq of_nat_Suc)
qed (simp add: position_xor_def)

text \<open>The positions outside the \<^verbatim>\<open>ecc\<close> field, and a flip of one of them.\<close>

definition tag_positions :: "nat set" where
  "tag_positions = {p. p < 50 \<or> 62 \<le> p \<and> p < 64}"

definition flip_tag :: "nat \<Rightarrow> YAFFS_TAGS \<Rightarrow> YAFFS_TAGS" where
  "flip_tag p tags = tags XOR push_bit p 1"

definition tags_code :: "YAFFS_TAGS \<Rightarrow> u32" where
  "tags_code tags = position_xor (set_tags_ecc tags 0) 64"

lemma bit_set_tags_ecc:
  "n < 64 \<Longrightarrow> bit (set_tags_ecc tags e) n \<longleftrightarrow> (if 50 \<le> n \<and> n < 62 then bit e (n - 50) else bit tags n)"
  by (auto simp: set_tags_ecc_def bit_simps)

lemma bit_flip_tag: "n < 64 \<Longrightarrow> bit (flip_tag p tags) n \<longleftrightarrow> bit tags n \<noteq> (n = p)"
  by (auto simp: flip_tag_def bit_simps)

lemma bit_tags_ecc: "bit (tags_ecc tags) j \<longleftrightarrow> j < 12 \<and> bit tags (50 + j)"
  by (auto simp: tags_ecc_def bit_simps dest: bit_imp_le_length)

lemma bit_tags_code: "bit (tags_code tags) j \<longleftrightarrow> odd (\<Sum>p<64. of_bool (bit (set_tags_ecc tags 0) p \<and> bit (p + 1) j) :: nat)"
  unfolding tags_code_def by (rule bit_position_xor) simp

lemma tags_code_flip:
  assumes p: "p \<in> tag_positions"
  shows "bit (tags_code (flip_tag p tags)) j \<longleftrightarrow> bit (tags_code tags) j \<noteq> bit (p + 1) j"
proof -
  have "bit (set_tags_ecc (flip_tag p tags) 0) n \<longleftrightarrow> bit (set_tags_ecc tags 0) n \<noteq> (n = p)" if "n < 64" for n
    using p that by (auto simp: bit_set_tags_ecc bit_flip_tag tag_positions_def)
  then have "bit (tags_code (flip_tag p tags)) j \<longleftrightarrow>
      odd (\<Sum>n<64. of_bool ((bit (set_tags_ecc tags 0) n \<and> bit (n + 1) j) \<noteq> (n = p \<and> bit (n + 1) j)) :: nat)"
    unfolding bit_tags_code by (intro arg_cong [where f = odd] sum.cong) auto
  also have "\<dots> \<longleftrightarrow> bit (tags_code tags) j \<noteq> odd (\<Sum>n<64. of_bool (n = p \<and> bit (n + 1) j) :: nat)"
    unfolding odd_sum_xor bit_tags_code ..
  also have "(\<Sum>n<64. of_bool (n = p \<and> bit (n + 1) j) :: nat) = (\<Sum>n<64. if n = p then of_bool (bit (p + 1) j) else 0)"
    by (rule sum.cong) auto
  also have "\<dots> = of_bool (bit (p + 1) j)" using p by (auto simp: tag_positions_def)
  finally show ?thesis by simp
qed

interpretation yaffs: parity_code flip_tag "\<lambda>_. tag_positions" "\<lambda>tags. bit (tags_code tags)"
    "\<lambda>j p. bit (p + 1) j" "{..<7}"
proof
  fix p q :: nat and d :: YAFFS_TAGS
  assume pq: "p \<in> tag_positions" "q \<in> tag_positions" "p \<noteq> q"
  then obtain j where j: "bit (p + 1) j \<noteq> bit (q + 1) j" by (metis add_right_cancel bit_eq_iff)
  have "p + 1 < 2 ^ 7" "q + 1 < 2 ^ 7" using pq by (auto simp: tag_positions_def)
  with j show "\<exists>j\<in>{..<7}. bit (p + 1) j \<noteq> bit (q + 1) j" using bit_less_power by blast
qed (auto simp: tags_code_flip)

lemma tags_code_less:
  assumes "bit (tags_code tags) j"
  shows "j < 7"
proof (rule ccontr)
  assume "\<not> j < 7"
  then have "\<not> bit (p + 1) j" if "p < 64" for p :: nat
    using bit_less_power [of "p + 1" j 7] that by auto
  then have "(\<Sum>p<64. of_bool (bit (set_tags_ecc tags 0) p \<and> bit (p + 1) j) :: nat) = 0"
    by (intro sum.neutral) auto
  then show False using assms unfolding bit_tags_code by simp
qed

lemma calc_tags: "yaffs_calc_tags_ecc tags = set_tags_ecc tags (tags_code tags)"
  unfolding yaffs_calc_tags_ecc_def Let_def yaffs_ecc_loop_eq tags_code_def
  by (rule bit_word_eqI) (auto simp: bit_set_tags_ecc)

lemma tags_ecc_calc: "tags_ecc (yaffs_calc_tags_ecc tags) = tags_code tags"
proof (rule bit_word_eqI)
  show "bit (tags_ecc (yaffs_calc_tags_ecc tags)) n = bit (tags_code tags) n" for n
    using tags_code_less [of tags n] by (auto simp: calc_tags bit_tags_ecc bit_set_tags_ecc)
qed

lemma tags_code_set: "tags_code (set_tags_ecc tags e) = tags_code tags"
proof -
  have "set_tags_ecc (set_tags_ecc tags e) 0 = set_tags_ecc tags 0"
    by (rule bit_word_eqI) (auto simp: bit_set_tags_ecc)
  then show ?thesis by (simp add: tags_code_def)
qed

lemma flip_tags_bit_flip: "flip_tags_bit tags (p div 8) (p mod 8) = flip_tag p tags"
  by (simp add: flip_tags_bit_def flip_tag_def)

lemma calc_tags_cong:
  assumes "\<And>n. n \<in> tag_positions \<Longrightarrow> bit x n = bit tags n"
  shows "yaffs_calc_tags_ecc x = yaffs_calc_tags_ecc tags"
proof -
  have set: "set_tags_ecc x e = set_tags_ecc tags e" for e
    by (rule bit_word_eqI) (use assms in \<open>auto simp: bit_set_tags_ecc tag_positions_def\<close>)
  then show ?thesis by (simp add: calc_tags tags_code_def)
qed

lemma unat_and_7: "unat (x AND 7) = unat x mod 8" for x :: u32
proof -
  have "(7::u32) = mask 3" by (simp add: mask_eq_exp_minus_1)
  then have "x AND 7 = take_bit 3 x" by (simp add: take_bit_eq_mask)
  then show ?thesis by (simp add: take_bit_eq_mod unat_mod)
qed

text \<open>The difference of two codes that a flip at \<open>p\<close> makes is the position itself.\<close>

lemma code_difference:
  assumes "p \<in> tag_positions"
  shows "tags_code tags XOR tags_code (flip_tag p tags) = of_nat (p + 1)"
proof (rule bit_word_eqI)
  fix j assume "j < LENGTH(32)"
  then show "bit (tags_code tags XOR tags_code (flip_tag p tags)) j = bit (of_nat (p + 1) :: u32) j"
    using yaffs.single [OF assms, where d = tags and j = j] tags_code_less [of tags j]
      tags_code_less [of "flip_tag p tags" j] bit_less_power [of "p + 1" j 7] assms
    by (auto simp: bit_xor_iff bit_of_nat_iff tag_positions_def simp del: of_nat_add of_nat_Suc)
qed

lemma tags_repaired:
  assumes p: "p \<in> tag_positions"
  shows "yaffs_check_ecc_ontags (flip_tag p (yaffs_calc_tags_ecc tags)) = (1, yaffs_calc_tags_ecc tags)"
proof -
  let ?t = "yaffs_calc_tags_ecc tags"
  let ?d = "flip_tag p ?t"
  have code: "tags_code ?t = tags_code tags" by (simp add: calc_tags tags_code_set)
  have "tags_ecc ?d = tags_ecc ?t"
    by (rule bit_word_eqI) (use p in \<open>auto simp: bit_tags_ecc bit_flip_tag tag_positions_def\<close>)
  then have ecc: "tags_ecc ?d XOR tags_ecc (yaffs_calc_tags_ecc ?d) = of_nat (p + 1)"
    using code_difference [OF p, of ?t] by (simp add: tags_ecc_calc code)
  have p64: "p < 64" using p by (auto simp: tag_positions_def)
  then have small: "(of_nat (p + 1) :: u32) \<noteq> 0" "(of_nat (p + 1) :: u32) \<le> 64"
    by (simp_all add: word_le_nat_alt unat_of_nat of_nat_neq_0 del: of_nat_Suc of_nat_add)
  have idx: "unat ((of_nat (p + 1) - 1 :: u32) div 8) = p div 8" "unat ((of_nat (p + 1) - 1 :: u32) AND 7) = p mod 8"
    using p64 by (simp_all add: unat_div unat_of_nat unat_and_7)
  have "yaffs_check_ecc_ontags ?d = (1, yaffs_calc_tags_ecc (flip_tag p (yaffs_calc_tags_ecc ?d)))"
    unfolding yaffs_check_ecc_ontags_def Let_def ecc idx flip_tags_bit_flip using small by simp
  moreover have "yaffs_calc_tags_ecc (flip_tag p (yaffs_calc_tags_ecc ?d)) = ?t"
    by (rule calc_tags_cong) (use p in \<open>auto simp: bit_flip_tag bit_set_tags_ecc calc_tags tag_positions_def\<close>)
  ultimately show ?thesis by simp
qed


section \<open>Properties of the tags and the detection\<close>

text \<open>
  One wrong bit outside the \<^verbatim>\<open>ecc\<close> field is repaired: checking tags whose code was computed
  and one of whose bits was flipped afterwards reports a correction and restores them.
\<close>

theorem yaffs_tags_corrects:
  assumes "p \<in> tag_positions"
  shows "yaffs_check_ecc_ontags (flip_tag p (yaffs_calc_tags_ecc tags)) = (1, yaffs_calc_tags_ecc tags)"
  using assms by (rule tags_repaired)

theorem yaffs_tags_corrects_witness:
  "yaffs_check_ecc_ontags (flip_tag 33 (yaffs_calc_tags_ecc 0x123456789abc)) = (1, yaffs_calc_tags_ecc 0x123456789abc)"
  by (rule yaffs_tags_corrects) (simp add: tag_positions_def)

text \<open>
  A wrong bit inside the \<^verbatim>\<open>ecc\<close> field is mistaken for one of the data: for each of the seven
  bits the code uses, the check reports a correction and returns tags that differ from the
  original ones in the data bit at position \<open>2 ^ k - 1\<close>.
\<close>

theorem yaffs_tags_miscorrects:
  assumes k: "k < 7" "2 ^ k - 1 \<in> tag_positions"
  shows "yaffs_check_ecc_ontags (flip_tag (50 + k) (yaffs_calc_tags_ecc tags))
    = (1, yaffs_calc_tags_ecc (flip_tag (2 ^ k - 1) tags))"
proof -
  let ?t = "yaffs_calc_tags_ecc tags"
  let ?d = "flip_tag (50 + k) ?t"
  have same: "yaffs_calc_tags_ecc ?d = ?t"
    by (rule calc_tags_cong) (use k in \<open>auto simp: bit_flip_tag bit_set_tags_ecc calc_tags tag_positions_def\<close>)
  have ecc: "tags_ecc ?d XOR tags_ecc (yaffs_calc_tags_ecc ?d) = of_nat (2 ^ k)"
    unfolding same by (rule bit_word_eqI) (use k in \<open>auto simp: bit_xor_iff bit_tags_ecc bit_flip_tag bit_of_nat_iff bit_simps\<close>)
  have le: "(2::nat) ^ k \<le> 2 ^ 6" using k by (intro power_increasing) auto
  have u: "unat (of_nat (2 ^ k) :: u32) = 2 ^ k" using le by (simp add: unat_of_nat del: of_nat_power)
  have small: "(of_nat (2 ^ k) :: u32) \<noteq> 0" "(of_nat (2 ^ k) :: u32) \<le> 64"
    using u le by (auto simp: word_le_nat_alt simp del: of_nat_power)
  have minus: "of_nat (2 ^ k) - 1 = (of_nat (2 ^ k - 1) :: u32)" by (simp add: of_nat_diff)
  have idx: "unat ((of_nat (2 ^ k) - 1 :: u32) div 8) = (2 ^ k - 1) div 8"
    "unat ((of_nat (2 ^ k) - 1 :: u32) AND 7) = (2 ^ k - 1) mod 8"
    unfolding minus using le by (simp_all add: unat_div unat_of_nat unat_and_7 del: of_nat_diff)
  have "yaffs_check_ecc_ontags ?d = (1, yaffs_calc_tags_ecc (flip_tag (2 ^ k - 1) ?t))"
    unfolding yaffs_check_ecc_ontags_def Let_def ecc idx flip_tags_bit_flip using small(1,2) same by simp
  moreover have "yaffs_calc_tags_ecc (flip_tag (2 ^ k - 1) ?t) = yaffs_calc_tags_ecc (flip_tag (2 ^ k - 1) tags)"
    by (rule calc_tags_cong) (auto simp: bit_flip_tag bit_set_tags_ecc calc_tags tag_positions_def)
  ultimately show ?thesis by simp
qed

theorem yaffs_tags_miscorrects_witness:
  "yaffs_check_ecc_ontags (flip_tag 52 (yaffs_calc_tags_ecc 0x1234))
    = (1, yaffs_calc_tags_ecc (flip_tag 3 0x1234))"
  using yaffs_tags_miscorrects [of 2 "0x1234"] by (simp add: tag_positions_def)


lemma check_valid_tags: "yaffs_check_ecc_ontags (yaffs_calc_tags_ecc tags) = (0, yaffs_calc_tags_ecc tags)"
proof -
  have "yaffs_calc_tags_ecc (yaffs_calc_tags_ecc tags) = yaffs_calc_tags_ecc tags"
    by (rule calc_tags_cong) (auto simp: calc_tags bit_set_tags_ecc tag_positions_def)
  then show ?thesis by (simp add: yaffs_check_ecc_ontags_def)
qed

text \<open>The spare bytes that hold the tags.\<close>

definition spare_tags :: "(nat \<Rightarrow> u8) \<Rightarrow> YAFFS_TAGS" where
  "spare_tags data = tags_of_bytes (map (\<lambda>k. data (16 + k)) [0, 1, 2, 3, 6, 7, 11, 12])"

lemma check_yaffs1_spare:
  "check_yaffs1_image (\<lambda>k. data (16 + k)) \<longleftrightarrow> \<not> fst (yaffs_check_ecc_ontags (spare_tags data)) < 0"
  by (simp add: check_yaffs1_image_def yaffs_free_region_def spare_tags_def tags_of_bytes_def upt_rec
      eval_nat_numeral case_prod_unfold)

lemma tags_accepted:
  assumes "p \<in> tag_positions" "x = yaffs_calc_tags_ecc tags \<or> x = flip_tag p (yaffs_calc_tags_ecc tags)"
  shows "\<not> fst (yaffs_check_ecc_ontags x) < 0"
  using assms check_valid_tags [of tags] tags_repaired [OF assms(1), of tags] by auto

text \<open>
  A YAFFS1 image is recognised even when one bit of the tags in its first spare area is
  wrong: data with none of the magic numbers whose tags carry their code, or carry it but for one
  flipped bit outside the \<^verbatim>\<open>ecc\<close> field, is an \<^verbatim>\<open>IMG_YAFFS1\<close>.
\<close>

theorem image_type_detect_yaffs1:
  assumes "load32 data 32 \<notin> {GTH_MAGIC, GBH_MAGIC}" "load32 data 36 \<noteq> LINUX_MAGIC"
    and "load16 data 0 \<noteq> JFFS2_MAGIC" "load32 data 0 \<noteq> UBIFS_MAGIC"
    and "p \<in> tag_positions"
    and "spare_tags data = yaffs_calc_tags_ecc tags \<or> spare_tags data = flip_tag p (yaffs_calc_tags_ecc tags)"
  shows "image_type_detect data = IMG_YAFFS1"
  using assms(1-4) tags_accepted [OF assms(5,6)]
  by (auto simp: image_type_detect_def check_yaffs1_spare)

theorem image_type_detect_yaffs1_witness: "image_type_detect (\<lambda>_. 0) = IMG_YAFFS1"
proof (rule image_type_detect_yaffs1)
  have "position_xor 0 64 = 0" by (rule bit_word_eqI) (simp add: bit_position_xor)
  moreover have "set_tags_ecc 0 0 = 0" by (rule bit_word_eqI) (simp add: bit_set_tags_ecc)
  ultimately have "yaffs_calc_tags_ecc 0 = 0" by (simp add: calc_tags tags_code_def)
  then show "spare_tags (\<lambda>_. 0) = yaffs_calc_tags_ecc 0 \<or> spare_tags (\<lambda>_. 0) = flip_tag 0 (yaffs_calc_tags_ecc 0)"
    by (simp add: spare_tags_def tags_of_bytes_def)
qed (simp_all add: load32_def load16_def GTH_MAGIC_def GBH_MAGIC_def LINUX_MAGIC_def JFFS2_MAGIC_def
    UBIFS_MAGIC_def tag_positions_def)

end
