(* ===== verification/CString.thy ===== *)
theory CString
  imports Prelude
begin

text \<open>
  The string and memory routines of \<^verbatim>\<open>lib/std/string.c\<close> and the generator of
  \<^verbatim>\<open>lib/std/random.c\<close>, on a memory of bytes. A loop that runs up to a terminator is an option: it
  has no value when there is none. Plain \<^verbatim>\<open>char\<close> is unsigned on the target.
\<close>

type_synonym bytes = "nat \<Rightarrow> u8"

section \<open>Lengths\<close>

partial_function (option) strlen_loop :: "bytes \<Rightarrow> nat \<Rightarrow> nat option" where
  "strlen_loop m iter = (if m iter \<noteq> 0 then strlen_loop m (iter + 1) else Some iter)"

definition strlen :: "bytes \<Rightarrow> nat \<Rightarrow> nat option" where
  "strlen m src = map_option (\<lambda>iter. iter - src) (strlen_loop m src)"

fun strnlen_loop :: "bytes \<Rightarrow> nat \<Rightarrow> nat \<Rightarrow> nat" where
  "strnlen_loop m iter 0 = iter"
| "strnlen_loop m iter (Suc count) = (if m iter \<noteq> 0 then strnlen_loop m (iter + 1) count else iter)"

definition strnlen :: "bytes \<Rightarrow> nat \<Rightarrow> nat \<Rightarrow> nat" where
  "strnlen m src count = strnlen_loop m src count - src"

section \<open>Copies\<close>

partial_function (option) strcpy_loop :: "bytes \<Rightarrow> nat \<Rightarrow> nat \<Rightarrow> bytes option" where
  "strcpy_loop m iter src =
     (let m' = m(iter := m src) in if m src \<noteq> 0 then strcpy_loop m' (iter + 1) (src + 1) else Some m')"

definition strcpy :: "bytes \<Rightarrow> nat \<Rightarrow> nat \<Rightarrow> (bytes \<times> nat) option" where
  "strcpy m dst src = map_option (\<lambda>m'. (m', dst)) (strcpy_loop m dst src)"

text \<open>\<open>left\<close> is \<^verbatim>\<open>count - n\<close>: how many bytes may still be written.\<close>

fun strncpy_loop :: "bytes \<Rightarrow> nat \<Rightarrow> nat \<Rightarrow> nat \<Rightarrow> bytes \<times> nat \<times> nat" where
  "strncpy_loop m iter src 0 = (m, iter, 0)"
| "strncpy_loop m iter src (Suc left) =
     (let m' = m(iter := m src)
      in if m src \<noteq> 0 then strncpy_loop m' (iter + 1) (src + 1) left else (m', iter, Suc left))"

fun zero_fill :: "bytes \<Rightarrow> nat \<Rightarrow> nat \<Rightarrow> bytes" where
  "zero_fill m iter 0 = m"
| "zero_fill m iter (Suc left) = zero_fill (m(iter := 0)) (iter + 1) left"

definition strncpy :: "bytes \<Rightarrow> nat \<Rightarrow> nat \<Rightarrow> nat \<Rightarrow> bytes \<times> nat" where
  "strncpy m dst src count =
     (let (m1, iter, left) = strncpy_loop m dst src count in (zero_fill m1 iter left, dst))"

definition strcat :: "bytes \<Rightarrow> nat \<Rightarrow> nat \<Rightarrow> (bytes \<times> nat) option" where
  "strcat m dst src =
     (case strlen_loop m dst of
        None \<Rightarrow> None
      | Some iter \<Rightarrow> map_option (\<lambda>m'. (m', dst)) (strcpy_loop m iter src))"

definition strncat :: "bytes \<Rightarrow> nat \<Rightarrow> nat \<Rightarrow> nat \<Rightarrow> (bytes \<times> nat) option" where
  "strncat m dst src count =
     map_option (\<lambda>iter. let (m1, iter, left) = strncpy_loop m iter src count
                         in (zero_fill m1 iter left, dst)) (strlen_loop m dst)"

definition strdup :: "(bytes \<Rightarrow> nat \<Rightarrow> bytes \<times> nat) \<Rightarrow> bytes \<Rightarrow> nat \<Rightarrow> (bytes \<times> nat) option" where
  "strdup alloc m s =
     (case strlen m s of
        None \<Rightarrow> None
      | Some len \<Rightarrow>
          let (m1, dst) = alloc m (len + 1)
          in if dst \<noteq> NULL then strcpy m1 dst s else Some (m1, dst))"

section \<open>Comparison and search\<close>

partial_function (option) strcmp :: "bytes \<Rightarrow> nat \<Rightarrow> nat \<Rightarrow> int option" where
  "strcmp m pstr1 pstr2 =
     (if m pstr1 = m pstr2
      then if m pstr1 = 0 then Some 0 else strcmp m (pstr1 + 1) (pstr2 + 1)
      else Some (uint (m pstr1) - uint (m pstr2)))"

partial_function (option) strncmp_loop :: "bytes \<Rightarrow> nat \<Rightarrow> nat \<Rightarrow> nat \<Rightarrow> nat \<Rightarrow> int option" where
  "strncmp_loop m pstr1 pstr2 n count =
     (if m pstr1 = m pstr2
      then if m pstr1 = 0 \<or> n = count then Some 0
           else strncmp_loop m (pstr1 + 1) (pstr2 + 1) (add32 n 1) count
      else Some (uint (m pstr1) - uint (m pstr2)))"

definition strncmp :: "bytes \<Rightarrow> nat \<Rightarrow> nat \<Rightarrow> nat \<Rightarrow> int option" where
  "strncmp m pstr1 pstr2 count = strncmp_loop m pstr1 pstr2 1 count"

text \<open>\<^verbatim>\<open>strcasecmp\<close> has the body of \<^verbatim>\<open>strcmp\<close> (and a \<^verbatim>\<open>fixme\<close>).\<close>

partial_function (option) strcasecmp :: "bytes \<Rightarrow> nat \<Rightarrow> nat \<Rightarrow> int option" where
  "strcasecmp m pstr1 pstr2 =
     (if m pstr1 = m pstr2
      then if m pstr1 = 0 then Some 0 else strcasecmp m (pstr1 + 1) (pstr2 + 1)
      else Some (uint (m pstr1) - uint (m pstr2)))"

partial_function (option) strstr_match :: "bytes \<Rightarrow> nat \<Rightarrow> nat \<Rightarrow> nat \<Rightarrow> nat option" where
  "strstr_match m p q i =
     (if m (q + i) \<noteq> 0 \<and> m (q + i) = m (p + i) then strstr_match m p q (i + 1) else Some i)"

partial_function (option) strstr_loop :: "bytes \<Rightarrow> nat \<Rightarrow> nat \<Rightarrow> nat option" where
  "strstr_loop m p q =
     (if m p \<noteq> 0
      then (case strstr_match m p q 0 of
              None \<Rightarrow> None
            | Some i \<Rightarrow> if m (q + i) = 0 then Some p else strstr_loop m (p + 1) q)
      else Some NULL)"

definition strstr :: "bytes \<Rightarrow> nat \<Rightarrow> nat \<Rightarrow> nat option" where
  "strstr m haystack needle = strstr_loop m haystack needle"

definition strcasestr :: "bytes \<Rightarrow> nat \<Rightarrow> nat \<Rightarrow> nat option" where
  "strcasestr m haystack needle = Some NULL"

partial_function (option) strchr :: "bytes \<Rightarrow> nat \<Rightarrow> int \<Rightarrow> nat option" where
  "strchr m iter c =
     (if m iter \<noteq> 0 then if uint (m iter) = c then Some iter else strchr m (iter + 1) c
      else Some NULL)"

fun strrchr_loop :: "bytes \<Rightarrow> nat \<Rightarrow> nat \<Rightarrow> int \<Rightarrow> nat" where
  "strrchr_loop m src 0 c = NULL"
| "strrchr_loop m src (Suc iter) c =
     (if Suc iter > src then if uint (m iter) = c then iter else strrchr_loop m src iter c else NULL)"

definition strrchr :: "bytes \<Rightarrow> nat \<Rightarrow> int \<Rightarrow> nat option" where
  "strrchr m src c = map_option (\<lambda>iter. strrchr_loop m src iter c) (strlen_loop m src)"

declare strlen_loop.simps [code] strcpy_loop.simps [code] strcmp.simps [code] strncmp_loop.simps [code]
  strcasecmp.simps [code] strstr_match.simps [code] strstr_loop.simps [code] strchr.simps [code]

section \<open>Blocks of memory\<close>

fun copy_up :: "bytes \<Rightarrow> nat \<Rightarrow> nat \<Rightarrow> nat \<Rightarrow> bytes" where
  "copy_up m d s 0 = m"
| "copy_up m d s (Suc count) = copy_up (m(d := m s)) (d + 1) (s + 1) count"

fun copy_down :: "bytes \<Rightarrow> nat \<Rightarrow> nat \<Rightarrow> nat \<Rightarrow> bytes" where
  "copy_down m d s 0 = m"
| "copy_down m d s (Suc count) = (let d = d - 1; s = s - 1 in copy_down (m(d := m s)) d s count)"

definition memcpy :: "bytes \<Rightarrow> nat \<Rightarrow> nat \<Rightarrow> nat \<Rightarrow> bytes \<times> nat" where
  "memcpy m dst src count = (copy_up m dst src count, dst)"

definition memmove :: "bytes \<Rightarrow> nat \<Rightarrow> nat \<Rightarrow> nat \<Rightarrow> bytes \<times> nat" where
  "memmove m dst src count =
     (if dst < src then (copy_up m dst src count, dst)
      else (copy_down m (dst + count) (src + count) count, dst))"

fun memset_loop :: "bytes \<Rightarrow> nat \<Rightarrow> int \<Rightarrow> nat \<Rightarrow> bytes" where
  "memset_loop m s c 0 = m"
| "memset_loop m s c (Suc count) = memset_loop (m(s := word_of_int c)) (s + 1) c count"

definition memset :: "bytes \<Rightarrow> nat \<Rightarrow> int \<Rightarrow> nat \<Rightarrow> bytes \<times> nat" where
  "memset m src c count = (memset_loop m src c count, src)"

fun memcmp :: "bytes \<Rightarrow> nat \<Rightarrow> nat \<Rightarrow> nat \<Rightarrow> int" where
  "memcmp m d s 0 = 0"
| "memcmp m d s (Suc count) =
     (if m d \<noteq> m s then uint (m d) - uint (m s) else memcmp m (d + 1) (s + 1) count)"

section \<open>Random numbers\<close>

abbreviation (input) RAND_MAX :: u32 where "RAND_MAX \<equiv> 32767"

definition random :: "u32 \<Rightarrow> u32 \<times> u32" where
  "random g_seed =
     (let g_seed = g_seed * 1103515245 + 12345
      in (g_seed, (g_seed div ((RAND_MAX + 1) * 2)) mod (RAND_MAX + 1)))"

definition srandom :: "u32 \<Rightarrow> u32" where
  "srandom seed = seed"

section \<open>Strings in memory\<close>

text \<open>\<open>cstr m p s\<close>: the bytes of \<open>s\<close>, none of them zero, are at \<open>p\<close>, and a zero follows.\<close>

fun cstr :: "bytes \<Rightarrow> nat \<Rightarrow> u8 list \<Rightarrow> bool" where
  "cstr m p [] \<longleftrightarrow> m p = 0"
| "cstr m p (x # s) \<longleftrightarrow> m p = x \<and> x \<noteq> 0 \<and> cstr m (p + 1) s"

lemma strlen_loop_cstr: "cstr m p s \<Longrightarrow> strlen_loop m p = Some (p + length s)"
proof (induction s arbitrary: p)
  case (Cons x s)
  then show ?case by (subst strlen_loop.simps) auto
qed (simp add: strlen_loop.simps)

lemma cstr_frame: "cstr m p s \<Longrightarrow> (\<And>k. p \<le> k \<Longrightarrow> k \<le> p + length s \<Longrightarrow> m' k = m k) \<Longrightarrow> cstr m' p s"
proof (induction s arbitrary: p)
  case (Cons x s)
  from Cons.prems(1) have "cstr m (p + 1) s" by simp
  then have "cstr m' (p + 1) s" by (rule Cons.IH) (use Cons.prems(2) in auto)
  then show ?case using Cons.prems by auto
qed simp


lemma cstr_nonzero: "cstr m p s \<Longrightarrow> 0 \<notin> set s"
  by (induction s arbitrary: p) auto

lemma cstr_nth: "cstr m p s \<Longrightarrow> i < length s \<Longrightarrow> m (p + i) = s ! i"
proof (induction s arbitrary: p i)
  case (Cons x s)
  then show ?case by (cases i) (auto simp: Cons.IH [of "p + 1"] simp flip: add_Suc)
qed simp

lemma cstr_end: "cstr m p s \<Longrightarrow> m (p + length s) = 0"
proof (induction s arbitrary: p)
  case (Cons x s)
  from Cons.IH [of "p + 1"] Cons.prems show ?case by simp
qed simp

lemma cstr_iff: "cstr m p s \<longleftrightarrow> (\<forall>i<length s. m (p + i) = s ! i \<and> s ! i \<noteq> 0) \<and> m (p + length s) = 0"
proof (induction s arbitrary: p)
  case (Cons x s)
  show ?case by (auto simp: Cons.IH [of "Suc p"] All_less_Suc2)
qed simp

section \<open>Moving blocks\<close>

lemma copy_up_nth:
  assumes "d \<le> s \<or> s + n \<le> d"
  shows "copy_up m d s n k = (if d \<le> k \<and> k < d + n then m (s + (k - d)) else m k)"
  using assms
proof (induction n arbitrary: m d s)
  case (Suc n)
  have IH: "copy_up (m(d := m s)) (d + 1) (s + 1) n k
      = (if d + 1 \<le> k \<and> k < d + 1 + n then (m(d := m s)) (s + 1 + (k - (d + 1))) else (m(d := m s)) k)"
    by (rule Suc.IH) (use Suc.prems in auto)
  consider "k < d" | "k = d" | "d < k" "k < d + Suc n" | "d + Suc n \<le> k" by linarith
  then show ?case
  proof cases
    case 3
    then have "s + 1 + (k - (d + 1)) = s + (k - d)" "s + (k - d) \<noteq> d" using Suc.prems by linarith+
    then show ?thesis using IH 3 by simp
  qed (use IH in auto)
qed auto

lemma copy_down_nth:
  assumes "s \<le> d"
  shows "copy_down m (d + n) (s + n) n k = (if d \<le> k \<and> k < d + n then m (s + (k - d)) else m k)"
proof (induction n arbitrary: m)
  case (Suc n)
  have "copy_down m (d + Suc n) (s + Suc n) (Suc n) k = copy_down (m(d + n := m (s + n))) (d + n) (s + n) n k"
    by (simp add: Let_def)
  also have "\<dots> = (if d \<le> k \<and> k < d + n then (m(d + n := m (s + n))) (s + (k - d)) else (m(d + n := m (s + n))) k)"
    by (rule Suc.IH)
  finally show ?case using assms by (cases "k = d + n") auto
qed auto

lemma memset_nth: "memset_loop m s c n k = (if s \<le> k \<and> k < s + n then word_of_int c else m k)"
  by (induction n arbitrary: m s) auto

lemma memcmp_zero: "memcmp m d s n = 0 \<longleftrightarrow> (\<forall>i<n. m (d + i) = m (s + i))"
  by (induction n arbitrary: d s) (auto simp: All_less_Suc2 word_uint_eq_iff)

text \<open>The string copies are block copies of the string and its terminator.\<close>

lemma strcpy_loop_copy:
  assumes "cstr m src s" "src + length s < dst \<or> dst + length s < src"
  shows "strcpy_loop m dst src = Some (copy_up m dst src (length s + 1))"
  using assms
proof (induction s arbitrary: m dst src)
  case Nil
  then show ?case by (subst strcpy_loop.simps) simp
next
  case (Cons x s)
  have "cstr (m(dst := m src)) (src + 1) s"
    by (rule cstr_frame [of m]) (use Cons.prems in auto)
  then have "strcpy_loop (m(dst := m src)) (dst + 1) (src + 1)
      = Some (copy_up (m(dst := m src)) (dst + 1) (src + 1) (length s + 1))"
    by (rule Cons.IH) (use Cons.prems in auto)
  then show ?case using Cons.prems by (subst strcpy_loop.simps) simp
qed

lemma cstr_copied:
  assumes "cstr m src s" "\<And>i. i \<le> length s \<Longrightarrow> m' (dst + i) = m (src + i)"
  shows "cstr m' dst s"
  using assms by (simp add: cstr_iff)

lemma strcpy_cstr:
  assumes "cstr m src s" "src + length s < dst \<or> dst + length s < src"
  shows "\<exists>m'. strcpy m dst src = Some (m', dst) \<and> cstr m' dst s
    \<and> (\<forall>k. k < dst \<or> dst + length s < k \<longrightarrow> m' k = m k)"
proof -
  let ?m = "copy_up m dst src (length s + 1)"
  have nth: "?m k = (if dst \<le> k \<and> k < dst + (length s + 1) then m (src + (k - dst)) else m k)" for k
    by (rule copy_up_nth) (use assms(2) in auto)
  then have "cstr ?m dst s" by (intro cstr_copied [OF assms(1)]) simp
  then show ?thesis using strcpy_loop_copy [OF assms] nth by (auto simp: strcpy_def)
qed

section \<open>Comparing strings\<close>

fun str_diff :: "u8 list \<Rightarrow> u8 list \<Rightarrow> int" where
  "str_diff [] [] = 0"
| "str_diff [] (y # t) = - uint y"
| "str_diff (x # s) [] = uint x"
| "str_diff (x # s) (y # t) = (if x = y then str_diff s t else uint x - uint y)"

lemma strcmp_diff: "cstr m p s \<Longrightarrow> cstr m q t \<Longrightarrow> strcmp m p q = Some (str_diff s t)"
  by (induction s t arbitrary: p q rule: str_diff.induct; subst strcmp.simps) auto

lemma str_diff_zero: "0 \<notin> set s \<Longrightarrow> 0 \<notin> set t \<Longrightarrow> str_diff s t = 0 \<longleftrightarrow> s = t"
  by (induction s t rule: str_diff.induct) (auto simp: word_uint_eq_iff)

lemma str_diff_less: "0 \<notin> set t \<Longrightarrow> str_diff s t < 0 \<longleftrightarrow> (s, t) \<in> lexord {(x, y). x < y}"
proof (induction s t rule: str_diff.induct)
  case (2 y t)
  then have "0 < uint y" using uint_ge_0 [of y] by (auto simp: order_less_le uint_0_iff)
  then show ?case by simp
next
  case (3 x s)
  then show ?case using uint_ge_0 [of x] by simp
qed (auto simp: word_less_def)

section \<open>Searching\<close>

lemma strstr_match_eq:
  assumes "cstr m p hs" "cstr m q nd" "i \<le> length nd" "i \<le> length hs" "take i nd = take i hs"
  shows "\<exists>j. strstr_match m p q i = Some j \<and> (m (q + j) = 0 \<longleftrightarrow> take (length nd) hs = nd)"
  using assms(3-5)
proof (induction "length nd - i" arbitrary: i)
  case 0
  then have "i = length nd" by simp
  then show ?case using cstr_end [OF assms(2)] 0 by (subst strstr_match.simps) auto
next
  case (Suc k)
  then have i: "i < length nd" by simp
  then have q: "m (q + i) = nd ! i" "nd ! i \<noteq> 0" using assms(2) by (auto simp: cstr_iff)
  show ?case
  proof (cases "i < length hs \<and> nd ! i = hs ! i")
    case True
    then have "m (p + i) = nd ! i" using assms(1) by (simp add: cstr_iff)
    moreover have "take (i + 1) nd = take (i + 1) hs" using True i Suc.prems by (simp add: take_Suc_conv_app_nth)
    ultimately show ?thesis
      using Suc.hyps(1) [of "i + 1"] Suc.hyps(2) i True q by (subst strstr_match.simps) auto
  next
    case False
    then have "m (p + i) \<noteq> nd ! i"
      using assms(1) q Suc.prems(2) by (cases "i = length hs") (auto simp: cstr_iff)
    moreover have "take (length nd) hs \<noteq> nd"
    proof
      assume t: "take (length nd) hs = nd"
      then have "length nd \<le> length hs" by (metis length_take min.cobounded1)
      with t i have "hs ! i = nd ! i" "i < length hs" by (auto simp: nth_take [of i "length nd" hs, symmetric])
      with False show False by simp
    qed
    ultimately show ?thesis using q by (subst strstr_match.simps) auto
  qed
qed

text \<open>Where the needle begins in the haystack, counted from its start, if it does.\<close>

fun find_sub :: "u8 list \<Rightarrow> u8 list \<Rightarrow> nat option" where
  "find_sub [] nd = None"
| "find_sub (x # hs) nd = (if take (length nd) (x # hs) = nd then Some 0 else map_option Suc (find_sub hs nd))"

lemma strstr_find:
  assumes "cstr m h hs" "cstr m q nd"
  shows "strstr m h q = Some (case find_sub hs nd of None \<Rightarrow> NULL | Some i \<Rightarrow> h + i)"
  unfolding strstr_def using assms(1)
proof (induction hs arbitrary: h)
  case Nil
  then show ?case by (subst strstr_loop.simps) simp
next
  case (Cons x hs)
  obtain j where j: "strstr_match m h q 0 = Some j" "m (q + j) = 0 \<longleftrightarrow> take (length nd) (x # hs) = nd"
    using strstr_match_eq [OF Cons.prems assms(2), of 0] by auto
  then show ?case
    using Cons.prems Cons.IH [of "h + 1"] by (subst strstr_loop.simps) (auto split: option.splits)
qed

lemma find_sub_Some:
  "find_sub hs nd = Some i \<longleftrightarrow> i < length hs \<and> take (length nd) (drop i hs) = nd
     \<and> (\<forall>j<i. take (length nd) (drop j hs) \<noteq> nd)"
proof (induction hs arbitrary: i)
  case (Cons x hs)
  then show ?case by (cases i) (auto simp: All_less_Suc2)
qed simp

lemma find_sub_None: "find_sub hs nd = None \<longleftrightarrow> (\<forall>i<length hs. take (length nd) (drop i hs) \<noteq> nd)"
  by (induction hs) (auto simp: All_less_Suc2)

section \<open>Bounded copies\<close>

lemma zero_fill_nth: "zero_fill m d n k = (if d \<le> k \<and> k < d + n then 0 else m k)"
  by (induction n arbitrary: m d) auto

definition copy_pad :: "bytes \<Rightarrow> nat \<Rightarrow> nat \<Rightarrow> nat \<Rightarrow> bytes" where
  "copy_pad m dst src count = (let (m1, iter, left) = strncpy_loop m dst src count in zero_fill m1 iter left)"

lemma copy_pad_nth:
  assumes "cstr m src s" "src + length s < dst \<or> dst + count \<le> src"
  shows "copy_pad m dst src count k =
    (if dst \<le> k \<and> k < dst + count then if k - dst < length s then s ! (k - dst) else 0 else m k)"
  using assms
proof (induction s arbitrary: m dst src count)
  case Nil
  then show ?case by (cases count) (auto simp: copy_pad_def zero_fill_nth simp del: zero_fill.simps)
next
  case (Cons x s)
  show ?case
  proof (cases count)
    case 0
    then show ?thesis by (auto simp: copy_pad_def)
  next
    case (Suc n)
    have "cstr (m(dst := x)) (src + 1) s" by (rule cstr_frame [of m]) (use Cons.prems Suc in auto)
    then have IH: "copy_pad (m(dst := x)) (dst + 1) (src + 1) n k =
        (if dst + 1 \<le> k \<and> k < dst + 1 + n then if k - (dst + 1) < length s then s ! (k - (dst + 1)) else 0
         else (m(dst := x)) k)"
      by (rule Cons.IH) (use Cons.prems Suc in auto)
    have "copy_pad m dst src count k = copy_pad (m(dst := x)) (dst + 1) (src + 1) n k"
      using Cons.prems Suc by (simp add: copy_pad_def)
    then show ?thesis using IH Suc by (cases "k = dst") (auto simp: nth_Cons' less_diff_conv)
  qed
qed

lemma strcat_correct:
  assumes s: "cstr m dst s" and t: "cstr m src t"
    and apart: "src + length t < dst \<or> dst + length s + length t < src"
  shows "\<exists>m'. strcat m dst src = Some (m', dst) \<and> cstr m' dst (s @ t)
    \<and> (\<forall>k. k < dst + length s \<or> dst + length s + length t < k \<longrightarrow> m' k = m k)"
proof -
  obtain m' where m': "strcpy m (dst + length s) src = Some (m', dst + length s)" "cstr m' (dst + length s) t"
    "\<forall>k. k < dst + length s \<or> dst + length s + length t < k \<longrightarrow> m' k = m k"
    using strcpy_cstr [OF t, of "dst + length s"] apart by auto
  then have "strcat m dst src = Some (m', dst)"
    by (auto simp: strcat_def strcpy_def strlen_loop_cstr [OF s])
  moreover have "cstr m' dst (s @ t)"
    unfolding cstr_iff
  proof (intro conjI allI impI)
    fix i assume i: "i < length (s @ t)"
    show "m' (dst + i) = (s @ t) ! i"
      using i m'(3) cstr_nth [OF m'(2), of "i - length s"] cstr_nth [OF s, of i]
      by (cases "i < length s") (simp_all add: nth_append)
    have "(s @ t) ! i \<in> set (s @ t)" using i by (rule nth_mem)
    then show "(s @ t) ! i \<noteq> 0" using cstr_nonzero [OF t] cstr_nonzero [OF s] by auto
  next
    show "m' (dst + length (s @ t)) = 0" using cstr_end [OF m'(2)] by (simp add: add.assoc)
  qed
  ultimately show ?thesis using m'(3) by blast
qed

section \<open>Properties of the string routines\<close>

text \<open>
  C35: \<^verbatim>\<open>memmove\<close> moves a block whatever the overlap: every byte of the destination gets the byte
  the source had before the call, and no other byte changes.
\<close>

theorem memmove_correct:
  "memmove m dst src n =
     ((\<lambda>k. if dst \<le> k \<and> k < dst + n then m (src + (k - dst)) else m k), dst)"
proof (cases "dst < src")
  case True
  then show ?thesis by (auto simp: memmove_def copy_up_nth)
next
  case False
  then show ?thesis by (auto simp: memmove_def copy_down_nth)
qed

text \<open>
  \<^verbatim>\<open>strcmp\<close> on two terminated strings returns; the result is zero exactly for equal strings
  and negative exactly when the first is smaller in the lexicographic order of unsigned bytes.
\<close>

theorem strcmp_lexicographic:
  assumes "cstr m p s" "cstr m q t"
  shows "\<exists>d. strcmp m p q = Some d \<and> (d = 0 \<longleftrightarrow> s = t) \<and> (d < 0 \<longleftrightarrow> (s, t) \<in> lexord {(x, y). x < y})"
  using strcmp_diff [OF assms] str_diff_zero str_diff_less cstr_nonzero [OF assms(1)] cstr_nonzero [OF assms(2)]
  by blast

text \<open>Two strings in a memory: \<open>ab\<close> at 4 and \<open>abab\<close> at 8.\<close>

definition demo_bytes :: bytes where
  "demo_bytes = (\<lambda>_. 0)(4 := 97, 5 := 98, 8 := 97, 9 := 97, 10 := 98)"

lemma demo_strings: "cstr demo_bytes 4 [97, 98]" "cstr demo_bytes 8 [97, 97, 98]"
  by (simp_all add: demo_bytes_def)

theorem strcmp_lexicographic_witness: "\<exists>d. strcmp demo_bytes 8 4 = Some d \<and> d < 0"
  using strcmp_lexicographic [OF demo_strings(2,1)] by (auto simp: word_less_nat_alt)

text \<open>
  \<^verbatim>\<open>strstr\<close> on two terminated strings returns the first place of a non-empty haystack where
  the needle occurs, and \<^verbatim>\<open>NULL\<close> when it occurs at none.
\<close>

theorem strstr_first:
  assumes "cstr m h hs" "cstr m q nd"
  shows "(\<exists>i. strstr m h q = Some (h + i) \<and> i < length hs \<and> take (length nd) (drop i hs) = nd
          \<and> (\<forall>j<i. take (length nd) (drop j hs) \<noteq> nd))
     \<or> strstr m h q = Some NULL \<and> (\<forall>i<length hs. take (length nd) (drop i hs) \<noteq> nd)"
proof (cases "find_sub hs nd")
  case None
  then show ?thesis using strstr_find [OF assms] find_sub_None [of hs nd] by simp
next
  case (Some i)
  then show ?thesis using strstr_find [OF assms] find_sub_Some [of hs nd i] by auto
qed

theorem strstr_first_witness: "\<exists>i. strstr demo_bytes 8 4 = Some (8 + i) \<and> i < 3"
proof -
  have "take (length [97, 98 :: u8]) (drop 1 [97, 97, 98]) = [97, 98 :: u8]" by simp
  then show ?thesis using strstr_first [OF demo_strings(2,1)] by fastforce
qed

text \<open>
  \<^verbatim>\<open>strncpy\<close> writes exactly \<^verbatim>\<open>count\<close> bytes, the string cut or padded with zeros, and nothing
  else; \<^verbatim>\<open>strncat\<close> writes the same \<^verbatim>\<open>count\<close> bytes behind the destination's string, so it leaves no
  terminator of its own when the source has \<^verbatim>\<open>count\<close> characters or more.
\<close>

lemma strncpy_strncat_writes:
  assumes "cstr m src s" "src + length s < dst \<or> dst + length d + count \<le> src" "cstr m dst d"
  shows "fst (strncpy m dst src count) k =
      (if dst \<le> k \<and> k < dst + count then if k - dst < length s then s ! (k - dst) else 0 else m k)
    \<and> (\<exists>m'. strncat m dst src count = Some (m', dst)
        \<and> (\<forall>k. m' k = (if dst + length d \<le> k \<and> k < dst + length d + count
             then if k - (dst + length d) < length s then s ! (k - (dst + length d)) else 0 else m k)))"
proof
  show "fst (strncpy m dst src count) k =
      (if dst \<le> k \<and> k < dst + count then if k - dst < length s then s ! (k - dst) else 0 else m k)"
    using copy_pad_nth [OF assms(1), of dst count k] assms(2)
    by (auto simp: strncpy_def copy_pad_def case_prod_unfold Let_def)
  have "strncat m dst src count = Some (copy_pad m (dst + length d) src count, dst)"
    by (simp add: strncat_def strlen_loop_cstr [OF assms(3)] copy_pad_def case_prod_unfold Let_def)
  moreover have "src + length s < dst + length d \<or> dst + length d + count \<le> src" using assms(2) by linarith
  ultimately show "\<exists>m'. strncat m dst src count = Some (m', dst)
        \<and> (\<forall>k. m' k = (if dst + length d \<le> k \<and> k < dst + length d + count
             then if k - (dst + length d) < length s then s ! (k - (dst + length d)) else 0 else m k))"
    using copy_pad_nth [OF assms(1)] by blast
qed

end
