(* ===== verification/Stdio.thy ===== *)
theory Stdio
  imports Prelude "HOL-Library.Signed_Division"
begin

text \<open>
  Formatted output and the line editor of \<^verbatim>\<open>lib/std/stdio.c\<close>. A C string is a list of characters
  without its terminator, so the end of the list stands for \<^verbatim>\<open>'\0'\<close>. The variadic arguments are the
  words above the format on the stack: \<open>para i\<close> is the \<open>i\<close>-th of them, and \<open>strs\<close> gives the string at
  an address. Output through the UART is the list of characters sent.
\<close>

section \<open>Characters and lines\<close>

definition putchar :: "char \<Rightarrow> string" where
  "putchar ch = (if ch = CHR ''\<newline>'' then [ch, CHR 0x0D] else [ch])"

definition puts :: "string \<Rightarrow> string" where
  "puts str = concat (map putchar str) @ putchar (CHR ''\<newline>'')"

text \<open>
  \<^verbatim>\<open>gets\<close>: the characters that will arrive are \<open>inp\<close>; \<open>s\<close> is the line so far. The result is the line,
  what was echoed and the input left; \<open>None\<close> while the line is not finished.
\<close>

fun gets_loop :: "string \<Rightarrow> string \<Rightarrow> string \<Rightarrow> (string \<times> string \<times> string) option" where
  "gets_loop [] s out = None"
| "gets_loop (c # inp) s out =
     (if c = CHR 0x0D \<or> c = CHR ''\<newline>''
      then Some (s, out @ putchar (CHR 0x0D) @ putchar (CHR ''\<newline>''), inp)
      else if c = CHR 0x7F
      then if s \<noteq> []
           then gets_loop inp (butlast s) (out @ putchar (CHR 0x08) @ putchar (CHR '' '') @ putchar (CHR 0x08))
           else gets_loop inp s out
      else if of_char c \<ge> (32 :: nat) \<and> of_char c < (127 :: nat)
      then gets_loop inp (s @ [c]) (out @ putchar c)
      else gets_loop inp s out)"

definition gets :: "string \<Rightarrow> (string \<times> string \<times> string) option" where
  "gets inp = gets_loop inp [] []"

section \<open>Numbers\<close>

text \<open>The bits of \<^verbatim>\<open>output_style\<close>.\<close>

record style =
  LEFT :: bool
  SIGN :: bool
  SPACE :: bool
  PLUS :: bool
  ZERO :: bool
  SIGNINT :: bool

definition no_style :: style where
  "no_style = \<lparr> LEFT = False, SIGN = False, SPACE = False, PLUS = False, ZERO = False, SIGNINT = False \<rparr>"

definition pdigit :: string where "pdigit = ''0123456789ABCDEF''"

text \<open>The digits that the conversion loop leaves in \<^verbatim>\<open>tmp_array\<close>, most significant first.\<close>

function num_digits :: "nat \<Rightarrow> nat \<Rightarrow> string \<Rightarrow> string" where
  "num_digits base num acc =
     (if num = 0 \<or> base < 2 then acc else num_digits base (num div base) (pdigit ! (num mod base) # acc))"
  by pat_completeness auto
termination by (relation "measure (\<lambda>(base, num, acc). num)") auto

declare num_digits.simps [simp del]

definition num_to_ascii :: "u32 \<Rightarrow> int \<Rightarrow> nat \<Rightarrow> style \<Rightarrow> string" where
  "num_to_ascii num width base st =
     (let fill_char = (if ZERO st then CHR ''0'' else CHR '' '');
          negative = bit num 31;
          (sign, num) =
            (if SIGN st \<and> base = 10
             then if negative then (''-'', - num) else if \<not> SIGNINT st then (''+'', num) else ('''', num)
             else if \<not> (SIGN st \<or> negative) \<and> base = 10 \<and> SPACE st then ('' '', num)
             else ('''', num));
          digits = (if num = 0 then ''0'' else num_digits base (unat num) []);
          prefix = (if PLUS st then if base = 16 then ''0x'' else if base = 8 then ''0'' else '''' else '''');
          width = nat (width - int (length prefix) - int (length sign) - int (length digits));
          fill = replicate width fill_char
      in (if LEFT st then [] else fill) @ prefix @ sign @ digits @ (if LEFT st then fill else []))"

section \<open>Directives\<close>

definition isdigit :: "char \<Rightarrow> bool" where
  "isdigit c \<longleftrightarrow> (48::nat) \<le> of_char c \<and> of_char c \<le> (57::nat)"

definition digit_val :: "char \<Rightarrow> nat" where
  "digit_val c = of_char c - 48"

definition wrap32 :: "int \<Rightarrow> int" where
  "wrap32 x = (x + 2 ^ 31) mod 2 ^ 32 - 2 ^ 31"

text \<open>The label \<^verbatim>\<open>get_sign\<close>: the flags behind the percent sign.\<close>

fun get_sign :: "string \<Rightarrow> style \<Rightarrow> style \<times> string" where
  "get_sign [] st = (st, [])"
| "get_sign (c # fmt) st =
     (if c = CHR ''-'' then get_sign fmt (st\<lparr>LEFT := True, ZERO := False\<rparr>)
      else if c = CHR ''+'' then get_sign fmt (st\<lparr>SIGN := True\<rparr>)
      else if c = CHR '' '' then get_sign fmt (st\<lparr>SPACE := True\<rparr>)
      else if c = CHR ''#'' then get_sign fmt (st\<lparr>PLUS := True\<rparr>)
      else if c = CHR ''0'' then get_sign fmt (if LEFT st then st else st\<lparr>ZERO := True\<rparr>)
      else (st, c # fmt))"

fun get_width :: "string \<Rightarrow> int \<Rightarrow> int \<times> string" where
  "get_width [] width = (width, [])"
| "get_width (c # fmt) width =
     (if isdigit c then get_width fmt (wrap32 (width * 10 + int (digit_val c))) else (width, c # fmt))"

text \<open>\<^verbatim>\<open>%*\<close> followed by a digit: the argument's decimal digits, computed with signed remainders.\<close>

function star_digits :: "int \<Rightarrow> string \<Rightarrow> string" where
  "star_digits v acc = (if v = 0 then acc else star_digits (v sdiv 10) (char_of (v smod 10 + 48) # acc))"
  by pat_completeness auto
termination
proof (relation "measure (\<lambda>(v, acc). nat \<bar>v\<bar>)")
  fix v :: int and acc :: string assume "v \<noteq> 0"
  then have "\<bar>v\<bar> div 10 < \<bar>v\<bar>" by (simp add: int_div_less_self)
  then show "((v sdiv 10, char_of (v smod 10 + 48) # acc), (v, acc)) \<in> measure (\<lambda>(v, acc). nat \<bar>v\<bar>)"
    using \<open>v \<noteq> 0\<close> by (auto simp: signed_divide_int_def abs_mult nat_less_iff)
qed simp

declare star_digits.simps [simp del]

text \<open>\<open>looking_at c fmt\<close>: the character at the format pointer is \<open>c\<close> (not the terminator).\<close>

definition looking_at :: "char \<Rightarrow> string \<Rightarrow> bool" where
  "looking_at c fmt \<longleftrightarrow> fmt \<noteq> [] \<and> hd fmt = c"

definition skip_l :: "string \<Rightarrow> string" where
  "skip_l fmt =
     (if looking_at (CHR ''l'') fmt
      then let fmt = tl fmt in if looking_at (CHR ''l'') fmt then tl fmt else fmt
      else fmt)"

text \<open>Conversions \<^verbatim>\<open>%s\<close> and \<^verbatim>\<open>%c\<close>: the text padded to the width.\<close>

definition put_text :: "string \<Rightarrow> int \<Rightarrow> style \<Rightarrow> string" where
  "put_text str width st =
     (let pad = nat (width - int (length str))
      in (if LEFT st then [] else replicate pad (if ZERO st then CHR ''0'' else CHR '' ''))
         @ str @ (if LEFT st then replicate pad (CHR '' '') else []))"

text \<open>
  One directive: \<open>fmt\<close> is what follows the percent sign (and is not another one). The result is
  what is printed, the rest of the format and the index of the next argument. An unknown
  conversion prints the percent sign alone and goes back to the character behind it.
\<close>

definition vsprintf_conv ::
  "(u32 \<Rightarrow> string) \<Rightarrow> (nat \<Rightarrow> u32) \<Rightarrow> string \<Rightarrow> style \<Rightarrow> int \<Rightarrow> string \<Rightarrow> nat \<Rightarrow> string \<times> string \<times> nat" where
  "vsprintf_conv strs para fmt_roll st width fmt i =
     (case skip_l fmt of
        [] \<Rightarrow> (''%'', fmt_roll, i)
      | c # r \<Rightarrow>
          if c = CHR ''u'' then (num_to_ascii (para i) width 10 (st\<lparr>SIGN := False, PLUS := False\<rparr>), r, i + 1)
          else if c = CHR ''d'' \<or> c = CHR ''i''
          then (num_to_ascii (para i) width 10
                  (if SIGN st then st else st\<lparr>SIGNINT := True, SIGN := True\<rparr>), r, i + 1)
          else if c = CHR ''p'' then (num_to_ascii (para i) width 16 (st\<lparr>PLUS := True\<rparr>), r, i + 1)
          else if c = CHR ''X'' \<or> c = CHR ''x'' then (num_to_ascii (para i) width 16 st, r, i + 1)
          else if c = CHR ''o'' then (num_to_ascii (para i) width 8 st, r, i + 1)
          else if c = CHR ''s'' then (put_text (strs (para i)) width st, r, i + 1)
          else if c = CHR ''c'' then (put_text [char_of (unat (para i))] width st, r, i + 1)
          else (''%'', fmt_roll, i))"

definition directive ::
  "(string \<Rightarrow> 'o) \<Rightarrow> (string \<Rightarrow> style \<Rightarrow> int \<Rightarrow> string \<Rightarrow> nat \<Rightarrow> 'o \<times> string \<times> nat) \<Rightarrow> (nat \<Rightarrow> u32) \<Rightarrow> string \<Rightarrow> nat
     \<Rightarrow> 'o \<times> string \<times> nat" where
  "directive emit conv para fmt i =
     (let (st, fmt1) = get_sign fmt no_style;
          (width, fmt2) = get_width fmt1 0
      in if looking_at (CHR ''*'') fmt2
         then let fmt3 = tl fmt2
              in if fmt3 \<noteq> [] \<and> isdigit (hd fmt3) then (emit (star_digits (sint (para i)) []), fmt3, i + 1)
                 else conv fmt (st\<lparr>LEFT := False\<rparr>) (sint (para i)) fmt3 (i + 1)
         else conv fmt st width fmt2 i)"

text \<open>The rest of the format never grows, so the loop over it ends.\<close>

lemma get_sign_length: "length (snd (get_sign fmt st)) \<le> length fmt"
  by (induction fmt st rule: get_sign.induct) auto

lemma get_width_length: "length (snd (get_width fmt w)) \<le> length fmt"
  by (induction fmt w rule: get_width.induct) auto

lemma skip_l_length: "length (skip_l fmt) \<le> length fmt"
  by (auto simp: skip_l_def Let_def)

definition shrinks :: "(string \<Rightarrow> style \<Rightarrow> int \<Rightarrow> string \<Rightarrow> nat \<Rightarrow> 'o \<times> string \<times> nat) \<Rightarrow> bool" where
  "shrinks conv \<longleftrightarrow> (\<forall>fmt st w fmt' i. length fmt' \<le> length fmt \<longrightarrow>
     length (fst (snd (conv fmt st w fmt' i))) \<le> length fmt)"

lemma directive_length:
  assumes "shrinks conv"
  shows "length (fst (snd (directive emit conv para fmt i))) \<le> length fmt"
proof -
  obtain st fmt1 where s: "get_sign fmt no_style = (st, fmt1)" by (cases "get_sign fmt no_style")
  obtain w fmt2 where w: "get_width fmt1 0 = (w, fmt2)" by (cases "get_width fmt1 0")
  have le: "length fmt2 \<le> length fmt"
    using get_sign_length [of fmt no_style] get_width_length [of fmt1 0] by (simp add: s w)
  have c: "length (fst (snd (conv fmt st' w' fmt' i'))) \<le> length fmt" if "length fmt' \<le> length fmt" for st' w' fmt' i'
    using assms that by (simp add: shrinks_def)
  show ?thesis
    using le by (auto simp: directive_def s w Let_def intro!: c)
qed

lemma shrinks_vsprintf: "shrinks (vsprintf_conv strs para)"
proof -
  have "length (fst (snd (vsprintf_conv strs para fmt st w fmt' i))) \<le> length fmt" if "length fmt' \<le> length fmt" for fmt st w fmt' i
    using that skip_l_length [of fmt'] by (cases "skip_l fmt'") (simp_all add: vsprintf_conv_def)
  then show ?thesis by (simp add: shrinks_def)
qed

text \<open>\<^verbatim>\<open>vsprintf\<close>: the characters written before the terminator; their number is the result.\<close>

function vsprintf_loop :: "(u32 \<Rightarrow> string) \<Rightarrow> (nat \<Rightarrow> u32) \<Rightarrow> string \<Rightarrow> nat \<Rightarrow> string" where
  "vsprintf_loop strs para [] i = []"
| "vsprintf_loop strs para (c # fmt) i =
     (if c \<noteq> CHR ''%'' then c # vsprintf_loop strs para fmt i
      else if looking_at (CHR ''%'') fmt then CHR ''%'' # vsprintf_loop strs para (tl fmt) i
      else let (out, r, i') = directive id (vsprintf_conv strs para) para fmt i
           in out @ vsprintf_loop strs para r i')"
  by pat_completeness auto
termination
proof (relation "measure (\<lambda>(strs, para, fmt, i). length fmt)")
  fix strs para fmt i x out y r i'
  assume x: "x = directive id (vsprintf_conv strs para) para fmt i" "(out, y) = x" "(r, i') = y"
  have "r = fst (snd x)" using x(2,3) by auto
  then have "length r \<le> length fmt" using directive_length [OF shrinks_vsprintf, of id strs para para fmt i] x(1) by simp
  then show "((strs, para, r, i'), strs, para, (c :: char) # fmt, i) \<in> measure (\<lambda>(strs, para, fmt, i). length fmt)" for c by simp
qed auto

definition vsprintf :: "(u32 \<Rightarrow> string) \<Rightarrow> string \<Rightarrow> (nat \<Rightarrow> u32) \<Rightarrow> string \<times> nat" where
  "vsprintf strs fmt para = (let out = vsprintf_loop strs para fmt 0 in (out, length out))"

definition sprintf :: "(u32 \<Rightarrow> string) \<Rightarrow> string \<Rightarrow> (nat \<Rightarrow> u32) \<Rightarrow> string \<times> nat" where
  "sprintf strs fmt arg = vsprintf strs fmt arg"

text \<open>
  \<^verbatim>\<open>printf\<close>: what goes to the UART, up to the first zero byte, and the result. The array of 512
  bytes it formats into is taken to be large enough.
\<close>

definition printf :: "(u32 \<Rightarrow> string) \<Rightarrow> string \<Rightarrow> (nat \<Rightarrow> u32) \<Rightarrow> string \<times> nat" where
  "printf strs fmt arg =
     (let (buf, prted_len) = vsprintf strs fmt arg
      in (concat (map putchar (takeWhile (\<lambda>c. c \<noteq> CHR 0x00) buf)), prted_len))"

section \<open>Bounded output\<close>

text \<open>
  \<^verbatim>\<open>vsnprintf\<close> repeats the text of \<^verbatim>\<open>vsprintf\<close> with the macro \<^verbatim>\<open>IF_UNOVER\<close> in place of the writes. Its
  conversions differ: \<^verbatim>\<open>%d\<close> and \<^verbatim>\<open>%u\<close> leave the flags as they are (\<^verbatim>\<open>(~SIGN) | (~PLUS)\<close> masks
  nothing), and a number is first written to the 32 bytes of \<^verbatim>\<open>ch_num\<close>; the model has no value when
  it does not fit there.
\<close>

definition ch_num :: "string \<Rightarrow> string option" where
  "ch_num s = (if length s \<le> 32 then Some s else None)"

definition vsnprintf_conv ::
  "(u32 \<Rightarrow> string) \<Rightarrow> (nat \<Rightarrow> u32) \<Rightarrow> string \<Rightarrow> style \<Rightarrow> int \<Rightarrow> string \<Rightarrow> nat
     \<Rightarrow> string option \<times> string \<times> nat" where
  "vsnprintf_conv strs para fmt_roll st width fmt i =
     (case skip_l fmt of
        [] \<Rightarrow> (Some ''%'', fmt_roll, i)
      | c # r \<Rightarrow>
          if c = CHR ''u'' \<or> c = CHR ''d'' \<or> c = CHR ''i'' then (ch_num (num_to_ascii (para i) width 10 st), r, i + 1)
          else if c = CHR ''p'' then (ch_num (num_to_ascii (para i) width 16 (st\<lparr>PLUS := True\<rparr>)), r, i + 1)
          else if c = CHR ''X'' \<or> c = CHR ''x'' then (ch_num (num_to_ascii (para i) width 16 st), r, i + 1)
          else if c = CHR ''o'' then (ch_num (num_to_ascii (para i) width 8 st), r, i + 1)
          else if c = CHR ''s'' then (Some (put_text (strs (para i)) width st), r, i + 1)
          else if c = CHR ''c'' then (Some (put_text [char_of (unat (para i))] width st), r, i + 1)
          else (Some ''%'', fmt_roll, i))"

lemma shrinks_vsnprintf: "shrinks (vsnprintf_conv strs para)"
proof -
  have "length (fst (snd (vsnprintf_conv strs para fmt st w fmt' i))) \<le> length fmt" if "length fmt' \<le> length fmt" for fmt st w fmt' i
    using that skip_l_length [of fmt'] by (cases "skip_l fmt'") (simp_all add: vsnprintf_conv_def)
  then show ?thesis by (simp add: shrinks_def)
qed

definition IF_UNOVER :: "int \<Rightarrow> char \<Rightarrow> string \<times> nat \<Rightarrow> string \<times> nat" where
  "IF_UNOVER sz ctmp st =
     (let (buf, str_count) = st
      in (if int str_count < sz - 1 then buf @ [ctmp] else buf, str_count + 1))"

function vsnprintf_loop ::
  "(u32 \<Rightarrow> string) \<Rightarrow> (nat \<Rightarrow> u32) \<Rightarrow> int \<Rightarrow> string \<Rightarrow> nat \<Rightarrow> string \<times> nat \<Rightarrow> (string \<times> nat) option" where
  "vsnprintf_loop strs para sz [] i st = Some st"
| "vsnprintf_loop strs para sz (c # fmt) i st =
     (if c \<noteq> CHR ''%'' then vsnprintf_loop strs para sz fmt i (IF_UNOVER sz c st)
      else if looking_at (CHR ''%'') fmt
      then vsnprintf_loop strs para sz (tl fmt) i (IF_UNOVER sz (CHR ''%'') st)
      else let (out, r, i') = directive Some (vsnprintf_conv strs para) para fmt i
           in case out of None \<Rightarrow> None
              | Some out \<Rightarrow> vsnprintf_loop strs para sz r i' (fold (IF_UNOVER sz) out st))"
  by pat_completeness auto
termination
proof (relation "measure (\<lambda>(strs, para, sz, fmt, i, st). length fmt)")
  fix strs para fmt i x out y r i'
  assume x: "x = directive Some (vsnprintf_conv strs para) para fmt i" "(out, y) = x" "(r, i') = y"
  have "r = fst (snd x)" using x(2,3) by auto
  then have "length r \<le> length fmt" using directive_length [OF shrinks_vsnprintf, of Some strs para para fmt i] x(1) by simp
  then show "((strs, para, sz, r, i', st'), strs, para, sz, (c :: char) # fmt, i, st)
      \<in> measure (\<lambda>(strs, para, sz, fmt, i, st). length fmt)" for c sz st st' by simp
qed auto

text \<open>
  The characters stored at \<^verbatim>\<open>buf\<close>, in order, and the result; \<^verbatim>\<open>size\<close> is \<open>sz\<close>. The terminator is
  the last of them. It is stored without a look at the size, so that there is always at least
  one character. (For the least number of the type \<^verbatim>\<open>int\<close>, \<^verbatim>\<open>size - 1\<close> is undefined in C.)
\<close>

definition vsnprintf :: "(u32 \<Rightarrow> string) \<Rightarrow> int \<Rightarrow> string \<Rightarrow> (nat \<Rightarrow> u32) \<Rightarrow> (string \<times> nat) option" where
  "vsnprintf strs sz fmt para =
     map_option (\<lambda>(buf, str_count). (buf @ [CHR 0x00], str_count)) (vsnprintf_loop strs para sz fmt 0 ([], 0))"

definition snprintf :: "(u32 \<Rightarrow> string) \<Rightarrow> u32 \<Rightarrow> string \<Rightarrow> (nat \<Rightarrow> u32) \<Rightarrow> (string \<times> nat) option" where
  "snprintf strs sz fmt arg = vsnprintf strs (sint sz) fmt arg"

text \<open>The text that an array of characters holds.\<close>

definition c_text :: "string \<Rightarrow> string" where
  "c_text buf = takeWhile (\<lambda>c. c \<noteq> CHR 0x00) buf"

lemma c_text_end [simp]: "c_text (s @ [CHR 0x00]) = c_text s"
  by (induction s) (simp_all add: c_text_def)

section \<open>Digits\<close>

text \<open>The value of a digit string, most significant digit first.\<close>

definition digits_value :: "nat \<Rightarrow> nat list \<Rightarrow> nat" where
  "digits_value base ds = foldl (\<lambda>v d. v * base + d) 0 ds"

text \<open>The digits themselves: \<open>num_digits\<close> writes them with the characters of \<^verbatim>\<open>pdigit\<close>.\<close>

function digit_list :: "nat \<Rightarrow> nat \<Rightarrow> nat list" where
  "digit_list base num = (if num = 0 \<or> base < 2 then [] else digit_list base (num div base) @ [num mod base])"
  by pat_completeness auto
termination by (relation "measure snd") auto

declare digit_list.simps [simp del]

lemma num_digits_map: "num_digits base num acc = map ((!) pdigit) (digit_list base num) @ acc"
proof (induction base num acc rule: num_digits.induct)
  case (1 base num acc)
  then show ?case by (subst num_digits.simps, subst digit_list.simps) auto
qed

lemma digit_list_value: "2 \<le> base \<Longrightarrow> digits_value base (digit_list base num) = num"
proof (induction base num rule: digit_list.induct)
  case (1 base num)
  then show ?case by (subst digit_list.simps) (auto simp: digits_value_def)
qed

lemma digit_list_less: "2 \<le> base \<Longrightarrow> d \<in> set (digit_list base num) \<Longrightarrow> d < base"
proof (induction base num rule: digit_list.induct)
  case (1 base num)
  from "1.prems"(2) show ?case
    by (subst (asm) digit_list.simps) (use 1 in \<open>auto split: if_splits\<close>)
qed

lemma digit_list_length:
  assumes "2 \<le> base" "num < base ^ n"
  shows "length (digit_list base num) \<le> n"
  using assms
proof (induction n arbitrary: num)
  case (Suc n)
  then have "num div base < base ^ n" by (simp add: less_mult_imp_div_less mult.commute)
  with Suc show ?case by (subst digit_list.simps) auto
qed (simp add: digit_list.simps)

lemma fold_IF_UNOVER:
  "fold (IF_UNOVER sz) out (buf, n) =
     (buf @ take (nat (sz - 1) - n) out, n + length out)"
proof (induction out arbitrary: buf n)
  case (Cons c out)
  have "nat (sz - 1) - n = (if int n < sz - 1 then Suc (nat (sz - 1) - (n + 1)) else 0)" by auto
  moreover have "IF_UNOVER sz c (buf, n) = (if int n < sz - 1 then buf @ [c] else buf, n + 1)"
    by (simp add: IF_UNOVER_def)
  ultimately show ?case by (simp add: Cons.IH)
qed simp

section \<open>Line editing\<close>

text \<open>The line alone, without the echo.\<close>

fun edited :: "string \<Rightarrow> string \<Rightarrow> string option" where
  "edited [] s = None"
| "edited (c # inp) s =
     (if c = CHR 0x0D \<or> c = CHR ''\<newline>'' then Some s
      else if c = CHR 0x7F then edited inp (butlast s)
      else if of_char c \<ge> (32 :: nat) \<and> of_char c < (127 :: nat) then edited inp (s @ [c])
      else edited inp s)"

lemma gets_loop_edited: "map_option fst (gets_loop inp s out) = edited inp s"
  by (induction inp s out rule: gets_loop.induct) auto

lemma edited_rubout:
  assumes "(32 :: nat) \<le> of_char c" "of_char c < (127 :: nat)"
  shows "edited (xs @ c # CHR 0x7F # ys) s = edited (xs @ ys) s"
proof (induction xs arbitrary: s)
  case Nil
  have "c \<noteq> CHR 0x0D" "c \<noteq> CHR ''\<newline>''" "c \<noteq> CHR 0x7F" using assms by auto
  then show ?case using assms by simp
qed auto

lemma vsnprintf_loop_text:
  "\<exists>t. \<forall>sz. vsnprintf_loop strs para sz fmt i (take (nat (sz - 1)) acc, length acc)
     = map_option (\<lambda>t. (take (nat (sz - 1)) t, length t)) t"
proof (induction "length fmt" arbitrary: fmt i acc rule: less_induct)
  case less
  have put: "fold (IF_UNOVER sz) out (take (nat (sz - 1)) acc, length acc)
      = (take (nat (sz - 1)) (acc @ out), length (acc @ out))" for sz out
    by (simp add: fold_IF_UNOVER)
  have put1: "IF_UNOVER sz c (take (nat (sz - 1)) acc, length acc)
      = (take (nat (sz - 1)) (acc @ [c]), length (acc @ [c]))" for sz c
    using put [of sz "[c]"] by simp
  show ?case
  proof (cases fmt)
    case Nil
    then show ?thesis by (intro exI [of _ "Some acc"]) simp
  next
    case (Cons c f)
    consider "c \<noteq> CHR ''%''" | "c = CHR ''%''" "looking_at (CHR ''%'') f"
      | "c = CHR ''%''" "\<not> looking_at (CHR ''%'') f" by blast
    then show ?thesis
    proof cases
      case 1
      then show ?thesis using less [of f i "acc @ [c]"] Cons by (simp add: put1)
    next
      case 2
      then have "length (tl f) < length fmt" using Cons by (cases f) (auto simp: looking_at_def)
      then show ?thesis using less [of "tl f" i "acc @ ''%''"] Cons 2 by (simp add: put1)
    next
      case 3
      obtain out r i' where d: "directive Some (vsnprintf_conv strs para) para f i = (out, r, i')"
        by (metis prod_cases3)
      have "length r < length fmt"
        using directive_length [OF shrinks_vsnprintf, of Some strs para para f i] d Cons by simp
      then show ?thesis
        using less [of r i' "acc @ the out"] Cons 3 d
        by (cases out) (auto simp: put intro: exI [of _ None])
    qed
  qed
qed

text \<open>Plain decimal directives.\<close>

lemma directive_vsprintf_d:
  "directive id (vsprintf_conv strs para) para (CHR ''d'' # r) i
     = (num_to_ascii (para i) 0 10 (no_style\<lparr>SIGNINT := True, SIGN := True\<rparr>), r, i + 1)"
  by (simp add: directive_def vsprintf_conv_def skip_l_def looking_at_def isdigit_def no_style_def)

lemma directive_vsnprintf_number:
  "c \<in> {CHR ''d'', CHR ''u'', CHR ''i''} \<Longrightarrow> directive Some (vsnprintf_conv strs para) para (c # r) i
     = (ch_num (num_to_ascii (para i) 0 10 no_style), r, i + 1)"
  by (auto simp: directive_def vsnprintf_conv_def skip_l_def looking_at_def isdigit_def)

lemma num_digits_step:
  "num_digits base 0 acc = acc"
  "0 < num \<Longrightarrow> 2 \<le> base \<Longrightarrow> num_digits base num acc = num_digits base (num div base) (pdigit ! (num mod base) # acc)"
  by (subst num_digits.simps, simp)+

lemma print_minus_one:
  "num_to_ascii (-1) 0 10 (no_style\<lparr>SIGNINT := True, SIGN := True\<rparr>) = ''-1''"
  "num_to_ascii (-1) 0 10 no_style = ''4294967295''"
  by (simp_all add: num_to_ascii_def no_style_def num_digits_step pdigit_def unsigned_minus_1_eq_mask mask_eq_exp_minus_1)

section \<open>Properties of formatted output\<close>

text \<open>
  C36: \<^verbatim>\<open>vsnprintf\<close> cuts off its text at the bound and reports what it would have stored.
  For given arguments there is one text, the same for every bound \<open>sz\<close> (or none, when a number
  does not fit its scratch array): the call stores its first \<open>sz - 1\<close> characters and a terminator
  and returns its length. With a bound of at least 1 this stays within the bound; with one of 0 or less the
  terminator is stored all the same, in \<^verbatim>\<open>buf[0]\<close>, which is outside of it.
\<close>

theorem vsnprintf_truncates:
  "\<exists>text. \<forall>sz. vsnprintf strs sz fmt para = map_option (\<lambda>t. (take (nat (sz - 1)) t @ [CHR 0x00], length t)) text
     \<and> (\<forall>buf n. vsnprintf strs sz fmt para = Some (buf, n) \<longrightarrow>
          (1 \<le> sz \<longrightarrow> int (length buf) \<le> sz) \<and> (sz \<le> 0 \<longrightarrow> buf = [CHR 0x00]))"
proof -
  obtain full where t: "vsnprintf_loop strs para sz fmt 0 ([], 0) = map_option (\<lambda>t. (take (nat (sz - 1)) t, length t)) full" for sz
    using vsnprintf_loop_text [of strs para fmt 0 "[]"] by auto
  have v: "vsnprintf strs sz fmt para = map_option (\<lambda>t. (take (nat (sz - 1)) t @ [CHR 0x00], length t)) full" for sz
    by (simp add: vsnprintf_def t option.map_comp comp_def)
  then show ?thesis by (intro exI [of _ full] allI conjI impI) auto
qed

theorem vsnprintf_truncates_witness:
  "vsnprintf (\<lambda>_. []) 3 ''abcd'' (\<lambda>_. 0) = Some (''ab'' @ [CHR 0x00], 4)
     \<and> vsnprintf (\<lambda>_. []) 0 ''abcd'' (\<lambda>_. 0) = Some ([CHR 0x00], 4)"
proof -
  obtain full where t: "\<And>sz. vsnprintf (\<lambda>_. []) sz ''abcd'' (\<lambda>_. 0) = map_option (\<lambda>t. (take (nat (sz - 1)) t @ [CHR 0x00], length t)) full"
    using vsnprintf_truncates [of "\<lambda>_. []" "''abcd''" "\<lambda>_. 0"] by blast
  have "vsnprintf (\<lambda>_. []) 5 ''abcd'' (\<lambda>_. 0) = Some (''abcd'' @ [CHR 0x00], 4)" by (simp add: vsnprintf_def IF_UNOVER_def)
  with t [of 5] have "full = Some ''abcd''" by (auto simp: map_option_case split: option.splits)
  then show ?thesis using t [of 3] t [of 0] by simp
qed

text \<open>
  Numbers are printed in positional notation: without width and flags, in each of the bases in
  use, the characters are the digits of the number, most significant first and without leading
  zeros, and a width pads the text to exactly that many characters.
\<close>

theorem num_to_ascii_digits:
  assumes "base \<in> {8, 10, 16}"
  shows "\<exists>ds. num_to_ascii num 0 base no_style = map ((!) pdigit) ds \<and> ds \<noteq> [] \<and> (\<forall>d\<in>set ds. d < base)
      \<and> digits_value base ds = unat num \<and> (hd ds = 0 \<longrightarrow> num = 0)
      \<and> length (num_to_ascii num w base no_style) = max (nat w) (length ds)"
proof (cases "num = 0")
  case True
  then show ?thesis
    by (intro exI [of _ "[0]"]) (use assms in \<open>auto simp: num_to_ascii_def no_style_def pdigit_def digits_value_def\<close>)
next
  case False
  let ?ds = "digit_list base (unat num)"
  have b: "2 \<le> base" using assms by auto
  have eq: "num_digits base (unat num) [] = map ((!) pdigit) ?ds" by (simp add: num_digits_map)
  have "hd (digit_list base n) \<noteq> 0 \<and> digit_list base n \<noteq> []" if "0 < n" for n
    using that
  proof (induction n rule: less_induct)
    case (less n)
    show ?case
    proof (cases "n div base = 0")
      case True
      then have "n mod base = n" using b by (simp add: div_eq_0_iff)
      then show ?thesis using True less.prems b by (subst (1 2) digit_list.simps) (simp add: digit_list.simps)
    next
      case False
      then have "n div base < n" using b less.prems by (simp add: div_less_dividend)
      then show ?thesis using less.IH [of "n div base"] False less.prems b
        by (subst (1 2) digit_list.simps) auto
    qed
  qed
  then have hd: "hd ?ds \<noteq> 0" "?ds \<noteq> []" using False by (auto simp: unat_gt_0)
  then show ?thesis
    by (intro exI [of _ ?ds])
      (use False b in \<open>auto simp: num_to_ascii_def no_style_def eq digit_list_value dest: digit_list_less\<close>)
qed

theorem num_to_ascii_digits_witness:
  "\<exists>ds. num_to_ascii 255 0 16 no_style = map ((!) pdigit) ds \<and> digits_value 16 ds = 255"
  using num_to_ascii_digits [of 16 255 0] by auto

text \<open>
  \<^verbatim>\<open>snprintf\<close> prints negative numbers as large positive ones: without flags its \<^verbatim>\<open>%d\<close> is its
  \<^verbatim>\<open>%u\<close>, while \<^verbatim>\<open>sprintf\<close> prints the sign.
\<close>

theorem snprintf_d_unsigned:
  "snprintf strs sz ''%d'' arg = snprintf strs sz ''%u'' arg
     \<and> fst (sprintf strs ''%d'' (\<lambda>_. -1)) = ''-1''
     \<and> snprintf strs 20 ''%d'' (\<lambda>_. -1) = Some (''4294967295'' @ [CHR 0x00], 10)"
proof (intro conjI)
  show "snprintf strs sz ''%d'' arg = snprintf strs sz ''%u'' arg"
    unfolding snprintf_def vsnprintf_def by (simp add: looking_at_def directive_vsnprintf_number)
  show "fst (sprintf strs ''%d'' (\<lambda>_. -1)) = ''-1''"
    by (simp add: sprintf_def vsprintf_def looking_at_def directive_vsprintf_d print_minus_one(1))
  show "snprintf strs 20 ''%d'' (\<lambda>_. -1) = Some (''4294967295'' @ [CHR 0x00], 10)"
    by (simp add: snprintf_def vsnprintf_def looking_at_def directive_vsnprintf_number print_minus_one(2) ch_num_def
        IF_UNOVER_def)
qed

text \<open>
  Rubbing out a character undoes typing it: the line that \<^verbatim>\<open>gets\<close> returns for input in which a
  printable character is followed at once by DEL is the line for the input without the two.
\<close>

theorem gets_rubout:
  assumes "(32 :: nat) \<le> of_char c" "of_char c < (127 :: nat)"
  shows "map_option fst (gets (xs @ c # CHR 0x7F # ys)) = map_option fst (gets (xs @ ys))"
  unfolding gets_def gets_loop_edited by (rule edited_rubout [OF assms])

theorem gets_rubout_witness:
  "map_option fst (gets (''ab'' @ CHR ''x'' # CHR 0x7F # [CHR 0x0D])) = map_option fst (gets (''ab'' @ [CHR 0x0D]))"
  by (rule gets_rubout) simp_all

end
