(* ===== verification/Strex.thy ===== *)
theory Strex
  imports Stdio
begin

text \<open>
  Conversions between numbers, addresses and text, \<^verbatim>\<open>lib/extra/strex.c\<close>. A string argument is the
  list of its characters; a function that writes a string returns it with its result. \<^verbatim>\<open>long\<close> and
  \<^verbatim>\<open>int\<close> have 32 bits: a value that leaves their range wraps, as \<open>wrap32\<close> says. A failure is
  \<open>Inl\<close> of the negative error number.
\<close>

abbreviation (input) chr :: "nat \<Rightarrow> char" where "chr n \<equiv> char_of n"

section \<open>Hexadecimal\<close>

fun hex_loop :: "string \<Rightarrow> nat \<Rightarrow> u32 \<Rightarrow> int + nat \<times> u32" where
  "hex_loop [] len tmp = Inr (len, tmp)"
| "hex_loop (c # str) len tmp =
     (let code = (of_char c :: nat)
      in if 48 \<le> code \<and> code \<le> 57
         then if len + 1 > 8 then Inl (- EINVAL)
              else hex_loop str (len + 1) (push_bit 4 tmp OR of_nat (code - 48))
         else if 97 \<le> code \<and> code \<le> 102
         then if len + 1 > 8 then Inl (- EINVAL)
              else hex_loop str (len + 1) (push_bit 4 tmp OR of_nat (code - 97 + 10))
         else if 65 \<le> code \<and> code \<le> 70
         then if len + 1 > 8 then Inl (- EINVAL)
              else hex_loop str (len + 1) (push_bit 4 tmp OR of_nat (code - 65 + 10))
         else Inl (- EINVAL))"

definition hex_str_to_val :: "string \<Rightarrow> int + nat \<times> u32" where
  "hex_str_to_val str = hex_loop str 0 0"

text \<open>The digits that \<^verbatim>\<open>val_to_hex_str\<close> leaves at the end of its buffer.\<close>

function hex_digits :: "nat \<Rightarrow> string \<Rightarrow> string" where
  "hex_digits val acc =
     (if val = 0 then acc
      else let num = val mod 16
           in hex_digits (val div 16) ((if num < 10 then chr (num + 48) else chr (num - 10 + 97)) # acc))"
  by pat_completeness auto
termination by (relation "measure fst") auto

declare hex_digits.simps [simp del]

definition val_to_hex_str :: "u32 \<Rightarrow> string \<times> nat" where
  "val_to_hex_str val = (let str = hex_digits (unat val) [] in (str, length str))"

section \<open>Decimal\<close>

function dec_digits :: "int \<Rightarrow> string \<Rightarrow> string" where
  "dec_digits val acc =
     (let acc' = char_of (val smod 10 + 48) # acc; val' = val sdiv 10
      in if val' \<noteq> 0 then dec_digits val' acc' else acc')"
  by pat_completeness auto
termination
proof (relation "measure (\<lambda>(v, acc). nat \<bar>v\<bar>)")
  fix val val' :: int and acc acc' :: string
  assume *: "acc' = char_of (val smod 10 + 48) # acc" "val' = val sdiv 10" "val' \<noteq> 0"
  then have "val \<noteq> 0" by auto
  then have "\<bar>val\<bar> div 10 < \<bar>val\<bar>" by (simp add: int_div_less_self)
  then show "((val', acc'), val, acc) \<in> measure (\<lambda>(v, acc). nat \<bar>v\<bar>)"
    using \<open>val \<noteq> 0\<close> * by (auto simp: signed_divide_int_def abs_mult nat_less_iff)
qed simp

declare dec_digits.simps [simp del]

definition val_to_dec_str :: "int \<Rightarrow> string \<times> nat" where
  "val_to_dec_str val =
     (let (sign, val) = (if val < 0 then (''-'', wrap32 (- val)) else ('''', val));
          str = sign @ dec_digits val []
      in (str, length str))"

fun dec_loop :: "string \<Rightarrow> int \<Rightarrow> int + int" where
  "dec_loop [] tmp = Inr tmp"
| "dec_loop (c # num) tmp =
     (if isdigit c then dec_loop num (wrap32 (10 * tmp + of_char c - 48)) else Inl (- EINVAL))"

definition dec_str_to_long :: "string \<Rightarrow> int + nat \<times> int" where
  "dec_str_to_long str =
     (let num = (if looking_at (CHR ''-'') str then tl str else str)
      in case dec_loop num 0 of
           Inl e \<Rightarrow> Inl e
         | Inr tmp \<Rightarrow> Inr (length str, if looking_at (CHR ''-'') str then wrap32 (- tmp) else tmp))"

text \<open>\<^verbatim>\<open>dec_str_to_int\<close> is the same text for \<^verbatim>\<open>int\<close>, which has the width of \<^verbatim>\<open>long\<close>.\<close>

definition dec_str_to_int :: "string \<Rightarrow> int + nat \<times> int" where
  "dec_str_to_int str =
     (let num = (if looking_at (CHR ''-'') str then tl str else str)
      in case dec_loop num 0 of
           Inl e \<Rightarrow> Inl e
         | Inr tmp \<Rightarrow> Inr (length str, if looking_at (CHR ''-'') str then wrap32 (- tmp) else tmp))"

definition str_to_val :: "string \<Rightarrow> int + nat \<times> u32" where
  "str_to_val str =
     (if looking_at (CHR ''0'') str \<and> (looking_at (CHR ''x'') (tl str) \<or> looking_at (CHR ''X'') (tl str))
      then hex_str_to_val (drop 2 str)
      else case dec_str_to_long str of Inl e \<Rightarrow> Inl e | Inr (n, v) \<Rightarrow> Inr (n, word_of_int v))"

section \<open>Sizes\<close>

text \<open>The marks seen so far.\<close>

record marks =
  G_MARK :: bool
  M_MARK :: bool
  K_MARK :: bool

fun hr_loop :: "string \<Rightarrow> marks \<Rightarrow> u32 \<Rightarrow> u32 \<Rightarrow> int + u32" where
  "hr_loop [] mark num tmp = Inr (num + tmp)"
| "hr_loop (c # str) mark num tmp =
     (if isdigit c then hr_loop str mark num (tmp * 10 + of_nat (of_char c) - 48)
      else if c = CHR ''g'' \<or> c = CHR ''G''
      then if G_MARK mark \<or> M_MARK mark \<or> K_MARK mark then Inl (- EINVAL)
           else hr_loop str (mark\<lparr>G_MARK := True\<rparr>) (num + push_bit 30 tmp) 0
      else if c = CHR ''m'' \<or> c = CHR ''M''
      then if M_MARK mark \<or> K_MARK mark then Inl (- EINVAL)
           else hr_loop str (mark\<lparr>M_MARK := True\<rparr>) (num + push_bit 20 tmp) 0
      else if c = CHR ''k'' \<or> c = CHR ''K''
      then if K_MARK mark then Inl (- EINVAL)
           else hr_loop str (mark\<lparr>K_MARK := True\<rparr>) (num + push_bit 10 tmp) 0
      else Inl (- EINVAL))"

definition hr_str_to_val :: "string \<Rightarrow> int + u32" where
  "hr_str_to_val str = hr_loop str \<lparr> G_MARK = False, M_MARK = False, K_MARK = False \<rparr> 0 0"

definition KB_MASK :: u32 where "KB_MASK = push_bit 10 1 - 1"

definition soff :: "(nat \<times> char) list" where
  "soff = [(30, CHR ''G''), (20, CHR ''M''), (10, CHR ''K''), (0, CHR ''B'')]"

definition hr_section :: "u32 \<Rightarrow> nat \<times> char \<Rightarrow> string" where
  "hr_section val s =
     (let sect = drop_bit (fst s) val AND KB_MASK
      in if sect \<noteq> 0 then fst (val_to_dec_str (uint sect)) @ [snd s] else [])"

definition val_to_hr_str :: "u32 \<Rightarrow> string \<times> nat" where
  "val_to_hr_str val = (let str = concat (map (hr_section val) soff) in (str, length str))"

section \<open>Addresses\<close>

text \<open>\<^verbatim>\<open>str_to_ip\<close>: \<open>ip_val\<close> are the bytes stored so far, \<^verbatim>\<open>dot\<close> is their number.\<close>

fun ip_loop :: "string \<Rightarrow> u8 list \<Rightarrow> u32 \<Rightarrow> int + u8 list" where
  "ip_loop [] ip_val num =
     (if length ip_val < 3 \<or> num > 255 then Inl (- EINVAL) else Inr (ip_val @ [ucast num]))"
| "ip_loop (c # iter) ip_val num =
     (if isdigit c then ip_loop iter ip_val (10 * num + of_nat (of_char c) - 48)
      else if c = CHR ''.'' \<and> num \<le> 255 \<and> length ip_val < 3
      then ip_loop iter (ip_val @ [ucast num]) 0
      else Inl (- EINVAL))"

definition str_to_ip :: "string \<Rightarrow> int + u8 list" where
  "str_to_ip ip_str = ip_loop ip_str [] 0"

definition ip_to_str :: "u32 \<Rightarrow> string" where
  "ip_to_str ip =
     fst (sprintf (\<lambda>_. []) ''%d.%d.%d.%d''
       (\<lambda>i. [ip AND 0xff, drop_bit 8 ip AND 0xff, drop_bit 16 ip AND 0xff, drop_bit 24 ip AND 0xff] ! i))"

text \<open>
  \<^verbatim>\<open>str_to_mac\<close>: \<^verbatim>\<open>buf\<close> is the copy that \<^verbatim>\<open>strncpy\<close> makes of the first \<^verbatim>\<open>MAC_STR_LEN\<close> characters, padded
  with zeros; the loop also looks at \<^verbatim>\<open>buf[MAC_STR_LEN]\<close>, one past its end: that byte is \<open>past\<close>. \<open>p\<close> is
  the text since the last separator.
\<close>

abbreviation (input) MAC_STR_LEN :: nat where "MAC_STR_LEN \<equiv> 18"
abbreviation (input) MAC_ADR_LEN :: nat where "MAC_ADR_LEN \<equiv> 6"

fun mac_loop :: "string \<Rightarrow> string \<Rightarrow> u8 list \<Rightarrow> int + u8 list" where
  "mac_loop [] p mac = (if length mac \<noteq> MAC_ADR_LEN then Inl (- EINVAL) else Inr mac)"
| "mac_loop (c # buf) p mac =
     (if length mac = MAC_ADR_LEN then Inr mac
      else if c = CHR '':'' \<or> c = CHR 0x00
      then (case hex_str_to_val p of
              Inl e \<Rightarrow> Inl (- EINVAL)
            | Inr (n, num) \<Rightarrow>
                if n = 0 \<or> num > 255 then Inl (- EINVAL) else mac_loop buf [] (mac @ [ucast num]))
      else mac_loop buf (p @ [c]) mac)"

definition str_to_mac :: "char \<Rightarrow> string \<Rightarrow> int + u8 list" where
  "str_to_mac past str =
     (let buf = take MAC_STR_LEN (str @ replicate MAC_STR_LEN (CHR 0x00))
      in mac_loop (buf @ [past]) [] [])"

section \<open>Digit strings\<close>

definition dchar :: "nat \<Rightarrow> char" where "dchar d = chr (d + 48)"

definition hchar :: "nat \<Rightarrow> char" where
  "hchar d = (if d < 10 then chr (d + 48) else chr (d - 10 + 97))"

definition dec_text :: "nat \<Rightarrow> string" where
  "dec_text n = (if n = 0 then ''0'' else map dchar (digit_list 10 n))"

lemma of_dchar [simp]: "d < 10 \<Longrightarrow> (of_char (dchar d) :: nat) = d + 48"
  by (simp add: dchar_def)

lemma isdigit_dchar [simp]: "d < 10 \<Longrightarrow> isdigit (dchar d)"
  by (simp add: isdigit_def)

lemma dchar_0: "dchar 0 = CHR ''0''"
  using of_char_eq_iff [where 'a = nat, of "dchar 0" "CHR ''0''"] by simp

lemma dec_text_digits: "\<exists>ds. dec_text n = map dchar ds \<and> ds \<noteq> [] \<and> (\<forall>d\<in>set ds. d < 10) \<and> digits_value 10 ds = n"
proof (cases "n = 0")
  case True
  then show ?thesis by (intro exI [of _ "[0]"]) (simp add: dec_text_def dchar_0 digits_value_def)
next
  case False
  then have "digit_list 10 n \<noteq> []" by (subst digit_list.simps) simp
  then show ?thesis
    using False digit_list_less [of 10 _ n]
    by (intro exI [of _ "digit_list 10 n"]) (auto simp: dec_text_def digit_list_value)
qed

lemma hex_digits_map: "hex_digits n acc = map hchar (digit_list 16 n) @ acc"
proof (induction n acc rule: hex_digits.induct)
  case (1 n acc)
  show ?case
  proof (cases "n = 0")
    case False
    then have "hex_digits n acc = hex_digits (n div 16) (hchar (n mod 16) # acc)"
      by (subst hex_digits.simps) (simp add: Let_def hchar_def)
    also have "\<dots> = map hchar (digit_list 16 (n div 16)) @ hchar (n mod 16) # acc"
      using 1 False by (simp add: hchar_def)
    also have "\<dots> = map hchar (digit_list 16 n) @ acc"
      using False by (subst (2) digit_list.simps) simp
    finally show ?thesis .
  qed (simp add: hex_digits.simps digit_list.simps)
qed

lemma shift_or: "d < 16 \<Longrightarrow> push_bit 4 t OR of_nat d = t * 16 + (of_nat d :: u32)"
proof -
  assume d: "d < 16"
  have "push_bit 4 t OR of_nat d = push_bit 4 t + (of_nat d :: u32)"
  proof (rule disjunctive_add [symmetric])
    fix n show "\<not> bit (push_bit 4 t) n \<or> \<not> bit (of_nat d :: u32) n"
      using d bit_less_power [of d n 4] by (auto simp: bit_simps)
  qed
  then show ?thesis by (simp add: push_bit_eq_mult)
qed

lemma hex_loop_digits:
  assumes "\<forall>d\<in>set ds. d < 16" "len + length ds \<le> 8"
  shows "hex_loop (map hchar ds) len (of_nat v) = Inr (len + length ds, of_nat (foldl (\<lambda>v d. v * 16 + d) v ds))"
  using assms
proof (induction ds arbitrary: len v)
  case (Cons d ds)
  then have d: "d < 16" "len + 1 \<le> 8" by auto
  have "hex_loop (map hchar (d # ds)) len (of_nat v) = hex_loop (map hchar ds) (len + 1) (push_bit 4 (of_nat v) OR of_nat d)"
    using d by (cases "d < 10") (simp_all add: hchar_def Let_def)
  also have "push_bit 4 (of_nat v) OR of_nat d = (of_nat (v * 16 + d) :: u32)"
    using shift_or [OF d(1), of "of_nat v"] by simp
  finally have "hex_loop (map hchar (d # ds)) len (of_nat v) = hex_loop (map hchar ds) (len + 1) (of_nat (v * 16 + d))" .
  then show ?case using Cons.IH [of "len + 1" "v * 16 + d"] Cons.prems by (simp only: foldl.simps) simp
qed simp

text \<open>Decimal digits, read into a signed value that stays in range and into words.\<close>

lemma foldl_ge: "0 \<le> t \<Longrightarrow> t \<le> foldl (\<lambda>t d. 10 * t + int d) t ds"
proof (induction ds arbitrary: t)
  case (Cons d ds)
  from Cons.IH [of "10 * t + int d"] Cons.prems show ?case by simp
qed simp

lemma wrap32_id: "- (2 ^ 31) \<le> x \<Longrightarrow> x < 2 ^ 31 \<Longrightarrow> wrap32 x = x"
  by (simp add: wrap32_def)

lemma dec_loop_digits:
  assumes "\<forall>d\<in>set ds. d < 10" "0 \<le> t" "foldl (\<lambda>t d. 10 * t + int d) t ds < 2 ^ 31"
  shows "dec_loop (map dchar ds) t = Inr (foldl (\<lambda>t d. 10 * t + int d) t ds)"
  using assms
proof (induction ds arbitrary: t)
  case (Cons d ds)
  have d: "d < 10" using Cons.prems by simp
  have "10 * t + int d < 2 ^ 31"
    using foldl_ge [of "10 * t + int d" ds] Cons.prems by simp
  then have "wrap32 (10 * t + int d) = 10 * t + int d" using Cons.prems by (intro wrap32_id) auto
  moreover have "(of_char (dchar d) :: int) = int d + 48"
    using of_dchar [OF d] by (metis of_nat_add of_nat_numeral of_nat_of_char)
  ultimately show ?case using Cons d by simp
qed simp

lemma foldl_int: "foldl (\<lambda>t d. 10 * t + int d) (int v) ds = int (foldl (\<lambda>v d. v * 10 + d) v ds)"
proof (induction ds arbitrary: v)
  case (Cons d ds)
  have "10 * int v + int d = int (v * 10 + d)" by simp
  then show ?case using Cons.IH [of "v * 10 + d"] by (simp only: foldl.simps)
qed simp

lemma dec_loop_text: "n < 2 ^ 31 \<Longrightarrow> dec_loop (dec_text n) 0 = Inr (int n)"
  using dec_text_digits [of n] dec_loop_digits [of _ 0] foldl_int [of 0]
  by (fastforce simp: digits_value_def)

lemma sdiv_smod_nat: "int n sdiv 10 = int (n div 10)" "int n smod 10 = int (n mod 10)"
  by (auto simp: signed_divide_int_def signed_modulo_int_def sgn_if zdiv_int zmod_int minus_div_mult_eq_mod [symmetric])

lemma dec_digits_map: "dec_digits (int n) acc = dec_text n @ acc"
proof (induction n arbitrary: acc rule: less_induct)
  case (less n)
  have c: "char_of (int n smod 10 + 48) = dchar (n mod 10)"
    unfolding sdiv_smod_nat dchar_def by (metis char_of_nat of_nat_add of_nat_numeral)
  show ?case
  proof (cases "n div 10 = 0")
    case True
    then have "dec_digits (int n) acc = dchar (n mod 10) # acc"
      by (subst dec_digits.simps) (simp add: sdiv_smod_nat(1) c Let_def)
    moreover have "dec_text n = [dchar (n mod 10)]"
      using True by (cases "n = 0") (simp_all add: dec_text_def dchar_0 digit_list.simps)
    ultimately show ?thesis by simp
  next
    case False
    then have "dec_digits (int n) acc = dec_digits (int (n div 10)) (dchar (n mod 10) # acc)"
      by (subst dec_digits.simps) (simp add: sdiv_smod_nat(1) c Let_def)
    also have "\<dots> = dec_text (n div 10) @ dchar (n mod 10) # acc" using False by (intro less) auto
    also have "\<dots> = dec_text n @ acc"
      using False by (cases "n = 0") (simp_all add: dec_text_def digit_list.simps [of 10 n])
    finally show ?thesis .
  qed
qed

lemma val_to_dec_str_text:
  "0 \<le> v \<Longrightarrow> fst (val_to_dec_str v) = dec_text (nat v)"
  "v < 0 \<Longrightarrow> - (2 ^ 31) < v \<Longrightarrow> fst (val_to_dec_str v) = CHR ''-'' # dec_text (nat (- v))"
  using dec_digits_map [of "nat v" "[]"] dec_digits_map [of "nat (- v)" "[]"]
  by (simp_all add: val_to_dec_str_def Let_def wrap32_id)

lemma dec_text_no_minus: "\<not> looking_at (CHR ''-'') (dec_text n)"
proof -
  obtain ds where ds: "dec_text n = map dchar ds" "ds \<noteq> []" "\<forall>d\<in>set ds. d < 10" using dec_text_digits by blast
  then have "isdigit (hd (dec_text n))" by (cases ds) auto
  then show ?thesis by (auto simp: looking_at_def isdigit_def)
qed

lemma dec_roundtrip:
  assumes "- (2 ^ 31) < v" "v < 2 ^ 31"
  shows "dec_str_to_long (fst (val_to_dec_str v)) = Inr (snd (val_to_dec_str v), v)"
proof -
  have len: "snd (val_to_dec_str v) = length (fst (val_to_dec_str v))" by (simp add: val_to_dec_str_def Let_def case_prod_unfold)
  show ?thesis
  proof (cases "0 \<le> v")
    case True
    then show ?thesis unfolding len
      using dec_loop_text [of "nat v"] assms by (simp add: val_to_dec_str_text dec_str_to_long_def dec_text_no_minus)
  next
    case False
    then show ?thesis unfolding len
      using dec_loop_text [of "nat (- v)"] assms
      by (simp add: val_to_dec_str_text dec_str_to_long_def looking_at_def wrap32_id)
  qed
qed

lemma hex_roundtrip: "hex_str_to_val (fst (val_to_hex_str v)) = Inr (snd (val_to_hex_str v), v)"
proof -
  let ?ds = "digit_list 16 (unat v)"
  have "unat v < 16 ^ 8" using unsigned_less [of v, where 'a = nat] by simp
  then have "length ?ds \<le> 8" by (intro digit_list_length) auto
  moreover have "\<forall>d\<in>set ?ds. d < 16" using digit_list_less [of 16] by auto
  ultimately have "hex_loop (map hchar ?ds) 0 (of_nat 0) = Inr (length ?ds, of_nat (digits_value 16 ?ds))"
    using hex_loop_digits [of ?ds 0 0] by (simp add: digits_value_def)
  then show ?thesis by (simp add: hex_str_to_val_def val_to_hex_str_def hex_digits_map digit_list_value)
qed

text \<open>Decimal digits read into a word, in the loops for sizes and for addresses.\<close>

lemma word_digit: "d < 10 \<Longrightarrow> of_nat (of_char (dchar d)) = (of_nat d + 48 :: u32)"
  by (simp only: of_dchar of_nat_add of_nat_numeral)

lemma hr_loop_text:
  "hr_loop (dec_text n @ rest) mark num 0 = hr_loop rest mark num (of_nat n)"
proof -
  obtain ds where ds: "dec_text n = map dchar ds" "\<forall>d\<in>set ds. d < 10" "digits_value 10 ds = n"
    using dec_text_digits by blast
  have "hr_loop (map dchar ds @ rest) mark num (of_nat v) = hr_loop rest mark num (of_nat (foldl (\<lambda>v d. v * 10 + d) v ds))"
    if "\<forall>d\<in>set ds. d < 10" for ds v
    using that
  proof (induction ds arbitrary: v)
    case (Cons d ds)
    have "(of_nat v * 10 + of_nat (of_char (dchar d)) - 48 :: u32) = of_nat (v * 10 + d)"
      using Cons.prems by (simp add: word_digit del: of_dchar)
    then show ?case using Cons by (simp del: of_nat_add of_nat_mult)
  qed simp
  from this [OF ds(2), of 0] show ?thesis using ds(1,3) by (simp add: digits_value_def)
qed

lemma ip_loop_text:
  "ip_loop (dec_text n @ rest) ip_val 0 = ip_loop rest ip_val (of_nat n)"
proof -
  obtain ds where ds: "dec_text n = map dchar ds" "\<forall>d\<in>set ds. d < 10" "digits_value 10 ds = n"
    using dec_text_digits by blast
  have "ip_loop (map dchar ds @ rest) ip_val (of_nat v) = ip_loop rest ip_val (of_nat (foldl (\<lambda>v d. v * 10 + d) v ds))"
    if "\<forall>d\<in>set ds. d < 10" for ds v
    using that
  proof (induction ds arbitrary: v)
    case (Cons d ds)
    have "(10 * of_nat v + of_nat (of_char (dchar d)) - 48 :: u32) = of_nat (v * 10 + d)"
      using Cons.prems by (simp add: word_digit del: of_dchar)
    then show ?case using Cons by (simp del: of_nat_add of_nat_mult)
  qed simp
  from this [OF ds(2), of 0] show ?thesis using ds(1,3) by (simp add: digits_value_def)
qed

lemma ten_bits: "(2::nat) ^ 10 = 1024"
  by simp

lemma take_bit_length_unat: "take_bit LENGTH(32) (unat (w :: u32)) = unat w"
  using unsigned_less [of w, where 'a = nat] by (simp add: take_bit_eq_mod)

lemma of_nat_unat_id: "of_nat (unat (w :: u32)) = w"
  by simp

lemma section_value: "drop_bit k val AND KB_MASK = of_nat (unat val div 2 ^ k mod 1024)" for val :: u32
proof -
  have "KB_MASK = mask 10" by (simp add: KB_MASK_def mask_eq_exp_minus_1)
  then have "drop_bit k val AND KB_MASK = take_bit 10 (drop_bit k val)" by (simp only: take_bit_eq_mask)
  moreover have "unat (take_bit 10 (drop_bit k val)) = unat val div 2 ^ k mod 2 ^ 10"
    by (simp only: unsigned_take_bit_eq unsigned_drop_bit_eq take_bit_eq_mod [of 10 "_ :: nat"] drop_bit_eq_div [of _ "_ :: nat"]
        take_bit_length_unat)
  ultimately show ?thesis by (metis of_nat_unat_id ten_bits)
qed

lemma hr_section_text:
  "hr_section val (k, c) = (let s = unat val div 2 ^ k mod 1024 in if s = 0 then [] else dec_text s @ [c])"
proof -
  let ?n = "unat val div 2 ^ k mod 1024"
  have "?n < 2 ^ 32" by (rule less_trans [of _ 1024]) auto
  then have u: "unat (of_nat ?n :: u32) = ?n" by (simp add: unat_of_nat)
  then have "(of_nat ?n :: u32) = 0 \<longleftrightarrow> ?n = 0" by (metis unat_eq_zero)
  moreover have "nat (uint (of_nat ?n :: u32)) = ?n" using u by simp
  ultimately show ?thesis
    by (simp add: hr_section_def section_value Let_def val_to_dec_str_text(1))
qed

lemma hr_parts:
  fixes val :: u32
  defines "s \<equiv> \<lambda>k. unat val div 2 ^ k mod 1024"
  assumes "s 0 = 0"
  shows "push_bit 30 (of_nat (s 30)) + push_bit 20 (of_nat (s 20)) + push_bit 10 (of_nat (s 10)) = val"
proof -
  let ?n = "unat val"
  have lt: "?n < 2 ^ 32" using unsigned_less [of val, where 'a = nat] by simp
  have "?n div 2 ^ 30 < 1024" using lt by (simp add: less_mult_imp_div_less)
  then have "s 30 = ?n div 2 ^ 30" by (simp add: s_def)
  moreover have "?n div 2 ^ 20 = ?n div 2 ^ 30 * 1024 + s 20"
    using div_mult_mod_eq [of "?n div 2 ^ 20" 1024] by (simp add: s_def flip: div_mult2_eq)
  moreover have "?n div 2 ^ 10 = ?n div 2 ^ 20 * 1024 + s 10"
    using div_mult_mod_eq [of "?n div 2 ^ 10" 1024] by (simp add: s_def flip: div_mult2_eq)
  moreover have "?n = ?n div 2 ^ 10 * 1024"
  proof -
    have "?n mod 1024 = 0" using assms by (simp add: s_def)
    then show ?thesis using div_mult_mod_eq [of ?n 1024] by simp
  qed
  ultimately have n: "s 30 * 2 ^ 30 + s 20 * 2 ^ 20 + s 10 * 2 ^ 10 = ?n" by simp
  have "push_bit 30 (of_nat (s 30)) + push_bit 20 (of_nat (s 20)) + push_bit 10 (of_nat (s 10))
      = (of_nat (s 30 * 2 ^ 30 + s 20 * 2 ^ 20 + s 10 * 2 ^ 10) :: u32)"
    by (simp add: push_bit_eq_mult)
  then show ?thesis unfolding n by simp
qed

lemma hr_step:
  "\<not> G_MARK mk \<Longrightarrow> \<not> M_MARK mk \<Longrightarrow> \<not> K_MARK mk \<Longrightarrow>
     hr_loop (hr_section val (30, CHR ''G'') @ rest) mk num 0
       = hr_loop rest (mk\<lparr>G_MARK := unat val div 2 ^ 30 mod 1024 \<noteq> 0\<rparr>) (num + push_bit 30 (of_nat (unat val div 2 ^ 30 mod 1024))) 0"
  "\<not> M_MARK mk \<Longrightarrow> \<not> K_MARK mk \<Longrightarrow>
     hr_loop (hr_section val (20, CHR ''M'') @ rest) mk num 0
       = hr_loop rest (mk\<lparr>M_MARK := unat val div 2 ^ 20 mod 1024 \<noteq> 0\<rparr>) (num + push_bit 20 (of_nat (unat val div 2 ^ 20 mod 1024))) 0"
  "\<not> K_MARK mk \<Longrightarrow>
     hr_loop (hr_section val (10, CHR ''K'') @ rest) mk num 0
       = hr_loop rest (mk\<lparr>K_MARK := unat val div 2 ^ 10 mod 1024 \<noteq> 0\<rparr>) (num + push_bit 10 (of_nat (unat val div 2 ^ 10 mod 1024))) 0"
  "hr_loop (hr_section val (0, CHR ''B'')) mk num 0 = (if unat val mod 1024 = 0 then Inr num else Inl (- EINVAL))"
proof -
  have e: "mk\<lparr>G_MARK := False\<rparr> = mk" if "\<not> G_MARK mk" using that by (cases mk) auto
  have e': "mk\<lparr>M_MARK := False\<rparr> = mk" if "\<not> M_MARK mk" using that by (cases mk) auto
  have e'': "mk\<lparr>K_MARK := False\<rparr> = mk" if "\<not> K_MARK mk" using that by (cases mk) auto
  note t = hr_section_text Let_def isdigit_def
  show "\<not> G_MARK mk \<Longrightarrow> \<not> M_MARK mk \<Longrightarrow> \<not> K_MARK mk \<Longrightarrow>
     hr_loop (hr_section val (30, CHR ''G'') @ rest) mk num 0
       = hr_loop rest (mk\<lparr>G_MARK := unat val div 2 ^ 30 mod 1024 \<noteq> 0\<rparr>) (num + push_bit 30 (of_nat (unat val div 2 ^ 30 mod 1024))) 0"
    using hr_loop_text [of "unat val div 2 ^ 30 mod 1024"]
    by (cases "unat val div 2 ^ 30 mod 1024 = 0") (simp_all add: t e)
  show "\<not> M_MARK mk \<Longrightarrow> \<not> K_MARK mk \<Longrightarrow>
     hr_loop (hr_section val (20, CHR ''M'') @ rest) mk num 0
       = hr_loop rest (mk\<lparr>M_MARK := unat val div 2 ^ 20 mod 1024 \<noteq> 0\<rparr>) (num + push_bit 20 (of_nat (unat val div 2 ^ 20 mod 1024))) 0"
    using hr_loop_text [of "unat val div 2 ^ 20 mod 1024"]
    by (cases "unat val div 2 ^ 20 mod 1024 = 0") (simp_all add: t e')
  show "\<not> K_MARK mk \<Longrightarrow>
     hr_loop (hr_section val (10, CHR ''K'') @ rest) mk num 0
       = hr_loop rest (mk\<lparr>K_MARK := unat val div 2 ^ 10 mod 1024 \<noteq> 0\<rparr>) (num + push_bit 10 (of_nat (unat val div 2 ^ 10 mod 1024))) 0"
    using hr_loop_text [of "unat val div 2 ^ 10 mod 1024"]
    by (cases "unat val div 2 ^ 10 mod 1024 = 0") (simp_all add: t e'')
  show "hr_loop (hr_section val (0, CHR ''B'')) mk num 0 = (if unat val mod 1024 = 0 then Inr num else Inl (- EINVAL))"
    using hr_loop_text [of "unat val mod 1024" "''B''" mk num] by (simp add: hr_section_text Let_def isdigit_def)
qed

lemma hr_text_value:
  "hr_str_to_val (fst (val_to_hr_str v)) = (if unat v mod 1024 = 0 then Inr v else Inl (- EINVAL))"
  using hr_parts [of v]
  by (simp add: hr_str_to_val_def val_to_hr_str_def soff_def Let_def hr_step(1-3) hr_step(4) del: One_nat_def)

lemma pdigit_dchar: "d < 10 \<Longrightarrow> pdigit ! d = dchar d"
proof -
  assume "d < 10"
  then have "d \<in> set [0..<10]" by simp
  moreover have "\<forall>d\<in>set [0..<10]. pdigit ! d = dchar d" by code_simp
  ultimately show ?thesis by blast
qed

lemma print_decimal:
  assumes "\<not> bit num 31"
  shows "num_to_ascii num 0 10 (no_style\<lparr>SIGNINT := True, SIGN := True\<rparr>) = dec_text (unat num)"
proof -
  have "map ((!) pdigit) (digit_list 10 n) = map dchar (digit_list 10 n)" for n
    using digit_list_less [of 10 _ n] by (auto intro: pdigit_dchar)
  then show ?thesis
    using assms by (simp add: num_to_ascii_def no_style_def dec_text_def num_digits_map unat_eq_zero)
qed

lemma ip_to_str_text:
  "ip_to_str ip = dec_text (unat (ip AND 0xff)) @ ''.'' @ dec_text (unat (drop_bit 8 ip AND 0xff)) @ ''.''
     @ dec_text (unat (drop_bit 16 ip AND 0xff)) @ ''.'' @ dec_text (unat (drop_bit 24 ip AND 0xff))"
proof -
  have b: "\<not> bit (x AND 0xff) 31" for x :: u32 by (simp add: bit_simps)
  show ?thesis
    by (simp add: ip_to_str_def sprintf_def vsprintf_def looking_at_def directive_vsprintf_d print_decimal b)
qed

lemma low_byte: "x AND 0xff \<le> 255" "ucast (x AND 0xff :: u32) = (ucast x :: u8)" for x :: u32
proof -
  have m: "(0xff :: u32) = mask 8" by (simp add: mask_eq_exp_minus_1)
  show "x AND 0xff \<le> 255" by (rule word_and_le1)
  show "ucast (x AND 0xff :: u32) = (ucast x :: u8)"
    unfolding m by (rule bit_word_eqI) (simp add: bit_simps)
qed

lemma ip_text_value:
  "str_to_ip (ip_to_str ip) = Inr [ucast ip, ucast (drop_bit 8 ip), ucast (drop_bit 16 ip), ucast (drop_bit 24 ip)]"
proof -
  have e: "ip_loop (dec_text n) v 0 = ip_loop [] v (of_nat n)" for n v using ip_loop_text [of n "[]"] by simp
  show ?thesis
    using low_byte(1) [of ip] low_byte(1) [of "drop_bit 8 ip"] low_byte(1) [of "drop_bit 16 ip"] low_byte(1) [of "drop_bit 24 ip"]
    by (simp add: str_to_ip_def ip_to_str_text ip_loop_text e isdigit_def low_byte(2) del: ip_loop.simps(1))
      (simp add: low_byte(2) not_le [symmetric])
qed

section \<open>Printing and reading back\<close>

text \<open>
  A printer and a parser agree when the parser returns what was printed; then different values have
  different texts. \<open>view\<close> is the form in which the parser returns a value.
\<close>

locale codec =
  fixes enc :: "'a \<Rightarrow> string" and dec :: "string \<Rightarrow> int + 'b" and view :: "'a \<Rightarrow> 'b" and valid :: "'a \<Rightarrow> bool"
  assumes dec_enc: "valid x \<Longrightarrow> dec (enc x) = Inr (view x)"
    and view_inj: "valid x \<Longrightarrow> valid y \<Longrightarrow> view x = view y \<Longrightarrow> x = y"
begin

lemma enc_inj: "inj_on enc {x. valid x}"
  by (rule inj_onI) (metis dec_enc view_inj mem_Collect_eq sum.inject(2))

lemma enc_accepted: "valid x \<Longrightarrow> \<not> isl (dec (enc x))"
  by (simp add: dec_enc)

end

interpretation hex: codec "\<lambda>v. fst (val_to_hex_str v)" hex_str_to_val "\<lambda>v. (snd (val_to_hex_str v), v)" "\<lambda>v. True"
  by unfold_locales (simp_all add: hex_roundtrip)

interpretation dec: codec "\<lambda>v. fst (val_to_dec_str v)" dec_str_to_long "\<lambda>v. (snd (val_to_dec_str v), v)"
    "\<lambda>v. - (2 ^ 31) < v \<and> v < 2 ^ 31"
  by unfold_locales (auto simp: dec_roundtrip)

interpretation hr: codec "\<lambda>v. fst (val_to_hr_str v)" hr_str_to_val "\<lambda>v. v" "\<lambda>v. unat v mod 1024 = 0"
  by unfold_locales (simp_all add: hr_text_value)

lemma ip_bytes_inj:
  fixes x y :: u32
  assumes "ucast x = (ucast y :: u8)" "ucast (drop_bit 8 x) = (ucast (drop_bit 8 y) :: u8)"
    "ucast (drop_bit 16 x) = (ucast (drop_bit 16 y) :: u8)" "ucast (drop_bit 24 x) = (ucast (drop_bit 24 y) :: u8)"
  shows "x = y"
proof (rule bit_word_eqI)
  fix n assume "n < LENGTH(32)"
  then have n: "n = 8 * (n div 8) + n mod 8" "n div 8 \<in> {0, 1, 2, 3}" "n mod 8 < 8" by auto
  have "bit (ucast (drop_bit (8 * (n div 8)) x) :: u8) (n mod 8) = bit (ucast (drop_bit (8 * (n div 8)) y) :: u8) (n mod 8)"
    using n(2) assms by auto
  then show "bit x n = bit y n" using n(1,3) by (simp add: bit_simps)
qed

interpretation ip: codec ip_to_str str_to_ip
    "\<lambda>v. [ucast v, ucast (drop_bit 8 v), ucast (drop_bit 16 v), ucast (drop_bit 24 v)]" "\<lambda>v. True"
  by unfold_locales (simp add: ip_text_value, rule ip_bytes_inj, simp_all)

text \<open>A station address in the usual notation, two hexadecimal digits to a byte.\<close>

definition byte_text :: "u8 \<Rightarrow> string" where
  "byte_text b = [hchar (unat b div 16), hchar (unat b mod 16)]"

definition mac_text :: "u8 list \<Rightarrow> string" where
  "mac_text mac = concat (map (\<lambda>b. byte_text b @ '':'') (butlast mac)) @ byte_text (last mac)"

lemma hchar_plain: "d < 16 \<Longrightarrow> hchar d \<noteq> CHR '':'' \<and> hchar d \<noteq> CHR 0x00"
proof -
  assume "d < 16"
  then have "d \<in> set [0..<16]" by simp
  moreover have "\<forall>d\<in>set [0..<16]. hchar d \<noteq> CHR '':'' \<and> hchar d \<noteq> CHR 0x00" by code_simp
  ultimately show ?thesis by blast
qed

lemma byte_text_value: "hex_str_to_val (byte_text b) = Inr (2, ucast b)"
proof -
  have "unat b < 256" using unsigned_less [of b, where 'a = nat] by simp
  then have "hex_loop (map hchar [unat b div 16, unat b mod 16]) 0 (of_nat 0) = Inr (2, of_nat (unat b div 16 * 16 + unat b mod 16))"
    using hex_loop_digits [of "[unat b div 16, unat b mod 16]" 0 0] by (auto simp: less_mult_imp_div_less)
  moreover have "unat b div 16 * 16 + unat b mod 16 = unat b" by (rule div_mult_mod_eq)
  ultimately show ?thesis by (simp add: hex_str_to_val_def byte_text_def)
qed

lemma mac_loop_byte:
  assumes "length mac < 6" "c = CHR '':'' \<or> c = CHR 0x00"
  shows "mac_loop (byte_text b @ c # rest) [] mac = mac_loop rest [] (mac @ [b])"
proof -
  have "unat b < 256" using unsigned_less [of b, where 'a = nat] by simp
  then have d: "unat b div 16 < 16" "unat b mod 16 < 16" by auto
  have le: "\<not> (255 :: u32) < ucast b"
    using \<open>unat b < 256\<close> by (simp add: word_less_nat_alt not_less unsigned_ucast_eq take_bit_eq_mod)
  have u: "ucast (ucast b :: u32) = b" by (rule bit_word_eqI) (simp add: bit_simps)
  show ?thesis
    using assms d hchar_plain [OF d(1)] hchar_plain [OF d(2)] byte_text_value [of b] le
    by (simp add: byte_text_def u)
qed

lemma str_to_mac_text:
  assumes "length mac = 6"
  shows "str_to_mac past (mac_text mac) = Inr mac"
proof -
  obtain a b c d e f where mac: "mac = [a, b, c, d, e, f]"
    using assms by (auto simp: length_Suc_conv eval_nat_numeral)
  have len: "length (mac_text mac) = 17" by (simp add: mac mac_text_def byte_text_def)
  have "take 18 (mac_text mac @ replicate 18 (CHR 0x00)) = mac_text mac @ [CHR 0x00]"
    by (simp add: len)
  then have "str_to_mac past (mac_text mac) = mac_loop (mac_text mac @ [CHR 0x00, past]) [] []"
    by (simp add: str_to_mac_def)
  also have "\<dots> = mac_loop [past] [] mac"
    by (simp add: mac mac_text_def mac_loop_byte del: mac_loop.simps)
  finally show ?thesis using assms by simp
qed

section \<open>Properties of the conversions\<close>

text \<open>
  C37: numbers survive printing and reading: what \<^verbatim>\<open>val_to_hex_str\<close> writes, \<^verbatim>\<open>hex_str_to_val\<close> reads back
  as the same value and the same length, for every 32-bit value; likewise \<^verbatim>\<open>val_to_dec_str\<close> and
  \<^verbatim>\<open>dec_str_to_long\<close>, for every \<^verbatim>\<open>long\<close> but the least one; and no two values have the same text.
\<close>

theorem number_text_roundtrip:
  assumes "- (2 ^ 31) < n" "n < 2 ^ 31"
  shows "hex_str_to_val (fst (val_to_hex_str v)) = Inr (snd (val_to_hex_str v), v)
      \<and> dec_str_to_long (fst (val_to_dec_str n)) = Inr (snd (val_to_dec_str n), n)
      \<and> inj (\<lambda>v. fst (val_to_hex_str v))"
  using assms hex.dec_enc dec.dec_enc hex.enc_inj by simp

theorem number_text_roundtrip_witness:
  "hex_str_to_val (fst (val_to_hex_str 0x1F)) = Inr (2, 0x1F)
     \<and> dec_str_to_long (fst (val_to_dec_str (-17))) = Inr (3, -17)"
proof -
  have "snd (val_to_hex_str 0x1F) = 2" by code_simp
  moreover have "snd (val_to_dec_str (-17)) = 3" by code_simp
  ultimately show ?thesis using number_text_roundtrip [of "-17" "0x1F"] by simp
qed

text \<open>
  C38: the size text is readable only for whole kilobytes: \<^verbatim>\<open>hr_str_to_val\<close> returns the value that
  \<^verbatim>\<open>val_to_hr_str\<close> printed exactly when it is a multiple of 1024. For every other value the text ends in
  the unit \<^verbatim>\<open>B\<close>, which the parser refuses.
\<close>

theorem hr_text_roundtrip:
  "hr_str_to_val (fst (val_to_hr_str v)) = (if unat v mod 1024 = 0 then Inr v else Inl (- EINVAL))"
  by (rule hr_text_value)

text \<open>
  An address survives printing and reading: \<^verbatim>\<open>str_to_ip\<close> accepts what \<^verbatim>\<open>ip_to_str\<close> writes through
  \<^verbatim>\<open>sprintf\<close>, returns the four bytes of the address in memory order, and different addresses have
  different texts.
\<close>

theorem ip_text_roundtrip:
  "str_to_ip (ip_to_str ip) = Inr [ucast ip, ucast (drop_bit 8 ip), ucast (drop_bit 16 ip), ucast (drop_bit 24 ip)]
     \<and> inj ip_to_str"
  using ip.dec_enc ip.enc_inj by simp

text \<open>
  \<^verbatim>\<open>str_to_mac\<close> reads every station address in the usual notation, six bytes of two digits with colons
  between them, whatever lies in memory behind its buffer.
\<close>

theorem str_to_mac_reads:
  assumes "length mac = 6"
  shows "str_to_mac past (mac_text mac) = Inr mac"
  by (rule str_to_mac_text [OF assms])

theorem str_to_mac_reads_witness:
  "str_to_mac (CHR ''x'') (mac_text [0, 0x11, 0x22, 0xAA, 0xBB, 0xFF]) = Inr [0, 0x11, 0x22, 0xAA, 0xBB, 0xFF]"
  by (rule str_to_mac_reads) simp

end
