(* ===== verification/Net.thy ===== *)
theory Net
  imports Prelude "HOL-Library.Monad_Syntax"
begin

unbundle bit_operations_syntax

text \<open>
  The protocol layers of \<^verbatim>\<open>driver/net/core/net.c\<close> and \<^verbatim>\<open>skb.c\<close>, and the socket table of
  \<^verbatim>\<open>lib/net/socket.c\<close> that they search: Ethernet, ARP, IP, ICMP echo, UDP and TCP, in the polling
  configuration. A socket buffer is the memory around its \<^verbatim>\<open>head\<close> pointer, as a function of the
  offset from it, so that writes in front of the data and reads behind it are what the pointers make
  them. A socket is named by its descriptor.

  \<open>None\<close> is the outcome of a call that does not come back: \<^verbatim>\<open>BUG()\<close>, or a null pointer that is used.
  Frames can arrive whenever the code polls, and delivering one can poll again. The layers are
  therefore functions of \<open>poll\<close>, what one call of \<^verbatim>\<open>ndev_poll\<close> does to the state, and \<open>ndev_poll\<close> ties
  the knot.
\<close>

section \<open>Data\<close>

type_synonym bytes_at = "int \<Rightarrow> u8"

record sock_buff =
  buf :: bytes_at
  data :: int
  skb_size :: u16

record sockaddr_in =
  sin_family :: u16
  sin_port :: u16
  sin_addr :: u32

datatype tcp_state = TCPS_CLOSED | TCPS_LISTEN | TCPS_SYN_SENT | TCPS_SYN_RCVD | TCPS_ESTABLISHED
  | TCPS_CLOSE_WAIT | TCPS_FIN_WAIT1 | TCPS_CLOSING | TCPS_LAST_ACK | TCPS_FIN_WAIT2 | TCPS_TIME_WAIT

record socket =
  sk_type :: int
  protocol :: int
  obstruct_flags :: int
  tx_qu :: "sock_buff list"
  rx_qu :: "sock_buff list"
  SA_SRC :: sockaddr_in
  SA_DST :: sockaddr_in
  state :: tcp_state
  seq_num :: u32
  ack_num :: u32

record net_device =
  nd_ip :: u32
  nd_mask :: u32
  mac_addr :: "u8 list"
  send_packet :: "u8 list \<Rightarrow> int"

text \<open>
  The state of the stack. \<open>hosts\<close> is \<^verbatim>\<open>g_host_list\<close>, the address cache, in list order; \<open>sent\<close> are the
  frames given to the driver; \<open>live\<close> counts the socket buffers in existence. \<open>mallocs\<close> are the outcomes
  of the allocations to come (when none is left, they succeed), \<open>garbage\<close> is what fresh memory holds.
  \<open>polls\<close> are the frames that each of the coming polls finds, \<open>keys\<close> what the coming reads of the
  console find.
\<close>

record net =
  socks :: "nat \<Rightarrow> socket option"
  hosts :: "(u32 \<times> u8 list) list"
  ip_id :: u16
  port :: u16
  ndev :: net_device
  sent :: "u8 list list"
  live :: int
  mallocs :: "bool list"
  garbage :: bytes_at
  polls :: "u8 list list list"
  keys :: "u8 option list"

abbreviation (input) SOCK_STREAM :: int where "SOCK_STREAM \<equiv> 1"
abbreviation (input) SOCK_DGRAM :: int where "SOCK_DGRAM \<equiv> 2"
abbreviation (input) SOCK_RAW :: int where "SOCK_RAW \<equiv> 3"
abbreviation (input) PROT_ICMP :: u8 where "PROT_ICMP \<equiv> 1"
abbreviation (input) PROT_IGMP :: u8 where "PROT_IGMP \<equiv> 2"
abbreviation (input) PROT_TCP :: u8 where "PROT_TCP \<equiv> 6"
abbreviation (input) PROT_UDP :: u8 where "PROT_UDP \<equiv> 17"
abbreviation (input) PROT_OSPF :: u8 where "PROT_OSPF \<equiv> 89"
abbreviation (input) PROT_ETH :: int where "PROT_ETH \<equiv> 10"
abbreviation (input) ETH_HDR_LEN :: nat where "ETH_HDR_LEN \<equiv> 14"
abbreviation (input) ARP_PKT_LEN :: nat where "ARP_PKT_LEN \<equiv> 28"
abbreviation (input) IP_HDR_LEN :: nat where "IP_HDR_LEN \<equiv> 20"
abbreviation (input) UDP_HDR_LEN :: nat where "UDP_HDR_LEN \<equiv> 8"
abbreviation (input) TCP_HDR_LEN :: nat where "TCP_HDR_LEN \<equiv> 20"
abbreviation (input) PING_PACKET_LENGTH :: nat where "PING_PACKET_LENGTH \<equiv> 64"
abbreviation (input) PING_HDR_LEN :: nat where "PING_HDR_LEN \<equiv> 8"
abbreviation (input) MAX_SOCK_NUM :: nat where "MAX_SOCK_NUM \<equiv> 32"

definition ETH_TYPE_IP :: u16 where "ETH_TYPE_IP = CPU_TO_BE16 0x0800"
definition ETH_TYPE_ARP :: u16 where "ETH_TYPE_ARP = CPU_TO_BE16 0x0806"
definition ETH_TYPE_RARP :: u16 where "ETH_TYPE_RARP = CPU_TO_BE16 0x0835"
definition ARP_OP_REQ :: u16 where "ARP_OP_REQ = CPU_TO_BE16 1"
definition ARP_OP_REP :: u16 where "ARP_OP_REP = CPU_TO_BE16 2"

abbreviation (input) FLG_FIN :: u8 where "FLG_FIN \<equiv> 1"
abbreviation (input) FLG_SYN :: u8 where "FLG_SYN \<equiv> 2"
abbreviation (input) FLG_PSH :: u8 where "FLG_PSH \<equiv> 8"
abbreviation (input) FLG_ACK :: u8 where "FLG_ACK \<equiv> 16"

definition htons :: "u16 \<Rightarrow> u16" where "htons val = CPU_TO_BE16 val"
definition htonl :: "u32 \<Rightarrow> u32" where "htonl val = CPU_TO_BE32 val"
definition ntohs :: "u16 \<Rightarrow> u16" where "ntohs val = BE16_TO_CPU val"
definition ntohl :: "u32 \<Rightarrow> u32" where "ntohl val = BE32_TO_CPU val"

subsection \<open>Fields in memory\<close>

definition bytes16 :: "u16 \<Rightarrow> u8 list" where
  "bytes16 v = [ucast v, ucast (drop_bit 8 v)]"

definition bytes32 :: "u32 \<Rightarrow> u8 list" where
  "bytes32 v = [ucast v, ucast (drop_bit 8 v), ucast (drop_bit 16 v), ucast (drop_bit 24 v)]"

definition rd16 :: "bytes_at \<Rightarrow> int \<Rightarrow> u16" where
  "rd16 m a = ucast (m a) OR push_bit 8 (ucast (m (a + 1)))"

definition rd32 :: "bytes_at \<Rightarrow> int \<Rightarrow> u32" where
  "rd32 m a = ucast (m a) OR push_bit 8 (ucast (m (a + 1))) OR push_bit 16 (ucast (m (a + 2)))
     OR push_bit 24 (ucast (m (a + 3)))"

definition rdn :: "bytes_at \<Rightarrow> int \<Rightarrow> nat \<Rightarrow> u8 list" where
  "rdn m a n = map (\<lambda>k. m (a + int k)) [0..<n]"

definition wr :: "int \<Rightarrow> u8 list \<Rightarrow> bytes_at \<Rightarrow> bytes_at" where
  "wr a bs m = (\<lambda>i. if a \<le> i \<and> i < a + int (length bs) then bs ! nat (i - a) else m i)"

section \<open>The Internet checksum\<close>

fun cksum_loop :: "bytes_at \<Rightarrow> int \<Rightarrow> nat \<Rightarrow> u32 \<Rightarrow> u32" where
  "cksum_loop m p 0 chksum = chksum"
| "cksum_loop m p (Suc 0) chksum = chksum + ucast (m p)"
| "cksum_loop m p (Suc (Suc n)) chksum = cksum_loop m (p + 2) n (chksum + ucast (rd16 m p))"

definition net_calc_checksum :: "bytes_at \<Rightarrow> int \<Rightarrow> nat \<Rightarrow> u16" where
  "net_calc_checksum m p sz =
     (let chksum = cksum_loop m p sz 0;
          chksum = (chksum AND 0xffff) + drop_bit 16 chksum;
          chksum = (chksum AND 0xffff) + drop_bit 16 chksum
      in ucast (chksum AND 0xffff))"

section \<open>Socket buffers\<close>

definition malloc_ok :: "net \<Rightarrow> bool \<times> net" where
  "malloc_ok n = (case mallocs n of [] \<Rightarrow> (True, n) | b # bs \<Rightarrow> (b, n\<lparr>mallocs := bs\<rparr>))"

text \<open>\<^verbatim>\<open>skb_alloc\<close>: \<open>prot_len\<close> bytes of room in front of the data. Its two allocations are one here.\<close>

definition skb_alloc :: "nat \<Rightarrow> nat \<Rightarrow> net \<Rightarrow> sock_buff option \<times> net" where
  "skb_alloc prot_len data_len n =
     (let (ok, n) = malloc_ok n
      in if ok then (Some \<lparr> buf = garbage n, data = int prot_len, skb_size = of_nat data_len \<rparr>, n\<lparr>live := live n + 1\<rparr>)
         else (None, n))"

definition skb_free :: "net \<Rightarrow> net" where
  "skb_free n = n\<lparr>live := live n - 1\<rparr>"

text \<open>Moving the data pointer of a buffer: in front of \<open>k\<close> more bytes, or behind \<open>k\<close> of them.\<close>

definition skb_push :: "nat \<Rightarrow> sock_buff \<Rightarrow> sock_buff" where
  "skb_push k skb = skb\<lparr>data := data skb - int k, skb_size := skb_size skb + of_nat k\<rparr>"

definition skb_pull :: "nat \<Rightarrow> sock_buff \<Rightarrow> sock_buff" where
  "skb_pull k skb = skb\<lparr>data := data skb + int k, skb_size := skb_size skb - of_nat k\<rparr>"

text \<open>Writing at an offset from the data pointer.\<close>

definition put :: "nat \<Rightarrow> u8 list \<Rightarrow> sock_buff \<Rightarrow> sock_buff" where
  "put off bs skb = skb\<lparr>buf := wr (data skb + int off) bs (buf skb)\<rparr>"

definition payload_bytes :: "sock_buff \<Rightarrow> u8 list" where
  "payload_bytes skb = rdn (buf skb) (data skb) (unat (skb_size skb))"

section \<open>The socket table\<close>

definition search_sock :: "(socket \<Rightarrow> bool) \<Rightarrow> net \<Rightarrow> nat option" where
  "search_sock P n = find (\<lambda>fd. case socks n fd of None \<Rightarrow> False | Some sock \<Rightarrow> P sock) [1..<MAX_SOCK_NUM]"

definition tcp_search_socket :: "u16 \<Rightarrow> net \<Rightarrow> nat option" where
  "tcp_search_socket dst_port =
     search_sock (\<lambda>sock. sk_type sock = SOCK_STREAM \<and> sin_port (SA_SRC sock) = dst_port)"

definition udp_search_socket :: "u16 \<Rightarrow> net \<Rightarrow> nat option" where
  "udp_search_socket dst_port =
     search_sock (\<lambda>sock. sk_type sock = SOCK_DGRAM \<and> sin_port (SA_SRC sock) = dst_port)"

definition icmp_search_socket :: "u32 \<Rightarrow> net \<Rightarrow> nat option" where
  "icmp_search_socket src_ip = search_sock (\<lambda>sock. sk_type sock = SOCK_RAW \<and> sin_addr (SA_DST sock) = src_ip)"

definition arp_search_socket :: "u32 \<Rightarrow> net \<Rightarrow> nat option" where
  "arp_search_socket src_ip =
     search_sock (\<lambda>sock. sk_type sock = SOCK_RAW \<and> protocol sock = PROT_ETH \<and> sin_addr (SA_DST sock) = src_ip)"

definition upd_sock :: "nat \<Rightarrow> (socket \<Rightarrow> socket) \<Rightarrow> net \<Rightarrow> net" where
  "upd_sock fd f n = n\<lparr>socks := (socks n)(fd := map_option f (socks n fd))\<rparr>"

definition queue_rx :: "nat \<Rightarrow> sock_buff \<Rightarrow> net \<Rightarrow> net" where
  "queue_rx fd skb = upd_sock fd (\<lambda>sock. sock\<lparr>rx_qu := rx_qu sock @ [skb]\<rparr>)"

section \<open>Ethernet and address resolution\<close>

definition ip_is_bcast :: "net_device \<Rightarrow> u32 \<Rightarrow> bool" where
  "ip_is_bcast nd ip \<longleftrightarrow> NOT (nd_mask nd OR ip) = 0"

definition mac_fill_bcast :: "u8 list" where "mac_fill_bcast = replicate 6 0xff"

definition ether_send_packet :: "sock_buff \<Rightarrow> u8 list \<Rightarrow> u16 \<Rightarrow> net \<Rightarrow> int \<times> net" where
  "ether_send_packet skb mac type n =
     (let skb = skb_push ETH_HDR_LEN skb
      in if data skb \<noteq> 0 then (- EINVAL, n)
         else let skb = put 12 (bytes16 type) (put 6 (mac_addr (ndev n)) (put 0 mac skb));
                  frame = payload_bytes skb;
                  ret = send_packet (ndev n) frame
              in (ret, skb_free (n\<lparr>sent := sent n @ [frame]\<rparr>)))"

definition arp_send_packet :: "u32 \<Rightarrow> u8 list option \<Rightarrow> u16 \<Rightarrow> net \<Rightarrow> net" where
  "arp_send_packet nip mac op_code n =
     (case skb_alloc ETH_HDR_LEN ARP_PKT_LEN n of
        (None, n) \<Rightarrow> n
      | (Some skb, n) \<Rightarrow>
          let des_mac = (case mac of None \<Rightarrow> mac_fill_bcast | Some m \<Rightarrow> m);
              skb = put 0 (bytes16 (htons 1)) skb;
              skb = put 2 (bytes16 ETH_TYPE_IP) skb;
              skb = put 4 [6] skb;
              skb = put 5 [4] skb;
              skb = put 6 (bytes16 op_code) skb;
              skb = put 14 (bytes32 (nd_ip (ndev n))) skb;
              skb = put 24 (bytes32 nip) skb;
              skb = put 8 (mac_addr (ndev n)) skb;
              skb = put 18 des_mac skb
          in snd (ether_send_packet skb des_mac ETH_TYPE_ARP n))"

definition getaddr :: "u32 \<Rightarrow> net \<Rightarrow> u8 list option" where
  "getaddr nip n = map_option snd (find (\<lambda>h. fst h = nip) (hosts n))"

definition uart_read :: "net \<Rightarrow> u8 option \<times> net" where
  "uart_read n = (case keys n of [] \<Rightarrow> (None, n) | k # ks \<Rightarrow> (k, n\<lparr>keys := ks\<rparr>))"

abbreviation (input) CHAR_CTRL_C :: u8 where "CHAR_CTRL_C \<equiv> 3"

text \<open>The loop of \<^verbatim>\<open>gethostaddr\<close>, for as many rounds as \<^verbatim>\<open>count\<close> has left.\<close>

fun gethost_loop :: "(net \<Rightarrow> net option) \<Rightarrow> u32 \<Rightarrow> nat \<Rightarrow> net \<Rightarrow> (u8 list option \<times> net) option" where
  "gethost_loop poll nip 0 n = Some (None, n)"
| "gethost_loop poll nip (Suc rounds) n =
     (let (key, n) = uart_read n
      in if key = Some CHAR_CTRL_C then Some (None, n)
         else do {
           n \<leftarrow> poll n;
           case getaddr nip n of
             Some mac \<Rightarrow> Some (Some mac, n)
           | None \<Rightarrow> gethost_loop poll nip rounds n })"

definition gethostaddr :: "(net \<Rightarrow> net option) \<Rightarrow> u32 \<Rightarrow> net \<Rightarrow> (u8 list option \<times> net) option" where
  "gethostaddr poll nip n = gethost_loop poll nip 100000 (arp_send_packet nip None ARP_OP_REQ n)"

definition mac_fill_from_arp :: "(net \<Rightarrow> net option) \<Rightarrow> u32 \<Rightarrow> net \<Rightarrow> (u8 list option \<times> net) option" where
  "mac_fill_from_arp poll nip n =
     (case getaddr nip n of Some mac \<Rightarrow> Some (Some mac, n) | None \<Rightarrow> gethostaddr poll nip n)"

section \<open>IP\<close>

text \<open>\<^verbatim>\<open>ip_send_packet\<close>: of the socket of the buffer it only reads the two addresses.\<close>

definition ip_header_put :: "u8 \<Rightarrow> u32 \<Rightarrow> u32 \<Rightarrow> u16 \<Rightarrow> sock_buff \<Rightarrow> sock_buff" where
  "ip_header_put prot src dst ident skb =
     (let skb = put 0 [0x45] skb;
          skb = put 1 [0] skb;
          skb = put 2 (bytes16 (htons (skb_size skb))) skb;
          skb = put 4 (bytes16 (htons ident)) skb;
          skb = put 6 (bytes16 (htons 0x4000)) skb;
          skb = put 8 [64] skb;
          skb = put 9 [prot] skb;
          skb = put 10 (bytes16 0) skb;
          skb = put 12 (bytes32 src) skb;
          skb = put 16 (bytes32 dst) skb
      in put 10 (bytes16 (NOT (net_calc_checksum (buf skb) (data skb) IP_HDR_LEN))) skb)"

definition ip_send_packet ::
  "(net \<Rightarrow> net option) \<Rightarrow> u32 \<Rightarrow> u32 \<Rightarrow> sock_buff \<Rightarrow> u8 \<Rightarrow> net \<Rightarrow> (int \<times> net) option" where
  "ip_send_packet poll src dst skb prot n =
     (let skb = ip_header_put prot src dst (ip_id n) (skb_push IP_HDR_LEN skb);
          n = n\<lparr>ip_id := ip_id n + 1\<rparr>
      in if ip_is_bcast (ndev n) (ntohl dst)
         then Some (ether_send_packet skb mac_fill_bcast ETH_TYPE_IP n)
         else do {
           (mac, n) \<leftarrow> mac_fill_from_arp poll dst n;
           case mac of
             None \<Rightarrow> Some (- EIO, n)
           | Some mac \<Rightarrow> Some (ether_send_packet skb mac ETH_TYPE_IP n) })"

section \<open>UDP\<close>

definition udp_send_packet :: "(net \<Rightarrow> net option) \<Rightarrow> nat \<Rightarrow> sock_buff \<Rightarrow> net \<Rightarrow> net option" where
  "udp_send_packet poll fd skb n = do {
     sock \<leftarrow> socks n fd;
     let skb = skb_push UDP_HDR_LEN skb;
     let skb = put 0 (bytes16 (sin_port (SA_SRC sock))) skb;
     let skb = put 2 (bytes16 (sin_port (SA_DST sock))) skb;
     let skb = put 4 (bytes16 (htons (skb_size skb))) skb;
     let skb = put 6 (bytes16 0) skb;
     (ret, n) \<leftarrow> ip_send_packet poll (sin_addr (SA_SRC sock)) (sin_addr (SA_DST sock)) skb PROT_UDP n;
     Some n }"

text \<open>\<open>ip_hdr\<close> is the offset of the IP header in the buffer.\<close>

definition udp_layer_deliver :: "sock_buff \<Rightarrow> int \<Rightarrow> net \<Rightarrow> int \<times> net" where
  "udp_layer_deliver skb ip_hdr n =
     (let udp_hdr = data skb;
          src_port = rd16 (buf skb) udp_hdr;
          dst_port = rd16 (buf skb) (udp_hdr + 2);
          skb = skb_pull UDP_HDR_LEN skb
      in case udp_search_socket dst_port n of
           None \<Rightarrow> (- ENOENT, skb_free n)
         | Some fd \<Rightarrow>
             (0, queue_rx fd skb
                  (upd_sock fd (\<lambda>sock. sock\<lparr>SA_DST := (SA_DST sock)\<lparr>sin_addr := rd32 (buf skb) (ip_hdr + 12),
                                                                sin_port := src_port\<rparr>\<rparr>) n)))"

section \<open>TCP\<close>

text \<open>
  \<^verbatim>\<open>pseudo_calculate_checksum\<close> builds the pseudo header over the twelve bytes in front of the segment;
  on failure the checksum field stays as it was.
\<close>

definition pseudo_calculate_checksum :: "socket \<Rightarrow> sock_buff \<Rightarrow> sock_buff \<times> u16 option" where
  "pseudo_calculate_checksum sock skb =
     (let b = buf skb; pse = data skb - 12;
          b = wr pse (bytes32 (sin_addr (SA_SRC sock))) b;
          b = wr (pse + 4) (bytes32 (sin_addr (SA_DST sock))) b;
          b = wr (pse + 8) [0] b
      in if sk_type sock = SOCK_STREAM \<or> sk_type sock = SOCK_DGRAM
         then let b = wr (pse + 9) [if sk_type sock = SOCK_STREAM then PROT_TCP else PROT_UDP] b;
                  b = wr (pse + 10) (bytes16 (htons (skb_size skb))) b;
                  b = (if odd (unat (skb_size skb)) then wr (data skb + int (unat (skb_size skb))) [0] b else b)
              in (skb\<lparr>buf := b\<rparr>, Some (NOT (net_calc_checksum b pse (12 + unat (skb_size skb)))))
         else (skb\<lparr>buf := b\<rparr>, None))"

definition tcp_header_put :: "socket \<Rightarrow> u8 \<Rightarrow> u8 list \<Rightarrow> sock_buff \<Rightarrow> sock_buff" where
  "tcp_header_put sock flags opt skb =
     (let skb = put 0 (bytes16 (sin_port (SA_SRC sock))) skb;
          skb = put 2 (bytes16 (sin_port (SA_DST sock))) skb;
          skb = put 4 (bytes32 (htonl (seq_num sock))) skb;
          skb = put 8 (bytes32 (htonl (ack_num sock))) skb;
          skb = put 12 [push_bit 4 (of_nat ((TCP_HDR_LEN + length opt) div 4))] skb;
          skb = put 13 [flags] skb;
          skb = put 14 (bytes16 (htons (if flags AND FLG_ACK \<noteq> 0 then 457 else 14600))) skb;
          skb = put 16 (bytes16 0) skb;
          skb = put 18 (bytes16 0) skb;
          skb = put 20 opt skb;
          (skb, checksum) = pseudo_calculate_checksum sock skb
      in case checksum of None \<Rightarrow> skb | Some c \<Rightarrow> put 16 (bytes16 c) skb)"

text \<open>\<open>opt\<close> are the option bytes, none when the pointer is null.\<close>

definition tcp_send_packet ::
  "(net \<Rightarrow> net option) \<Rightarrow> nat \<Rightarrow> sock_buff \<Rightarrow> u8 \<Rightarrow> u8 list \<Rightarrow> net \<Rightarrow> net option" where
  "tcp_send_packet poll fd skb flags opt n = do {
     sock \<leftarrow> socks n fd;
     let len = skb_size skb;
     let skb = tcp_header_put sock flags opt (skb_push (TCP_HDR_LEN + length opt) skb);
     (ret, n) \<leftarrow> ip_send_packet poll (sin_addr (SA_SRC sock)) (sin_addr (SA_DST sock)) skb PROT_TCP n;
     let n = (if flags AND (FLG_SYN OR FLG_FIN) \<noteq> 0
              then upd_sock fd (\<lambda>sock. sock\<lparr>seq_num := seq_num sock + 1\<rparr>) n else n);
     let n = (if flags AND FLG_PSH \<noteq> 0
              then upd_sock fd (\<lambda>sock. sock\<lparr>seq_num := seq_num sock + ucast len\<rparr>) n else n);
     Some n }"

definition tcp_send_ack :: "(net \<Rightarrow> net option) \<Rightarrow> nat \<Rightarrow> net \<Rightarrow> (int \<times> net) option" where
  "tcp_send_ack poll fd n =
     (case skb_alloc (ETH_HDR_LEN + IP_HDR_LEN + TCP_HDR_LEN) 0 n of
        (None, n) \<Rightarrow> Some (- ENOMEM, n)
      | (Some skb, n) \<Rightarrow> do { n \<leftarrow> tcp_send_packet poll fd skb FLG_ACK [] n; Some (0, n) })"

definition set_state :: "nat \<Rightarrow> tcp_state \<Rightarrow> net \<Rightarrow> net" where
  "set_state fd s = upd_sock fd (\<lambda>sock. sock\<lparr>state := s\<rparr>)"

definition set_ack :: "nat \<Rightarrow> u32 \<Rightarrow> net \<Rightarrow> net" where
  "set_ack fd a = upd_sock fd (\<lambda>sock. sock\<lparr>ack_num := a\<rparr>)"

text \<open>The cases of the switch on the flags: a connection request or its answer, the end of the stream,
  an acknowledgement without data, data.\<close>

definition tcp_syn :: "(net \<Rightarrow> net option) \<Rightarrow> nat \<Rightarrow> u32 \<Rightarrow> net \<Rightarrow> net option" where
  "tcp_syn poll fd seq n = do {
     let n = skb_free (set_ack fd (seq + 1) n);
     (ret, n) \<leftarrow> tcp_send_ack poll fd n;
     sock \<leftarrow> socks n fd;
     if state sock = TCPS_SYN_SENT then Some (set_state fd TCPS_ESTABLISHED n) else None }"

definition fin_state :: "u8 \<Rightarrow> tcp_state \<Rightarrow> tcp_state option" where
  "fin_state flags s =
     (if s = TCPS_FIN_WAIT1 then Some (if flags AND FLG_ACK \<noteq> 0 then TCPS_TIME_WAIT else TCPS_CLOSING)
      else if s = TCPS_FIN_WAIT2 then Some TCPS_TIME_WAIT
      else if s = TCPS_ESTABLISHED then Some TCPS_CLOSE_WAIT
      else None)"

definition tcp_fin :: "(net \<Rightarrow> net option) \<Rightarrow> nat \<Rightarrow> sock_buff \<Rightarrow> u32 \<Rightarrow> u8 \<Rightarrow> net \<Rightarrow> net option" where
  "tcp_fin poll fd skb seq flags n = do {
     n \<leftarrow> (if skb_size skb > 0
           then Some (queue_rx fd skb (set_ack fd (seq + ucast (skb_size skb)) n))
           else do {
             let n = set_ack fd (seq + 1) n;
             sock \<leftarrow> socks n fd;
             s \<leftarrow> fin_state flags (state sock);
             Some (skb_free (set_state fd s n)) });
     (ret, n) \<leftarrow> tcp_send_ack poll fd n;
     Some n }"

definition ack_state :: "tcp_state \<Rightarrow> tcp_state" where
  "ack_state s =
     (if s = TCPS_FIN_WAIT1 then TCPS_FIN_WAIT2
      else if s = TCPS_CLOSING then TCPS_TIME_WAIT
      else if s = TCPS_LAST_ACK then TCPS_CLOSED
      else s)"

definition tcp_data :: "(net \<Rightarrow> net option) \<Rightarrow> nat \<Rightarrow> sock_buff \<Rightarrow> u32 \<Rightarrow> net \<Rightarrow> net option" where
  "tcp_data poll fd skb seq n = do {
     let n = queue_rx fd skb (set_ack fd (seq + ucast (skb_size skb)) n);
     (ret, n) \<leftarrow> tcp_send_ack poll fd n;
     Some n }"

definition tcp_layer_deliver :: "(net \<Rightarrow> net option) \<Rightarrow> sock_buff \<Rightarrow> int \<Rightarrow> net \<Rightarrow> (int \<times> net) option" where
  "tcp_layer_deliver poll skb ip_hdr n =
     (let tcp_hdr = data skb;
          hdr_len = unat (drop_bit 4 (buf skb (tcp_hdr + 12))) * 4;
          seq = ntohl (rd32 (buf skb) (tcp_hdr + 4));
          flags = buf skb (tcp_hdr + 13);
          skb = skb_pull hdr_len skb
      in case tcp_search_socket (rd16 (buf skb) (tcp_hdr + 2)) n of
           None \<Rightarrow> Some (- ENOENT, skb_free n)
         | Some fd \<Rightarrow>
             map_option (Pair 0)
               (if flags = FLG_SYN \<or> flags = FLG_SYN OR FLG_ACK then tcp_syn poll fd seq n
                else if flags = FLG_FIN \<or> flags = FLG_FIN OR FLG_ACK \<or> flags = FLG_FIN OR FLG_ACK OR FLG_PSH
                then tcp_fin poll fd skb seq flags n
                else if flags = FLG_ACK \<and> skb_size skb = 0
                then Some (upd_sock fd (\<lambda>sock. sock\<lparr>state := ack_state (state sock)\<rparr>) (skb_free n))
                else if flags = FLG_ACK \<or> flags = FLG_ACK OR FLG_PSH then tcp_data poll fd skb seq n
                else Some n))"

section \<open>ICMP\<close>

definition init_ping_packet :: "bytes_at \<Rightarrow> u8 list \<Rightarrow> u8 \<Rightarrow> nat \<Rightarrow> u16 \<Rightarrow> u16 \<Rightarrow> bytes_at" where
  "init_ping_packet pkt buff type sz ident seq =
     (let pkt = wr 0 [type] pkt;
          pkt = wr 1 [0] pkt;
          pkt = wr 2 (bytes16 0) pkt;
          pkt = wr 4 (bytes16 ident) pkt;
          pkt = wr 6 (bytes16 seq) pkt;
          pkt = wr 8 (take (sz - PING_HDR_LEN) buff) pkt
      in wr 2 (bytes16 (NOT (net_calc_checksum pkt 0 sz))) pkt)"

definition ping_send :: "(net \<Rightarrow> net option) \<Rightarrow> sock_buff \<Rightarrow> int \<Rightarrow> u8 \<Rightarrow> net \<Rightarrow> (int \<times> net) option" where
  "ping_send poll rx_skb ip_hdr type n =
     (case skb_alloc (ETH_HDR_LEN + IP_HDR_LEN) PING_PACKET_LENGTH n of
        (None, n) \<Rightarrow> Some (- EBUSY, n)
      | (Some tx_skb, n) \<Rightarrow> do {
          let b = buf rx_skb;
          let rx_ping_head = data rx_skb;
          let dst = rd32 b (ip_hdr + 12);
          let src = rd32 b (ip_hdr + 16);
          let ping_pkt = init_ping_packet (garbage n) (rdn b (rx_ping_head + int PING_HDR_LEN) (PING_PACKET_LENGTH - PING_HDR_LEN))
                type PING_PACKET_LENGTH (rd16 b (rx_ping_head + 4)) (rd16 b (rx_ping_head + 6));
          let tx_skb = put 0 (rdn ping_pkt 0 PING_PACKET_LENGTH) tx_skb;
          (ret, n) \<leftarrow> ip_send_packet poll src dst tx_skb PROT_ICMP n;
          Some (0, n) })"

abbreviation (input) ICMP_TYPE_ECHO_REPLY :: u8 where "ICMP_TYPE_ECHO_REPLY \<equiv> 0"
abbreviation (input) ICMP_TYPE_ECHO_REQUEST :: u8 where "ICMP_TYPE_ECHO_REQUEST \<equiv> 8"

definition icmp_deliver :: "(net \<Rightarrow> net option) \<Rightarrow> sock_buff \<Rightarrow> int \<Rightarrow> net \<Rightarrow> (int \<times> net) option" where
  "icmp_deliver poll skb ip_hdr n =
     (let hdr_len = unat (buf skb ip_hdr AND 0xf) * 4;
          ping_hdr = data skb + int hdr_len;
          type = buf skb ping_hdr
      in if type = ICMP_TYPE_ECHO_REQUEST
         then do { (ret, n) \<leftarrow> ping_send poll (skb_pull hdr_len skb) ip_hdr ICMP_TYPE_ECHO_REPLY n; Some (0, n) }
         else if type = ICMP_TYPE_ECHO_REPLY
         then case icmp_search_socket (rd32 (buf skb) (ip_hdr + 12)) n of
                None \<Rightarrow> Some (- ENOENT, skb_free n)
              | Some fd \<Rightarrow> Some (0, queue_rx fd skb n)
         else Some (0, n))"

section \<open>Receiving\<close>

definition ip_layer_deliver :: "(net \<Rightarrow> net option) \<Rightarrow> sock_buff \<Rightarrow> net \<Rightarrow> (int \<times> net) option" where
  "ip_layer_deliver poll skb n =
     (let b = buf skb;
          ip_hdr = data skb;
          ip_hdr_len = unat (b ip_hdr AND 0xf) * 4;
          up_prot = b (ip_hdr + 9);
          skb = skb\<lparr>data := ip_hdr + int ip_hdr_len,
                    skb_size := ntohs (rd16 b (ip_hdr + 2)) - of_nat ip_hdr_len\<rparr>
      in if ip_hdr_len < IP_HDR_LEN then Some (- EINVAL, n)
         else if up_prot = PROT_UDP then Some (uint up_prot, snd (udp_layer_deliver skb ip_hdr n))
         else if up_prot = PROT_TCP then do { (ret, n) \<leftarrow> tcp_layer_deliver poll skb ip_hdr n; Some (uint up_prot, n) }
         else if up_prot = PROT_ICMP
         then do { (ret, n) \<leftarrow> icmp_deliver poll (skb_push ip_hdr_len skb) ip_hdr n; Some (uint up_prot, n) }
         else if up_prot = PROT_IGMP \<or> up_prot = PROT_OSPF then Some (uint up_prot, skb_free n)
         else Some (0, skb_free n))"

definition arp_recv_packet :: "sock_buff \<Rightarrow> net \<Rightarrow> int \<times> net" where
  "arp_recv_packet skb n =
     (let b = buf skb; arp = data skb;
          ip = rd32 b (arp + 14);
          src_mac = rdn b (arp + 8) 6;
          op_code = rd16 b (arp + 6)
      in if rd16 b (arp + 2) \<noteq> ETH_TYPE_IP then (- ENOTSUPP, n)
         else if op_code = ARP_OP_REP
         then if getaddr ip n = None
              then let (ok, n) = malloc_ok n
                   in if \<not> ok then (- ENOMEM, n)
                      else let n = n\<lparr>hosts := hosts n @ [(ip, src_mac)]\<rparr>
                           in case arp_search_socket ip n of
                                None \<Rightarrow> (0, skb_free n)
                              | Some fd \<Rightarrow> (0, queue_rx fd skb n)
              else (0, n)
         else if op_code = ARP_OP_REQ
         then (0, skb_free (if rd32 b (arp + 24) = nd_ip (ndev n)
                            then arp_send_packet ip (Some src_mac) ARP_OP_REP n else n))
         else (0, skb_free n))"

definition netif_rx :: "(net \<Rightarrow> net option) \<Rightarrow> sock_buff \<Rightarrow> net \<Rightarrow> net option" where
  "netif_rx poll skb n =
     (let frame_type = rd16 (buf skb) (data skb + 12);
          skb = skb_pull ETH_HDR_LEN skb
      in if frame_type = ETH_TYPE_ARP then Some (snd (arp_recv_packet skb n))
         else if frame_type = ETH_TYPE_RARP then Some (skb_free n)
         else if frame_type = ETH_TYPE_IP then map_option snd (ip_layer_deliver poll skb n)
         else Some (skb_free n))"

text \<open>
  A poll of the one device of the model (the code polls every registered device in turn, with the
  same body): its driver puts every frame it finds into a buffer and delivers it. \<open>depth\<close> is fuel: it
  bounds how deep polls may nest, and \<open>None\<close> stands for running out of it as for an endless loop or a
  null pointer. A poll that finds nothing ends a chain of nested ones, so fuel above the number
  of polls that find something is never exhausted: \<open>ndev_poll_enough\<close> below shows that more of it
  changes nothing, and at such a depth \<open>None\<close> has only the other two meanings.
\<close>

definition rx_frame :: "u8 list \<Rightarrow> net \<Rightarrow> sock_buff \<times> net" where
  "rx_frame frame n =
     (\<lparr> buf = wr 0 frame (garbage n), data = 0, skb_size = of_nat (length frame) \<rparr>, n\<lparr>live := live n + 1\<rparr>)"

fun rx_frames :: "(net \<Rightarrow> net option) \<Rightarrow> u8 list list \<Rightarrow> net \<Rightarrow> net option" where
  "rx_frames poll [] n = Some n"
| "rx_frames poll (f # fs) n = do {
     n \<leftarrow> (let (skb, n) = rx_frame f n in netif_rx poll skb n);
     rx_frames poll fs n }"

fun ndev_poll :: "nat \<Rightarrow> net \<Rightarrow> net option" where
  "ndev_poll 0 n = None"
| "ndev_poll (Suc depth) n =
     (case polls n of
        [] \<Rightarrow> Some n
      | fs # rest \<Rightarrow> rx_frames (ndev_poll depth) fs (n\<lparr>polls := rest\<rparr>))"

section \<open>Reading what was written\<close>

named_theorems mem_simps \<open>reading a buffer after writes to it\<close>

lemma bit_bytes [mem_simps]:
  "length (bytes16 v) = 2" "length (bytes32 w) = 4"
  by (simp_all add: bytes16_def bytes32_def)

lemma wr_hit [mem_simps]: "a \<le> i \<Longrightarrow> i < a + int (length bs) \<Longrightarrow> wr a bs m i = bs ! nat (i - a)"
  by (simp add: wr_def)

lemma wr_miss [mem_simps]: "i < a \<or> a + int (length bs) \<le> i \<Longrightarrow> wr a bs m i = m i"
  by (auto simp: wr_def)

lemma join_bytes16: "ucast (ucast v :: u8) OR push_bit 8 (ucast (ucast (drop_bit 8 v) :: u8)) = v" for v :: u16
  by (rule bit_word_eqI) (auto simp: bit_simps)

lemma join_bytes32:
  "ucast (ucast v :: u8) OR push_bit 8 (ucast (ucast (drop_bit 8 v) :: u8)) OR push_bit 16 (ucast (ucast (drop_bit 16 v) :: u8))
     OR push_bit 24 (ucast (ucast (drop_bit 24 v) :: u8)) = v" (is "?l = v") for v :: u32
proof (rule bit_word_eqI)
  fix n assume "n < LENGTH(32)"
  then consider "n < 8" | "8 \<le> n" "n < 16" | "16 \<le> n" "n < 24" | "24 \<le> n" "n < 32" by fastforce
  then show "bit ?l n = bit v n" by cases (auto simp: bit_simps)
qed

lemma rd16_wr_same [mem_simps]: "rd16 (wr a (bytes16 v) m) a = v"
  by (simp add: rd16_def wr_def bytes16_def join_bytes16)

lemma rd32_wr_same [mem_simps]: "rd32 (wr a (bytes32 v) m) a = v"
  by (simp add: rd32_def wr_def bytes32_def join_bytes32)

lemma rd16_wr_other [mem_simps]: "c + 2 \<le> a \<or> a + int (length bs) \<le> c \<Longrightarrow> rd16 (wr a bs m) c = rd16 m c"
  by (auto simp: rd16_def wr_def)

lemma rd32_wr_other [mem_simps]: "c + 4 \<le> a \<or> a + int (length bs) \<le> c \<Longrightarrow> rd32 (wr a bs m) c = rd32 m c"
  by (auto simp: rd32_def wr_def)

lemma length_rdn [mem_simps]: "length (rdn m a n) = n"
  by (simp add: rdn_def)

lemma rdn_nth: "k < n \<Longrightarrow> rdn m a n ! k = m (a + int k)"
  by (simp add: rdn_def)

lemma rdn_wr_same [mem_simps]: "rdn (wr a bs m) a (length bs) = bs"
  by (rule nth_equalityI) (simp_all add: rdn_def wr_def)

lemma rdn_wr_other [mem_simps]: "c + int n \<le> a \<or> a + int (length bs) \<le> c \<Longrightarrow> rdn (wr a bs m) c n = rdn m c n"
  by (auto simp: rdn_def wr_def)

lemma wr_rdn: "wr a (rdn m a n) m' i = (if a \<le> i \<and> i < a + int n then m i else m' i)"
  by (auto simp: wr_def rdn_def)

section \<open>Ones' complement sums\<close>

text \<open>The sum of the words of a range, as a number, and its end-around carry.\<close>

definition word_sum :: "bytes_at \<Rightarrow> int \<Rightarrow> nat \<Rightarrow> nat" where
  "word_sum m p n =
     (\<Sum>j<n div 2. unat (rd16 m (p + 2 * int j))) + (if odd n then unat (m (p + int n - 1)) else 0)"

definition fold16 :: "nat \<Rightarrow> nat" where
  "fold16 s = (let s = s mod 65536 + s div 65536 in s mod 65536 + s div 65536)"

lemma cksum_loop_sum: "cksum_loop m p n c = c + of_nat (word_sum m p n)"
proof (induction m p n c rule: cksum_loop.induct)
  case (2 m p c)
  then show ?case by (simp add: word_sum_def)
next
  case (3 m p n c)
  have "(\<Sum>j<Suc (n div 2). unat (rd16 m (p + 2 * int j)))
      = unat (rd16 m p) + (\<Sum>j<n div 2. unat (rd16 m (p + 2 + 2 * int j)))"
    by (subst sum.lessThan_Suc_shift) (simp add: algebra_simps)
  then have "word_sum m p (Suc (Suc n)) = unat (rd16 m p) + word_sum m (p + 2) n"
    by (simp add: word_sum_def)
  then show ?case using 3 by (simp add: algebra_simps)
qed (simp add: word_sum_def)

lemma word_sum_bound: "word_sum m p n \<le> 65535 * (n div 2 + n mod 2)"
proof -
  have w: "unat w \<le> 65535" for w :: u16 using unsigned_less [of w, where 'a = nat] by simp
  have b: "unat b \<le> 65535" for b :: u8 using unsigned_less [of b, where 'a = nat] by simp
  have "(\<Sum>j<n div 2. unat (rd16 m (p + 2 * int j))) \<le> (\<Sum>j<n div 2. 65535)" by (rule sum_mono) (rule w)
  moreover have "(if odd n then unat (m (p + int n - 1)) else 0) \<le> 65535 * (n mod 2)"
    using b [of "m (p + int n - 1)"] by (auto simp: odd_iff_mod_2_eq_one)
  ultimately show ?thesis by (simp add: word_sum_def algebra_simps)
qed

lemma fold16_bound: "s < 2 ^ 32 \<Longrightarrow> fold16 s \<le> 65535"
proof -
  assume s: "s < 2 ^ 32"
  define t where "t = s mod 65536 + s div 65536"
  have "s div 65536 \<le> 65535" using s by simp
  moreover have "s mod 65536 \<le> 65535" by simp
  ultimately have "t \<le> 131070" unfolding t_def by simp
  moreover have "t = 65536 * (t div 65536) + t mod 65536" by simp
  ultimately have "t div 65536 = 0 \<or> (t div 65536 = 1 \<and> t mod 65536 \<le> 65534)" by linarith
  then show ?thesis by (auto simp: fold16_def Let_def t_def [symmetric])
qed

lemma fold16_cong: "fold16 s mod 65535 = s mod 65535"
proof -
  have step: "(x mod 65536 + x div 65536) mod 65535 = x mod 65535" for x :: nat
  proof -
    have "x = (x mod 65536 + x div 65536) + 65535 * (x div 65536)" using div_mult_mod_eq [of x 65536] by simp
    then show ?thesis by (metis mod_mult_self2)
  qed
  show ?thesis by (simp only: fold16_def Let_def step)
qed

lemma fold16_zero: "fold16 s = 0 \<longleftrightarrow> s = 0"
proof -
  have "x mod 65536 + x div 65536 = 0 \<longleftrightarrow> x = 0" for x :: nat
    using div_mult_mod_eq [of x 65536] by auto
  then show ?thesis by (simp only: fold16_def Let_def)
qed

lemma low16: "of_nat s AND 0xffff = (of_nat (s mod 65536) :: u32)"
proof -
  have m: "(0xffff :: u32) = mask 16" by (simp add: mask_eq_exp_minus_1)
  show ?thesis unfolding m by (simp add: take_bit_eq_mask [symmetric] take_bit_of_nat) (simp add: take_bit_eq_mod)
qed

lemma fold16_step: "(of_nat s AND 0xffff) + drop_bit 16 (of_nat s) = (of_nat (s mod 65536 + s div 65536) :: u32)" if "s < 2 ^ 32"
proof -
  have u: "unat (of_nat s :: u32) = s" using that by (simp add: unat_of_nat)
  have "of_nat s AND 0xffff = (of_nat (s mod 65536) :: u32)" by (rule low16)
  moreover have "drop_bit 16 (of_nat s) = (of_nat (s div 65536) :: u32)"
    by (rule word_unat_eq_iff [THEN iffD2])
      (use that in \<open>simp add: drop_bit_eq_div unat_div unat_of_nat\<close>)
  ultimately show ?thesis by simp
qed

lemma net_calc_checksum_fold:
  assumes "n \<le> 2 ^ 17"
  shows "net_calc_checksum m p n = of_nat (fold16 (word_sum m p n))" "word_sum m p n < 2 ^ 32"
proof -
  have "n \<le> 131072" using assms by simp
  then have "n div 2 + n mod 2 \<le> 65536" by presburger
  then have "65535 * (n div 2 + n mod 2) \<le> 65535 * 65536" by (rule mult_le_mono2)
  then show s: "word_sum m p n < 2 ^ 32" using word_sum_bound [of m p n] by simp
  let ?s = "word_sum m p n"
  have t: "?s mod 65536 + ?s div 65536 < 2 ^ 32" using s by (simp add: less_mult_imp_div_less)
  have "fold16 ?s \<le> 65535" using fold16_bound s by simp
  then have m: "of_nat (fold16 ?s) AND 0xffff = (of_nat (fold16 ?s) :: u32)"
    using low16 [of "fold16 ?s"] by simp
  have "take_bit 32 (fold16 ?s) = fold16 ?s" using \<open>fold16 ?s \<le> 65535\<close> by (simp add: take_bit_nat_eq_self)
  then have u: "ucast (of_nat (fold16 ?s) :: u32) = (of_nat (fold16 ?s) :: u16)" by (simp add: unsigned_of_nat)
  have "cksum_loop m p n 0 = of_nat ?s" by (simp add: cksum_loop_sum)
  then show "net_calc_checksum m p n = of_nat (fold16 ?s)"
    by (simp only: net_calc_checksum_def Let_def fold16_step [OF s] fold16_step [OF t] flip: fold16_def [unfolded Let_def])
      (simp add: m u)
qed

lemma word_sum_wr:
  assumes "j < n div 2"
  shows "word_sum (wr (p + 2 * int j) (bytes16 v) m) p n + unat (rd16 m (p + 2 * int j)) = word_sum m p n + unat v"
proof -
  let ?m = "wr (p + 2 * int j) (bytes16 v) m"
  have o: "rd16 ?m (p + 2 * int k) = rd16 m (p + 2 * int k)" if "k \<noteq> j" for k
    using that by (intro rd16_wr_other) (auto simp: bit_bytes)
  have last: "?m (p + int n - 1) = m (p + int n - 1)" if "odd n"
    using assms that by (intro wr_miss disjI2) (auto simp: bit_bytes elim!: oddE)
  have "(\<Sum>k<n div 2. unat (rd16 ?m (p + 2 * int k)))
      = unat (rd16 ?m (p + 2 * int j)) + (\<Sum>k\<in>{..<n div 2} - {j}. unat (rd16 ?m (p + 2 * int k)))"
    using assms by (intro sum.remove) auto
  also have "(\<Sum>k\<in>{..<n div 2} - {j}. unat (rd16 ?m (p + 2 * int k))) = (\<Sum>k\<in>{..<n div 2} - {j}. unat (rd16 m (p + 2 * int k)))"
    by (rule sum.cong) (auto simp: o)
  finally have "(\<Sum>k<n div 2. unat (rd16 ?m (p + 2 * int k))) + unat (rd16 m (p + 2 * int j))
      = unat v + (\<Sum>k<n div 2. unat (rd16 m (p + 2 * int k)))"
    using assms sum.remove [of "{..<n div 2}" j "\<lambda>k. unat (rd16 m (p + 2 * int k))"] by (simp add: rd16_wr_same)
  then show ?thesis by (simp add: word_sum_def last)
qed

lemma unat_u16_le: "unat w \<le> 65535" for w :: u16
  using unsigned_less [of w, where 'a = nat] by simp

lemma unat_not16: "unat (NOT w) = 65535 - unat w" for w :: u16
proof -
  have "(65535 :: u16) = - 1" by simp
  then have "NOT w = 65535 - w" by (simp add: not_eq_complement)
  then show ?thesis using unat_u16_le [of w] by (simp add: unat_sub_if_size word_size)
qed

lemma checksum_field:
  assumes "n \<le> 2 ^ 17" "j < n div 2" "rd16 m (p + 2 * int j) = 0"
  shows "net_calc_checksum (wr (p + 2 * int j) (bytes16 (NOT (net_calc_checksum m p n))) m) p n = 0xffff"
proof -
  let ?s = "word_sum m p n" and ?c = "NOT (net_calc_checksum m p n)"
  let ?s' = "word_sum (wr (p + 2 * int j) (bytes16 ?c) m) p n"
  note f = net_calc_checksum_fold [OF assms(1)]
  have b: "fold16 ?s \<le> 65535" using f(2) by (rule fold16_bound)
  then have "unat (net_calc_checksum m p n) = fold16 ?s" by (simp add: f(1) unat_of_nat)
  then have s': "?s' = ?s + (65535 - fold16 ?s)" using word_sum_wr [OF assms(2), of p ?c m] assms(3) by (simp add: unat_not16)
  have "(?s' + fold16 ?s) mod 65535 = ?s mod 65535" using b by (simp add: s' )
  then have "(?s' + ?s) mod 65535 = ?s mod 65535" by (metis fold16_cong mod_add_right_eq)
  then have "65535 dvd ?s'" by (metis add_diff_cancel_right' mod_eq_dvd_iff_nat le_add2)
  then have "fold16 ?s' mod 65535 = 0" by (simp add: fold16_cong)
  moreover have "?s' \<noteq> 0" using s' fold16_zero [of ?s] by auto
  then have "fold16 ?s' \<noteq> 0" by (simp add: fold16_zero)
  moreover have "fold16 ?s' \<le> 65535" using f(2) by (rule fold16_bound)
  ultimately have "fold16 ?s' = 65535" by (metis le_antisym mod_less mod_eq_self_iff_div_eq_0 not_less div_eq_0_iff mod_0 neq0_conv dvd_imp_le dvd_eq_mod_eq_0)
  then show ?thesis by (simp add: f(1))
qed

lemma cksum_loop_cong:
  "(\<And>i. p \<le> i \<Longrightarrow> i < p + int n \<Longrightarrow> m i = m' i) \<Longrightarrow> cksum_loop m p n c = cksum_loop m' p n c"
  by (induction m p n c rule: cksum_loop.induct) (simp_all add: rd16_def)

lemma net_calc_checksum_cong:
  "(\<And>i. p \<le> i \<Longrightarrow> i < p + int n \<Longrightarrow> m i = m' i) \<Longrightarrow> net_calc_checksum m p n = net_calc_checksum m' p n"
  using cksum_loop_cong [of p n m m' 0] by (simp add: net_calc_checksum_def)

lemma mod_add_cancel: "(s + x) mod k = (s + y) mod k \<Longrightarrow> x mod k = y mod k" for s x y k :: nat
  by (simp add: nat_mod_eq_iff)

lemma checksum_field_at:
  "n \<le> 2 ^ 17 \<Longrightarrow> j < n div 2 \<Longrightarrow> a = p + 2 * int j \<Longrightarrow> rd16 m a = 0
     \<Longrightarrow> net_calc_checksum (wr a (bytes16 (NOT (net_calc_checksum m p n))) m) p n = 0xffff"
  using checksum_field by blast

lemma small_mod: "x \<le> 65535 \<Longrightarrow> x mod 65535 = x \<or> (x = 65535 \<and> x mod 65535 = 0)" for x :: nat
  by (cases "x = 65535") auto

lemma u16_eqI: "unat v = unat w \<Longrightarrow> v = w" for v w :: u16
  by (simp only: word_unat_eq_iff)

lemma checksum_changes:
  assumes "n \<le> 2 ^ 17" "j < n div 2" "v \<noteq> rd16 m (p + 2 * int j)" "{v, rd16 m (p + 2 * int j)} \<noteq> {0, 0xffff}"
  shows "net_calc_checksum (wr (p + 2 * int j) (bytes16 v) m) p n \<noteq> net_calc_checksum m p n"
proof
  let ?s = "word_sum m p n" and ?w = "rd16 m (p + 2 * int j)"
  let ?s' = "word_sum (wr (p + 2 * int j) (bytes16 v) m) p n"
  note f = net_calc_checksum_fold [OF assms(1)]
  assume "net_calc_checksum (wr (p + 2 * int j) (bytes16 v) m) p n = net_calc_checksum m p n"
  then have "unat (of_nat (fold16 ?s') :: u16) = unat (of_nat (fold16 ?s) :: u16)" by (simp add: f(1))
  then have "fold16 ?s' = fold16 ?s"
    using fold16_bound [OF f(2), of m p] fold16_bound [OF f(2), of "wr (p + 2 * int j) (bytes16 v) m" p]
    by (simp add: unat_of_nat)
  then have "?s' mod 65535 = ?s mod 65535" by (metis fold16_cong)
  then have "(?s' + unat ?w) mod 65535 = (?s + unat ?w) mod 65535" by (metis mod_add_left_eq)
  then have "(?s + unat v) mod 65535 = (?s + unat ?w) mod 65535" using word_sum_wr [OF assms(2), of p v m] by simp
  then have "unat v mod 65535 = unat ?w mod 65535" by (rule mod_add_cancel)
  then have "unat v = unat ?w \<or> (unat v = 65535 \<and> unat ?w = 0) \<or> (unat v = 0 \<and> unat ?w = 65535)"
    using unat_u16_le [of v] unat_u16_le [of ?w] small_mod [of "unat v"] small_mod [of "unat ?w"] by linarith
  then have "v = ?w \<or> (v = 0xffff \<and> ?w = 0) \<or> (v = 0 \<and> ?w = 0xffff)"
    using u16_eqI [of v ?w] u16_eqI [of v "0xffff"] u16_eqI [of ?w 0] u16_eqI [of v 0] u16_eqI [of ?w "0xffff"] by auto
  then show False using assms(3,4) by (elim disjE) auto
qed

section \<open>Frames\<close>

lemma put_simps [simp]:
  "data (put off bs skb) = data skb" "skb_size (put off bs skb) = skb_size skb"
  "buf (put off bs skb) = wr (data skb + int off) bs (buf skb)"
  by (simp_all add: put_def)

lemma skb_push_simps [simp]:
  "buf (skb_push k skb) = buf skb" "data (skb_push k skb) = data skb - int k"
  "skb_size (skb_push k skb) = skb_size skb + of_nat k"
  by (simp_all add: skb_push_def)

lemma skb_pull_simps [simp]:
  "buf (skb_pull k skb) = buf skb" "data (skb_pull k skb) = data skb + int k"
  "skb_size (skb_pull k skb) = skb_size skb - of_nat k"
  by (simp_all add: skb_pull_def)

lemma ip_header_put_simps [simp]:
  "data (ip_header_put prot src dst ident skb) = data skb"
  "skb_size (ip_header_put prot src dst ident skb) = skb_size skb"
  by (simp_all add: ip_header_put_def Let_def)

text \<open>What the header fields of an outgoing packet hold.\<close>

lemma ip_header_put_fields:
  fixes skb prot src dst ident
  defines "b \<equiv> buf (ip_header_put prot src dst ident skb)" and "h \<equiv> data skb"
  shows "b h = 0x45" "rd16 b (h + 2) = htons (skb_size skb)" "b (h + 9) = prot" "rd32 b (h + 12) = src" "rd32 b (h + 16) = dst"
    "net_calc_checksum b h 20 = 0xffff"
    "i < h \<or> h + 20 \<le> i \<Longrightarrow> b i = buf skb i"
proof -
  show "b h = 0x45" "rd16 b (h + 2) = htons (skb_size skb)" "b (h + 9) = prot" "rd32 b (h + 12) = src" "rd32 b (h + 16) = dst"
    unfolding b_def h_def by (simp_all add: ip_header_put_def Let_def mem_simps)
  show "i < h \<or> h + 20 \<le> i \<Longrightarrow> b i = buf skb i"
    unfolding b_def h_def by (elim disjE) (simp_all add: ip_header_put_def Let_def mem_simps)
  show "net_calc_checksum b h 20 = 0xffff"
    unfolding b_def h_def ip_header_put_def Let_def put_simps
    by (rule checksum_field_at [where j = 5]) (simp_all add: mem_simps)
qed

text \<open>The frame that the Ethernet layer makes of a buffer whose headers are complete.\<close>

definition eth_frame :: "sock_buff \<Rightarrow> u8 list \<Rightarrow> u8 list \<Rightarrow> u16 \<Rightarrow> sock_buff" where
  "eth_frame skb src_mac mac type =
     put 12 (bytes16 type) (put 6 src_mac (put 0 mac (skb_push 14 skb)))"

lemma ether_send_frame:
  "data skb = 14 \<Longrightarrow> ether_send_packet skb mac type n =
     (send_packet (ndev n) (payload_bytes (eth_frame skb (mac_addr (ndev n)) mac type)),
      n\<lparr>sent := sent n @ [payload_bytes (eth_frame skb (mac_addr (ndev n)) mac type)], live := live n - 1\<rparr>)"
  by (simp add: ether_send_packet_def eth_frame_def Let_def skb_free_def)

text \<open>A station whose address is known needs no polling.\<close>

definition next_mac :: "u32 \<Rightarrow> net \<Rightarrow> u8 list" where
  "next_mac dst n = (if ip_is_bcast (ndev n) (ntohl dst) then mac_fill_bcast else the (getaddr dst n))"

definition reachable_host :: "u32 \<Rightarrow> net \<Rightarrow> bool" where
  "reachable_host dst n \<longleftrightarrow> ip_is_bcast (ndev n) (ntohl dst) \<or> getaddr dst n \<noteq> None"

definition macs_ok :: "net \<Rightarrow> bool" where
  "macs_ok n \<longleftrightarrow> length (mac_addr (ndev n)) = 6 \<and> (\<forall>h\<in>set (hosts n). length (snd h) = 6)"

lemma next_mac_length: "macs_ok n \<Longrightarrow> reachable_host dst n \<Longrightarrow> length (next_mac dst n) = 6"
proof (cases "ip_is_bcast (ndev n) (ntohl dst)")
  case False
  assume n: "macs_ok n" "reachable_host dst n"
  then obtain h where "find (\<lambda>h. fst h = dst) (hosts n) = Some h" using False by (auto simp: reachable_host_def getaddr_def)
  then have "h \<in> set (hosts n)" "getaddr dst n = Some (snd h)" by (simp_all add: getaddr_def) (auto simp: find_Some_iff)
  then show ?thesis using n(1) False by (simp add: next_mac_def macs_ok_def)
qed (simp add: next_mac_def mac_fill_bcast_def)

lemma ip_send_known:
  assumes "reachable_host dst n"
  shows "ip_send_packet poll src dst skb prot n
       = Some (ether_send_packet (ip_header_put prot src dst (ip_id n) (skb_push 20 skb)) (next_mac dst n) ETH_TYPE_IP
           (n\<lparr>ip_id := ip_id n + 1\<rparr>))"
  using assms
  by (auto simp: ip_send_packet_def reachable_host_def next_mac_def Let_def mac_fill_from_arp_def getaddr_def)

lemma ip_send_known_frame:
  assumes "reachable_host dst n" "data skb = 34"
  shows "\<exists>r F. ip_send_packet poll src dst skb prot n = Some (r, n\<lparr>ip_id := ip_id n + 1, sent := sent n @ [payload_bytes F], live := live n - 1\<rparr>)
      \<and> F = eth_frame (ip_header_put prot src dst (ip_id n) (skb_push 20 skb)) (mac_addr (ndev n)) (next_mac dst n) ETH_TYPE_IP"
  using assms by (simp add: ip_send_known ether_send_frame)

text \<open>A received frame holds what was in the buffer that was sent.\<close>

lemma rx_frame_reads:
  fixes S :: sock_buff and n :: net
  assumes "data S = 0"
  defines "b \<equiv> buf (fst (rx_frame (payload_bytes S) n))" and "L \<equiv> int (unat (skb_size S))"
  shows "0 \<le> i \<Longrightarrow> i < L \<Longrightarrow> b i = buf S i"
    "0 \<le> i \<Longrightarrow> i + 2 \<le> L \<Longrightarrow> rd16 b i = rd16 (buf S) i"
    "0 \<le> i \<Longrightarrow> i + 4 \<le> L \<Longrightarrow> rd32 b i = rd32 (buf S) i"
    "0 \<le> i \<Longrightarrow> i + int k \<le> L \<Longrightarrow> rdn b i k = rdn (buf S) i k"
    "skb_size (fst (rx_frame (payload_bytes S) n)) = skb_size S" "data (fst (rx_frame (payload_bytes S) n)) = 0"
proof -
  have b: "b i = buf S i" if "0 \<le> i" "i < L" for i
    using that assms by (simp add: rx_frame_def payload_bytes_def wr_rdn)
  show "0 \<le> i \<Longrightarrow> i < L \<Longrightarrow> b i = buf S i" "0 \<le> i \<Longrightarrow> i + 2 \<le> L \<Longrightarrow> rd16 b i = rd16 (buf S) i"
    "0 \<le> i \<Longrightarrow> i + 4 \<le> L \<Longrightarrow> rd32 b i = rd32 (buf S) i" "0 \<le> i \<Longrightarrow> i + int k \<le> L \<Longrightarrow> rdn b i k = rdn (buf S) i k"
    by (simp_all add: b rd16_def rd32_def rdn_def)
  show "skb_size (fst (rx_frame (payload_bytes S) n)) = skb_size S" "data (fst (rx_frame (payload_bytes S) n)) = 0"
    by (simp_all add: rx_frame_def payload_bytes_def length_rdn)
qed

text \<open>The fields of the frame of an IP packet, by their offset in it.\<close>

lemma eth_ip_fields:
  fixes src_mac mac prot src dst ident skb and i :: int
  defines "b \<equiv> buf (eth_frame (ip_header_put prot src dst ident (skb_push 20 skb)) src_mac mac ETH_TYPE_IP)"
  assumes "data skb = 34" "length src_mac = 6" "length mac = 6"
  shows "rd16 b 12 = ETH_TYPE_IP" "b 14 = 0x45" "rd16 b 16 = htons (skb_size skb + 20)" "b 23 = prot" "rd32 b 26 = src" "rd32 b 30 = dst"
    "net_calc_checksum b 14 20 = 0xffff" "34 \<le> i \<Longrightarrow> b i = buf skb i" "rdn b 0 6 = mac" "rdn b 6 6 = src_mac"
proof -
  let ?s = "skb_push 20 skb"
  let ?b = "buf (ip_header_put prot src dst ident ?s)"
  have b: "b = wr 12 (bytes16 ETH_TYPE_IP) (wr 6 src_mac (wr 0 mac ?b))"
    by (simp add: b_def eth_frame_def assms(2))
  have hi: "b i = ?b i" if "14 \<le> i" for i using that assms(3,4) by (simp add: b mem_simps)
  have d: "data ?s = 14" by (simp add: assms(2))
  note f = ip_header_put_fields [where prot = prot and src = src and dst = dst and ident = ident and skb = ?s, unfolded d]
  show "rd16 b 12 = ETH_TYPE_IP" by (simp add: b mem_simps)
  show "b 14 = 0x45" "rd16 b 16 = htons (skb_size skb + 20)" "b 23 = prot" "rd32 b 26 = src" "rd32 b 30 = dst"
    using f(1-5) by (simp_all add: hi rd16_def rd32_def)
  have "net_calc_checksum b 14 20 = net_calc_checksum ?b 14 20" by (rule net_calc_checksum_cong) (simp add: hi)
  then show "net_calc_checksum b 14 20 = 0xffff" using f(6) by simp
  show "34 \<le> i \<Longrightarrow> b i = buf skb i" using f(7) [where i = i] by (simp add: hi)
  show "rdn b 0 6 = mac" using rdn_wr_same [of 0 mac] assms(3,4) by (simp add: b mem_simps)
  show "rdn b 6 6 = src_mac" using rdn_wr_same [of 6 src_mac] assms(3,4) by (simp add: b mem_simps)
qed

section \<open>What receiving can change\<close>

text \<open>The changes that the layers make to one socket.\<close>

inductive sock_step :: "socket \<Rightarrow> socket \<Rightarrow> bool" where
  queued: "sock_step s (s\<lparr>rx_qu := rx_qu s @ [skb]\<rparr>)"
| peer: "sock_step s (s\<lparr>SA_DST := a\<rparr>)"
| sent: "sock_step s (s\<lparr>seq_num := v\<rparr>)"
| received: "sock_step s (s\<lparr>ack_num := v\<rparr>)"
| opened: "state s = TCPS_SYN_SENT \<Longrightarrow> sock_step s (s\<lparr>state := TCPS_ESTABLISHED\<rparr>)"
| finished: "fin_state flags (state s) = Some t \<Longrightarrow> sock_step s (s\<lparr>state := t\<rparr>)"
| acked: "sock_step s (s\<lparr>state := ack_state (state s)\<rparr>)"

inductive_cases sock_stepE: "sock_step s t"

text \<open>
  A relation between states that holds across every elementary change of the layers holds across
  the layers: sending, delivering, and polling, however deep polls nest. Its laws say what the
  elementary changes are: anything but the sockets and the address cache, one step of one socket, and
  a cache entry for a station that had none.
\<close>

locale net_relation =
  fixes R :: "net \<Rightarrow> net \<Rightarrow> bool"
  assumes R_trans: "R a b \<Longrightarrow> R b c \<Longrightarrow> R a c"
    and R_frame: "socks n' = socks n \<Longrightarrow> hosts n' = hosts n \<Longrightarrow> length (polls n') \<le> length (polls n) \<Longrightarrow> R n n'"
    and R_host: "getaddr ip n = None \<Longrightarrow> R n (n\<lparr>hosts := hosts n @ [(ip, mac)]\<rparr>)"
    and R_sock: "socks n fd = Some s \<Longrightarrow> sock_step s t \<Longrightarrow> R n (n\<lparr>socks := (socks n)(fd \<mapsto> t)\<rparr>)"
begin

definition keeps :: "(net \<Rightarrow> net option) \<Rightarrow> bool" where
  "keeps f \<longleftrightarrow> (\<forall>n n'. f n = Some n' \<longrightarrow> R n n')"

lemma keepsD: "keeps f \<Longrightarrow> f n = Some n' \<Longrightarrow> R n n'"
  by (simp add: keeps_def)

lemma R_refl [simp]: "R n n"
  by (rule R_frame) simp_all

lemma R_upd: "(\<And>s. socks n fd = Some s \<Longrightarrow> sock_step s (f s)) \<Longrightarrow> R n (upd_sock fd f n)"
proof (cases "socks n fd")
  case None
  then show ?thesis by (intro R_frame) (auto simp: upd_sock_def)
next
  case (Some s)
  then show "(\<And>s. socks n fd = Some s \<Longrightarrow> sock_step s (f s)) \<Longrightarrow> ?thesis"
    using R_sock [OF Some, of "f s"] by (simp add: upd_sock_def)
qed

lemma R_skb_free [simp]: "R n (skb_free n)"
  by (rule R_frame) (simp_all add: skb_free_def)

lemma R_free_later: "R n m \<Longrightarrow> R n (skb_free m)"
  using R_trans R_skb_free by blast

lemma R_queue_rx: "R n (queue_rx fd skb n)"
  unfolding queue_rx_def by (rule R_upd) (rule sock_step.queued)

lemma R_set_ack: "R n (set_ack fd a n)"
  unfolding set_ack_def by (rule R_upd) (rule sock_step.received)

lemma R_malloc: "malloc_ok n = (b, n') \<Longrightarrow> R n n'"
  by (rule R_frame) (auto simp: malloc_ok_def split: list.splits)

lemma R_skb_alloc: "skb_alloc p d n = (x, n') \<Longrightarrow> R n n'"
  by (rule R_frame) (auto simp: skb_alloc_def malloc_ok_def Let_def split: list.splits if_splits)

lemma R_uart: "uart_read n = (k, n') \<Longrightarrow> R n n'"
  by (rule R_frame) (auto simp: uart_read_def split: list.splits)

lemma R_ether: "R n (snd (ether_send_packet skb mac type n))"
  by (rule R_frame) (simp_all add: ether_send_packet_def skb_free_def Let_def)

lemma R_arp_send: "R n (arp_send_packet nip mac op n)"
proof -
  obtain x m where a: "skb_alloc 14 28 n = (x, m)" by (cases "skb_alloc 14 28 n")
  show ?thesis
    using R_skb_alloc [OF a] R_trans R_ether
    by (cases x) (auto simp: arp_send_packet_def a Let_def)
qed

lemma R_gethost_loop:
  assumes poll: "keeps poll"
  shows "gethost_loop poll nip k n = Some (x, n') \<Longrightarrow> R n n'"
proof (induction k arbitrary: n)
  case (Suc k)
  obtain key m where u: "uart_read n = (key, m)" by (cases "uart_read n")
  note R_nm = R_uart [OF u]
  show ?case
  proof (cases "key = Some 3")
    case True
    then show ?thesis using Suc.prems R_nm by (simp add: u)
  next
    case False
    then obtain m' where m': "poll m = Some m'" using Suc.prems by (auto simp: u bind_eq_Some_conv)
    then have "R n m'" using R_trans R_nm keepsD [OF poll] by blast
    then show ?thesis using Suc False m' R_trans by (auto simp: u split: option.splits)
  qed
qed simp

lemma R_mac_fill:
  assumes poll: "keeps poll" and m: "mac_fill_from_arp poll nip n = Some (x, n')"
  shows "R n n'"
proof (cases "getaddr nip n")
  case None
  then have "gethost_loop poll nip 100000 (arp_send_packet nip None ARP_OP_REQ n) = Some (x, n')"
    using m by (simp add: mac_fill_from_arp_def gethostaddr_def)
  then show ?thesis using R_gethost_loop [OF poll] R_arp_send R_trans by blast
qed (use m in \<open>simp add: mac_fill_from_arp_def\<close>)

lemma R_ip_send:
  assumes poll: "keeps poll" and s: "ip_send_packet poll src dst skb prot n = Some (x, n')"
  shows "R n n'"
proof -
  let ?n = "n\<lparr>ip_id := ip_id n + 1\<rparr>"
  have r: "R n ?n" by (rule R_frame) simp_all
  show ?thesis
  proof (cases "ip_is_bcast (ndev n) (ntohl dst)")
    case True
    then have "n' = snd (ether_send_packet (ip_header_put prot src dst (ip_id n) (skb_push 20 skb)) mac_fill_bcast ETH_TYPE_IP ?n)"
      using s by (auto simp: ip_send_packet_def Let_def)
    then show ?thesis using r R_ether R_trans by metis
  next
    case False
    then obtain mac m where m: "mac_fill_from_arp poll dst ?n = Some (mac, m)"
      using s by (auto simp: ip_send_packet_def Let_def bind_eq_Some_conv)
    then have "n' = m \<or> (\<exists>skb mac. n' = snd (ether_send_packet skb mac ETH_TYPE_IP m))"
      using s False by (auto simp: ip_send_packet_def Let_def split: option.splits) (metis snd_conv)
    then show ?thesis using R_mac_fill [OF poll m] r R_ether R_trans by metis
  qed
qed

lemma R_udp_send: "keeps poll \<Longrightarrow> udp_send_packet poll fd skb n = Some n' \<Longrightarrow> R n n'"
  by (auto simp: udp_send_packet_def Let_def bind_eq_Some_conv intro: R_ip_send)

lemma R_tcp_send:
  assumes poll: "keeps poll" and s: "tcp_send_packet poll fd skb flags opt n = Some n'"
  shows "R n n'"
proof -
  define tail where "tail m = (let n = (if flags AND (FLG_SYN OR FLG_FIN) \<noteq> 0
              then upd_sock fd (\<lambda>sock. sock\<lparr>seq_num := seq_num sock + 1\<rparr>) m else m) in
     if flags AND FLG_PSH \<noteq> 0 then upd_sock fd (\<lambda>sock. sock\<lparr>seq_num := seq_num sock + ucast (skb_size skb)\<rparr>) n else n)" for m
  have u: "R a (upd_sock fd (\<lambda>sock. sock\<lparr>seq_num := seq_num sock + v\<rparr>) a)" for a v
    by (rule R_upd) (rule sock_step.sent)
  have "R m (tail m)" for m unfolding tail_def Let_def by (auto intro: R_trans [OF u u] u)
  moreover have "\<exists>a b c d x m. ip_send_packet poll a b c d n = Some (x, m) \<and> n' = tail m"
    using s unfolding tail_def tcp_send_packet_def Let_def by (fastforce simp: bind_eq_Some_conv)
  ultimately show ?thesis using R_ip_send [OF poll] R_trans by blast
qed

lemma R_tcp_ack: "keeps poll \<Longrightarrow> tcp_send_ack poll fd n = Some (x, n') \<Longrightarrow> R n n'"
  by (auto simp: tcp_send_ack_def bind_eq_Some_conv split: prod.splits option.splits
      dest!: R_skb_alloc R_tcp_send intro: R_trans)

lemma R_tcp_syn:
  assumes poll: "keeps poll" and s: "tcp_syn poll fd seq n = Some n'"
  shows "R n n'"
proof -
  obtain x m sock where m: "tcp_send_ack poll fd (skb_free (set_ack fd (seq + 1) n)) = Some (x, m)" "socks m fd = Some sock"
      "state sock = TCPS_SYN_SENT" "n' = set_state fd TCPS_ESTABLISHED m"
    using s by (auto simp: tcp_syn_def Let_def bind_eq_Some_conv split: if_splits)
  have "R m n'" unfolding m(4) set_state_def by (rule R_upd) (use m(2,3) in \<open>auto intro: sock_step.opened\<close>)
  then show ?thesis using R_tcp_ack [OF poll m(1)] R_set_ack R_skb_free R_trans by meson
qed

lemma R_tcp_fin:
  assumes poll: "keeps poll" and s: "tcp_fin poll fd skb seq flags n = Some n'"
  shows "R n n'"
proof -
  obtain m x where m: "tcp_send_ack poll fd m = Some (x, n')"
    and n: "m = queue_rx fd skb (set_ack fd (seq + ucast (skb_size skb)) n)
      \<or> (\<exists>sock t. socks (set_ack fd (seq + 1) n) fd = Some sock \<and> fin_state flags (state sock) = Some t
          \<and> m = skb_free (set_state fd t (set_ack fd (seq + 1) n)))"
    using s by (auto simp: tcp_fin_def Let_def bind_eq_Some_conv split: if_splits)
  have "R a (set_state fd t a)" if "socks a fd = Some sock" "fin_state flags (state sock) = Some t" for a sock t
    unfolding set_state_def by (rule R_upd) (use that in \<open>auto intro: sock_step.finished\<close>)
  then have "R n m" using n R_queue_rx R_set_ack R_skb_free R_trans by meson
  then show ?thesis using R_tcp_ack [OF poll m] R_trans by blast
qed

lemma R_tcp_data: "keeps poll \<Longrightarrow> tcp_data poll fd skb seq n = Some n' \<Longrightarrow> R n n'"
  by (auto simp: tcp_data_def Let_def bind_eq_Some_conv dest!: R_tcp_ack intro: R_trans [OF R_trans [OF R_set_ack R_queue_rx]])

lemma R_tcp_deliver:
  assumes poll: "keeps poll" and s: "tcp_layer_deliver poll skb ip_hdr n = Some (x, n')"
  shows "R n n'"
proof -
  have a: "R n (upd_sock fd (\<lambda>sock. sock\<lparr>state := ack_state (state sock)\<rparr>) (skb_free n))" for fd
    by (rule R_trans [OF R_skb_free R_upd]) (rule sock_step.acked)
  show ?thesis
    using s by (auto simp: tcp_layer_deliver_def Let_def a split: option.splits if_splits
        dest: R_tcp_syn [OF poll] R_tcp_fin [OF poll] R_tcp_data [OF poll])
qed

lemma R_udp_deliver: "R n (snd (udp_layer_deliver skb ip_hdr n))"
proof -
  have "R n (upd_sock fd (\<lambda>sock. sock\<lparr>SA_DST := (SA_DST sock)\<lparr>sin_addr := a, sin_port := p\<rparr>\<rparr>) n)" for fd a p
    by (rule R_upd) (rule sock_step.peer)
  then show ?thesis by (auto simp: udp_layer_deliver_def Let_def split: option.splits intro: R_trans [OF _ R_queue_rx])
qed

lemma R_ping: "keeps poll \<Longrightarrow> ping_send poll skb ip_hdr type n = Some (x, n') \<Longrightarrow> R n n'"
  by (auto simp: ping_send_def Let_def bind_eq_Some_conv split: prod.splits option.splits
      dest!: R_skb_alloc R_ip_send intro: R_trans)

lemma R_icmp: "keeps poll \<Longrightarrow> icmp_deliver poll skb ip_hdr n = Some (x, n') \<Longrightarrow> R n n'"
  by (auto simp: icmp_deliver_def Let_def bind_eq_Some_conv R_queue_rx split: if_splits option.splits intro: R_ping)

lemma R_ip_deliver:
  assumes poll: "keeps poll" and s: "ip_layer_deliver poll skb n = Some (x, n')"
  shows "R n n'"
  using s unfolding ip_layer_deliver_def Let_def
  by (auto simp: bind_eq_Some_conv R_udp_deliver split: if_splits intro: R_tcp_deliver [OF poll] R_icmp [OF poll])

lemma R_arp_recv: "R n (snd (arp_recv_packet skb n))"
proof -
  obtain ok m where m: "malloc_ok n = (ok, m)" by (cases "malloc_ok n")
  then have g: "getaddr ip m = getaddr ip n" for ip by (auto simp: malloc_ok_def getaddr_def split: list.splits)
  have h: "R n (m\<lparr>hosts := hosts m @ [(ip, mac)]\<rparr>)" if "getaddr ip n = None" for ip mac
    using that g R_trans [OF R_malloc [OF m] R_host] by simp
  show ?thesis
    by (auto simp: arp_recv_packet_def Let_def m split: option.splits
        intro: R_trans [OF h R_queue_rx] R_free_later h R_arp_send R_malloc [OF m])
qed

lemma R_netif_rx: "keeps poll \<Longrightarrow> netif_rx poll skb n = Some n' \<Longrightarrow> R n n'"
  by (auto simp: netif_rx_def Let_def R_arp_recv split: if_splits intro: R_ip_deliver)

lemma R_rx_frames:
  assumes poll: "keeps poll"
  shows "rx_frames poll fs n = Some n' \<Longrightarrow> R n n'"
proof (induction fs arbitrary: n)
  case (Cons f fs)
  obtain m where m: "netif_rx poll (fst (rx_frame f n)) (snd (rx_frame f n)) = Some m" "rx_frames poll fs m = Some n'"
    using Cons.prems by (auto simp: bind_eq_Some_conv split: prod.splits)
  have "R n (snd (rx_frame f n))" by (rule R_frame) (simp_all add: rx_frame_def)
  then show ?case using R_netif_rx [OF poll m(1)] Cons.IH [OF m(2)] R_trans by blast
qed simp

lemma R_ndev_poll: "keeps (ndev_poll depth)"
proof (induction depth)
  case (Suc depth)
  have "R n n'" if "ndev_poll (Suc depth) n = Some n'" for n n'
  proof (cases "polls n")
    case (Cons fs rest)
    have "R n (n\<lparr>polls := rest\<rparr>)" by (rule R_frame) (simp_all add: Cons)
    then show ?thesis using that Cons R_rx_frames [OF Suc.IH] R_trans by auto
  qed (use that in simp)
  then show ?case by (simp add: keeps_def)
qed (simp add: keeps_def)

end

text \<open>
  Polling uses up what the device has, so polls nest no deeper than there are polls that find
  something: two ways to poll that agree while less than \<open>N\<close> of them are left give the same results
  in every layer, and one more level of depth changes nothing once the depth exceeds their number.
  Where \<open>ndev_poll\<close> gives \<open>None\<close> at such a depth, the code does not come back.
\<close>

interpretation fewer: net_relation "\<lambda>n n'. length (polls n') \<le> length (polls n)"
  by unfold_locales simp_all

definition agree :: "nat \<Rightarrow> (net \<Rightarrow> net option) \<Rightarrow> (net \<Rightarrow> net option) \<Rightarrow> bool" where
  "agree N p q \<longleftrightarrow> fewer.keeps p \<and> (\<forall>m. length (polls m) < N \<longrightarrow> p m = q m)"

lemma agreeD: "agree N p q \<Longrightarrow> length (polls m) < N \<Longrightarrow> p m = q m"
  by (simp add: agree_def)

lemma agree_keeps: "agree N p q \<Longrightarrow> fewer.keeps p"
  by (simp add: agree_def)

lemma bind_agree:
  assumes "f n = g n" "\<And>x m. f n = Some (x, m) \<Longrightarrow> h x m = k x m"
  shows "Option.bind (f n) (\<lambda>(x, m). h x m) = Option.bind (g n) (\<lambda>(x, m). k x m)"
  using assms by (cases "g n") auto

lemma polls_simps [simp]:
  "polls (upd_sock fd f n) = polls n" "polls (skb_free n) = polls n" "polls (set_ack fd a n) = polls n"
  "polls (set_state fd t n) = polls n" "polls (queue_rx fd skb n) = polls n"
  by (simp_all add: upd_sock_def skb_free_def set_ack_def set_state_def queue_rx_def split: option.splits)

lemma gethost_agree:
  assumes a: "agree N p q"
  shows "length (polls n) < N \<Longrightarrow> gethost_loop p nip k n = gethost_loop q nip k n"
proof (induction k arbitrary: n)
  case (Suc k)
  obtain key m where u: "uart_read n = (key, m)" by (cases "uart_read n")
  then have m: "length (polls m) < N" using fewer.R_uart [OF u] Suc.prems by simp
  have "length (polls m') < N" if "q m = Some m'" for m'
    using fewer.keepsD [OF agree_keeps [OF a], of m m'] agreeD [OF a m] that m by simp
  then show ?case using Suc.IH agreeD [OF a m]
    by (cases "q m") (auto simp: u split: option.splits)
qed simp

lemma ip_send_agree:
  assumes a: "agree N p q" and n: "length (polls n) < N"
  shows "ip_send_packet p src dst skb prot n = ip_send_packet q src dst skb prot n"
proof -
  have "mac_fill_from_arp p dst m = mac_fill_from_arp q dst m" if "length (polls m) < N" for m
    using gethost_agree [OF a] fewer.R_arp_send [of dst None ARP_OP_REQ m] that
    by (simp add: mac_fill_from_arp_def gethostaddr_def split: option.splits)
  then show ?thesis using n by (simp add: ip_send_packet_def Let_def)
qed

lemma tcp_ack_agree:
  assumes a: "agree N p q" and n: "length (polls n) < N"
  shows "tcp_send_ack p fd n = tcp_send_ack q fd n"
proof -
  obtain x m where m: "skb_alloc 54 0 n = (x, m)" by (cases "skb_alloc 54 0 n")
  then have "length (polls m) < N" using fewer.R_skb_alloc [OF m] n by simp
  then show ?thesis
    by (cases x) (simp_all add: tcp_send_ack_def m tcp_send_packet_def Let_def ip_send_agree [OF a])
qed

lemma tcp_deliver_agree:
  assumes a: "agree N p q" and n: "length (polls n) < N"
  shows "tcp_layer_deliver p skb ip_hdr n = tcp_layer_deliver q skb ip_hdr n"
proof -
  have "tcp_syn p fd seq n = tcp_syn q fd seq n" for fd seq
    using n by (simp add: tcp_syn_def Let_def tcp_ack_agree [OF a])
  moreover have "tcp_data p fd skb seq n = tcp_data q fd skb seq n" for fd seq skb
    using n by (simp add: tcp_data_def Let_def tcp_ack_agree [OF a])
  moreover have "tcp_fin p fd skb seq flags n = tcp_fin q fd skb seq flags n" for fd seq skb flags
  proof (cases "skb_size skb > 0")
    case False
    then show ?thesis
      using n tcp_ack_agree [OF a]
      by (cases "socks (set_ack fd (seq + 1) n) fd")
        (auto simp: tcp_fin_def Let_def bind_eq_Some_conv intro!: option.expand split: bind_splits)
  qed (use n in \<open>simp add: tcp_fin_def Let_def tcp_ack_agree [OF a]\<close>)
  ultimately show ?thesis by (simp add: tcp_layer_deliver_def Let_def split: option.split)
qed

lemma ip_deliver_agree:
  assumes a: "agree N p q" and n: "length (polls n) < N"
  shows "ip_layer_deliver p skb n = ip_layer_deliver q skb n"
proof -
  have "ping_send p skb ip_hdr t n = ping_send q skb ip_hdr t n" for skb ip_hdr t
  proof -
    obtain x m where m: "skb_alloc (ETH_HDR_LEN + IP_HDR_LEN) PING_PACKET_LENGTH n = (x, m)"
      by (cases "skb_alloc (ETH_HDR_LEN + IP_HDR_LEN) PING_PACKET_LENGTH n")
    then have "length (polls m) < N" using fewer.R_skb_alloc [OF m] n by simp
    then show ?thesis using m by (cases x) (simp_all add: ping_send_def Let_def ip_send_agree [OF a])
  qed
  then have "icmp_deliver p skb ip_hdr n = icmp_deliver q skb ip_hdr n" for skb ip_hdr
    by (simp add: icmp_deliver_def Let_def)
  then show ?thesis by (simp add: ip_layer_deliver_def Let_def tcp_deliver_agree [OF a n])
qed

lemma rx_frames_agree:
  assumes a: "agree N p q"
  shows "length (polls n) < N \<Longrightarrow> rx_frames p fs n = rx_frames q fs n"
proof (induction fs arbitrary: n)
  case (Cons f fs)
  let ?m = "snd (rx_frame f n)"
  have m: "length (polls ?m) < N" using Cons.prems by (simp add: rx_frame_def)
  have e: "netif_rx p skb ?m = netif_rx q skb ?m" for skb
    by (simp add: netif_rx_def Let_def ip_deliver_agree [OF a m])
  have "length (polls m') < N" if "netif_rx q skb ?m = Some m'" for skb m'
    using fewer.R_netif_rx [OF agree_keeps [OF a], of skb ?m m'] that m by (simp add: e)
  then show ?case using Cons.IH e by (cases "netif_rx q (fst (rx_frame f n)) ?m") (auto simp: case_prod_beta)
qed simp

lemma ndev_poll_deeper: "length (polls n) < depth \<Longrightarrow> ndev_poll (Suc depth) n = ndev_poll depth n"
proof (induction depth arbitrary: n)
  case (Suc depth)
  then have "agree depth (ndev_poll (Suc depth)) (ndev_poll depth)" using fewer.R_ndev_poll by (simp add: agree_def)
  from rx_frames_agree [OF this] have r: "rx_frames (ndev_poll (Suc depth)) fs m = rx_frames (ndev_poll depth) fs m"
    if "length (polls m) < depth" for fs m using that by blast
  show ?case
    unfolding ndev_poll.simps(2) [of "Suc depth" n] ndev_poll.simps(2) [of depth n]
    using r Suc.prems by (auto simp del: ndev_poll.simps split: list.splits)
qed simp

lemma ndev_poll_enough:
  assumes "length (polls n) < depth" "depth \<le> depth'"
  shows "ndev_poll depth' n = ndev_poll depth n"
  using assms(2,1) by (induction depth' rule: dec_induct) (simp_all add: ndev_poll_deeper del: ndev_poll.simps)

text \<open>A relation between the sockets alone gives one between states.\<close>

definition all_socks :: "(socket \<Rightarrow> socket \<Rightarrow> bool) \<Rightarrow> net \<Rightarrow> net \<Rightarrow> bool" where
  "all_socks P n n' \<longleftrightarrow> (\<forall>fd. rel_option P (socks n fd) (socks n' fd))"

locale sock_relation =
  fixes P :: "socket \<Rightarrow> socket \<Rightarrow> bool"
  assumes P_refl: "P s s"
    and P_trans: "P s t \<Longrightarrow> P t u \<Longrightarrow> P s u"
    and P_step: "sock_step s t \<Longrightarrow> P s t"

sublocale sock_relation \<subseteq> net_relation "all_socks P"
proof unfold_locales
  have refl: "rel_option P x x" for x by (cases x) (simp_all add: P_refl)
  show "all_socks P a b \<Longrightarrow> all_socks P b c \<Longrightarrow> all_socks P a c" for a b c
    unfolding all_socks_def
  proof (intro allI)
    fix fd assume "\<forall>fd. rel_option P (socks a fd) (socks b fd)" "\<forall>fd. rel_option P (socks b fd) (socks c fd)"
    then have "rel_option P (socks a fd) (socks b fd)" "rel_option P (socks b fd) (socks c fd)" by blast+
    then show "rel_option P (socks a fd) (socks c fd)"
      by (cases "socks a fd"; cases "socks b fd"; cases "socks c fd") (auto intro: P_trans)
  qed
  show "socks n' = socks n \<Longrightarrow> hosts n' = hosts n \<Longrightarrow> length (polls n') \<le> length (polls n) \<Longrightarrow> all_socks P n n'" for n n'
    by (simp add: all_socks_def refl)
  show "all_socks P n (n\<lparr>hosts := hosts n @ [(ip, mac)]\<rparr>)" for n ip mac
    by (simp add: all_socks_def refl)
  show "socks n fd = Some s \<Longrightarrow> sock_step s t \<Longrightarrow> all_socks P n (n\<lparr>socks := (socks n)(fd \<mapsto> t)\<rparr>)" for n fd s t
    by (simp add: all_socks_def refl P_step)
qed

text \<open>
  The transitions of a connection, labelled with the flags of the segment that causes them and with
  whether it is empty. They are those of RFC 793 for received segments but for two, which the code
  takes on weaker events: a request without acknowledgement opens a connection as its answer does
  (RFC 793 goes to SYN-RECEIVED there), and every empty acknowledgement counts as the one of the FIN that
  was sent, whatever number it acknowledges.
\<close>

inductive tcp_edge :: "u8 \<Rightarrow> bool \<Rightarrow> tcp_state \<Rightarrow> tcp_state \<Rightarrow> bool" for flags and nodata where
  answered: "flags = FLG_SYN OR FLG_ACK \<Longrightarrow> tcp_edge flags nodata TCPS_SYN_SENT TCPS_ESTABLISHED"
| bare_syn: "flags = FLG_SYN \<Longrightarrow> tcp_edge flags nodata TCPS_SYN_SENT TCPS_ESTABLISHED"
| ended: "flags \<in> {FLG_FIN, FLG_FIN OR FLG_ACK, FLG_FIN OR FLG_ACK OR FLG_PSH} \<Longrightarrow> nodata \<Longrightarrow>
    tcp_edge flags nodata TCPS_ESTABLISHED TCPS_CLOSE_WAIT"
| both_ended: "flags = FLG_FIN \<Longrightarrow> nodata \<Longrightarrow> tcp_edge flags nodata TCPS_FIN_WAIT1 TCPS_CLOSING"
| ended_acked: "flags \<in> {FLG_FIN OR FLG_ACK, FLG_FIN OR FLG_ACK OR FLG_PSH} \<Longrightarrow> nodata \<Longrightarrow>
    tcp_edge flags nodata TCPS_FIN_WAIT1 TCPS_TIME_WAIT"
| ended_later: "flags \<in> {FLG_FIN, FLG_FIN OR FLG_ACK, FLG_FIN OR FLG_ACK OR FLG_PSH} \<Longrightarrow> nodata \<Longrightarrow>
    tcp_edge flags nodata TCPS_FIN_WAIT2 TCPS_TIME_WAIT"
| fin_acked: "flags = FLG_ACK \<Longrightarrow> nodata \<Longrightarrow> tcp_edge flags nodata TCPS_FIN_WAIT1 TCPS_FIN_WAIT2"
| closing_acked: "flags = FLG_ACK \<Longrightarrow> nodata \<Longrightarrow> tcp_edge flags nodata TCPS_CLOSING TCPS_TIME_WAIT"
| last_acked: "flags = FLG_ACK \<Longrightarrow> nodata \<Longrightarrow> tcp_edge flags nodata TCPS_LAST_ACK TCPS_CLOSED"

text \<open>A step takes the transition that the segment has, if any; a run is a sequence of steps.\<close>

definition tcp_step :: "u8 \<Rightarrow> bool \<Rightarrow> tcp_state \<Rightarrow> tcp_state \<Rightarrow> bool" where
  "tcp_step flags nodata s t \<longleftrightarrow> tcp_edge flags nodata s t \<or> (\<forall>u. \<not> tcp_edge flags nodata s u) \<and> t = s"

definition tcp_moves :: "tcp_state \<Rightarrow> tcp_state \<Rightarrow> bool" where
  "tcp_moves = (\<lambda>s t. \<exists>flags nodata. tcp_edge flags nodata s t)\<^sup>*\<^sup>*"

inductive_simps tcp_edge_simps [simp]:
  "tcp_edge flags nodata TCPS_CLOSED s" "tcp_edge flags nodata TCPS_TIME_WAIT s" "tcp_edge flags nodata TCPS_CLOSE_WAIT s"
  "tcp_edge flags nodata TCPS_ESTABLISHED s" "tcp_edge flags nodata TCPS_SYN_SENT s" "tcp_edge flags nodata TCPS_FIN_WAIT1 s"
  "tcp_edge flags nodata TCPS_FIN_WAIT2 s" "tcp_edge flags nodata TCPS_CLOSING s" "tcp_edge flags nodata TCPS_LAST_ACK s"

lemma tcp_moves_edge: "tcp_edge flags nodata s t \<Longrightarrow> tcp_moves s t"
  unfolding tcp_moves_def by (rule r_into_rtranclp) blast

lemma tcp_moves_refl [simp]: "tcp_moves s s"
  by (simp add: tcp_moves_def)

lemma fin_state_edge:
  "flags \<in> {FLG_FIN, FLG_FIN OR FLG_ACK, FLG_FIN OR FLG_ACK OR FLG_PSH} \<Longrightarrow> fin_state flags s = Some t \<Longrightarrow> tcp_edge flags True s t"
  by (auto simp: fin_state_def split: if_splits)

lemma tcp_step_stays:
  "flags \<notin> {FLG_SYN, FLG_SYN OR FLG_ACK} \<Longrightarrow> \<not> nodata \<or> flags \<notin> {FLG_FIN, FLG_FIN OR FLG_ACK, FLG_FIN OR FLG_ACK OR FLG_PSH, FLG_ACK} \<Longrightarrow>
    tcp_step flags nodata s s"
  unfolding tcp_step_def by (blast elim: tcp_edge.cases)

lemma fin_state_moves: "fin_state flags s = Some t \<Longrightarrow> tcp_moves s t"
  by (auto simp: fin_state_def split: if_splits
      intro: tcp_moves_edge [of "FLG_FIN OR FLG_ACK" True] tcp_moves_edge [of FLG_FIN True])

lemma ack_state_step: "tcp_step FLG_ACK True s (ack_state s)"
  by (auto simp: ack_state_def tcp_step_def tcp_edge.simps)

lemma ack_state_moves: "tcp_moves s (ack_state s)"
  using ack_state_step [of s] by (auto simp: tcp_step_def intro: tcp_moves_edge)

interpretation moves: sock_relation "\<lambda>s t. tcp_moves (state s) (state t)"
proof
  fix s t u :: socket
  show "tcp_moves (state s) (state t) \<Longrightarrow> tcp_moves (state t) (state u) \<Longrightarrow> tcp_moves (state s) (state u)"
    unfolding tcp_moves_def by (rule rtranclp_trans)
  assume "sock_step s t"
  then show "tcp_moves (state s) (state t)"
    by (cases rule: sock_step.cases) (auto intro: tcp_moves_edge [OF bare_syn] fin_state_moves ack_state_moves)
qed simp

text \<open>Received data is only appended, and a socket keeps its type and its own address.\<close>

definition same_end :: "socket \<Rightarrow> socket \<Rightarrow> bool" where
  "same_end s t \<longleftrightarrow> (\<exists>skbs. rx_qu t = rx_qu s @ skbs) \<and> tx_qu t = tx_qu s \<and> sk_type t = sk_type s \<and> SA_SRC t = SA_SRC s"

interpretation ends: sock_relation same_end
  by unfold_locales (auto simp: same_end_def elim: sock_stepE)

text \<open>The address cache only grows, by stations it does not hold yet.\<close>

definition cache_grows :: "net \<Rightarrow> net \<Rightarrow> bool" where
  "cache_grows n n' \<longleftrightarrow> (\<exists>hs. hosts n' = hosts n @ hs) \<and> (distinct (map fst (hosts n)) \<longrightarrow> distinct (map fst (hosts n')))"

lemma getaddr_None: "getaddr ip n = None \<longleftrightarrow> ip \<notin> fst ` set (hosts n)"
  by (force simp: getaddr_def find_None_iff)

lemma cache_grows_getaddr: "cache_grows n n' \<Longrightarrow> getaddr ip n = Some mac \<Longrightarrow> getaddr ip n' = Some mac"
proof -
  have "find P xs = Some x \<Longrightarrow> find P (xs @ ys) = Some x" for P xs ys and x :: "u32 \<times> u8 list" by (induction xs) auto
  then show "cache_grows n n' \<Longrightarrow> getaddr ip n = Some mac \<Longrightarrow> getaddr ip n' = Some mac"
    by (auto simp: cache_grows_def getaddr_def)
qed

interpretation cache: net_relation cache_grows
  by unfold_locales (auto simp: cache_grows_def getaddr_None)

text \<open>Segments to a station whose address is known.\<close>

lemma skb_alloc_ok: "mallocs n = [] \<Longrightarrow> skb_alloc p d n = (Some \<lparr> buf = garbage n, data = int p, skb_size = of_nat d \<rparr>, n\<lparr>live := live n + 1\<rparr>)"
  by (simp add: skb_alloc_def malloc_ok_def)

lemma upd_sock_simps [simp]:
  "socks (upd_sock fd f n) = (socks n)(fd := map_option f (socks n fd))"
  "ndev (upd_sock fd f n) = ndev n" "hosts (upd_sock fd f n) = hosts n" "mallocs (upd_sock fd f n) = mallocs n"
  "live (upd_sock fd f n) = live n" "sent (upd_sock fd f n) = sent n" "ip_id (upd_sock fd f n) = ip_id n"
  "garbage (upd_sock fd f n) = garbage n" "polls (upd_sock fd f n) = polls n" "keys (upd_sock fd f n) = keys n"
  "port (upd_sock fd f n) = port n"
  by (simp_all add: upd_sock_def)

lemma skb_free_simps [simp]:
  "socks (skb_free n) = socks n" "ndev (skb_free n) = ndev n" "hosts (skb_free n) = hosts n" "mallocs (skb_free n) = mallocs n"
  "live (skb_free n) = live n - 1" "sent (skb_free n) = sent n" "ip_id (skb_free n) = ip_id n" "garbage (skb_free n) = garbage n"
  by (simp_all add: skb_free_def)

lemma reachable_host_cong:
  "hosts n' = hosts n \<Longrightarrow> ndev n' = ndev n \<Longrightarrow> reachable_host dst n' = reachable_host dst n"
  "hosts n' = hosts n \<Longrightarrow> ndev n' = ndev n \<Longrightarrow> next_mac dst n' = next_mac dst n"
  by (simp_all add: reachable_host_def next_mac_def getaddr_def)

lemma pseudo_simps [simp]:
  "data (fst (pseudo_calculate_checksum sock skb)) = data skb" "skb_size (fst (pseudo_calculate_checksum sock skb)) = skb_size skb"
  by (simp_all add: pseudo_calculate_checksum_def Let_def)

lemma tcp_header_put_simps [simp]:
  "data (tcp_header_put sock flags opt skb) = data skb" "skb_size (tcp_header_put sock flags opt skb) = skb_size skb"
proof -
  have *: "data x = data (fst p) \<and> skb_size x = skb_size (fst p)"
    if "x = (case p of (skb, c) \<Rightarrow> case c of None \<Rightarrow> skb | Some c \<Rightarrow> put 16 (bytes16 c) skb)" for x p
    using that by (auto split: prod.splits option.splits)
  show "data (tcp_header_put sock flags opt skb) = data skb" "skb_size (tcp_header_put sock flags opt skb) = skb_size skb"
    using * [OF tcp_header_put_def [unfolded Let_def, of sock flags opt skb]] by simp_all
qed

definition tcp_frame :: "socket \<Rightarrow> u8 \<Rightarrow> sock_buff \<Rightarrow> net \<Rightarrow> sock_buff" where
  "tcp_frame sock flags skb n =
     eth_frame (ip_header_put PROT_TCP (sin_addr (SA_SRC sock)) (sin_addr (SA_DST sock)) (ip_id n)
       (skb_push 20 (tcp_header_put sock flags [] (skb_push 20 skb)))) (mac_addr (ndev n)) (next_mac (sin_addr (SA_DST sock)) n) ETH_TYPE_IP"

definition seq_bump :: "u8 \<Rightarrow> u16 \<Rightarrow> u32" where
  "seq_bump flags len = (if flags AND (FLG_SYN OR FLG_FIN) \<noteq> 0 then 1 else 0) + (if flags AND FLG_PSH \<noteq> 0 then ucast len else 0)"

lemma tcp_send_known:
  assumes "socks n fd = Some sock" "reachable_host (sin_addr (SA_DST sock)) n" "data skb = 54"
  shows "\<exists>n'. tcp_send_packet poll fd skb flags [] n = Some n' \<and> sent n' = sent n @ [payload_bytes (tcp_frame sock flags skb n)]
      \<and> live n' = live n - 1 \<and> socks n' = (socks n)(fd \<mapsto> sock\<lparr>seq_num := seq_num sock + seq_bump flags (skb_size skb)\<rparr>)
      \<and> hosts n' = hosts n \<and> ndev n' = ndev n \<and> mallocs n' = mallocs n \<and> ip_id n' = ip_id n + 1 \<and> garbage n' = garbage n"
proof -
  let ?F = "payload_bytes (tcp_frame sock flags skb n)"
  obtain x where "ip_send_packet poll (sin_addr (SA_SRC sock)) (sin_addr (SA_DST sock)) (tcp_header_put sock flags [] (skb_push 20 skb)) PROT_TCP n
      = Some (x, n\<lparr>ip_id := ip_id n + 1, sent := sent n @ [?F], live := live n - 1\<rparr>)"
    using assms(3) by (simp add: ip_send_known [OF assms(2)] ether_send_frame tcp_frame_def)
  then show ?thesis
    using assms(1) by (auto simp: tcp_send_packet_def seq_bump_def fun_upd_def add.assoc)
qed

lemma tcp_ack_known:
  assumes "socks n fd = Some sock" "reachable_host (sin_addr (SA_DST sock)) n" "mallocs n = []"
  shows "\<exists>m. tcp_send_ack poll fd n = Some (0, m) \<and> socks m = socks n \<and> live m = live n \<and> hosts m = hosts n \<and> ndev m = ndev n
      \<and> sent m = sent n @ [payload_bytes (tcp_frame sock FLG_ACK \<lparr> buf = garbage n, data = 54, skb_size = 0 \<rparr> n)]"
proof -
  let ?skb = "\<lparr> buf = garbage n, data = 54, skb_size = 0 \<rparr>" and ?n = "n\<lparr>live := live n + 1\<rparr>"
  have r: "socks ?n fd = Some sock" "reachable_host (sin_addr (SA_DST sock)) ?n" "data ?skb = 54"
    using assms by (simp_all add: reachable_host_cong [of ?n n])
  have "tcp_frame sock FLG_ACK ?skb ?n = tcp_frame sock FLG_ACK ?skb n"
    by (simp add: tcp_frame_def next_mac_def getaddr_def)
  moreover have "seq_bump FLG_ACK 0 = 0" by (simp add: seq_bump_def)
  moreover have "sock\<lparr>seq_num := seq_num sock\<rparr> = sock" by simp
  ultimately show ?thesis
    using tcp_send_known [OF r, of poll FLG_ACK] assms(1,3) by (auto simp: tcp_send_ack_def skb_alloc_ok fun_upd_idem)
qed

text \<open>A station with one socket and a known neighbour, for examples.\<close>

definition demo_sock :: "int \<Rightarrow> socket" where
  "demo_sock type = \<lparr> sk_type = type, protocol = 0, obstruct_flags = 1, tx_qu = [], rx_qu = [],
     SA_SRC = \<lparr> sin_family = 2, sin_port = 0x1111, sin_addr = 0x0A000001 \<rparr>,
     SA_DST = \<lparr> sin_family = 2, sin_port = 0x2222, sin_addr = 0x0A000002 \<rparr>,
     state = TCPS_ESTABLISHED, seq_num = 100, ack_num = 200 \<rparr>"

definition demo_net :: "int \<Rightarrow> net" where
  "demo_net type = \<lparr> socks = [1 \<mapsto> demo_sock type], hosts = [(0x0A000002, [1, 2, 3, 4, 5, 6])], ip_id = 1, port = 50000,
     ndev = \<lparr> nd_ip = 0x0A000001, nd_mask = 0x00FFFFFF, mac_addr = [9, 8, 7, 6, 5, 4], send_packet = (\<lambda>_. 0) \<rparr>,
     sent = [], live = 0, mallocs = [], garbage = (\<lambda>_. 0xAA), polls = [], keys = [] \<rparr>"

text \<open>Its peer ends the stream.\<close>

definition fin_frame :: "u8 list" where
  "fin_frame = [9, 8, 7, 6, 5, 4, 1, 2, 3, 4, 5, 6, 8, 0,
     0x45, 0, 0, 40, 0, 1, 0x40, 0, 64, 6, 0, 0, 2, 0, 0, 10, 1, 0, 0, 10,
     0x22, 0x22, 0x11, 0x11, 0, 0, 0, 200, 0, 0, 0, 100, 0x50, 0x11, 1, 0, 0, 0, 0, 0]"

lemma demo_fin:
  "map_option (\<lambda>n'. map_option state (socks n' 1)) (ndev_poll 2 ((demo_net 1)\<lparr>polls := [[fin_frame]]\<rparr>)) = Some (Some TCPS_CLOSE_WAIT)"
  by code_simp

section \<open>Properties of the protocol layers\<close>

text \<open>
  C15: the Internet checksum does its job. Storing the complement of the sum in an aligned field that
  was zero makes the whole range sum to \<open>0xffff\<close>, which is what a receiver tests; and replacing one
  aligned word changes the sum, unless it replaces \<open>0\<close> by \<open>0xffff\<close> or the reverse, which ones' complement
  arithmetic cannot tell apart.
\<close>

theorem checksum_correct:
  assumes "n \<le> 2 ^ 17" "j < n div 2"
  shows "(rd16 m (p + 2 * int j) = 0 \<longrightarrow>
      net_calc_checksum (wr (p + 2 * int j) (bytes16 (NOT (net_calc_checksum m p n))) m) p n = 0xffff)
    \<and> (v \<noteq> rd16 m (p + 2 * int j) \<and> {v, rd16 m (p + 2 * int j)} \<noteq> {0, 0xffff} \<longrightarrow>
      net_calc_checksum (wr (p + 2 * int j) (bytes16 v) m) p n \<noteq> net_calc_checksum m p n)"
  using checksum_field [OF assms] checksum_changes [OF assms] by blast

theorem checksum_correct_witness:
  "net_calc_checksum (wr 2 (bytes16 (NOT (net_calc_checksum (\<lambda>i. if i < 4 then 0 else 7) 0 10))) (\<lambda>i. if i < 4 then 0 else 7)) 0 10 = 0xffff
     \<and> net_calc_checksum (wr 4 (bytes16 9) (\<lambda>i. if i < 4 then 0 else 7)) 0 10 \<noteq> net_calc_checksum (\<lambda>i. if i < 4 then 0 else 7) 0 10"
proof -
  let ?m = "\<lambda>i :: int. if i < 4 then 0 else 7 :: u8"
  have "rd16 ?m 2 = 0" "rd16 ?m 4 = 0x707" by code_simp+
  then show ?thesis using checksum_correct [of 10 1 ?m 0] checksum_correct [of 10 2 ?m 0 9] by (auto simp: doubleton_eq_iff)
qed

text \<open>
  What one segment does to its connection: nothing but the step of the diagram for its flags, with
  the peer's station known and memory at hand, so that acknowledging it needs no further poll.
\<close>

lemma tcp_ack_after:
  assumes "reachable_host (sin_addr (SA_DST sock)) n" "socks a = (socks n)(fd \<mapsto> t)" "SA_DST t = SA_DST sock"
    "hosts a = hosts n" "ndev a = ndev n" "mallocs a = []"
  shows "\<exists>m. tcp_send_ack poll fd a = Some (0, m) \<and> socks m = socks a"
  using assms tcp_ack_known [of a fd t poll] by (auto simp: reachable_host_cong [of a n])

lemma tcp_syn_step:
  assumes ack: "reachable_host (sin_addr (SA_DST sock)) n"
    and "socks n fd = Some sock" "mallocs n = []" "tcp_syn poll fd seq n = Some n'"
  shows "state sock = TCPS_SYN_SENT \<and> socks n' = (socks n)(fd \<mapsto> sock\<lparr>ack_num := seq + 1, state := TCPS_ESTABLISHED\<rparr>)"
  using tcp_ack_after [OF ack, of "skb_free (set_ack fd (seq + 1) n)" fd "sock\<lparr>ack_num := seq + 1\<rparr>" poll] assms(2-)
  by (auto simp: tcp_syn_def set_ack_def set_state_def split: if_splits)

lemma tcp_data_step:
  assumes ack: "reachable_host (sin_addr (SA_DST sock)) n"
    and "socks n fd = Some sock" "mallocs n = []" "tcp_data poll fd skb seq n = Some n'"
  shows "socks n' = (socks n)(fd \<mapsto> sock\<lparr>ack_num := seq + ucast (skb_size skb), rx_qu := rx_qu sock @ [skb]\<rparr>)"
  using tcp_ack_after [OF ack, of "queue_rx fd skb (set_ack fd (seq + ucast (skb_size skb)) n)" fd
      "sock\<lparr>ack_num := seq + ucast (skb_size skb), rx_qu := rx_qu sock @ [skb]\<rparr>" poll] assms(2-)
  by (auto simp: tcp_data_def set_ack_def queue_rx_def)

lemma tcp_fin_step:
  assumes ack: "reachable_host (sin_addr (SA_DST sock)) n"
    and n: "socks n fd = Some sock" "mallocs n = []" "tcp_fin poll fd skb seq flags n = Some n'"
  shows "\<exists>t. socks n' = (socks n)(fd \<mapsto> t)
    \<and> (if skb_size skb = 0 then fin_state flags (state sock) = Some (state t) else state t = state sock)"
proof (cases "skb_size skb = 0")
  case False
  then show ?thesis
    using n tcp_ack_after [OF ack, of "queue_rx fd skb (set_ack fd (seq + ucast (skb_size skb)) n)" fd
        "sock\<lparr>ack_num := seq + ucast (skb_size skb), rx_qu := rx_qu sock @ [skb]\<rparr>" poll]
    by (auto simp: tcp_fin_def set_ack_def queue_rx_def word_gt_0)
next
  case True
  then obtain s where s: "fin_state flags (state sock) = Some s"
    using n by (auto simp: tcp_fin_def set_ack_def bind_eq_Some_conv)
  then show ?thesis
    using True n tcp_ack_after [OF ack, of "skb_free (set_state fd s (set_ack fd (seq + 1) n))" fd "sock\<lparr>ack_num := seq + 1, state := s\<rparr>" poll]
    by (auto simp: tcp_fin_def set_ack_def set_state_def)
qed

lemma tcp_switch:
  assumes "(if a then x else if b then y else if c then z else if d then u else v) = w"
  obtains (syn) a "x = w" | (fin) b "y = w" | (ack) c "z = w" | (data) "\<not> c" d "u = w"
    | (other) "\<not> a" "\<not> b" "\<not> d" "v = w"
  using assms by (auto split: if_splits)

lemma tcp_deliver_step:
  assumes s: "tcp_search_socket (rd16 (buf skb) (data skb + 2)) n = Some fd" "socks n fd = Some sock"
    "mallocs n = []" "reachable_host (sin_addr (SA_DST sock)) n"
    and fl: "flags = buf skb (data skb + 13)" "hdr_len = unat (drop_bit 4 (buf skb (data skb + 12))) * 4"
    and d: "tcp_layer_deliver poll skb ip_hdr n = Some (r, n')"
  shows "\<exists>t. socks n' = (socks n)(fd \<mapsto> t) \<and> tcp_step flags (skb_size skb = of_nat hdr_len) (state sock) (state t)"
proof -
  let ?skb = "skb_pull hdr_len skb" and ?seq = "ntohl (rd32 (buf skb) (data skb + 4))"
  have sz: "skb_size ?skb = 0 \<longleftrightarrow> skb_size skb = of_nat hdr_len" by (simp add: skb_pull_def)
  have sw: "(if flags = FLG_SYN \<or> flags = FLG_SYN OR FLG_ACK then tcp_syn poll fd ?seq n
      else if flags = FLG_FIN \<or> flags = FLG_FIN OR FLG_ACK \<or> flags = FLG_FIN OR FLG_ACK OR FLG_PSH
      then tcp_fin poll fd ?skb ?seq flags n
      else if flags = FLG_ACK \<and> skb_size ?skb = 0
      then Some (upd_sock fd (\<lambda>sock. sock\<lparr>state := ack_state (state sock)\<rparr>) (skb_free n))
      else if flags = FLG_ACK \<or> flags = FLG_ACK OR FLG_PSH then tcp_data poll fd ?skb ?seq n else Some n) = Some n'"
    using d s(1) by (auto simp: tcp_layer_deliver_def Let_def fl)
  from sw show ?thesis
  proof (cases rule: tcp_switch)
    case syn
    then have "tcp_step flags nodata TCPS_SYN_SENT TCPS_ESTABLISHED" for nodata by (auto simp: tcp_step_def)
    with tcp_syn_step [OF s(4,2,3) syn(2)] show ?thesis by auto
  next
    case fin
    obtain t where t: "socks n' = (socks n)(fd \<mapsto> t)"
      "if skb_size ?skb = 0 then fin_state flags (state sock) = Some (state t) else state t = state sock"
      using tcp_fin_step [OF s(4,2,3) fin(2)] by blast
    have "tcp_step flags (skb_size ?skb = 0) (state sock) (state t)"
    proof (cases "skb_size ?skb = 0")
      case True
      then show ?thesis using t(2) fin_state_edge fin(1) by (simp add: tcp_step_def)
    next
      case False
      then show ?thesis using t(2) fin(1) tcp_step_stays [of flags False] by auto
    qed
    then show ?thesis using t(1) sz by auto
  next
    case ack
    then show ?thesis using ack_state_step [of "state sock"] sz s(2) by auto
  next
    case data
    then have "tcp_step flags (skb_size ?skb = 0) (state sock) (state sock)" by (intro tcp_step_stays) auto
    then show ?thesis using tcp_data_step [OF s(4,2,3) data(3)] sz by auto
  next
    case other
    then have "tcp_step flags (skb_size ?skb = 0) (state sock) (state sock)" by (intro tcp_step_stays) auto
    then show ?thesis using s(2) sz other(4) by (auto simp: fun_upd_idem intro!: exI [of _ sock])
  qed
qed

text \<open>
  C13: connections follow the labelled diagram \<open>tcp_edge\<close>. A segment whose sender's station is known
  takes its connection exactly along the edge for its flags and emptiness, or leaves it where it is
  when there is none, and no other socket changes; and whatever frames a poll finds, however the polls it
  causes nest, every socket stays the same socket and its state moves along such edges only: no frame
  closes an established connection at a stroke or reopens a closed one. The diagram is not that of
  RFC 793 in two places, which the labels show: a bare SYN takes \<open>TCPS_SYN_SENT\<close> to
  \<open>TCPS_ESTABLISHED\<close>, and an empty ACK counts as the one of the FIN without a look at its number.
\<close>

theorem tcp_state_diagram:
  "(ndev_poll depth n = Some n' \<longrightarrow>
      rel_option (\<lambda>s t. (\<lambda>s t. \<exists>flags nodata. tcp_edge flags nodata s t)\<^sup>*\<^sup>* (state s) (state t)) (socks n fd) (socks n' fd))
   \<and> (tcp_search_socket (rd16 (buf skb) (data skb + 2)) n = Some fd \<and> socks n fd = Some sock \<and>
      mallocs n = [] \<and> reachable_host (sin_addr (SA_DST sock)) n \<and>
      flags = buf skb (data skb + 13) \<and> hdr_len = unat (drop_bit 4 (buf skb (data skb + 12))) * 4 \<and>
      tcp_layer_deliver poll skb ip_hdr n = Some (r, n') \<longrightarrow>
      (\<exists>t. socks n' = (socks n)(fd \<mapsto> t) \<and> tcp_step flags (skb_size skb = of_nat hdr_len) (state sock) (state t)))"
proof (intro conjI impI)
  assume "ndev_poll depth n = Some n'"
  from moves.keepsD [OF moves.R_ndev_poll this]
  show "rel_option (\<lambda>s t. (\<lambda>s t. \<exists>flags nodata. tcp_edge flags nodata s t)\<^sup>*\<^sup>* (state s) (state t)) (socks n fd) (socks n' fd)"
    by (simp add: all_socks_def tcp_moves_def)
qed (use tcp_deliver_step in blast)

text \<open>The same station while it opens a connection.\<close>

definition demo_opening :: net where
  "demo_opening = (demo_net 1)\<lparr>socks := [1 \<mapsto> (demo_sock 1)\<lparr>state := TCPS_SYN_SENT\<rparr>]\<rparr>"

theorem tcp_state_diagram_witness:
  "(\<exists>n'. ndev_poll 2 ((demo_net 1)\<lparr>polls := [[fin_frame]]\<rparr>) = Some n' \<and> map_option state (socks n' 1) = Some TCPS_CLOSE_WAIT
     \<and> (\<lambda>s t. \<exists>flags nodata. tcp_edge flags nodata s t)\<^sup>*\<^sup>* TCPS_ESTABLISHED TCPS_CLOSE_WAIT)
   \<and> (\<exists>r n'. tcp_layer_deliver Some \<lparr> buf = (\<lambda>_. 0)(2 := 0x11, 3 := 0x11, 12 := 0x50, 13 := 2), data = 0, skb_size = 20 \<rparr> 0 demo_opening = Some (r, n')
     \<and> map_option state (socks n' 1) = Some TCPS_ESTABLISHED \<and> tcp_edge FLG_SYN True TCPS_SYN_SENT TCPS_ESTABLISHED)"
proof
  obtain n' where n': "ndev_poll 2 ((demo_net 1)\<lparr>polls := [[fin_frame]]\<rparr>) = Some n'" "map_option state (socks n' 1) = Some TCPS_CLOSE_WAIT"
    using demo_fin by auto
  then show "\<exists>n'. ndev_poll 2 ((demo_net 1)\<lparr>polls := [[fin_frame]]\<rparr>) = Some n' \<and> map_option state (socks n' 1) = Some TCPS_CLOSE_WAIT
     \<and> (\<lambda>s t. \<exists>flags nodata. tcp_edge flags nodata s t)\<^sup>*\<^sup>* TCPS_ESTABLISHED TCPS_CLOSE_WAIT"
    using tcp_state_diagram [THEN conjunct1, rule_format, OF n'(1), of 1] by (auto simp: demo_net_def demo_sock_def)
  let ?skb = "\<lparr> buf = (\<lambda>_. 0)(2 := 0x11, 3 := 0x11, 12 := 0x50, 13 := 2), data = 0, skb_size = 20 \<rparr>"
  have "tcp_search_socket (rd16 (buf ?skb) (data ?skb + 2)) demo_opening = Some 1"
    by (simp add: rd16_def tcp_search_socket_def search_sock_def demo_opening_def demo_sock_def upt_conv_Cons)
  moreover have "socks demo_opening 1 = Some ((demo_sock 1)\<lparr>state := TCPS_SYN_SENT\<rparr>)" "mallocs demo_opening = []"
    "reachable_host (sin_addr (SA_DST ((demo_sock 1)\<lparr>state := TCPS_SYN_SENT\<rparr>))) demo_opening"
    by (simp_all add: demo_opening_def demo_net_def demo_sock_def reachable_host_def getaddr_def)
  moreover have "map_option fst (tcp_layer_deliver Some ?skb 0 demo_opening) = Some 0" by code_simp
  then obtain r n' where d: "tcp_layer_deliver Some ?skb 0 demo_opening = Some (r, n')" by auto
  ultimately obtain t where "socks n' = (socks demo_opening)(1 \<mapsto> t)" "tcp_step 2 True TCPS_SYN_SENT (state t)"
    using tcp_state_diagram [THEN conjunct2, rule_format, of ?skb demo_opening 1 "(demo_sock 1)\<lparr>state := TCPS_SYN_SENT\<rparr>" 2 20 Some 0 r n'] by auto
  with d show "\<exists>r n'. tcp_layer_deliver Some ?skb 0 demo_opening = Some (r, n')
     \<and> map_option state (socks n' 1) = Some TCPS_ESTABLISHED \<and> tcp_edge FLG_SYN True TCPS_SYN_SENT TCPS_ESTABLISHED"
    by (auto simp: tcp_step_def)
qed

text \<open>
  C14: received data is never lost, reordered or redirected on its way to the reader, and the address
  cache never changes its mind. Polling appends to the receive queues and touches nothing else of
  them, keeps every socket's type and own address, and keeps the cache free of duplicates with every
  station resolved before resolved to the same address after.
\<close>

theorem poll_preserves:
  assumes "ndev_poll depth n = Some n'"
  shows "rel_option (\<lambda>s t. (\<exists>skbs. rx_qu t = rx_qu s @ skbs) \<and> tx_qu t = tx_qu s \<and> sk_type t = sk_type s \<and> SA_SRC t = SA_SRC s)
      (socks n fd) (socks n' fd)
    \<and> (distinct (map fst (hosts n)) \<longrightarrow> distinct (map fst (hosts n')))
    \<and> (getaddr ip n = Some mac \<longrightarrow> getaddr ip n' = Some mac)"
  using ends.keepsD [OF ends.R_ndev_poll assms] cache.keepsD [OF cache.R_ndev_poll assms] cache_grows_getaddr
  by (auto simp: all_socks_def same_end_def [abs_def] cache_grows_def)

theorem poll_preserves_witness:
  "\<exists>n'. ndev_poll 2 ((demo_net 1)\<lparr>polls := [[fin_frame]]\<rparr>) = Some n' \<and> getaddr 0x0A000002 n' = Some [1, 2, 3, 4, 5, 6]"
proof -
  obtain n' where n': "ndev_poll 2 ((demo_net 1)\<lparr>polls := [[fin_frame]]\<rparr>) = Some n'"
    using demo_fin by auto
  have "getaddr 0x0A000002 ((demo_net 1)\<lparr>polls := [[fin_frame]]\<rparr>) = Some [1, 2, 3, 4, 5, 6]" by (simp add: getaddr_def demo_net_def)
  then show ?thesis using n' poll_preserves [OF n'] by blast
qed

text \<open>
  C17: a stray segment stops the machine. With memory at hand and the peer's station known, delivering
  a segment to an open socket comes back unless it asks to open a connection that the socket is not
  waiting for, or ends, without data, a stream that the socket does not have; in those two cases it
  runs into \<^verbatim>\<open>BUG()\<close>, an endless loop.
\<close>

theorem tcp_deliver_hangs_iff:
  assumes "tcp_search_socket (rd16 (buf skb) (data skb + 2)) n = Some fd" "socks n fd = Some sock"
    "mallocs n = []" "reachable_host (sin_addr (SA_DST sock)) n"
    and "flags = buf skb (data skb + 13)" "hdr_len = unat (drop_bit 4 (buf skb (data skb + 12))) * 4"
  shows "tcp_layer_deliver poll skb ip_hdr n = None \<longleftrightarrow>
      flags \<in> {FLG_SYN, FLG_SYN OR FLG_ACK} \<and> state sock \<noteq> TCPS_SYN_SENT
    \<or> flags \<in> {FLG_FIN, FLG_FIN OR FLG_ACK, FLG_FIN OR FLG_ACK OR FLG_PSH} \<and> skb_size skb = of_nat hdr_len
        \<and> state sock \<notin> {TCPS_FIN_WAIT1, TCPS_FIN_WAIT2, TCPS_ESTABLISHED}"
proof -
  have known: "\<exists>m. tcp_send_ack poll fd a = Some (0, m) \<and> socks m = socks a"
    if "socks a = (socks n)(fd \<mapsto> t)" "SA_DST t = SA_DST sock" "hosts a = hosts n" "ndev a = ndev n" "mallocs a = []" for a t
    using that assms(4) tcp_ack_known [of a fd t poll] by (auto simp: reachable_host_cong [of a n])
  let ?skb = "skb_pull hdr_len skb"
  have syn: "tcp_syn poll fd seq n = None \<longleftrightarrow> state sock \<noteq> TCPS_SYN_SENT" for seq
    using known [of "skb_free (set_ack fd (seq + 1) n)" "sock\<lparr>ack_num := seq + 1\<rparr>"] assms(2,3)
    by (auto simp: tcp_syn_def set_ack_def)
  have data: "tcp_data poll fd ?skb seq n \<noteq> None" for seq
    using known [of "queue_rx fd ?skb (set_ack fd (seq + ucast (skb_size ?skb)) n)"
        "sock\<lparr>ack_num := seq + ucast (skb_size ?skb), rx_qu := rx_qu sock @ [?skb]\<rparr>"] assms(2,3)
    by (auto simp: tcp_data_def set_ack_def queue_rx_def)
  have fin: "tcp_fin poll fd ?skb seq flags n = None
      \<longleftrightarrow> skb_size ?skb = 0 \<and> state sock \<notin> {TCPS_FIN_WAIT1, TCPS_FIN_WAIT2, TCPS_ESTABLISHED}" for seq
  proof (cases "skb_size ?skb > 0")
    case True
    then show ?thesis
      using known [of "queue_rx fd ?skb (set_ack fd (seq + ucast (skb_size ?skb)) n)"
          "sock\<lparr>ack_num := seq + ucast (skb_size ?skb), rx_qu := rx_qu sock @ [?skb]\<rparr>"] assms(2,3)
      by (auto simp: tcp_fin_def set_ack_def queue_rx_def)
  next
    case False
    then have z: "skb_size ?skb = 0" by (simp add: word_gt_0)
    show ?thesis
    proof (cases "fin_state flags (state sock)")
      case None
      then show ?thesis using z assms(2) by (auto simp: tcp_fin_def set_ack_def fin_state_def split: if_splits)
    next
      case (Some t)
      then show ?thesis
        using z assms(2,3) known [of "skb_free (set_state fd t (set_ack fd (seq + 1) n))" "sock\<lparr>ack_num := seq + 1, state := t\<rparr>"]
        by (auto simp: tcp_fin_def set_ack_def set_state_def fin_state_def split: if_splits)
    qed
  qed
  show ?thesis
    using assms(1) syn data fin
    by (auto simp: tcp_layer_deliver_def Let_def simp flip: assms(5,6))
qed

text \<open>A connection request for the connection of the example.\<close>

definition demo_syn :: sock_buff where
  "demo_syn = \<lparr> buf = (\<lambda>_. 0)(2 := 0x11, 3 := 0x11, 12 := 0x50, 13 := 2), data = 0, skb_size = 20 \<rparr>"

theorem tcp_deliver_hangs_iff_witness: "tcp_layer_deliver Some demo_syn 0 (demo_net 1) = None"
proof -
  have s: "tcp_search_socket (rd16 (buf demo_syn) (data demo_syn + 2)) (demo_net 1) = Some 1"
    by (simp add: demo_syn_def rd16_def tcp_search_socket_def search_sock_def demo_net_def demo_sock_def upt_conv_Cons)
  have n: "socks (demo_net 1) 1 = Some (demo_sock 1)" "mallocs (demo_net 1) = []" "reachable_host (sin_addr (SA_DST (demo_sock 1))) (demo_net 1)"
    "state (demo_sock 1) = TCPS_ESTABLISHED"
    by (simp_all add: demo_net_def demo_sock_def reachable_host_def getaddr_def)
  have "buf demo_syn (data demo_syn + 13) = 2" by (simp add: demo_syn_def)
  then show ?thesis using tcp_deliver_hangs_iff [OF s n(1-3) refl refl, of Some 0] n(4) by simp
qed

text \<open>
  Directed broadcasts are not recognised. The net mask is kept in network order and compared with
  an address in host order, so with the mask 255.255.255.0 the broadcast addresses are exactly those
  whose first number is 255, and not those whose last number is.
\<close>

theorem ip_is_bcast_swapped:
  assumes "nd_mask nd = 0x00FFFFFF"
  shows "ip_is_bcast nd (ntohl ip) \<longleftrightarrow> (ucast ip :: u8) = 255"
proof -
  have "ip_is_bcast nd (ntohl ip) \<longleftrightarrow> (\<forall>i<32. bit (0x00FFFFFF :: u32) i \<or> bit (ntohl ip) i)"
    by (auto simp: ip_is_bcast_def assms bit_eq_iff bit_simps)
  also have "(0x00FFFFFF :: u32) = mask 24" by (simp add: mask_eq_exp_minus_1)
  also have "(\<forall>i<32. bit (mask 24 :: u32) i \<or> bit (ntohl ip) i) \<longleftrightarrow> (\<forall>i<8. bit ip i)"
  proof -
    have hi: "bit (ntohl ip) (24 + i) = bit ip i" if "i < 8" for i
    proof -
      have "(24 + i) div 8 = 3" "(24 + i) mod 8 = i" using that by presburger+
      then show ?thesis using that by (simp add: ntohl_def byte_order_simps bit_CPU_TO_BE32)
    qed
    have "(\<forall>i<32. i < 24 \<or> bit (ntohl ip) i) \<longleftrightarrow> (\<forall>i<8. bit (ntohl ip) (24 + i))"
    proof (intro iffI allI impI)
      fix i :: nat assume h: "\<forall>i<8. bit (ntohl ip) (24 + i)" "i < 32"
      show "i < 24 \<or> bit (ntohl ip) i" using h(1) [rule_format, of "i - 24"] h(2) by (cases "i < 24") auto
    next
      fix i :: nat assume h: "\<forall>i<32. i < 24 \<or> bit (ntohl ip) i" "i < 8"
      show "bit (ntohl ip) (24 + i)" using h(1) [rule_format, of "24 + i"] h(2) by simp
    qed
    then show ?thesis by (simp add: bit_mask_iff hi)
  qed
  also have "\<dots> \<longleftrightarrow> (ucast ip :: u8) = mask 8"
    by (auto simp: bit_eq_iff bit_simps)
  finally show ?thesis by (simp add: mask_eq_exp_minus_1)
qed

theorem ip_is_bcast_swapped_witness:
  "\<not> ip_is_bcast \<lparr> nd_ip = 0x0101A8C0, nd_mask = 0x00FFFFFF, mac_addr = [], send_packet = (\<lambda>_. 0) \<rparr> (ntohl 0xFF01A8C0)"
  by (subst ip_is_bcast_swapped) simp_all

text \<open>The frame of an address-resolution packet.\<close>

definition arp_packet :: "u32 \<Rightarrow> u8 list \<Rightarrow> u16 \<Rightarrow> net \<Rightarrow> sock_buff" where
  "arp_packet nip des_mac op_code n =
     put 18 des_mac (put 8 (mac_addr (ndev n)) (put 24 (bytes32 nip) (put 14 (bytes32 (nd_ip (ndev n))) (put 6 (bytes16 op_code)
       (put 5 [4] (put 4 [6] (put 2 (bytes16 ETH_TYPE_IP) (put 0 (bytes16 (htons 1))
         \<lparr> buf = garbage n, data = 14, skb_size = 28 \<rparr>))))))))"

lemma arp_send_known:
  fixes nip op n
  assumes "mallocs n = []"
  defines "F \<equiv> \<lambda>m. payload_bytes (eth_frame (arp_packet nip m op n) (mac_addr (ndev n)) m ETH_TYPE_ARP)"
  shows "arp_send_packet nip (Some mac) op n = n\<lparr>sent := sent n @ [F mac]\<rparr>"
    "arp_send_packet nip None op n = n\<lparr>sent := sent n @ [F mac_fill_bcast]\<rparr>"
  unfolding F_def by (simp_all add: arp_send_packet_def skb_alloc_ok [OF assms(1)] Let_def ether_send_frame arp_packet_def)

lemma arp_fields:
  fixes nip mac op n
  assumes "length mac = 6" "length (mac_addr (ndev n)) = 6"
  defines "S \<equiv> eth_frame (arp_packet nip mac op n) (mac_addr (ndev n)) mac ETH_TYPE_ARP"
  shows "data S = 0" "unat (skb_size S) = 42" "rd16 (buf S) 12 = ETH_TYPE_ARP" "rd16 (buf S) 16 = ETH_TYPE_IP" "rd16 (buf S) 20 = op"
    "rdn (buf S) 22 6 = mac_addr (ndev n)" "rd32 (buf S) 28 = nd_ip (ndev n)" "rd32 (buf S) 38 = nip" "rdn (buf S) 0 6 = mac"
proof -
  show "data S = 0" "unat (skb_size S) = 42" by (simp_all add: S_def eth_frame_def arp_packet_def)
  show "rd16 (buf S) 12 = ETH_TYPE_ARP" "rd16 (buf S) 16 = ETH_TYPE_IP" "rd16 (buf S) 20 = op" "rd32 (buf S) 28 = nd_ip (ndev n)" "rd32 (buf S) 38 = nip"
    using assms(1,2) by (simp_all add: S_def eth_frame_def arp_packet_def mem_simps)
  show "rdn (buf S) 22 6 = mac_addr (ndev n)" "rdn (buf S) 0 6 = mac"
    using assms(1,2) rdn_wr_same [of 22 "mac_addr (ndev n)"] rdn_wr_same [of 0 mac]
    by (simp_all add: S_def eth_frame_def arp_packet_def mem_simps)
qed

lemma rx_frames_one: "rx_frames poll [x] r = netif_rx poll (fst (rx_frame x r)) (r\<lparr>live := live r + 1\<rparr>)"
proof -
  have "rx_frames poll [] = Some" by (rule ext) simp
  then show ?thesis by (simp add: rx_frame_def)
qed

text \<open>
  C16: address resolution works between two stations. A station that receives a request for its own
  address, with memory at hand, frees the request and sends one frame, to the requester's station
  address; a stack that takes this frame from its driver, and did not know the address, knows it
  afterwards: it resolves to the answering station. A request for another address is freed and not
  answered.
\<close>

theorem arp_resolves:
  assumes "rd16 (buf skb) (data skb + 2) = ETH_TYPE_IP" "rd16 (buf skb) (data skb + 6) = ARP_OP_REQ" "mallocs n = []" "macs_ok n"
    and "getaddr (nd_ip (ndev n)) r = None" "mallocs r = []"
  shows "if rd32 (buf skb) (data skb + 24) = nd_ip (ndev n)
      then \<exists>frame r'. arp_recv_packet skb n = (0, n\<lparr>sent := sent n @ [frame], live := live n - 1\<rparr>)
             \<and> take 6 frame = rdn (buf skb) (data skb + 8) 6
             \<and> rx_frames poll [frame] r = Some r' \<and> getaddr (nd_ip (ndev n)) r' = Some (mac_addr (ndev n))
      else arp_recv_packet skb n = (0, n\<lparr>live := live n - 1\<rparr>)"
proof -
  have ops: "ARP_OP_REQ \<noteq> ARP_OP_REP" by code_simp
  let ?mac = "rdn (buf skb) (data skb + 8) 6" and ?ip = "rd32 (buf skb) (data skb + 14)"
  define S where "S = eth_frame (arp_packet ?ip ?mac ARP_OP_REP n) (mac_addr (ndev n)) ?mac ETH_TYPE_ARP"
  have "length ?mac = 6" "length (mac_addr (ndev n)) = 6" using assms(4) by (simp_all add: length_rdn macs_ok_def)
  note f = arp_fields [OF this, of ?ip ARP_OP_REP, folded S_def]
  note e = rx_frame_reads [OF f(1), where n = r, unfolded f(2)]
  let ?R = "fst (rx_frame (payload_bytes S) r)" and ?r = "r\<lparr>live := live r + 1\<rparr>"
  let ?h = "?r\<lparr>hosts := hosts r @ [(nd_ip (ndev n), mac_addr (ndev n))]\<rparr>"
  have "netif_rx poll ?R ?r = Some (snd (arp_recv_packet (skb_pull 14 ?R) ?r))" by (simp add: netif_rx_def e f)
  moreover have "hosts (snd (arp_recv_packet (skb_pull 14 ?R) ?r)) = hosts r @ [(nd_ip (ndev n), mac_addr (ndev n))]"
    using assms(5,6) by (simp add: arp_recv_packet_def e f Let_def malloc_ok_def getaddr_def queue_rx_def split: option.splits)
  moreover have "getaddr a m = Some x" if "hosts m = hosts r @ [(a, x)]" "getaddr a r = None" for a x m
  proof -
    have "find P xs = None \<Longrightarrow> P y \<Longrightarrow> find P (xs @ [y]) = Some y" for P xs and y :: "u32 \<times> u8 list" by (induction xs) auto
    then show ?thesis using that by (simp add: getaddr_def)
  qed
  ultimately have "\<exists>r'. rx_frames poll [payload_bytes S] r = Some r' \<and> getaddr (nd_ip (ndev n)) r' = Some (mac_addr (ndev n))"
    using assms(5) by (simp add: rx_frames_one del: rx_frames.simps)
  moreover have "take 6 (payload_bytes S) = ?mac"
    using f(9) by (simp add: payload_bytes_def f(1,2) rdn_def take_map min_def)
  ultimately show ?thesis
    using assms(1-3) ops arp_send_known(1) [OF assms(3), of ?ip ?mac ARP_OP_REP]
    by (auto simp: arp_recv_packet_def Let_def S_def skb_free_def)
qed

definition demo_arp :: sock_buff where
  "demo_arp = \<lparr> buf = wr 0 [0, 1, 8, 0, 6, 4, 0, 1, 1, 2, 3, 4, 5, 6, 2, 0, 0, 10, 0, 0, 0, 0, 0, 0, 1, 0, 0, 10] (\<lambda>_. 0), data = 0, skb_size = 28 \<rparr>"

theorem arp_resolves_witness:
  "\<exists>frame r'. sent (snd (arp_recv_packet demo_arp (demo_net 1))) = [frame]
     \<and> rx_frames Some [frame] (demo_net 1) = Some r' \<and> getaddr 0x0A000001 r' = Some [9, 8, 7, 6, 5, 4]"
proof -
  have d: "rd16 (buf demo_arp) (data demo_arp + 2) = ETH_TYPE_IP" "rd16 (buf demo_arp) (data demo_arp + 6) = ARP_OP_REQ"
    "rd32 (buf demo_arp) (data demo_arp + 24) = 0x0A000001"
    by code_simp+
  have n: "mallocs (demo_net 1) = []" "macs_ok (demo_net 1)" "getaddr (nd_ip (ndev (demo_net 1))) (demo_net 1) = None"
    "nd_ip (ndev (demo_net 1)) = 0x0A000001" "mac_addr (ndev (demo_net 1)) = [9, 8, 7, 6, 5, 4]" "sent (demo_net 1) = []"
    by (simp_all add: demo_net_def macs_ok_def getaddr_def)
  show ?thesis
    using arp_resolves [OF d(1,2) n(1-3) n(1), of Some] d(3) n(4-6) by (fastforce simp del: rx_frames.simps)
qed

end
