(* ===== verification/Socket.thy ===== *)
theory Socket
  imports Net
begin

unbundle bit_operations_syntax

text \<open>
  The socket calls of \<^verbatim>\<open>lib/net/socket.c\<close> over the layers of \<open>Net\<close>: creating, binding and closing
  sockets, datagrams, and TCP connections. The loops that wait poll the network; a wait without a
  limit is a partial function, whose value \<open>None\<close> is that it never returns.
\<close>

section \<open>Descriptors and ports\<close>

definition get_sock :: "int \<Rightarrow> net \<Rightarrow> nat option" where
  "get_sock fd n =
     (if fd \<le> 0 \<or> fd \<ge> int MAX_SOCK_NUM then None
      else if socks n (nat fd) = None then None else Some (nat fd))"

abbreviation (input) PORT_MIN :: u16 where "PORT_MIN \<equiv> 50000"

definition port_alloc :: "net \<Rightarrow> u16 \<times> net" where
  "port_alloc n =
     (let p = port n + 1;
          p = (if p < PORT_MIN then PORT_MIN else p)
      in (p, n\<lparr>port := p\<rparr>))"

definition socket_ioctl :: "int \<Rightarrow> int \<Rightarrow> int \<Rightarrow> net \<Rightarrow> int \<times> net" where
  "socket_ioctl fd cmd flags n =
     (case get_sock fd n of
        None \<Rightarrow> (- ENOENT, n)
      | Some fd \<Rightarrow>
          if cmd = 1 then (0, upd_sock fd (\<lambda>sock. sock\<lparr>obstruct_flags := flags\<rparr>) n) else (- EINVAL, n))"

text \<open>\<^verbatim>\<open>socket\<close>: \<open>junk\<close> is what the memory of the new socket holds; some of its fields stay.\<close>

definition socket :: "socket \<Rightarrow> int \<Rightarrow> int \<Rightarrow> int \<Rightarrow> net \<Rightarrow> int \<times> net" where
  "socket junk domain type prot n =
     (case find (\<lambda>fd. socks n fd = None) [1..<MAX_SOCK_NUM] of
        None \<Rightarrow> (- ENODEV, n)
      | Some fd \<Rightarrow>
          let (ok, n) = malloc_ok n
          in if \<not> ok then (- ENOMEM, n)
             else let sock = junk\<lparr>sk_type := type\<rparr>;
                      sock = (if type = SOCK_STREAM then sock\<lparr>state := TCPS_CLOSED, seq_num := 1, ack_num := 0\<rparr> else sock);
                      none = \<lparr> sin_family = 0, sin_port = 0, sin_addr = 0 \<rparr>;
                      sock = sock\<lparr>SA_SRC := none, SA_DST := none, tx_qu := [], rx_qu := [], protocol := prot\<rparr>
                  in (int fd, n\<lparr>socks := (socks n)(fd \<mapsto> sock)\<rparr>))"

abbreviation (input) AF_INET :: u16 where "AF_INET \<equiv> 2"

definition bind :: "int \<Rightarrow> sockaddr_in \<Rightarrow> net \<Rightarrow> int \<times> net" where
  "bind fd addr n =
     (case get_sock fd n of
        None \<Rightarrow> (- EINVAL, n)
      | Some fd \<Rightarrow>
          let n = upd_sock fd (\<lambda>sock. sock\<lparr>SA_SRC := (SA_SRC sock)\<lparr>sin_family := sin_family addr\<rparr>\<rparr>) n
          in if sin_family addr = AF_INET
             then let (p, n) = (if sin_port addr \<noteq> 0 then (sin_port addr, n)
                                else let (p, n) = port_alloc n in (htons p, n));
                      a = (if sin_addr addr = htonl 0 then nd_ip (ndev n) else sin_addr addr)
                  in (0, upd_sock fd (\<lambda>sock. sock\<lparr>SA_SRC := (SA_SRC sock)\<lparr>sin_port := p, sin_addr := a\<rparr>\<rparr>) n)
             else (- ENOTSUPP, n))"

section \<open>Waiting\<close>

fun wait_loop :: "(net \<Rightarrow> net option) \<Rightarrow> nat \<Rightarrow> tcp_state \<Rightarrow> nat \<Rightarrow> net \<Rightarrow> (int \<times> net) option" where
  "wait_loop poll fd s 0 n = Some (- ETIMEDOUT, n)"
| "wait_loop poll fd s (Suc rounds) n = do {
     n \<leftarrow> poll n;
     sock \<leftarrow> socks n fd;
     if state sock = s then Some (0, n) else wait_loop poll fd s rounds n }"

definition tcp_wait_for_state :: "(net \<Rightarrow> net option) \<Rightarrow> nat \<Rightarrow> tcp_state \<Rightarrow> net \<Rightarrow> (int \<times> net) option" where
  "tcp_wait_for_state poll fd s n = wait_loop poll fd s 100 n"

definition take_first :: "nat \<Rightarrow> socket \<Rightarrow> net \<Rightarrow> sock_buff option \<times> net" where
  "take_first fd sock n = (Some (hd (rx_qu sock)), upd_sock fd (\<lambda>sock. sock\<lparr>rx_qu := tl (rx_qu sock)\<rparr>) n)"

partial_function (option) recv_loop ::
  "(net \<Rightarrow> net option) \<Rightarrow> nat \<Rightarrow> int \<Rightarrow> net \<Rightarrow> (sock_buff option \<times> net) option" where
  "recv_loop poll fd to n =
     (let (key, n) = uart_read n
      in if key = Some CHAR_CTRL_C then Some (None, n)
         else do {
           n \<leftarrow> poll n;
           sock \<leftarrow> socks n fd;
           if rx_qu sock \<noteq> []
           then Some (if to > 0 then take_first fd sock n else (None, n))
           else if obstruct_flags sock = 1
           then let to = to - 1 in if to = 0 then Some (None, n) else recv_loop poll fd to n
           else recv_loop poll fd to n })"

declare recv_loop.simps [code]

definition sock_recv_packet :: "(net \<Rightarrow> net option) \<Rightarrow> nat \<Rightarrow> net \<Rightarrow> (sock_buff option \<times> net) option" where
  "sock_recv_packet poll fd n = recv_loop poll fd 10000 n"

definition qu_is_empty :: "(net \<Rightarrow> net option) \<Rightarrow> int \<Rightarrow> net \<Rightarrow> (int \<times> net) option" where
  "qu_is_empty poll fd n =
     (case get_sock fd n of
        None \<Rightarrow> Some (1, n)
      | Some fd \<Rightarrow> do { n \<leftarrow> poll n; sock \<leftarrow> socks n fd; Some (if rx_qu sock \<noteq> [] then 0 else 1, n) })"

section \<open>Datagrams\<close>

definition sendto :: "(net \<Rightarrow> net option) \<Rightarrow> int \<Rightarrow> u8 list \<Rightarrow> sockaddr_in \<Rightarrow> net \<Rightarrow> (int \<times> net) option" where
  "sendto poll fd buff dest_addr n =
     (case get_sock fd n of
        None \<Rightarrow> Some (- EINVAL, n)
      | Some fd \<Rightarrow> do {
          let n = upd_sock fd (\<lambda>sock. sock\<lparr>SA_DST := dest_addr\<rparr>) n;
          sock \<leftarrow> socks n fd;
          n \<leftarrow> (if sk_type sock = SOCK_RAW \<and> protocol sock = uint PROT_ICMP
                then case skb_alloc (ETH_HDR_LEN + IP_HDR_LEN) (length buff) n of
                       (None, n) \<Rightarrow> None
                     | (Some skb, n) \<Rightarrow>
                         map_option snd
                           (ip_send_packet poll (sin_addr (SA_SRC sock)) (sin_addr (SA_DST sock)) (put 0 buff skb) PROT_ICMP n)
                else if sk_type sock = SOCK_RAW \<and> protocol sock = PROT_ETH
                then Some (arp_send_packet (sin_addr (SA_DST sock)) None ARP_OP_REQ n)
                else if sk_type sock = SOCK_RAW \<or> sk_type sock = SOCK_DGRAM
                then case skb_alloc (ETH_HDR_LEN + IP_HDR_LEN + UDP_HDR_LEN) (length buff) n of
                       (None, n) \<Rightarrow> None
                     | (Some skb, n) \<Rightarrow> udp_send_packet poll fd (put 0 buff skb) n
                else Some n);
          Some (int (length buff), n) })"

text \<open>\<^verbatim>\<open>recvfrom\<close>: the result, the bytes copied, and the address stored when there was a packet.\<close>

definition recvfrom ::
  "(net \<Rightarrow> net option) \<Rightarrow> int \<Rightarrow> nat \<Rightarrow> net \<Rightarrow> (int \<times> u8 list \<times> sockaddr_in option \<times> net) option" where
  "recvfrom poll fd len n =
     (case get_sock fd n of
        None \<Rightarrow> Some (- EINVAL, [], None, n)
      | Some fd \<Rightarrow> do {
          (skb, n) \<leftarrow> sock_recv_packet poll fd n;
          case skb of
            None \<Rightarrow> Some (0, [], None, n)
          | Some skb \<Rightarrow> do {
              sock \<leftarrow> socks n fd;
              let pkt_len = min (unat (skb_size skb)) len;
              Some (int pkt_len, rdn (buf skb) (data skb) pkt_len, Some (SA_DST sock), skb_free n) } })"

section \<open>Connections\<close>

definition connect :: "(net \<Rightarrow> net option) \<Rightarrow> int \<Rightarrow> sockaddr_in \<Rightarrow> net \<Rightarrow> (int \<times> net) option" where
  "connect poll fd addr n =
     (case get_sock fd n of
        None \<Rightarrow> Some (- ENOENT, n)
      | Some fd \<Rightarrow>
          (case skb_alloc (ETH_HDR_LEN + IP_HDR_LEN + TCP_HDR_LEN) 0 (upd_sock fd (\<lambda>sock. sock\<lparr>SA_DST := addr\<rparr>) n) of
             (None, n) \<Rightarrow> None
           | (Some skb, n) \<Rightarrow> do {
               n \<leftarrow> tcp_send_packet poll fd skb FLG_SYN [] n;
               (ret, n) \<leftarrow> tcp_wait_for_state poll fd TCPS_ESTABLISHED (set_state fd TCPS_SYN_SENT n);
               Some (ret, if ret < 0 then set_state fd TCPS_CLOSED n else n) }))"

definition send :: "(net \<Rightarrow> net option) \<Rightarrow> int \<Rightarrow> u8 list \<Rightarrow> net \<Rightarrow> (int \<times> net) option" where
  "send poll fd buff n =
     (case get_sock fd n of
        None \<Rightarrow> Some (- EINVAL, n)
      | Some fd \<Rightarrow> do {
          sock \<leftarrow> socks n fd;
          if state sock \<noteq> TCPS_ESTABLISHED then Some (- EIO, n)
          else case skb_alloc (ETH_HDR_LEN + IP_HDR_LEN + TCP_HDR_LEN) (length buff) n of
                 (None, n) \<Rightarrow> None
               | (Some skb, n) \<Rightarrow> do {
                   n \<leftarrow> tcp_send_packet poll fd (put 0 buff skb) (FLG_PSH OR FLG_ACK) [] n;
                   Some (int (length buff), n) } })"

definition recv :: "(net \<Rightarrow> net option) \<Rightarrow> int \<Rightarrow> nat \<Rightarrow> net \<Rightarrow> (int \<times> u8 list \<times> net) option" where
  "recv poll fd len n =
     (case get_sock fd n of
        None \<Rightarrow> Some (- ENOENT, [], n)
      | Some fd \<Rightarrow> do {
          sock \<leftarrow> socks n fd;
          if state sock \<noteq> TCPS_ESTABLISHED then Some (- EIO, [], n)
          else do {
            (skb, n) \<leftarrow> sock_recv_packet poll fd n;
            case skb of
              None \<Rightarrow> Some (- EIO, [], n)
            | Some skb \<Rightarrow>
                let pkt_len = min (unat (skb_size skb)) len
                in Some (int pkt_len, rdn (buf skb) (data skb) pkt_len, skb_free n) } })"

fun free_skb_list :: "sock_buff list \<Rightarrow> net \<Rightarrow> net" where
  "free_skb_list [] n = n"
| "free_skb_list (skb # qu) n = free_skb_list qu (skb_free n)"

text \<open>The first part of \<^verbatim>\<open>sk_close\<close>: the end of the stream is sent and its acknowledgement awaited.\<close>

definition close_handshake :: "(net \<Rightarrow> net option) \<Rightarrow> nat \<Rightarrow> net \<Rightarrow> (int \<times> net) option" where
  "close_handshake poll fd n =
     (case skb_alloc (ETH_HDR_LEN + IP_HDR_LEN + TCP_HDR_LEN) 0 n of
        (None, n) \<Rightarrow> None
      | (Some skb, n) \<Rightarrow> do {
          n \<leftarrow> tcp_send_packet poll fd skb (FLG_FIN OR FLG_ACK) [] n;
          sock \<leftarrow> socks n fd;
          if state sock = TCPS_CLOSE_WAIT
          then tcp_wait_for_state poll fd TCPS_CLOSED (set_state fd TCPS_LAST_ACK n)
          else tcp_wait_for_state poll fd TCPS_TIME_WAIT (set_state fd TCPS_FIN_WAIT1 n) })"

definition close_release :: "(net \<Rightarrow> net option) \<Rightarrow> nat \<Rightarrow> net \<Rightarrow> (int \<times> net) option" where
  "close_release poll fd n = do {
     sock \<leftarrow> socks n fd;
     n \<leftarrow> (if state sock = TCPS_TIME_WAIT
           then do {
             (ret, n) \<leftarrow> tcp_wait_for_state poll fd TCPS_CLOSED n;
             Some (if ret < 0 then set_state fd TCPS_CLOSED n else n) }
           else Some n);
     sock \<leftarrow> socks n fd;
     if state sock = TCPS_CLOSED
     then Some (0, (free_skb_list (tx_qu sock) (free_skb_list (rx_qu sock) n))\<lparr>socks := (socks n)(fd := None)\<rparr>)
     else Some (- EINVAL, n) }"

definition sk_close :: "(net \<Rightarrow> net option) \<Rightarrow> int \<Rightarrow> net \<Rightarrow> (int \<times> net) option" where
  "sk_close poll fd n =
     (case get_sock fd n of
        None \<Rightarrow> Some (- EINVAL, n)
      | Some fd \<Rightarrow> do {
          sock \<leftarrow> socks n fd;
          if state sock = TCPS_ESTABLISHED \<or> state sock = TCPS_SYN_RCVD \<or> state sock = TCPS_CLOSE_WAIT
          then do {
            (ret, n) \<leftarrow> close_handshake poll fd n;
            if ret < 0 then Some (ret, n) else close_release poll fd n }
          else close_release poll fd n })"

section \<open>Datagrams, end to end\<close>

lemma ntoh_hton [simp]: "ntohs (htons v) = v" "ntohl (htonl w) = w"
  by (simp_all add: ntohs_def htons_def ntohl_def htonl_def byte_order_simps)

definition udp_header_put :: "socket \<Rightarrow> sock_buff \<Rightarrow> sock_buff" where
  "udp_header_put sock skb =
     (let skb = put 0 (bytes16 (sin_port (SA_SRC sock))) skb;
          skb = put 2 (bytes16 (sin_port (SA_DST sock))) skb;
          skb = put 4 (bytes16 (htons (skb_size skb))) skb
      in put 6 (bytes16 0) skb)"

lemma udp_header_put_fields:
  fixes sock skb and i :: int
  defines "b \<equiv> buf (udp_header_put sock skb)"
  shows "data (udp_header_put sock skb) = data skb" "skb_size (udp_header_put sock skb) = skb_size skb"
    "rd16 b (data skb) = sin_port (SA_SRC sock)" "rd16 b (data skb + 2) = sin_port (SA_DST sock)"
    "data skb + 8 \<le> i \<Longrightarrow> b i = buf skb i"
  unfolding b_def by (simp_all add: udp_header_put_def Let_def mem_simps)

lemma udp_send_known:
  assumes "socks n fd = Some sock" "reachable_host (sin_addr (SA_DST sock)) n" "data skb = 42"
  defines "F \<equiv> eth_frame (ip_header_put PROT_UDP (sin_addr (SA_SRC sock)) (sin_addr (SA_DST sock)) (ip_id n)
      (skb_push 20 (udp_header_put sock (skb_push 8 skb)))) (mac_addr (ndev n)) (next_mac (sin_addr (SA_DST sock)) n) ETH_TYPE_IP"
  shows "udp_send_packet poll fd skb n
       = Some (n\<lparr>ip_id := ip_id n + 1, sent := sent n @ [payload_bytes F], live := live n - 1\<rparr>)"
proof -
  have "udp_send_packet poll fd skb n
      = Option.bind (ip_send_packet poll (sin_addr (SA_SRC sock)) (sin_addr (SA_DST sock)) (udp_header_put sock (skb_push 8 skb)) PROT_UDP n)
          (\<lambda>(ret, n). Some n)"
    by (simp add: udp_send_packet_def assms(1) udp_header_put_def Let_def)
  also have "\<dots> = Some (n\<lparr>ip_id := ip_id n + 1, sent := sent n @ [payload_bytes F], live := live n - 1\<rparr>)"
    using assms(3) by (simp add: ip_send_known [OF assms(2)] ether_send_frame udp_header_put_fields F_def)
  finally show ?thesis .
qed

text \<open>A buffer that holds a UDP packet without IP options goes to the first socket bound to its port.\<close>

lemma netif_rx_udp:
  fixes skb
  defines "b \<equiv> buf skb"
  assumes "data skb = 0" "rd16 b 12 = ETH_TYPE_IP" "b 14 = 0x45" "rd16 b 16 = htons len" "b 23 = PROT_UDP"
    and "udp_search_socket (rd16 b 36) n = Some fd"
  shows "netif_rx poll skb n =
      Some (upd_sock fd (\<lambda>sock. sock\<lparr>SA_DST := (SA_DST sock)\<lparr>sin_addr := rd32 b 26, sin_port := rd16 b 34\<rparr>,
          rx_qu := rx_qu sock @ [skb\<lparr>data := 42, skb_size := len - 28\<rparr>]\<rparr>) n)"
proof -
  have "(0x45 :: u8) AND 0xf = 5" by simp
  moreover have "ETH_TYPE_IP \<noteq> ETH_TYPE_ARP" "ETH_TYPE_IP \<noteq> ETH_TYPE_RARP" by code_simp+
  ultimately show ?thesis
    using assms by (simp add: netif_rx_def ip_layer_deliver_def udp_layer_deliver_def Let_def skb_pull_def queue_rx_def upd_sock_def
        option.map_comp comp_def)
qed

text \<open>The frame of a datagram, and its reception.\<close>

definition udp_frame :: "socket \<Rightarrow> u8 list \<Rightarrow> net \<Rightarrow> sock_buff" where
  "udp_frame sock buff n =
     eth_frame (ip_header_put PROT_UDP (sin_addr (SA_SRC sock)) (sin_addr (SA_DST sock)) (ip_id n)
       (skb_push 20 (udp_header_put sock (skb_push 8 (put 0 buff \<lparr> buf = garbage n, data = 42, skb_size = of_nat (length buff) \<rparr>)))))
       (mac_addr (ndev n)) (next_mac (sin_addr (SA_DST sock)) n) ETH_TYPE_IP"

lemma sendto_frame:
  assumes "get_sock fd n = Some s" "socks n s = Some sock" "sk_type sock = SOCK_DGRAM"
    "reachable_host (sin_addr dest) n" "mallocs n = []"
  shows "\<exists>n'. sendto poll fd buff dest n = Some (int (length buff), n') \<and> live n' = live n
      \<and> sent n' = sent n @ [payload_bytes (udp_frame (sock\<lparr>SA_DST := dest\<rparr>) buff n)]
      \<and> socks n' = (socks n)(s \<mapsto> sock\<lparr>SA_DST := dest\<rparr>)
      \<and> hosts n' = hosts n \<and> ndev n' = ndev n \<and> mallocs n' = mallocs n \<and> keys n' = keys n"
proof -
  let ?n = "(upd_sock s (\<lambda>sock. sock\<lparr>SA_DST := dest\<rparr>) n)\<lparr>live := live n + 1\<rparr>"
  let ?skb = "put 0 buff \<lparr> buf = garbage n, data = 42, skb_size = of_nat (length buff) \<rparr>"
  have "udp_send_packet poll s ?skb ?n = Some (?n\<lparr>ip_id := ip_id n + 1,
      sent := sent n @ [payload_bytes (udp_frame (sock\<lparr>SA_DST := dest\<rparr>) buff n)], live := live n\<rparr>)"
    using assms(2,4) udp_send_known [of ?n s "sock\<lparr>SA_DST := dest\<rparr>" ?skb poll]
    by (simp add: udp_frame_def reachable_host_cong [of ?n n] reachable_host_def getaddr_def next_mac_def)
  then show ?thesis using assms(1-3,5) by (simp add: sendto_def skb_alloc_ok)
qed

lemma udp_frame_fields:
  fixes sock buff n and i :: int
  assumes "macs_ok n" "reachable_host (sin_addr (SA_DST sock)) n" "length buff \<le> 65000"
  defines "S \<equiv> udp_frame sock buff n"
  shows "data S = 0" "skb_size S = of_nat (length buff + 42)" "unat (skb_size S) = length buff + 42"
    "rd16 (buf S) 12 = ETH_TYPE_IP" "buf S 14 = 0x45" "rd16 (buf S) 16 = htons (of_nat (length buff + 28))" "buf S 23 = PROT_UDP"
    "rd32 (buf S) 26 = sin_addr (SA_SRC sock)" "rd16 (buf S) 34 = sin_port (SA_SRC sock)" "rd16 (buf S) 36 = sin_port (SA_DST sock)"
    "rdn (buf S) 42 (length buff) = buff" "net_calc_checksum (buf S) 14 20 = 0xffff" "rd32 (buf S) 30 = sin_addr (SA_DST sock)"
proof -
  let ?p = "put 0 buff \<lparr> buf = garbage n, data = 42, skb_size = of_nat (length buff) \<rparr>"
  let ?u = "udp_header_put sock (skb_push 8 ?p)"
  have m: "length (mac_addr (ndev n)) = 6" "length (next_mac (sin_addr (SA_DST sock)) n) = 6"
    using assms(1,2) next_mac_length by (auto simp: macs_ok_def)
  have u: "data ?u = 34" by (simp add: udp_header_put_fields)
  note f = eth_ip_fields [OF u m, where prot = PROT_UDP and src = "sin_addr (SA_SRC sock)" and dst = "sin_addr (SA_DST sock)" and ident = "ip_id n"]
  have S: "buf S = buf (eth_frame (ip_header_put PROT_UDP (sin_addr (SA_SRC sock)) (sin_addr (SA_DST sock)) (ip_id n)
       (skb_push 20 ?u)) (mac_addr (ndev n)) (next_mac (sin_addr (SA_DST sock)) n) ETH_TYPE_IP)"
    by (simp add: S_def udp_frame_def)
  show "data S = 0" "skb_size S = of_nat (length buff + 42)"
    by (simp_all add: S_def udp_frame_def eth_frame_def udp_header_put_fields)
  then show "unat (skb_size S) = length buff + 42" using assms(3) by (simp only: unat_of_nat) simp
  show "rd16 (buf S) 12 = ETH_TYPE_IP" "buf S 14 = 0x45" "buf S 23 = PROT_UDP" "rd32 (buf S) 26 = sin_addr (SA_SRC sock)"
    "net_calc_checksum (buf S) 14 20 = 0xffff" "rd32 (buf S) 30 = sin_addr (SA_DST sock)"
    unfolding S by (rule f)+
  show "rd16 (buf S) 16 = htons (of_nat (length buff + 28))"
    unfolding S f(3) by (simp add: udp_header_put_fields algebra_simps)
  have hi: "buf S i = buf ?u i" if "34 \<le> i" for i using f(8) [OF that] unfolding S by simp
  have "rd16 (buf ?u) 34 = sin_port (SA_SRC sock)" "rd16 (buf ?u) 36 = sin_port (SA_DST sock)"
    using udp_header_put_fields(3,4) [of sock "skb_push 8 ?p"] by simp_all
  then show "rd16 (buf S) 34 = sin_port (SA_SRC sock)" "rd16 (buf S) 36 = sin_port (SA_DST sock)"
    by (simp_all add: rd16_def hi)
  have "buf ?u i = wr 42 buff (garbage n) i" if "42 \<le> i" for i
    using that udp_header_put_fields(5) [of "skb_push 8 ?p" i sock] by simp
  then have "rdn (buf S) 42 (length buff) = rdn (wr 42 buff (garbage n)) 42 (length buff)" by (simp add: rdn_def hi)
  then show "rdn (buf S) 42 (length buff) = buff" by (simp only: rdn_wr_same)
qed

lemma udp_receives:
  assumes "macs_ok n" "reachable_host (sin_addr (SA_DST sock)) n" "length buff \<le> 65000"
    and "udp_search_socket (sin_port (SA_DST sock)) r = Some fd" "socks r fd = Some rsock"
  shows "\<exists>skb r'. rx_frames poll [payload_bytes (udp_frame sock buff n)] r = Some r' \<and> payload_bytes skb = buff
      \<and> socks r' = (socks r)(fd \<mapsto> rsock\<lparr>SA_DST := (SA_DST rsock)\<lparr>sin_addr := sin_addr (SA_SRC sock), sin_port := sin_port (SA_SRC sock)\<rparr>,
          rx_qu := rx_qu rsock @ [skb]\<rparr>)
      \<and> live r' = live r + 1"
proof -
  let ?S = "udp_frame sock buff n"
  let ?R = "fst (rx_frame (payload_bytes ?S) r)" and ?r = "r\<lparr>live := live r + 1\<rparr>"
  note f = udp_frame_fields [OF assms(1-3)]
  note e = rx_frame_reads [OF f(1), where n = r, unfolded f(3)]
  have s: "udp_search_socket (rd16 (buf ?R) 36) ?r = Some fd"
    using assms(4) by (simp add: e f udp_search_socket_def search_sock_def)
  have rx: "netif_rx poll ?R ?r = Some (upd_sock fd (\<lambda>sock. sock\<lparr>SA_DST := (SA_DST sock)\<lparr>sin_addr := rd32 (buf ?R) 26, sin_port := rd16 (buf ?R) 34\<rparr>,
          rx_qu := rx_qu sock @ [?R\<lparr>data := 42, skb_size := of_nat (length buff + 28) - 28\<rparr>]\<rparr>) ?r)"
    by (rule netif_rx_udp [OF _ _ _ _ _ s]) (simp_all add: e f)
  let ?q = "?R\<lparr>data := 42, skb_size := of_nat (length buff + 28) - 28\<rparr>"
  have "unat (of_nat (length buff + 28) - 28 :: u16) = length buff" using assms(3) by (simp add: unat_of_nat)
  then have "payload_bytes ?q = rdn (buf ?R) 42 (length buff)" by (simp add: payload_bytes_def)
  then have "payload_bytes ?q = buff" by (simp add: e f)
  moreover note rx [folded rx_frames_one]
  ultimately show ?thesis
    using assms(5) by (intro exI [of _ ?q]) (simp add: e f fun_upd_def)
qed

section \<open>Properties of datagrams\<close>

text \<open>
  C5: a datagram arrives. Sending \<open>buff\<close> to \<open>dest\<close> from a datagram socket, with memory at hand and the
  station of the destination known, returns its length and puts one frame on the wire, whose IP header
  verifies. Any stack that takes this frame from its driver while a socket is bound to the port of
  \<open>dest\<close> appends exactly \<open>buff\<close> to the queue of the first such socket, notes the sender's address there,
  and changes no other socket; the sender keeps no buffer and the receiver just the one it queued.
\<close>

theorem udp_end_to_end:
  assumes "get_sock fd n = Some s" "socks n s = Some sock" "sk_type sock = SOCK_DGRAM" "mallocs n = []"
    "macs_ok n" "reachable_host (sin_addr dest) n" "length buff \<le> 65000"
    and "udp_search_socket (sin_port dest) r = Some rfd" "socks r rfd = Some rsock"
  shows "\<exists>n' frame skb r'. sendto poll fd buff dest n = Some (int (length buff), n') \<and> sent n' = sent n @ [frame] \<and> live n' = live n
      \<and> net_calc_checksum (wr 0 frame (garbage r)) 14 20 = 0xffff
      \<and> rx_frames poll' [frame] r = Some r' \<and> payload_bytes skb = buff \<and> live r' = live r + 1
      \<and> socks r' = (socks r)(rfd \<mapsto> rsock\<lparr>SA_DST := (SA_DST rsock)\<lparr>sin_addr := sin_addr (SA_SRC sock), sin_port := sin_port (SA_SRC sock)\<rparr>,
          rx_qu := rx_qu rsock @ [skb]\<rparr>)"
proof -
  let ?sock = "sock\<lparr>SA_DST := dest\<rparr>"
  let ?S = "udp_frame ?sock buff n"
  have h: "reachable_host (sin_addr (SA_DST ?sock)) n" "udp_search_socket (sin_port (SA_DST ?sock)) r = Some rfd"
    using assms(6,8) by simp_all
  note f = udp_frame_fields [OF assms(5) h(1) assms(7)]
  have "net_calc_checksum (wr 0 (payload_bytes ?S) (garbage r)) 14 20 = net_calc_checksum (buf ?S) 14 20"
    using rx_frame_reads(1) [OF f(1), where n = r, unfolded f(3)]
    by (intro net_calc_checksum_cong) (simp add: rx_frame_def)
  then have "net_calc_checksum (wr 0 (payload_bytes ?S) (garbage r)) 14 20 = 0xffff" by (simp only: f(12))
  moreover obtain n' where "sendto poll fd buff dest n = Some (int (length buff), n')" "live n' = live n" "sent n' = sent n @ [payload_bytes ?S]"
    using sendto_frame [OF assms(1-3,6,4)] by blast
  moreover obtain skb r' where "rx_frames poll' [payload_bytes ?S] r = Some r'" "payload_bytes skb = buff" "live r' = live r + 1"
      "socks r' = (socks r)(rfd \<mapsto> rsock\<lparr>SA_DST := (SA_DST rsock)\<lparr>sin_addr := sin_addr (SA_SRC ?sock), sin_port := sin_port (SA_SRC ?sock)\<rparr>,
          rx_qu := rx_qu rsock @ [skb]\<rparr>)"
    using udp_receives [OF assms(5) h(1) assms(7) h(2) assms(9)] by blast
  ultimately show ?thesis
    by (intro exI [of _ n'] exI [of _ "payload_bytes ?S"] exI [of _ skb] exI [of _ r']) (simp del: rx_frames.simps)
qed

lemma demo_net_facts:
  "get_sock 1 (demo_net t) = Some 1" "socks (demo_net t) 1 = Some (demo_sock t)" "mallocs (demo_net t) = []" "macs_ok (demo_net t)"
  "reachable_host 0x0A000002 (demo_net t)" "udp_search_socket 0x1111 (demo_net 2) = Some 1" "tcp_search_socket 0x1111 (demo_net 1) = Some 1"
  "live (demo_net t) = 0"
  by (simp_all add: demo_net_def demo_sock_def get_sock_def macs_ok_def reachable_host_def getaddr_def udp_search_socket_def
      tcp_search_socket_def search_sock_def upt_conv_Cons)

theorem udp_end_to_end_witness:
  "\<exists>n' frame skb r'. sendto Some 1 [104, 105] \<lparr> sin_family = 2, sin_port = 0x1111, sin_addr = 0x0A000002 \<rparr> (demo_net 2) = Some (2, n')
     \<and> sent n' = [frame] \<and> rx_frames Some [frame] (demo_net 2) = Some r' \<and> payload_bytes skb = [104, 105]
     \<and> map_option rx_qu (socks r' 1) = Some [skb]"
proof -
  let ?dest = "\<lparr> sin_family = 2, sin_port = 0x1111, sin_addr = 0x0A000002 \<rparr>"
  have s: "sent (demo_net 2) = []" "rx_qu (demo_sock 2) = []" by (simp_all add: demo_net_def demo_sock_def)
  have "sk_type (demo_sock 2) = 2" by (simp add: demo_sock_def)
  then show ?thesis
    using udp_end_to_end [OF demo_net_facts(1,2) _ demo_net_facts(3,4), where dest = ?dest and buff = "[104, 105]" and r = "demo_net 2" and rfd = 1
        and rsock = "demo_sock 2" and poll = Some and poll' = Some] demo_net_facts
    by (fastforce simp: s simp del: rx_frames.simps)
qed

section \<open>Segments, end to end\<close>

text \<open>The pseudo header of a segment of \<open>len\<close> bytes.\<close>

definition pseudo_header :: "u32 \<Rightarrow> u32 \<Rightarrow> u16 \<Rightarrow> u8 list" where
  "pseudo_header src dst len = bytes32 src @ bytes32 dst @ [0, PROT_TCP] @ bytes16 (htons len)"

lemma pseudo_header_length: "length (pseudo_header src dst len) = 12"
  by (simp add: pseudo_header_def mem_simps)

lemma wr_append: "wr a (xs @ ys) m = wr (a + int (length xs)) ys (wr a xs m)"
proof (rule ext)
  fix i
  have "nat (i - a) - length xs = nat (i - (a + int (length xs)))" by linarith
  then show "wr a (xs @ ys) m i = wr (a + int (length xs)) ys (wr a xs m) i"
    by (auto simp: wr_def nth_append)
qed

lemma pseudo_stream:
  assumes "sk_type sock = SOCK_STREAM"
  shows "pseudo_calculate_checksum sock skb =
      (let b = wr (data skb - 12) (pseudo_header (sin_addr (SA_SRC sock)) (sin_addr (SA_DST sock)) (skb_size skb)) (buf skb);
           b = (if odd (unat (skb_size skb)) then wr (data skb + int (unat (skb_size skb))) [0] b else b)
       in (skb\<lparr>buf := b\<rparr>, Some (NOT (net_calc_checksum b (data skb - 12) (12 + unat (skb_size skb))))))"
proof -
  let ?p = "data skb - 12"
  have "wr (?p + 10) (bytes16 (htons (skb_size skb))) (wr (?p + 9) [PROT_TCP] (wr (?p + 8) [0]
      (wr (?p + 4) (bytes32 (sin_addr (SA_DST sock))) (wr ?p (bytes32 (sin_addr (SA_SRC sock))) (buf skb)))))
    = wr ?p (pseudo_header (sin_addr (SA_SRC sock)) (sin_addr (SA_DST sock)) (skb_size skb)) (buf skb)"
    (is "_ = wr ?p ?h _")
  proof -
    have "?h = (((bytes32 (sin_addr (SA_SRC sock)) @ bytes32 (sin_addr (SA_DST sock))) @ [0]) @ [PROT_TCP]) @ bytes16 (htons (skb_size skb))"
      by (simp add: pseudo_header_def)
    then show ?thesis by (simp only: wr_append) (simp add: mem_simps)
  qed
  then show ?thesis using assms by (simp add: pseudo_calculate_checksum_def Let_def algebra_simps)
qed

text \<open>The fields of an outgoing segment of a stream socket, and its checksum.\<close>

lemma tcp_header_put_fields:
  fixes sock flags skb and i :: int
  defines "b \<equiv> buf (tcp_header_put sock flags [] skb)" and "d \<equiv> data skb" and "L \<equiv> unat (skb_size skb)"
  assumes t: "sk_type sock = SOCK_STREAM" and L: "20 \<le> L"
  shows "rd16 b d = sin_port (SA_SRC sock)" "rd16 b (d + 2) = sin_port (SA_DST sock)" "rd32 b (d + 4) = htonl (seq_num sock)"
    "rd32 b (d + 8) = htonl (ack_num sock)" "b (d + 12) = 0x50" "b (d + 13) = flags"
    "d + 20 \<le> i \<Longrightarrow> i < d + int L \<Longrightarrow> b i = buf skb i"
    "net_calc_checksum b (d - 12) (12 + L) = 0xffff"
    "rdn b (d - 12) 12 = pseudo_header (sin_addr (SA_SRC sock)) (sin_addr (SA_DST sock)) (skb_size skb)"
proof -
  define h where "h = pseudo_header (sin_addr (SA_SRC sock)) (sin_addr (SA_DST sock)) (skb_size skb)"
  define b0 where "b0 = wr (d + 18) (bytes16 0) (wr (d + 16) (bytes16 0) (wr (d + 14) (bytes16 (htons (if flags AND FLG_ACK \<noteq> 0 then 457 else 14600)))
     (wr (d + 13) [flags] (wr (d + 12) [0x50] (wr (d + 8) (bytes32 (htonl (ack_num sock))) (wr (d + 4) (bytes32 (htonl (seq_num sock)))
     (wr (d + 2) (bytes16 (sin_port (SA_DST sock))) (wr d (bytes16 (sin_port (SA_SRC sock))) (buf skb)))))))))"
  define b1 where "b1 = (if odd L then wr (d + int L) [0] (wr (d - 12) h b0) else wr (d - 12) h b0)"
  have h: "length h = 12" by (simp add: h_def pseudo_header_length)
  have nil: "wr a [] m = m" for a m by (rule ext) (auto simp: wr_def)
  have b: "b = wr (d + 16) (bytes16 (NOT (net_calc_checksum b1 (d - 12) (12 + L)))) b1"
    unfolding b_def tcp_header_put_def Let_def
    by (simp add: pseudo_stream [OF t] Let_def nil b1_def h_def b0_def d_def L_def)
  have b1: "b1 i = b0 i" if "d \<le> i" "i < d + int L" for i
    using that h by (simp add: b1_def wr_def)
  have "rd16 b1 (d + 16) = 0" using L by (simp add: rd16_def b1) (simp add: b0_def mem_simps bytes16_def)
  then show "net_calc_checksum b (d - 12) (12 + L) = 0xffff"
    unfolding b using L unsigned_less [of "skb_size skb", where 'a = nat] by (intro checksum_field_at [where j = 14]) (auto simp: L_def)
  have bi: "b i = b0 i" if "d \<le> i" "i < d + int L" "i \<noteq> d + 16" "i \<noteq> d + 17" for i
    using that b1 [of i] by (auto simp: b wr_def bit_bytes)
  have r: "rd16 b i = rd16 b0 i" "rd32 b i = rd32 b0 i"
    if "d \<le> i" "i + 4 \<le> d + 16" for i
    using that L by (simp_all add: rd16_def rd32_def bi)
  show "rd16 b d = sin_port (SA_SRC sock)" "rd16 b (d + 2) = sin_port (SA_DST sock)" "rd32 b (d + 4) = htonl (seq_num sock)"
    "rd32 b (d + 8) = htonl (ack_num sock)" "b (d + 12) = 0x50" "b (d + 13) = flags"
    using L by (simp_all add: r bi) (simp_all add: b0_def mem_simps)
  show "d + 20 \<le> i \<Longrightarrow> i < d + int L \<Longrightarrow> b i = buf skb i"
    by (simp add: bi) (simp add: b0_def mem_simps)
  have "rdn b (d - 12) 12 = rdn (wr (d - 12) h b0) (d - 12) 12"
    unfolding b b1_def by (simp add: mem_simps)
  then show "rdn b (d - 12) 12 = pseudo_header (sin_addr (SA_SRC sock)) (sin_addr (SA_DST sock)) (skb_size skb)"
    using rdn_wr_same [of "d - 12" h b0] h by (simp add: h_def)
qed

lemma tcp_frame_fields:
  fixes sock flags skb n
  assumes "macs_ok n" "reachable_host (sin_addr (SA_DST sock)) n" "sk_type sock = SOCK_STREAM"
    and skb: "data skb = 54" "skb_size skb = of_nat len" "len \<le> 65000"
  defines "S \<equiv> tcp_frame sock flags skb n"
  shows "data S = 0" "unat (skb_size S) = len + 54"
    "rd16 (buf S) 12 = ETH_TYPE_IP" "buf S 14 = 0x45" "rd16 (buf S) 16 = htons (of_nat (len + 40))" "buf S 23 = PROT_TCP"
    "rd16 (buf S) 36 = sin_port (SA_DST sock)" "rd32 (buf S) 38 = htonl (seq_num sock)" "rd32 (buf S) 42 = htonl (ack_num sock)"
    "buf S 46 = 0x50" "buf S 47 = flags" "rdn (buf S) 54 len = rdn (buf skb) 54 len"
    "net_calc_checksum (wr 22 (pseudo_header (sin_addr (SA_SRC sock)) (sin_addr (SA_DST sock)) (of_nat (len + 20))) (buf S)) 22 (len + 32) = 0xffff"
proof -
  let ?t = "tcp_header_put sock flags [] (skb_push 20 skb)"
  let ?h = "pseudo_header (sin_addr (SA_SRC sock)) (sin_addr (SA_DST sock)) (of_nat (len + 20))"
  have m: "length (mac_addr (ndev n)) = 6" "length (next_mac (sin_addr (SA_DST sock)) n) = 6"
    using assms(1,2) next_mac_length by (auto simp: macs_ok_def)
  have sz: "unat (of_nat (len + k) :: u16) = len + k" if "k \<le> 100" for k using that skb(3) by (simp only: unat_of_nat) simp
  have t: "data ?t = 34" "skb_size ?t = of_nat (len + 20)" "unat (skb_size (skb_push 20 skb)) = len + 20"
    using sz [of 20] by (simp_all add: skb(1,2))
  have e: "skb_size (skb_push 20 skb) = of_nat (len + 20)" "data (skb_push 20 skb) = 34" by (simp_all add: skb)
  note f = eth_ip_fields [OF t(1) m, where prot = PROT_TCP and src = "sin_addr (SA_SRC sock)" and dst = "sin_addr (SA_DST sock)" and ident = "ip_id n"]
  note g = tcp_header_put_fields [where sock = sock and skb = "skb_push 20 skb" and flags = flags, unfolded t(3), unfolded e, OF assms(3)]
  have S: "buf S = buf (eth_frame (ip_header_put PROT_TCP (sin_addr (SA_SRC sock)) (sin_addr (SA_DST sock)) (ip_id n)
       (skb_push 20 ?t)) (mac_addr (ndev n)) (next_mac (sin_addr (SA_DST sock)) n) ETH_TYPE_IP)"
    by (simp add: S_def tcp_frame_def)
  show "data S = 0" by (simp add: S_def tcp_frame_def eth_frame_def skb(1))
  have "skb_size S = of_nat (len + 54)" by (simp add: S_def tcp_frame_def eth_frame_def skb(2))
  then show "unat (skb_size S) = len + 54" using sz [of 54] by simp
  show "rd16 (buf S) 12 = ETH_TYPE_IP" "buf S 14 = 0x45" "buf S 23 = PROT_TCP"
    unfolding S by (rule f)+
  show "rd16 (buf S) 16 = htons (of_nat (len + 40))" unfolding S f(3) t(2) by (simp add: add.commute)
  have hi: "buf S i = buf ?t i" if "34 \<le> i" for i using f(8) [OF that] unfolding S by simp
  show "rd16 (buf S) 36 = sin_port (SA_DST sock)" "rd32 (buf S) 38 = htonl (seq_num sock)" "rd32 (buf S) 42 = htonl (ack_num sock)"
    "buf S 46 = 0x50" "buf S 47 = flags"
    using g(2-6) by (simp_all add: hi rd16_def rd32_def)
  show "rdn (buf S) 54 len = rdn (buf skb) 54 len"
    using g(7) by (simp add: rdn_def hi)
  have "net_calc_checksum (wr 22 ?h (buf S)) 22 (len + 32) = net_calc_checksum (buf ?t) 22 (len + 32)"
  proof (rule net_calc_checksum_cong)
    fix i :: int assume i: "22 \<le> i" "i < 22 + int (len + 32)"
    show "wr 22 ?h (buf S) i = buf ?t i"
    proof (cases "i < 34")
      case True
      have "?h = rdn (buf ?t) 22 12" using g(9) by simp
      then have "wr 22 ?h (buf S) i = wr 22 (rdn (buf ?t) 22 12) (buf S) i" by simp
      then show ?thesis using i True by (simp only: wr_rdn) simp
    next
      case False
      then show ?thesis by (simp add: wr_miss pseudo_header_length hi)
    qed
  qed
  then show "net_calc_checksum (wr 22 ?h (buf S)) 22 (len + 32) = 0xffff" using g(8) by (simp add: add.commute)
qed

lemma netif_rx_tcp:
  fixes skb
  defines "b \<equiv> buf skb"
  assumes "data skb = 0" "rd16 b 12 = ETH_TYPE_IP" "b 14 = 0x45" "rd16 b 16 = htons len" "b 23 = PROT_TCP"
  shows "netif_rx poll skb n = map_option snd (tcp_layer_deliver poll (skb\<lparr>data := 34, skb_size := len - 20\<rparr>) 14 n)"
proof -
  have "(0x45 :: u8) AND 0xf = 5" by simp
  moreover have "ETH_TYPE_IP \<noteq> ETH_TYPE_ARP" "ETH_TYPE_IP \<noteq> ETH_TYPE_RARP" by code_simp+
  ultimately show ?thesis
    using assms by (cases "tcp_layer_deliver poll (skb\<lparr>data := 34, skb_size := len - 20\<rparr>) 14 n")
      (simp_all add: netif_rx_def ip_layer_deliver_def Let_def skb_pull_def case_prod_unfold)
qed

lemma tcp_deliver_data:
  fixes skb
  defines "b \<equiv> buf skb"
  assumes "data skb = 34" "b 46 = 0x50" "b 47 = FLG_PSH OR FLG_ACK" "tcp_search_socket (rd16 b 36) n = Some fd"
  shows "tcp_layer_deliver poll skb ip n
    = map_option (Pair 0) (tcp_data poll fd (skb\<lparr>data := 54, skb_size := skb_size skb - 20\<rparr>) (ntohl (rd32 b 38)) n)"
proof -
  have "unat (drop_bit 4 (0x50 :: u8)) = 5" by simp
  then show ?thesis using assms by (simp add: tcp_layer_deliver_def Let_def skb_pull_def)
qed

lemma tcp_search_stream: "tcp_search_socket p n = Some fd \<Longrightarrow> socks n fd = Some sock \<Longrightarrow> sk_type sock = SOCK_STREAM"
  by (auto simp: tcp_search_socket_def search_sock_def find_Some_iff)

text \<open>Data for a stream socket: it is queued and acknowledged.\<close>

lemma tcp_data_known:
  fixes seq skb g
  assumes "socks r fd = Some sock" "mallocs r = []" "macs_ok r" "reachable_host (sin_addr (SA_DST sock)) r" "sk_type sock = SOCK_STREAM"
  defines "t \<equiv> sock\<lparr>ack_num := seq + ucast (skb_size skb), rx_qu := rx_qu sock @ [skb]\<rparr>"
  shows "\<exists>r' A. tcp_data poll fd skb seq r = Some r' \<and> socks r' = (socks r)(fd \<mapsto> t) \<and> live r' = live r \<and> sent r' = sent r @ [A]
      \<and> rd32 (wr 0 A g) 42 = htonl (seq + ucast (skb_size skb)) \<and> wr 0 A g 47 = FLG_ACK"
proof -
  let ?a = "queue_rx fd skb (set_ack fd (seq + ucast (skb_size skb)) r)"
  let ?b = "\<lparr> buf = garbage ?a, data = 54, skb_size = 0 \<rparr>"
  have a: "socks ?a = (socks r)(fd \<mapsto> t)" "hosts ?a = hosts r" "ndev ?a = ndev r" "mallocs ?a = []" "live ?a = live r" "sent ?a = sent r"
    using assms(1,2) by (simp_all add: queue_rx_def set_ack_def t_def)
  have h: "socks ?a fd = Some t" "reachable_host (sin_addr (SA_DST t)) ?a" "macs_ok ?a" "sk_type t = SOCK_STREAM"
    using assms(3-5) a by (simp_all add: reachable_host_cong [of ?a r] macs_ok_def t_def)
  note f = tcp_frame_fields [OF h(3,2,4), of ?b 0 FLG_ACK, simplified]
  note e = rx_frame_reads [OF f(1), where n = "r\<lparr>garbage := g\<rparr>", unfolded f(2)]
  let ?A = "payload_bytes (tcp_frame t FLG_ACK ?b ?a)"
  have "buf (fst (rx_frame ?A (r\<lparr>garbage := g\<rparr>))) = wr 0 ?A g" by (simp add: rx_frame_def)
  then have "rd32 (wr 0 ?A g) 42 = htonl (ack_num t)" "wr 0 ?A g 47 = FLG_ACK"
    using e(3) [of 42] e(1) [of 47] f(9,11) by simp_all
  moreover obtain r' where "tcp_send_ack poll fd ?a = Some (0, r')" "socks r' = socks ?a" "live r' = live ?a" "sent r' = sent ?a @ [?A]"
    using tcp_ack_known [OF h(1,2) a(4), of poll] by blast
  ultimately show ?thesis using a by (intro exI [of _ r'] exI [of _ ?A]) (simp add: tcp_data_def t_def)
qed

section \<open>Properties of connections\<close>

text \<open>
  C4: the stream arrives. Sending \<open>buff\<close> on an established connection, with memory at hand and the
  peer's station known, returns its length, advances the sequence number by it and puts one frame on
  the wire whose TCP checksum verifies with the pseudo header. Any stack that takes this frame from its
  driver while a stream socket is bound to the destination port appends exactly \<open>buff\<close> to the queue of
  the first such socket and answers with one frame, a plain acknowledgement; the number it
  acknowledges is the sender's new sequence number, and no other socket changes.
\<close>

theorem tcp_end_to_end:
  assumes "get_sock fd n = Some s" "socks n s = Some sock" "sk_type sock = SOCK_STREAM" "state sock = TCPS_ESTABLISHED"
    "mallocs n = []" "macs_ok n" "reachable_host (sin_addr (SA_DST sock)) n" "length buff \<le> 65000"
    and "tcp_search_socket (sin_port (SA_DST sock)) r = Some rfd" "socks r rfd = Some rsock"
    "mallocs r = []" "macs_ok r" "reachable_host (sin_addr (SA_DST rsock)) r"
  shows "\<exists>n' frame skb r' ack. send poll fd buff n = Some (int (length buff), n') \<and> sent n' = sent n @ [frame] \<and> live n' = live n
      \<and> socks n' = (socks n)(s \<mapsto> sock\<lparr>seq_num := seq_num sock + of_nat (length buff)\<rparr>)
      \<and> net_calc_checksum (wr 22 (pseudo_header (sin_addr (SA_SRC sock)) (sin_addr (SA_DST sock)) (of_nat (length buff + 20))) (wr 0 frame g))
          22 (length buff + 32) = 0xffff
      \<and> rx_frames poll' [frame] r = Some r' \<and> payload_bytes skb = buff
      \<and> socks r' = (socks r)(rfd \<mapsto> rsock\<lparr>ack_num := seq_num sock + of_nat (length buff), rx_qu := rx_qu rsock @ [skb]\<rparr>)
      \<and> sent r' = sent r @ [ack] \<and> rd32 (wr 0 ack g) 42 = htonl (seq_num sock + of_nat (length buff)) \<and> wr 0 ack g 47 = FLG_ACK"
proof -
  let ?skb = "put 0 buff \<lparr> buf = garbage n, data = 54, skb_size = of_nat (length buff) \<rparr>" and ?n = "n\<lparr>live := live n + 1\<rparr>"
  let ?fl = "FLG_PSH OR FLG_ACK"
  define S where "S = tcp_frame sock ?fl ?skb n"
  let ?R = "fst (rx_frame (payload_bytes S) r)" and ?r = "r\<lparr>live := live r + 1\<rparr>"
  have len: "ucast (of_nat (length buff) :: u16) = (of_nat (length buff) :: u32)" "unat (of_nat (length buff) :: u16) = length buff"
    using assms(8) by (simp_all add: unsigned_of_nat unat_of_nat take_bit_nat_eq_self)
  have S': "tcp_frame sock ?fl ?skb ?n = S" by (simp add: S_def tcp_frame_def next_mac_def getaddr_def)
  have "seq_bump ?fl (of_nat (length buff)) = of_nat (length buff)" by (simp add: seq_bump_def len)
  moreover have "socks ?n s = Some sock" "reachable_host (sin_addr (SA_DST sock)) ?n" "data ?skb = 54"
    using assms(2,7) by (simp_all add: reachable_host_cong [of ?n n])
  ultimately obtain n' where n': "tcp_send_packet poll s ?skb ?fl [] ?n = Some n'" "sent n' = sent n @ [payload_bytes S]" "live n' = live n"
      "socks n' = (socks n)(s \<mapsto> sock\<lparr>seq_num := seq_num sock + of_nat (length buff)\<rparr>)"
    using tcp_send_known [of ?n s sock ?skb poll ?fl] unfolding S' by auto
  have send: "send poll fd buff n = Some (int (length buff), n')"
    using assms(1,2,4,5) n'(1) by (simp add: send_def skb_alloc_ok)
  have "data ?skb = 54" "skb_size ?skb = of_nat (length buff)" by simp_all
  note f = tcp_frame_fields [OF assms(6,7,3) this assms(8), of ?fl, folded S_def]
  note e = rx_frame_reads [OF f(1), where n = r, unfolded f(2)]
  let ?h = "pseudo_header (sin_addr (SA_SRC sock)) (sin_addr (SA_DST sock)) (of_nat (length buff + 20))"
  have "net_calc_checksum (wr 22 ?h (wr 0 (payload_bytes S) g)) 22 (length buff + 32) = net_calc_checksum (wr 22 ?h (buf S)) 22 (length buff + 32)"
    using f(1,2) by (intro net_calc_checksum_cong) (simp add: wr_def payload_bytes_def rdn_nth length_rdn)
  then have ck: "net_calc_checksum (wr 22 ?h (wr 0 (payload_bytes S) g)) 22 (length buff + 32) = 0xffff" by (simp only: f(13))
  let ?q = "?R\<lparr>data := 54, skb_size := of_nat (length buff)\<rparr>"
  have "tcp_search_socket (rd16 (buf ?R) 36) ?r = Some rfd"
    using assms(9) by (simp add: e f tcp_search_socket_def search_sock_def)
  then have "rx_frames poll' [payload_bytes S] r = tcp_data poll' rfd ?q (seq_num sock) ?r"
    by (simp add: rx_frames_one netif_rx_tcp [of _ "of_nat (length buff + 40)"] e f tcp_deliver_data option.map_comp comp_def option.map_ident
        del: rx_frames.simps)
  moreover have "payload_bytes ?q = buff"
    using e(4) [of 54 "length buff"] f(12) rdn_wr_same [of 54 buff "garbage n"] by (simp add: payload_bytes_def len)
  moreover have "socks ?r rfd = Some rsock" "mallocs ?r = []" "macs_ok ?r" "reachable_host (sin_addr (SA_DST rsock)) ?r" "sk_type rsock = SOCK_STREAM"
    using assms(10-13) tcp_search_stream [OF assms(9,10)] by (simp_all add: macs_ok_def reachable_host_cong [of ?r r])
  then obtain r' A where "tcp_data poll' rfd ?q (seq_num sock) ?r = Some r'"
      "socks r' = (socks r)(rfd \<mapsto> rsock\<lparr>ack_num := seq_num sock + of_nat (length buff), rx_qu := rx_qu rsock @ [?q]\<rparr>)"
      "sent r' = sent r @ [A]" "rd32 (wr 0 A g) 42 = htonl (seq_num sock + of_nat (length buff))" "wr 0 A g 47 = FLG_ACK"
    using tcp_data_known [of ?r rfd rsock, where seq = "seq_num sock" and skb = ?q and g = g and poll = poll'] len(1) by fastforce
  ultimately show ?thesis using send n' ck len(1)
    by (intro exI [where x = n'] exI [where x = "payload_bytes S"] exI [where x = ?q] exI [where x = r'] exI [where x = A])
      (simp del: rx_frames.simps)
qed

theorem tcp_end_to_end_witness:
  "\<exists>n' frame skb r' ack. send Some 1 [1, 2, 3] (demo_net 1) = Some (3, n') \<and> sent n' = [frame]
     \<and> rx_frames Some [frame] ((demo_net 1)\<lparr>socks := [1 \<mapsto> (demo_sock 1)\<lparr>SA_SRC := SA_DST (demo_sock 1)\<rparr>]\<rparr>) = Some r'
     \<and> payload_bytes skb = [1, 2, 3] \<and> map_option rx_qu (socks r' 1) = Some [skb] \<and> map_option ack_num (socks r' 1) = Some 103 \<and> sent r' = [ack]"
proof -
  let ?r = "(demo_net 1)\<lparr>socks := [1 \<mapsto> (demo_sock 1)\<lparr>SA_SRC := SA_DST (demo_sock 1)\<rparr>]\<rparr>"
  let ?t = "(demo_sock 1)\<lparr>SA_SRC := SA_DST (demo_sock 1)\<rparr>"
  have s: "sk_type (demo_sock 1) = 1" "state (demo_sock 1) = TCPS_ESTABLISHED" "sin_addr (SA_DST (demo_sock 1)) = 0x0A000002" "rx_qu (demo_sock 1) = []"
    "seq_num (demo_sock 1) = 100" "sent (demo_net 1) = []" by (simp_all add: demo_sock_def demo_net_def)
  have r: "tcp_search_socket (sin_port (SA_DST (demo_sock 1))) ?r = Some 1" "socks ?r 1 = Some ?t" "mallocs ?r = []" "macs_ok ?r"
    "reachable_host (sin_addr (SA_DST ?t)) ?r"
    by (simp_all add: tcp_search_socket_def search_sock_def demo_net_def demo_sock_def upt_conv_Cons macs_ok_def reachable_host_def getaddr_def)
  have n: "reachable_host (sin_addr (SA_DST (demo_sock 1))) (demo_net 1)" "length [1, 2, 3 :: u8] \<le> 65000" using demo_net_facts(5) s by simp_all
  show ?thesis
    using tcp_end_to_end [OF demo_net_facts(1,2) s(1,2) demo_net_facts(3,4) n r, of Some "\<lambda>_. 0" Some]
    by (fastforce simp: s simp del: rx_frames.simps)
qed

text \<open>Waiting for a packet.\<close>

text \<open>The state in which the loop makes its poll number \<open>k\<close>, counted from zero, if it gets there.\<close>

inductive recv_polls :: "(net \<Rightarrow> net option) \<Rightarrow> nat \<Rightarrow> nat \<Rightarrow> net \<Rightarrow> net \<Rightarrow> bool" for poll fd where
  first_poll: "uart_read n = (key, m) \<Longrightarrow> key \<noteq> Some CHAR_CTRL_C \<Longrightarrow> recv_polls poll fd 0 n m"
| next_poll: "uart_read n = (key, m) \<Longrightarrow> key \<noteq> Some CHAR_CTRL_C \<Longrightarrow> poll m = Some m' \<Longrightarrow> socks m' fd = Some s \<Longrightarrow> rx_qu s = []
    \<Longrightarrow> recv_polls poll fd k m' l \<Longrightarrow> recv_polls poll fd (Suc k) n l"

inductive_simps recv_polls_0: "recv_polls poll fd 0 n m"
inductive_simps recv_polls_Suc: "recv_polls poll fd (Suc k) n m"

interpretation blocking: sock_relation "\<lambda>s t. obstruct_flags t = obstruct_flags s"
  by unfold_locales (auto elim: sock_stepE)

lemma poll_keeps_flags:
  assumes "ndev_poll depth m = Some m'" "socks m fd = Some s"
  shows "\<exists>s'. socks m' fd = Some s' \<and> obstruct_flags s' = obstruct_flags s"
proof -
  have "rel_option (\<lambda>s t. obstruct_flags t = obstruct_flags s) (socks m fd) (socks m' fd)"
    using blocking.keepsD [OF blocking.R_ndev_poll assms(1)] by (simp add: all_socks_def)
  then show ?thesis using assms(2) by (cases "socks m' fd") auto
qed

text \<open>With the flag set and \<open>to\<close> rounds to go, the loop hangs exactly when one of its polls does.\<close>

lemma recv_loop_hangs:
  "socks n fd = Some s \<Longrightarrow> obstruct_flags s = 1 \<Longrightarrow>
    recv_loop (ndev_poll depth) fd (int (Suc to)) n = None
    \<longleftrightarrow> (\<exists>k\<le>to. \<exists>m. recv_polls (ndev_poll depth) fd k n m \<and> ndev_poll depth m = None)"
proof (induction to arbitrary: n s)
  case (0 n s)
  obtain key m where u: "uart_read n = (key, m)" by (cases "uart_read n")
  then have m: "socks m fd = Some s" using 0 by (auto simp: uart_read_def split: list.splits)
  show ?case
    using poll_keeps_flags [OF _ m, of depth] 0
    by (subst recv_loop.simps, cases "ndev_poll depth m")
      (auto simp: u recv_polls_0 Let_def take_first_def simp del: ndev_poll.simps)
next
  case (Suc to n s)
  obtain key m where u: "uart_read n = (key, m)" by (cases "uart_read n")
  then have m: "socks m fd = Some s" using Suc.prems by (auto simp: uart_read_def split: list.splits)
  have ex: "(\<exists>k\<le>Suc to. P k) \<longleftrightarrow> P 0 \<or> (\<exists>k\<le>to. P (Suc k))" for P
    by (metis Suc_le_mono not0_implies_Suc le0)
  show ?case
  proof (cases "ndev_poll depth m")
    case None
    then show ?thesis
      by (subst recv_loop.simps) (auto simp: u ex recv_polls_0 recv_polls_Suc simp del: ndev_poll.simps)
  next
    case (Some m')
    then obtain s' where s': "socks m' fd = Some s'" "obstruct_flags s' = 1" using poll_keeps_flags [OF _ m] Suc.prems by auto
    have "recv_loop (ndev_poll depth) fd (int (Suc (Suc to))) n = None
        \<longleftrightarrow> key \<noteq> Some 3 \<and> rx_qu s' = [] \<and> recv_loop (ndev_poll depth) fd (int (Suc to)) m' = None"
      by (subst recv_loop.simps) (auto simp: u Some s' Let_def take_first_def simp del: ndev_poll.simps)
    then show ?thesis
      using Suc.IH [OF s'] by (auto simp: ex u Some s' recv_polls_0 recv_polls_Suc simp del: ndev_poll.simps)
  qed
qed

text \<open>A device that has nothing lets no poll hang.\<close>

lemma recv_polls_idle:
  assumes "recv_polls (ndev_poll (Suc depth)) fd k n m" "polls n = []"
  shows "polls m = []"
  using assms by (induction rule: recv_polls.induct) (auto simp: uart_read_def split: list.splits)

lemma recv_loop_waits:
  assumes "recv_loop (ndev_poll depth) fd to n = Some y" "socks n fd = Some s" "rx_qu s = []" "obstruct_flags s \<noteq> 1" "Some 3 \<notin> set (keys n)" "polls n = []"
  shows False
proof -
  have "poll = ndev_poll depth \<longrightarrow> (\<forall>s. socks n fd = Some s \<longrightarrow> rx_qu s = [] \<longrightarrow> polls n = [] \<longrightarrow> obstruct_flags s \<noteq> 1 \<longrightarrow> Some 3 \<in> set (keys n))"
    if "recv_loop poll fd to n = Some y" for poll
  proof (rule recv_loop.raw_induct [OF _ that, where P = "\<lambda>poll fd to n y. poll = ndev_poll depth \<longrightarrow>
      (\<forall>s. socks n fd = Some s \<longrightarrow> rx_qu s = [] \<longrightarrow> polls n = [] \<longrightarrow> obstruct_flags s \<noteq> 1 \<longrightarrow> Some 3 \<in> set (keys n))"], intro impI allI)
    fix loop :: "(net \<Rightarrow> net option) \<Rightarrow> nat \<Rightarrow> int \<Rightarrow> net \<Rightarrow> (sock_buff option \<times> net) option" and poll fd to n y s
    assume IH: "\<And>poll fd to n y. loop poll fd to n = Some y \<Longrightarrow> poll = ndev_poll depth \<longrightarrow>
        (\<forall>s. socks n fd = Some s \<longrightarrow> rx_qu s = [] \<longrightarrow> polls n = [] \<longrightarrow> obstruct_flags s \<noteq> 1 \<longrightarrow> Some 3 \<in> set (keys n))"
      and body: "(let (key, n) = uart_read n
      in if key = Some 3 then Some (None, n)
         else do {
           n \<leftarrow> poll n;
           sock \<leftarrow> socks n fd;
           if rx_qu sock \<noteq> []
           then Some (if to > 0 then take_first fd sock n else (None, n))
           else if obstruct_flags sock = 1
           then let to = to - 1 in if to = 0 then Some (None, n) else loop poll fd to n
           else loop poll fd to n }) = Some y"
      and s: "poll = ndev_poll depth" "socks n fd = Some s" "rx_qu s = []" "polls n = []" "obstruct_flags s \<noteq> 1"
    obtain key m where u: "uart_read n = (key, m)" by (cases "uart_read n")
    then have m: "socks m = socks n" "polls m = polls n" "key = Some 3 \<longrightarrow> Some 3 \<in> set (keys n)" "set (keys m) \<subseteq> set (keys n)"
      by (auto simp: uart_read_def split: list.splits)
    then show "Some 3 \<in> set (keys n)" using body s IH [of poll fd to m y] u by (cases depth) (auto split: if_splits)
  qed
  then show False using assms by blast
qed

text \<open>
  C18: receiving waits as configured. On a socket with the time-out flag set, waiting for a packet does
  not come back exactly when one of the first ten thousand polls that it makes does not (a poll hangs
  on the segments of C17); so with an idle device it comes back. Without the flag, with nothing
  arriving and nobody pressing Ctrl-C, it never comes back.
\<close>

theorem recv_packet_waits:
  assumes "socks n fd = Some s"
  shows "(obstruct_flags s = 1 \<longrightarrow>
      (sock_recv_packet (ndev_poll depth) fd n = None
       \<longleftrightarrow> (\<exists>k<10000. \<exists>m. recv_polls (ndev_poll depth) fd k n m \<and> ndev_poll depth m = None)))
    \<and> (obstruct_flags s = 1 \<and> polls n = [] \<and> 0 < depth \<longrightarrow> (\<exists>x n'. sock_recv_packet (ndev_poll depth) fd n = Some (x, n')))
    \<and> (obstruct_flags s \<noteq> 1 \<and> rx_qu s = [] \<and> Some 3 \<notin> set (keys n) \<and> polls n = [] \<and> 0 < depth \<longrightarrow>
      sock_recv_packet (ndev_poll depth) fd n = None)"
proof (intro conjI impI)
  assume o: "obstruct_flags s = 1"
  have lt: "k \<le> 9999 \<longleftrightarrow> k < 10000" for k :: nat by auto
  show *: "sock_recv_packet (ndev_poll depth) fd n = None
       \<longleftrightarrow> (\<exists>k<10000. \<exists>m. recv_polls (ndev_poll depth) fd k n m \<and> ndev_poll depth m = None)"
    using recv_loop_hangs [OF assms o, of depth 9999] by (simp add: sock_recv_packet_def lt del: ndev_poll.simps)
next
  assume o: "obstruct_flags s = 1 \<and> polls n = [] \<and> 0 < depth"
  then obtain d where d: "depth = Suc d" by (cases depth) auto
  have "recv_loop (ndev_poll depth) fd 10000 n \<noteq> None"
    using recv_loop_hangs [OF assms, of depth 9999] o recv_polls_idle [of d fd _ n] by (auto simp: d)
  then show "\<exists>x n'. sock_recv_packet (ndev_poll depth) fd n = Some (x, n')" by (auto simp: sock_recv_packet_def)
next
  assume "obstruct_flags s \<noteq> 1 \<and> rx_qu s = [] \<and> Some 3 \<notin> set (keys n) \<and> polls n = [] \<and> 0 < depth"
  then have "recv_loop (ndev_poll depth) fd 10000 n \<noteq> Some y" for y
    using recv_loop_waits [OF _ assms] by blast
  then show "sock_recv_packet (ndev_poll depth) fd n = None" by (cases "recv_loop (ndev_poll depth) fd 10000 n") (auto simp: sock_recv_packet_def)
qed

text \<open>The station of the example, idle; without the flag; and when its peer opens the open connection again.\<close>

theorem recv_packet_waits_witness:
  "(\<exists>x n'. sock_recv_packet (ndev_poll 2) 1 (demo_net 1) = Some (x, n'))
     \<and> sock_recv_packet (ndev_poll 2) 1 ((demo_net 1)\<lparr>socks := [1 \<mapsto> (demo_sock 1)\<lparr>obstruct_flags := 0\<rparr>]\<rparr>) = None
     \<and> sock_recv_packet (ndev_poll 2) 1 ((demo_net 1)\<lparr>polls := [[fin_frame[47 := FLG_SYN]]]\<rparr>) = None"
proof -
  let ?n = "(demo_net 1)\<lparr>polls := [[fin_frame[47 := FLG_SYN]]]\<rparr>"
  have "recv_polls (ndev_poll 2) 1 0 ?n ?n" by (rule recv_polls.first_poll [of _ None]) (simp_all add: uart_read_def demo_net_def)
  moreover have "ndev_poll 2 ?n = None" by code_simp
  ultimately have "\<exists>k<10000. \<exists>m. recv_polls (ndev_poll 2) 1 k ?n m \<and> ndev_poll 2 m = None"
    by (intro exI [of _ 0] conjI exI [of _ ?n]) simp_all
  then show ?thesis
    using recv_packet_waits [of "demo_net 1" 1 "demo_sock 1" 2] recv_packet_waits [of ?n 1 "demo_sock 1" 2]
      recv_packet_waits [of "(demo_net 1)\<lparr>socks := [1 \<mapsto> (demo_sock 1)\<lparr>obstruct_flags := 0\<rparr>]\<rparr>" 1 "(demo_sock 1)\<lparr>obstruct_flags := 0\<rparr>" 2]
    by (simp add: demo_net_def demo_sock_def del: ndev_poll.simps)
qed

end
