(* ===== verification/Sysconf.thy ===== *)
theory Sysconf
  imports Strex "HOL-Library.Monad_Syntax"
begin

text \<open>
  The board configuration of \<^verbatim>\<open>core/sysconf.c\<close>: a text in memory, one attribute to a line. \<open>cfg_data\<close> is
  the memory from the start of the text on, also behind its end, since the line reader looks at the
  character behind the last one it takes. A search through a text that does not end in a newline may
  run on for ever, so it is a partial function; \<open>None\<close> is also the use of a null pointer.
\<close>

section \<open>Reading lines\<close>

record sysconfig =
  cfg_data :: "nat \<Rightarrow> char"
  cfg_size :: nat
  offset :: nat

abbreviation (input) LINE_LEN :: nat where "LINE_LEN \<equiv> 512"
abbreviation (input) newline :: char where "newline \<equiv> CHR 0x0A"
abbreviation (input) NUL :: char where "NUL \<equiv> CHR 0x00"

definition syscfg_open :: "(nat \<Rightarrow> char) \<Rightarrow> nat \<Rightarrow> sysconfig" where
  "syscfg_open base len = \<lparr> cfg_data = base, cfg_size = len, offset = 0 \<rparr>"

fun line_loop :: "(nat \<Rightarrow> char) \<Rightarrow> nat \<Rightarrow> nat \<Rightarrow> string" where
  "line_loop base p 0 = []"
| "line_loop base p (Suc n) = (if base p = newline then [] else base p # line_loop base (p + 1) n)"

text \<open>\<^verbatim>\<open>_syscfg_read_line\<close>: the characters stored in \<^verbatim>\<open>line\<close>; their number is the result.\<close>

definition syscfg_read_line :: "sysconfig \<Rightarrow> nat \<Rightarrow> int + string \<times> sysconfig" where
  "syscfg_read_line cfg line_len =
     (let left = (cfg_size cfg + 2 ^ 32 - offset cfg) mod 2 ^ 32
      in if left = 0 then Inl (- ENODATA)
         else let line = line_loop (cfg_data cfg) (offset cfg) (min left (line_len - 1)); i = length line
              in Inr (line, cfg\<lparr>offset := offset cfg + (if cfg_data cfg (offset cfg + i) = newline then i + 1 else i)\<rparr>))"

text \<open>A line as the string functions see it: up to its first zero character.\<close>

definition c_string :: "string \<Rightarrow> string" where
  "c_string line = takeWhile (\<lambda>c. c \<noteq> NUL) line"

text \<open>
  \<^verbatim>\<open>_is_attr_string\<close>: the name is compared with the line at every position. An empty name occurs
  nowhere: the \<^verbatim>\<open>strncmp\<close> of the repository takes the count 0 for no limit and compares the whole strings.
\<close>

fun is_attr_string :: "string \<Rightarrow> string \<Rightarrow> bool" where
  "is_attr_string attr [] = False"
| "is_attr_string attr (c # p) =
     ((attr \<noteq> [] \<and> take (length attr) (c # p) = attr
         \<and> (looking_at (CHR '' '') (drop (length attr) (c # p)) \<or> looking_at (CHR ''='') (drop (length attr) (c # p))))
      \<or> is_attr_string attr p)"

partial_function (option) search_attr :: "sysconfig \<Rightarrow> string \<Rightarrow> (int \<times> sysconfig) option" where
  "search_attr cfg str =
     (case syscfg_read_line cfg LINE_LEN of
        Inl e \<Rightarrow> Some (- ENODATA, cfg)
      | Inr (line, cfg) \<Rightarrow>
          if is_attr_string str (c_string line) then Some (int (length line), cfg) else search_attr cfg str)"

declare search_attr.simps [code]

section \<open>Attributes\<close>

text \<open>
  The value in a line. \<^verbatim>\<open>end\<close> starts at the terminator, which is neither a blank nor a quote, so the two
  loops that should strip the end do nothing, and the text is copied with the terminator.
\<close>

definition attr_value :: "string \<Rightarrow> string option" where
  "attr_value line =
     (case dropWhile (\<lambda>c. c \<noteq> CHR ''='') line of
        [] \<Rightarrow> None
      | _ # start \<Rightarrow>
          let start = dropWhile (\<lambda>c. c = CHR '' '') start
          in Some (if looking_at (CHR 0x22) start then tl start else start))"

definition conf_get_attr :: "sysconfig \<Rightarrow> string \<Rightarrow> (int \<times> string option) option" where
  "conf_get_attr cfg attr = do {
     (ret, cfg) \<leftarrow> search_attr cfg attr;
     if ret < 0 then Some (ret, None)
     else case syscfg_read_line (cfg\<lparr>offset := nat (int (offset cfg) - (ret + 1))\<rparr>) LINE_LEN of
            Inl e \<Rightarrow> None
          | Inr (line, cfg) \<Rightarrow> do { val \<leftarrow> attr_value (c_string line); Some (0, Some val) } }"

definition conf_add_attr :: "string \<Rightarrow> string \<Rightarrow> int" where "conf_add_attr attr val = 0"
definition conf_set_attr :: "string \<Rightarrow> string \<Rightarrow> int" where "conf_set_attr attr val = 0"
definition conf_del_attr :: "string \<Rightarrow> int" where "conf_del_attr attr = 0"

definition GB_SYSCFG_MAGIC :: string where "GB_SYSCFG_MAGIC = ''[board config]''"

definition conf_check :: "sysconfig \<Rightarrow> int" where
  "conf_check cfg =
     (case syscfg_read_line cfg 16 of
        Inl e \<Rightarrow> - EINVAL
      | Inr (line, cfg) \<Rightarrow> if line = [] \<or> c_string line \<noteq> GB_SYSCFG_MAGIC then - EINVAL else 0)"

text \<open>\<^verbatim>\<open>conf_list_attr\<close>: the lines it prints.\<close>

partial_function (option) list_loop :: "sysconfig \<Rightarrow> string list option" where
  "list_loop cfg =
     (case syscfg_read_line cfg LINE_LEN of
        Inl e \<Rightarrow> Some []
      | Inr (line, cfg) \<Rightarrow> do { lines \<leftarrow> list_loop cfg; Some (c_string line # lines) })"

declare list_loop.simps [code]

definition conf_list_attr :: "sysconfig \<Rightarrow> (int \<times> string list) option" where
  "conf_list_attr cfg = do { lines \<leftarrow> list_loop cfg; Some (0, lines) }"

section \<open>The server address\<close>

text \<open>\<^verbatim>\<open>net_get_server_ip\<close> and \<^verbatim>\<open>net_set_server_ip\<close> of \<^verbatim>\<open>driver/net/core/net.c\<close>.\<close>

definition net_get_server_ip :: "sysconfig \<Rightarrow> (int + u8 list) option" where
  "net_get_server_ip cfg = do {
     (ret, val) \<leftarrow> conf_get_attr cfg ''net.server'';
     Some (case val of None \<Rightarrow> Inl ret | Some buff \<Rightarrow> if ret < 0 then Inl ret else str_to_ip buff) }"

definition net_set_server_ip :: "u32 \<Rightarrow> int" where
  "net_set_server_ip ip =
     (let ip_str = ip_to_str ip; ret = conf_set_attr ''net.server'' ip_str
      in if ret < 0 then let _ = conf_add_attr ''net.server'' ip_str in 0 else 0)"

section \<open>Well-formed texts\<close>

definition config_text :: "string list \<Rightarrow> string" where
  "config_text ls = concat (map (\<lambda>l. l @ [newline]) ls)"

definition plain_line :: "string \<Rightarrow> bool" where
  "plain_line l \<longleftrightarrow> newline \<notin> set l \<and> NUL \<notin> set l \<and> length l < 511"

text \<open>\<open>at_line cfg ls\<close>: what is left to read of the text are the lines \<open>ls\<close>.\<close>

definition at_line :: "sysconfig \<Rightarrow> string list \<Rightarrow> bool" where
  "at_line cfg ls \<longleftrightarrow> offset cfg + length (config_text ls) = cfg_size cfg \<and> cfg_size cfg < 2 ^ 31
     \<and> (\<forall>k<length (config_text ls). cfg_data cfg (offset cfg + k) = config_text ls ! k)"

lemma config_text_Cons [simp]: "config_text (l # ls) = l @ newline # config_text ls"
  by (simp add: config_text_def)

lemma line_loop_line:
  assumes "\<forall>k<length l. base (p + k) = l ! k" "newline \<notin> set l" "length l < n" "base (p + length l) = newline"
  shows "line_loop base p n = l"
  using assms
proof (induction l arbitrary: p n)
  case Nil
  then show ?case by (cases n) auto
next
  case (Cons c l)
  then obtain m where n: "n = Suc m" by (cases n) auto
  have "base p = c" "c \<noteq> newline" using Cons.prems(1,2) by (auto dest: spec [of _ 0])
  moreover have "line_loop base (p + 1) m = l"
    using Cons.prems n by (intro Cons.IH) (auto dest: spec [of _ "Suc _"])
  ultimately show ?case by (simp add: n)
qed

lemma read_line_at:
  assumes "at_line cfg (l # ls)" "plain_line l"
  shows "\<exists>cfg'. syscfg_read_line cfg LINE_LEN = Inr (l, cfg') \<and> at_line cfg' ls \<and> offset cfg' = offset cfg + length l + 1
      \<and> cfg_data cfg' = cfg_data cfg \<and> cfg_size cfg' = cfg_size cfg"
proof -
  have sz: "offset cfg + (length l + Suc (length (config_text ls))) = cfg_size cfg" "cfg_size cfg < 2 ^ 31"
    and d: "\<And>k. k < length l + Suc (length (config_text ls)) \<Longrightarrow> cfg_data cfg (offset cfg + k) = (l @ newline # config_text ls) ! k"
    using assms(1) by (auto simp: at_line_def)
  have left: "(cfg_size cfg + 2 ^ 32 - offset cfg) mod 2 ^ 32 = cfg_size cfg - offset cfg" using sz by (simp add: mod_if)
  have nl: "cfg_data cfg (offset cfg + length l) = newline" using d [of "length l"] by (simp add: nth_append)
  have "line_loop (cfg_data cfg) (offset cfg) (min (cfg_size cfg - offset cfg) (512 - 1)) = l"
    using assms(2) sz d nl by (intro line_loop_line) (auto simp: plain_line_def nth_append)
  then have "syscfg_read_line cfg LINE_LEN = Inr (l, cfg\<lparr>offset := offset cfg + length l + 1\<rparr>)"
    unfolding syscfg_read_line_def left Let_def using sz nl by simp
  moreover have "cfg_data cfg (offset cfg + length l + 1 + k) = config_text ls ! k" if "k < length (config_text ls)" for k
    using d [of "length l + 1 + k"] that by (simp add: nth_append add.assoc)
  ultimately show ?thesis using sz by (simp add: at_line_def)
qed

lemma read_line_end: "at_line cfg [] \<Longrightarrow> syscfg_read_line cfg LINE_LEN = Inl (- ENODATA)"
  by (simp add: at_line_def config_text_def syscfg_read_line_def)

lemma plain_c_string: "plain_line l \<Longrightarrow> c_string l = l"
  by (auto simp: plain_line_def c_string_def takeWhile_eq_all_conv)

lemma search_attr_at:
  assumes "at_line cfg ls" "\<forall>l\<in>set ls. plain_line l"
  shows "case find (is_attr_string attr) ls of
      None \<Rightarrow> \<exists>cfg'. search_attr cfg attr = Some (- ENODATA, cfg')
    | Some l \<Rightarrow> \<exists>cfg' post. search_attr cfg attr = Some (int (length l), cfg') \<and> length l + 1 \<le> offset cfg'
        \<and> at_line (cfg'\<lparr>offset := offset cfg' - (length l + 1)\<rparr>) (l # post)"
  using assms
proof (induction ls arbitrary: cfg)
  case Nil
  then show ?case by (subst search_attr.simps) (simp add: read_line_end)
next
  case (Cons l ls)
  then obtain cfg' where c: "syscfg_read_line cfg LINE_LEN = Inr (l, cfg')" "at_line cfg' ls" "offset cfg' = offset cfg + length l + 1"
      "cfg_data cfg' = cfg_data cfg" "cfg_size cfg' = cfg_size cfg"
    using read_line_at [of cfg l ls] by auto
  show ?case
  proof (cases "is_attr_string attr l")
    case True
    moreover have "at_line (cfg'\<lparr>offset := offset cfg' - (length l + 1)\<rparr>) (l # ls)"
      using Cons.prems(1) c by (simp add: at_line_def)
    ultimately show ?thesis
      using c Cons.prems(2) by (subst search_attr.simps) (auto simp: plain_c_string)
  next
    case False
    then have "search_attr cfg attr = search_attr cfg' attr"
      using c Cons.prems(2) by (subst search_attr.simps) (simp add: plain_c_string)
    then show ?thesis using Cons.IH [OF c(2)] Cons.prems(2) False by (cases "find (is_attr_string attr) ls") simp_all
  qed
qed

lemma conf_get_attr_at:
  assumes "at_line cfg ls" "\<forall>l\<in>set ls. plain_line l"
  shows "conf_get_attr cfg attr =
      (case find (is_attr_string attr) ls of
         None \<Rightarrow> Some (- ENODATA, None)
       | Some l \<Rightarrow> map_option (\<lambda>val. (0, Some val)) (attr_value l))"
proof (cases "find (is_attr_string attr) ls")
  case None
  then show ?thesis using search_attr_at [OF assms, of attr] by (auto simp: conf_get_attr_def)
next
  case (Some l)
  then have l: "plain_line l" using assms(2) by (auto simp: find_Some_iff)
  obtain cfg' post where c: "search_attr cfg attr = Some (int (length l), cfg')" "length l + 1 \<le> offset cfg'"
      "at_line (cfg'\<lparr>offset := offset cfg' - (length l + 1)\<rparr>) (l # post)"
    using search_attr_at [OF assms, of attr] Some by auto
  have o: "nat (int (offset cfg') - (int (length l) + 1)) = offset cfg' - (length l + 1)" by linarith
  obtain cfg'' where "syscfg_read_line (cfg'\<lparr>offset := offset cfg' - (length l + 1)\<rparr>) LINE_LEN = Inr (l, cfg'')"
    using read_line_at [OF c(3) l] by blast
  then show ?thesis
    using c(1) o l by (cases "attr_value l") (simp_all add: conf_get_attr_def Some plain_c_string)
qed

section \<open>Properties of the configuration\<close>

text \<open>A line that names an attribute: it has the name somewhere, with a blank or an equals sign behind it.\<close>

definition names_attr :: "string \<Rightarrow> string \<Rightarrow> bool" where
  "names_attr attr l \<longleftrightarrow> attr \<noteq> [] \<and> (\<exists>pre c post. l = pre @ attr @ c # post \<and> (c = CHR '' '' \<or> c = CHR ''=''))"

lemma names_attr_Cons:
  "names_attr attr (x # l) \<longleftrightarrow> attr \<noteq> [] \<and> (\<exists>c post. x # l = attr @ c # post \<and> (c = CHR '' '' \<or> c = CHR ''='')) \<or> names_attr attr l"
proof
  assume "names_attr attr (x # l)"
  then obtain pre c post where p: "attr \<noteq> []" "x # l = pre @ attr @ c # post" "c = CHR '' '' \<or> c = CHR ''=''"
    unfolding names_attr_def by blast
  then show "attr \<noteq> [] \<and> (\<exists>c post. x # l = attr @ c # post \<and> (c = CHR '' '' \<or> c = CHR ''='')) \<or> names_attr attr l"
  proof (cases pre)
    case (Cons y ys)
    then have "l = ys @ attr @ c # post" using p(2) by simp
    then show ?thesis using p(1,3) unfolding names_attr_def by blast
  qed (use p in auto)
next
  assume "attr \<noteq> [] \<and> (\<exists>c post. x # l = attr @ c # post \<and> (c = CHR '' '' \<or> c = CHR ''='')) \<or> names_attr attr l"
  then obtain pre c post where "attr \<noteq> []" "x # l = pre @ attr @ c # post" "c = CHR '' '' \<or> c = CHR ''=''"
    unfolding names_attr_def by (metis append_Cons append_Nil)
  then show "names_attr attr (x # l)" unfolding names_attr_def by blast
qed

lemma prefix_followed:
  "take (length attr) l = attr \<and> (looking_at a (drop (length attr) l) \<or> looking_at b (drop (length attr) l))
    \<longleftrightarrow> (\<exists>c post. l = attr @ c # post \<and> (c = a \<or> c = b))"
proof
  assume "take (length attr) l = attr \<and> (looking_at a (drop (length attr) l) \<or> looking_at b (drop (length attr) l))"
  then show "\<exists>c post. l = attr @ c # post \<and> (c = a \<or> c = b)"
    using append_take_drop_id [of "length attr" l] by (cases "drop (length attr) l") (auto simp: looking_at_def)
qed (auto simp: looking_at_def)

lemma is_attr_string_names: "is_attr_string attr l \<longleftrightarrow> names_attr attr l"
proof (induction l)
  case (Cons x l)
  then show ?case by (simp only: is_attr_string.simps names_attr_Cons prefix_followed)
qed (simp add: names_attr_def)

lemma attr_value_eq:
  assumes "CHR ''='' \<notin> set k" "q = [] \<and> (v = [] \<or> hd v \<noteq> CHR '' '' \<and> hd v \<noteq> CHR 0x22) \<or> q = [CHR 0x22]"
  shows "attr_value (k @ CHR ''='' # replicate b (CHR '' '') @ q @ v) = Some v"
proof -
  let ?r = "replicate b (CHR '' '') @ q @ v"
  have k: "dropWhile (\<lambda>c. c \<noteq> CHR ''='') (k @ CHR ''='' # ?r) = CHR ''='' # ?r" using assms(1) by (subst dropWhile_append2) auto
  have "dropWhile (\<lambda>c. c = CHR '' '') ?r = dropWhile (\<lambda>c. c = CHR '' '') (q @ v)" by (rule dropWhile_append2) simp
  also have "\<dots> = q @ v" using assms(2) by (cases v) auto
  finally have b: "dropWhile (\<lambda>c. c = CHR '' '') ?r = q @ v" .
  show ?thesis using assms(2) unfolding attr_value_def k list.case Let_def b by (cases v) (auto simp: looking_at_def)
qed

text \<open>
  C39: looking up an attribute means finding a line. In a text of plain lines (each ended by a newline,
  shorter than the line buffer, without zero characters), \<^verbatim>\<open>conf_get_attr\<close> takes the first line that
  has the name anywhere in it, before a blank or an equals sign. When the first equals sign of this line is
  followed by blanks, perhaps a quote, and a text, it returns that text, with everything at its end: trailing
  blanks and a closing quote are not cut off. When the line has no equals sign, a null pointer is
  used; without such a line, and for the empty name, the result is \<^verbatim>\<open>-ENODATA\<close>.
\<close>

theorem conf_get_attr_first_line:
  assumes "at_line cfg ls" "\<forall>l\<in>set ls. plain_line l"
  shows "((\<forall>l\<in>set ls. \<not> names_attr attr l) \<longrightarrow> conf_get_attr cfg attr = Some (- ENODATA, None))
    \<and> (\<forall>before l after. ls = before @ l # after \<and> (\<forall>l\<in>set before. \<not> names_attr attr l) \<and> names_attr attr l \<longrightarrow>
         (CHR ''='' \<notin> set l \<longrightarrow> conf_get_attr cfg attr = None)
         \<and> (\<forall>k b q v. l = k @ CHR ''='' # replicate b (CHR '' '') @ q @ v \<and> CHR ''='' \<notin> set k
              \<and> (q = [] \<and> (v = [] \<or> hd v \<noteq> CHR '' '' \<and> hd v \<noteq> CHR 0x22) \<or> q = [CHR 0x22])
              \<longrightarrow> conf_get_attr cfg attr = Some (0, Some v)))"
proof (intro conjI impI allI; (elim conjE)?)
  note get = conf_get_attr_at [OF assms, of attr]
  assume "\<forall>l\<in>set ls. \<not> names_attr attr l"
  then have "find (is_attr_string attr) ls = None" by (simp add: find_None_iff is_attr_string_names)
  then show "conf_get_attr cfg attr = Some (- ENODATA, None)" by (simp add: get)
next
  note get = conf_get_attr_at [OF assms, of attr]
  fix before l after
  assume l: "ls = before @ l # after" "\<forall>l\<in>set before. \<not> names_attr attr l" "names_attr attr l"
  from l(2) have "find (is_attr_string attr) (before @ l # after) = Some l"
    using l(3) by (induction before) (simp_all add: is_attr_string_names)
  then have f: "conf_get_attr cfg attr = map_option (\<lambda>val. (0, Some val)) (attr_value l)" by (simp add: get l(1))
  show "conf_get_attr cfg attr = None" if "CHR ''='' \<notin> set l"
  proof -
    have "dropWhile (\<lambda>c. c \<noteq> CHR ''='') l = []" using that by (auto simp only: dropWhile_eq_Nil_conv)
    then show ?thesis unfolding f attr_value_def by (simp only: list.case option.map)
  qed
  show "conf_get_attr cfg attr = Some (0, Some v)"
    if "l = k @ CHR ''='' # replicate b (CHR '' '') @ q @ v" "CHR ''='' \<notin> set k"
      "q = [] \<and> (v = [] \<or> hd v \<noteq> CHR '' '' \<and> hd v \<noteq> CHR 0x22) \<or> q = [CHR 0x22]" for k b q v
    using attr_value_eq [OF that(2,3), of b] by (simp add: f that(1))
qed

definition demo_line :: string where
  "demo_line = ''net.server = '' @ [CHR 0x22] @ ''10.0.0.2'' @ [CHR 0x22]"

definition demo_config :: sysconfig where
  "demo_config = syscfg_open (\<lambda>k. if k < 24 then (config_text [demo_line]) ! k else NUL) 24"

theorem conf_get_attr_first_line_witness:
  "conf_get_attr demo_config ''net.server'' = Some (0, Some (''10.0.0.2'' @ [CHR 0x22]))"
proof -
  have t: "length (config_text [demo_line]) = 24" by code_simp
  have "at_line demo_config [demo_line]" by (simp only: at_line_def demo_config_def syscfg_open_def sysconfig.simps t) simp
  moreover have "\<forall>l\<in>set [demo_line]. plain_line l" by code_simp
  moreover have "names_attr ''net.server'' demo_line"
    unfolding names_attr_def by (intro conjI exI [of _ "[]"] exI [of _ "CHR '' ''"] exI [of _ "tl (drop 10 demo_line)"]) (simp_all add: demo_line_def)
  moreover have "demo_line = ''net.server '' @ CHR ''='' # replicate 1 (CHR '' '') @ [CHR 0x22] @ (''10.0.0.2'' @ [CHR 0x22])"
    by (simp add: demo_line_def)
  moreover have "CHR ''='' \<notin> set ''net.server ''" by simp
  ultimately show ?thesis
    using conf_get_attr_first_line [of demo_config "[demo_line]" "''net.server''"] by (metis append_Nil empty_iff list.set(1))
qed

end
