(* ===== verification/Ndev.thy ===== *)
theory Ndev
  imports Net Sysconf CString
begin

unbundle bit_operations_syntax

text \<open>
  Network devices, \<^verbatim>\<open>driver/net/core/ndev.c\<close> and \<^verbatim>\<open>mii.c\<close>: registration, configuration from the board
  text, the control calls, and the scan of the management bus. A device is the record of \<open>Net\<close> extended
  by what these files keep of it; \<open>mdio_read\<close> is the hardware's answer to a register read.
\<close>

section \<open>Devices\<close>

datatype ether_speed = ETHER_SPEED_UNKNOWN | ETHER_SPEED_10M_HD | ETHER_SPEED_10M_FD | ETHER_SPEED_100M_HD
  | ETHER_SPEED_100M_FD | ETHER_SPEED_1000M_HD | ETHER_SPEED_1000M_FD

record mii_phy =
  phy_addr :: u8
  ven_id :: u16
  dev_id :: u16

record ndev_stat =
  rx_packets :: u32
  tx_packets :: u32
  tx_errors :: u32
  rx_errors :: u32

record net_device_full = net_device +
  chip_name :: "string option"
  ifx_name :: string
  has_set_mac_addr :: bool
  has_send_packet :: bool
  connected :: bool
  speed :: ether_speed
  stat :: ndev_stat
  phy_mask :: u32
  phy_list :: "mii_phy list"
  mdio :: "(u8 \<Rightarrow> u8 \<Rightarrow> u16) option"

text \<open>\<open>ndevs\<close> is \<^verbatim>\<open>g_ndev_list\<close>.\<close>

record ndev_state =
  ndevs :: "net_device_full list"
  ndev_count :: int

text \<open>\<^verbatim>\<open>ndev_new\<close>: \<open>zeroed\<close> is the device in the memory that \<^verbatim>\<open>zalloc\<close> returns, if it does.\<close>

definition ndev_new :: "net_device_full option \<Rightarrow> ndev_state \<Rightarrow> net_device_full option \<times> ndev_state" where
  "ndev_new zeroed st =
     (case zeroed of
        None \<Rightarrow> (None, st)
      | Some nd \<Rightarrow>
          let name = (case snprintf (\<lambda>_. []) 16 ''eth%d'' (\<lambda>_. word_of_int (ndev_count st)) of None \<Rightarrow> [] | Some (s, _) \<Rightarrow> c_text s)
          in (Some (nd\<lparr>phy_mask := 0xFFFFFFFF, connected := False, speed := ETHER_SPEED_UNKNOWN, ifx_name := name, phy_list := []\<rparr>),
              st\<lparr>ndev_count := ndev_count st + 1\<rparr>))"

definition ndev_del :: "ndev_state \<Rightarrow> ndev_state" where
  "ndev_del st = st\<lparr>ndev_count := ndev_count st - 1\<rparr>"

section \<open>Control\<close>

datatype ndev_arg = ArgIp u32 | ArgMac "u8 list" | ArgLink bool ether_speed | ArgStat ndev_stat

text \<open>
  \<^verbatim>\<open>ndev_ioctl\<close>: a command that reads returns its answer, one that sets changes the device. The argument
  has the type that goes with the command.
\<close>

datatype ndev_cmd = NIOC_GET_IP | NIOC_SET_IP u32 | NIOC_GET_MASK | NIOC_SET_MASK u32 | NIOC_GET_MAC | NIOC_SET_MAC "u8 list"
  | NIOC_GET_LINK | NIOC_GET_STAT | NIOC_OTHER

fun ndev_ioctl :: "net_device_full \<Rightarrow> ndev_cmd \<Rightarrow> int \<times> ndev_arg option \<times> net_device_full" where
  "ndev_ioctl nd NIOC_GET_IP = (0, Some (ArgIp (nd_ip nd)), nd)"
| "ndev_ioctl nd (NIOC_SET_IP ip) = (0, None, nd\<lparr>nd_ip := ip\<rparr>)"
| "ndev_ioctl nd NIOC_GET_MASK = (0, Some (ArgIp (nd_mask nd)), nd)"
| "ndev_ioctl nd (NIOC_SET_MASK m) = (0, None, nd\<lparr>nd_mask := m\<rparr>)"
| "ndev_ioctl nd NIOC_GET_MAC = (0, Some (ArgMac (mac_addr nd)), nd)"
| "ndev_ioctl nd (NIOC_SET_MAC mac) =
     (if \<not> has_set_mac_addr nd then (- EINVAL, None, nd) else (0, None, nd\<lparr>mac_addr := mac\<rparr>))"
| "ndev_ioctl nd NIOC_GET_LINK = (0, Some (ArgLink (connected nd) (speed nd)), nd)"
| "ndev_ioctl nd NIOC_GET_STAT = (0, Some (ArgStat (stat nd)), nd)"
| "ndev_ioctl nd NIOC_OTHER = (- EINVAL, None, nd)"

section \<open>Configuration\<close>

definition ip_word :: "u8 list \<Rightarrow> u32" where
  "ip_word b = ucast (b ! 0) OR push_bit 8 (ucast (b ! 1)) OR push_bit 16 (ucast (b ! 2)) OR push_bit 24 (ucast (b ! 3))"

text \<open>An address attribute of a device: found and well formed, or not.\<close>

definition conf_ip :: "sysconfig \<Rightarrow> string \<Rightarrow> string \<Rightarrow> u32 option option" where
  "conf_ip cfg name fmt = do {
     (ret, val) \<leftarrow> conf_get_attr cfg (fst (sprintf (\<lambda>_. name) fmt (\<lambda>_. 0)));
     Some (case val of None \<Rightarrow> None | Some buff \<Rightarrow> (case str_to_ip buff of Inl e \<Rightarrow> None | Inr b \<Rightarrow> Some (ip_word b))) }"

fun random_bytes :: "nat \<Rightarrow> u32 \<Rightarrow> u8 list" where
  "random_bytes 0 seed = []"
| "random_bytes (Suc k) seed = (let (seed, r) = random seed in ucast r # random_bytes k seed)"

definition ndev_config :: "char \<Rightarrow> sysconfig \<Rightarrow> int \<Rightarrow> net_device_full \<Rightarrow> (int \<times> net_device_full) option" where
  "ndev_config past cfg count nd = do {
     ip \<leftarrow> conf_ip cfg (ifx_name nd) ''net.%s.address'';
     let nd = (case ip of None \<Rightarrow> nd | Some ip \<Rightarrow> snd (snd (ndev_ioctl nd (NIOC_SET_IP ip))));
     m \<leftarrow> conf_ip cfg (ifx_name nd) ''net.%s.netmask'';
     let nd = (case m of None \<Rightarrow> nd | Some m \<Rightarrow> snd (snd (ndev_ioctl nd (NIOC_SET_MASK m))));
     (ret, val) \<leftarrow> conf_get_attr cfg (fst (sprintf (\<lambda>_. ifx_name nd) ''net.%s.mac'' (\<lambda>_. 0)));
     let mac = (case val of
                  None \<Rightarrow> None
                | Some buff \<Rightarrow> (case str_to_mac past buff of Inl e \<Rightarrow> None | Inr mac \<Rightarrow> Some mac));
     let mac = (case mac of Some mac \<Rightarrow> mac | None \<Rightarrow> [0x20, 0x12] @ random_bytes 4 (srandom (word_of_int (count + 1))));
     let (ret, _, nd) = ndev_ioctl nd (NIOC_SET_MAC mac);
     Some (ret, nd) }"

section \<open>The management bus\<close>

abbreviation (input) MII_REG_BMC :: u8 where "MII_REG_BMC \<equiv> 0"
abbreviation (input) MII_REG_ID1 :: u8 where "MII_REG_ID1 \<equiv> 2"
abbreviation (input) MII_REG_ID2 :: u8 where "MII_REG_ID2 \<equiv> 3"

definition mii_phy_probe :: "(u8 \<Rightarrow> u8 \<Rightarrow> u16) \<Rightarrow> u8 \<Rightarrow> mii_phy option" where
  "mii_phy_probe rd addr =
     (let ven = rd addr MII_REG_ID1; dev = rd addr MII_REG_ID2
      in if ven = 0 \<or> dev = 0 then None else Some \<lparr> phy_addr = addr, ven_id = ven, dev_id = dev \<rparr>)"

fun scan_loop :: "(u8 \<Rightarrow> u8 \<Rightarrow> u16) \<Rightarrow> u32 \<Rightarrow> nat list \<Rightarrow> mii_phy list" where
  "scan_loop rd allowed [] = []"
| "scan_loop rd allowed (index # rest) =
     (if \<not> bit allowed index then scan_loop rd allowed rest
      else case mii_phy_probe rd (of_nat index) of
             None \<Rightarrow> scan_loop rd allowed rest
           | Some phy \<Rightarrow> phy # scan_loop rd allowed rest)"

definition mii_bus_scan :: "(u8 \<Rightarrow> u8 \<Rightarrow> u16) \<Rightarrow> net_device_full \<Rightarrow> int \<times> net_device_full" where
  "mii_bus_scan rd nd =
     (let found = scan_loop rd (phy_mask nd) [0..<32]
      in (int (length found), nd\<lparr>phy_list := phy_list nd @ found\<rparr>))"

text \<open>\<^verbatim>\<open>mii_reset_phy\<close>: \<open>bmc k\<close> is what the \<open>k\<close>-th read of the control register returns.\<close>

fun reset_loop :: "(nat \<Rightarrow> u16) \<Rightarrow> nat \<Rightarrow> nat \<Rightarrow> int" where
  "reset_loop bmc k 0 = - ETIMEDOUT"
| "reset_loop bmc k (Suc time_out) = (if \<not> bit (bmc k) 15 then 0 else reset_loop bmc (k + 1) time_out)"

definition mii_reset_phy :: "(nat \<Rightarrow> u16) \<Rightarrow> int" where
  "mii_reset_phy bmc = reset_loop bmc 0 100"

section \<open>Registration\<close>

definition ndev_register :: "char \<Rightarrow> sysconfig \<Rightarrow> net_device_full \<Rightarrow> ndev_state \<Rightarrow> (int \<times> ndev_state) option" where
  "ndev_register past cfg nd st =
     (if \<not> has_send_packet nd \<or> \<not> has_set_mac_addr nd then Some (- EINVAL, st)
      else do {
        (ret, nd) \<leftarrow> ndev_config past cfg (ndev_count st) nd;
        if ret < 0 then Some (ret, st)
        else let (ret, nd) = (case mdio nd of
                                Some rd \<Rightarrow> if phy_mask nd \<noteq> 0 then mii_bus_scan rd nd else (0, nd)
                              | None \<Rightarrow> (0, nd))
             in if ret < 0 then Some (ret, st) else Some (0, st\<lparr>ndevs := ndevs st @ [nd]\<rparr>) })"

section \<open>Configured values\<close>

lemma attr_value_line:
  assumes "CHR ''='' \<notin> set name" "\<not> looking_at (CHR '' '') v" "\<not> looking_at (CHR 0x22) v"
  shows "attr_value (name @ '' = '' @ v) = Some v"
proof -
  have "dropWhile (\<lambda>c. c \<noteq> CHR ''='') (name @ '' = '' @ v) = CHR ''='' # CHR '' '' # v"
    using assms(1) by (subst dropWhile_append2) auto
  moreover have "dropWhile (\<lambda>c. c = CHR '' '') v = v" using assms(2) by (cases v) (auto simp: looking_at_def)
  ultimately show ?thesis using assms(3) by (simp add: attr_value_def)
qed

lemma dec_text_first: "\<exists>c cs. dec_text n = c # cs \<and> isdigit c"
proof -
  obtain ds where ds: "dec_text n = map dchar ds" "ds \<noteq> []" "\<forall>d\<in>set ds. d < 10" using dec_text_digits by blast
  then show ?thesis by (cases ds) auto
qed

lemma ip_text_first: "\<not> looking_at (CHR '' '') (ip_to_str a)" "\<not> looking_at (CHR 0x22) (ip_to_str a)"
  using dec_text_first [of "unat (a AND 0xff)"] by (auto simp: ip_to_str_text looking_at_def isdigit_def)

lemma ip_word_bytes: "ip_word [ucast a, ucast (drop_bit 8 a), ucast (drop_bit 16 a), ucast (drop_bit 24 a)] = a"
  by (simp add: ip_word_def join_bytes32)

lemma mac_text_first: "length mac = 6 \<Longrightarrow> \<not> looking_at (CHR '' '') (mac_text mac) \<and> \<not> looking_at (CHR 0x22) (mac_text mac)"
proof -
  assume "length mac = 6"
  then obtain b rest where m: "mac = b # rest" "rest \<noteq> []" by (cases mac; cases "tl mac") auto
  have "unat b < 256" using unsigned_less [of b, where 'a = nat] by simp
  then have "unat b div 16 \<in> set [0..<16]" by auto
  moreover have "\<forall>d\<in>set [0..<16]. hchar d \<noteq> CHR '' '' \<and> hchar d \<noteq> CHR 0x22" by code_simp
  ultimately have "hchar (unat b div 16) \<noteq> CHR '' ''" "hchar (unat b div 16) \<noteq> CHR 0x22" by blast+
  then show ?thesis using m by (simp add: mac_text_def byte_text_def looking_at_def)
qed

lemma conf_get_line:
  assumes "at_line cfg ls" "\<forall>l\<in>set ls. plain_line l"
    and "find (is_attr_string attr) ls = Some (attr @ '' = '' @ v)"
    and "CHR ''='' \<notin> set attr" "\<not> looking_at (CHR '' '') v" "\<not> looking_at (CHR 0x22) v"
  shows "conf_get_attr cfg attr = Some (0, Some v)"
  using assms(3) attr_value_line [OF assms(4-6)] by (simp add: conf_get_attr_at [OF assms(1,2)])

text \<open>The names of a device's attributes.\<close>

lemma attr_name:
  "fst (sprintf (\<lambda>_. name) ''net.%s.address'' (\<lambda>_. 0)) = ''net.'' @ name @ ''.address''"
  "fst (sprintf (\<lambda>_. name) ''net.%s.netmask'' (\<lambda>_. 0)) = ''net.'' @ name @ ''.netmask''"
  "fst (sprintf (\<lambda>_. name) ''net.%s.mac'' (\<lambda>_. 0)) = ''net.'' @ name @ ''.mac''"
  by (simp_all add: sprintf_def vsprintf_def looking_at_def directive_def vsprintf_conv_def skip_l_def isdigit_def no_style_def put_text_def)

section \<open>Properties of network devices\<close>

text \<open>
  C40: the board text configures the device. When the first lines that name its address, net mask and
  station address are of the form name, blank, equals sign, blank, value, with the values printed as
  \<^verbatim>\<open>ip_to_str\<close> prints them and the station address in the usual notation, then registering a device
  that can send and set its address gives it exactly these values and appends it to the device list.
\<close>

theorem ndev_register_configures:
  assumes "at_line cfg ls" "\<forall>l\<in>set ls. plain_line l" "CHR ''='' \<notin> set (ifx_name nd)" "length mac = 6"
    and "find (is_attr_string (''net.'' @ ifx_name nd @ ''.address'')) ls = Some ((''net.'' @ ifx_name nd @ ''.address'') @ '' = '' @ ip_to_str a)"
    and "find (is_attr_string (''net.'' @ ifx_name nd @ ''.netmask'')) ls = Some ((''net.'' @ ifx_name nd @ ''.netmask'') @ '' = '' @ ip_to_str m)"
    and "find (is_attr_string (''net.'' @ ifx_name nd @ ''.mac'')) ls = Some ((''net.'' @ ifx_name nd @ ''.mac'') @ '' = '' @ mac_text mac)"
    and "has_send_packet nd" "has_set_mac_addr nd"
  shows "\<exists>nd' st'. ndev_register past cfg nd st = Some (0, st') \<and> ndevs st' = ndevs st @ [nd']
      \<and> nd_ip nd' = a \<and> nd_mask nd' = m \<and> mac_addr nd' = mac \<and> ifx_name nd' = ifx_name nd"
proof -
  have ip: "conf_ip cfg (ifx_name nd) ''net.%s.address'' = Some (Some a)" "conf_ip cfg (ifx_name nd) ''net.%s.netmask'' = Some (Some m)"
    using conf_get_line [OF assms(1,2,5)] conf_get_line [OF assms(1,2,6)] assms(3)
    by (simp_all add: conf_ip_def attr_name ip_text_first ip_text_value ip_word_bytes)
  have mac: "conf_get_attr cfg (''net.'' @ ifx_name nd @ ''.mac'') = Some (0, Some (mac_text mac))"
    using conf_get_line [OF assms(1,2,7)] assms(3) mac_text_first [OF assms(4)] by simp
  have "ndev_config past cfg (ndev_count st) nd = Some (0, nd\<lparr>nd_ip := a, nd_mask := m, mac_addr := mac\<rparr>)"
    using ip mac assms(9) by (simp add: ndev_config_def attr_name str_to_mac_text [OF assms(4)])
  then show ?thesis
    using assms(8,9) by (auto simp: ndev_register_def mii_bus_scan_def Let_def split: option.splits)
qed

lemma at_line_open:
  "length (config_text ls) < 2 ^ 31 \<Longrightarrow>
     at_line (syscfg_open (\<lambda>k. if k < length (config_text ls) then config_text ls ! k else c) (length (config_text ls))) ls"
  by (simp add: at_line_def syscfg_open_def)

text \<open>A board text for the first device.\<close>

definition demo_board :: "string list" where
  "demo_board = [''net.eth0.address = '' @ ip_to_str 0x0101A8C0, ''net.eth0.netmask = '' @ ip_to_str 0x00FFFFFF,
     ''net.eth0.mac = '' @ mac_text [2, 0x1A, 0, 0xB0, 0xC, 0xFF]]"

definition demo_device :: net_device_full where
  "demo_device = \<lparr> nd_ip = 0, nd_mask = 0, mac_addr = [0, 0, 0, 0, 0, 0], send_packet = (\<lambda>_. 0), chip_name = None, ifx_name = ''eth0'',
     has_set_mac_addr = True, has_send_packet = True, connected = False, speed = ETHER_SPEED_UNKNOWN,
     stat = \<lparr> rx_packets = 0, tx_packets = 0, tx_errors = 0, rx_errors = 0 \<rparr>, phy_mask = 0, phy_list = [], mdio = None \<rparr>"

theorem ndev_register_configures_witness:
  "\<exists>cfg nd' st'. ndev_register NUL cfg demo_device \<lparr> ndevs = [], ndev_count = 1 \<rparr> = Some (0, st') \<and> ndevs st' = [nd']
     \<and> nd_ip nd' = 0x0101A8C0 \<and> nd_mask nd' = 0x00FFFFFF \<and> mac_addr nd' = [2, 0x1A, 0, 0xB0, 0xC, 0xFF]"
proof -
  have "length (config_text demo_board) < 200" by code_simp
  then have cfg: "at_line (syscfg_open (\<lambda>k. if k < length (config_text demo_board) then config_text demo_board ! k else NUL)
      (length (config_text demo_board))) demo_board" (is "at_line ?cfg _")
    by (intro at_line_open) simp
  have plain: "\<forall>l\<in>set demo_board. plain_line l" by code_simp
  have nd: "CHR ''='' \<notin> set (ifx_name demo_device)" "length [2, 0x1A, 0, 0xB0, 0xC, 0xFF :: u8] = 6" "has_send_packet demo_device" "has_set_mac_addr demo_device"
    by (simp_all add: demo_device_def)
  have finds: "find (is_attr_string (''net.'' @ ifx_name demo_device @ ''.address'')) demo_board
        = Some ((''net.'' @ ifx_name demo_device @ ''.address'') @ '' = '' @ ip_to_str 0x0101A8C0)"
    "find (is_attr_string (''net.'' @ ifx_name demo_device @ ''.netmask'')) demo_board
        = Some ((''net.'' @ ifx_name demo_device @ ''.netmask'') @ '' = '' @ ip_to_str 0x00FFFFFF)"
    "find (is_attr_string (''net.'' @ ifx_name demo_device @ ''.mac'')) demo_board
        = Some ((''net.'' @ ifx_name demo_device @ ''.mac'') @ '' = '' @ mac_text [2, 0x1A, 0, 0xB0, 0xC, 0xFF])"
    by code_simp+
  show ?thesis
    using ndev_register_configures [OF cfg plain nd(1,2) finds nd(3,4), of NUL "\<lparr> ndevs = [], ndev_count = 1 \<rparr>"] by auto
qed

end
