(* ===== verification/Loader.thy ===== *)
theory Loader
  imports Image Stdio
begin

text \<open>
  What the loaders over the serial line share: the line itself (\<^verbatim>\<open>driver/uart/uart.c\<close>), the options of
  \<^verbatim>\<open>include/loader.h\<close>, and the storing of a received block in a flash device. The calls of the file layer
  that the loaders use for the device are a parameter, the record \<open>file_calls\<close>, over a state \<open>'d\<close> of its own.
\<close>

section \<open>The serial line\<close>

text \<open>
  What arrives on the line: \<open>Some b\<close> is a byte, \<open>None\<close> a pause long enough for a time-out. A call that
  waits for more than the list holds does not return.
\<close>

type_synonym uart_line = "u8 option list"

fun uart_recv_byte :: "uart_line \<Rightarrow> (u8 \<times> uart_line) option" where
  "uart_recv_byte [] = None"
| "uart_recv_byte (None # l) = uart_recv_byte l"
| "uart_recv_byte (Some b # l) = Some (b, l)"

text \<open>\<^verbatim>\<open>uart_recv_byte_timeout\<close>: the byte, or \<open>None\<close> for the time-out.\<close>

fun uart_recv_byte_timeout :: "uart_line \<Rightarrow> (u8 option \<times> uart_line) option" where
  "uart_recv_byte_timeout [] = None"
| "uart_recv_byte_timeout (x # l) = Some (x, l)"

text \<open>The bytes that arrive, with the pauses left out.\<close>

definition arriving :: "uart_line \<Rightarrow> u8 list" where
  "arriving l = List.map_filter (\<lambda>x. x) l"

lemma arriving_simps [simp]:
  "arriving [] = []" "arriving (None # l) = arriving l" "arriving (Some b # l) = b # arriving l"
  by (simp_all add: arriving_def List.map_filter_def)

lemma arriving_append [simp]: "arriving (l @ l') = arriving l @ arriving l'"
  by (simp add: arriving_def List.map_filter_def)

lemma arriving_map_Some [simp]: "arriving (map Some bs) = bs"
  by (induction bs) simp_all

lemma uart_recv_byte_arriving:
  "arriving l = b # bs \<Longrightarrow> \<exists>l'. uart_recv_byte l = Some (b, l') \<and> arriving l' = bs"
  by (induction l rule: uart_recv_byte.induct) auto

section \<open>Flash devices\<close>

datatype OOB_MODE = FLASH_OOB_PLACE | MTD_OPS_AUTO_OOB | FLASH_OOB_RAW

record 'd file_calls =
  f_open :: "string \<Rightarrow> 'd \<Rightarrow> int \<times> 'd"
  f_ioctl :: "int \<Rightarrow> OOB_MODE \<Rightarrow> 'd \<Rightarrow> int \<times> 'd"
  f_write :: "int \<Rightarrow> u8 list \<Rightarrow> 'd \<Rightarrow> int \<times> 'd"
  f_read :: "int \<Rightarrow> nat \<Rightarrow> 'd \<Rightarrow> int \<times> u8 list \<times> 'd"
  f_close :: "int \<Rightarrow> 'd \<Rightarrow> 'd"

text \<open>A device that accepts and drops everything.\<close>

definition null_files :: "unit file_calls" where
  "null_files = \<lparr> f_open = (\<lambda>_ d. (3, d)), f_ioctl = (\<lambda>_ _ d. (0, d)), f_write = (\<lambda>_ bs d. (int (length bs), d)),
     f_read = (\<lambda>_ _ d. (0, [], d)), f_close = (\<lambda>_ d. d) \<rparr>"

definition oob_mode :: "image_t \<Rightarrow> OOB_MODE" where
  "oob_mode img =
     (case img of IMG_YAFFS1 \<Rightarrow> FLASH_OOB_RAW | IMG_YAFFS2 \<Rightarrow> MTD_OPS_AUTO_OOB | _ \<Rightarrow> FLASH_OOB_PLACE)"

text \<open>
  A received block on its way into the device: the first block decides the type of the image and with
  it the mode of the device. \<open>data\<close> is the memory from the start of the block on.
\<close>

definition store_block ::
  "'d file_calls \<Rightarrow> int \<Rightarrow> (nat \<Rightarrow> u8) \<Rightarrow> nat \<Rightarrow> image_t \<Rightarrow> 'd \<Rightarrow> int \<times> image_t \<times> 'd" where
  "store_block fc fd data count img d =
     (let (ret, img, d) =
        (if img = IMG_MAX
         then let img = image_type_detect data; (ret, d) = f_ioctl fc fd (oob_mode img) d in (ret, img, d)
         else (0, img, d))
      in if ret < 0 then (ret, img, d)
         else let (ret, d) = f_write fc fd (map data [0..<count]) d in (ret, img, d))"

section \<open>Options and memory\<close>

text \<open>The options a load is started with; what it fills in is part of its state.\<close>

record loader_opt =
  load_addr :: nat
  dst :: "string option"

record 'd load_state =
  uart :: uart_line
  sent :: "u8 list"
  mem :: "nat \<Rightarrow> u8"
  dev :: 'd
  file_name :: "u8 list"
  load_size :: int
  jump_addr :: nat

definition uart_send_byte :: "u8 \<Rightarrow> ('d, 'e) load_state_scheme \<Rightarrow> ('d, 'e) load_state_scheme" where
  "uart_send_byte b s = s\<lparr>sent := sent s @ [b]\<rparr>"

definition go_set_addr :: "nat \<Rightarrow> ('d, 'e) load_state_scheme \<Rightarrow> ('d, 'e) load_state_scheme" where
  "go_set_addr a s = s\<lparr>jump_addr := a\<rparr>"

fun store_bytes :: "nat \<Rightarrow> u8 list \<Rightarrow> (nat \<Rightarrow> u8) \<Rightarrow> nat \<Rightarrow> u8" where
  "store_bytes a [] m = m"
| "store_bytes a (b # bs) m = store_bytes (a + 1) bs (m(a := b))"

lemma store_bytes_apply:
  "store_bytes a bs m p = (if a \<le> p \<and> p < a + length bs then bs ! (p - a) else m p)"
  by (induction bs arbitrary: a m) (auto simp: nth_Cons')

lemma store_bytes_append: "store_bytes a (bs @ cs) m = store_bytes (a + length bs) cs (store_bytes a bs m)"
  by (induction bs arbitrary: a m) (simp_all add: ac_simps)

text \<open>Parts of a memory, and the memory from a position on.\<close>

definition window :: "(nat \<Rightarrow> u8) \<Rightarrow> nat \<Rightarrow> nat \<Rightarrow> u8 list" where
  "window m a n = map (\<lambda>i. m (a + i)) [0..<n]"

definition at_pos :: "nat \<Rightarrow> (nat \<Rightarrow> u8) \<Rightarrow> nat \<Rightarrow> u8" where
  "at_pos p m = (\<lambda>i. m (p + i))"

definition put_pos :: "nat \<Rightarrow> (nat \<Rightarrow> u8) \<Rightarrow> (nat \<Rightarrow> u8) \<Rightarrow> nat \<Rightarrow> u8" where
  "put_pos p d m = (\<lambda>i. if i < p then m i else d (i - p))"

lemma put_at: "put_pos p (store_bytes 0 ds (at_pos p m)) m = store_bytes p ds m"
  by (auto simp: put_pos_def at_pos_def store_bytes_apply fun_eq_iff)

lemma store_window: "store_bytes a (window m a n) m = m"
  by (auto simp: store_bytes_apply window_def fun_eq_iff)

lemma length_window [simp]: "length (window m a n) = n"
  by (simp add: window_def)

lemma window_at_pos [simp]: "window (at_pos p m) a n = window m (p + a) n"
  by (simp add: window_def at_pos_def add.assoc)

lemma window_append: "window m a n @ window m (a + n) k = window m a (n + k)"
  by (rule nth_equalityI) (auto simp: window_def nth_append)

lemma store_windows: "store_bytes (a + n) (window d (p + n) j) (store_bytes a (window d p n) m) = store_bytes a (window d p (n + j)) m"
  using store_bytes_append [of a "window d p n" "window d (p + n) j" m] by (simp add: window_append)

lemma window_store: "length ds = n \<Longrightarrow> window (store_bytes 0 ds m) 0 n = ds"
  by (rule nth_equalityI) (auto simp: window_def store_bytes_apply)

lemma wrap32_add: "wrap32 (wrap32 a + b) = wrap32 (a + b)"
  by (simp add: wrap32_def mod_simps algebra_simps)

end
