(* ===== verification/Kermit.thy ===== *)
theory Kermit
  imports Loader
begin

unbundle bit_operations_syntax

text \<open>
  The Kermit receiver, \<^verbatim>\<open>lib/uart/kermit.c\<close>. \<open>buff\<close> is the memory from the packet buffer on: it keeps the
  bytes of earlier packets, and a length that points behind the packet reads them. A packet that does not
  fit the buffer has no defined outcome, \<open>None\<close>, as has a line that falls silent. \<open>data\<close> is the address of
  the local buffer that the code uses when no load address is given.
\<close>

section \<open>Packets\<close>

abbreviation (input) MARK_START :: u8 where "MARK_START \<equiv> 1"
abbreviation (input) KERM_TYPE_DATA :: u8 where "KERM_TYPE_DATA \<equiv> 0x44"
abbreviation (input) KERM_TYPE_ACK :: u8 where "KERM_TYPE_ACK \<equiv> 0x59"
abbreviation (input) KERM_TYPE_NACK :: u8 where "KERM_TYPE_NACK \<equiv> 0x4e"
abbreviation (input) KERM_TYPE_HEAD :: u8 where "KERM_TYPE_HEAD \<equiv> 0x46"
abbreviation (input) KERM_TYPE_BREAK :: u8 where "KERM_TYPE_BREAK \<equiv> 0x42"
abbreviation (input) KERM_KEY_SPACE :: nat where "KERM_KEY_SPACE \<equiv> 0x20"
abbreviation (input) KERM_KEY_SHARP :: u8 where "KERM_KEY_SHARP \<equiv> 0x23"
abbreviation (input) KERM_KEY_TERM :: u8 where "KERM_KEY_TERM \<equiv> 0x0d"
abbreviation (input) KERM_BUF_LEN :: nat where "KERM_BUF_LEN \<equiv> 128"

definition kermit_check :: "nat \<Rightarrow> nat" where
  "kermit_check checksum = KERM_KEY_SPACE + (0x3f AND (checksum + (0x03 AND drop_bit 6 checksum)))"

text \<open>The bytes \<^verbatim>\<open>send_ack_packet\<close> puts on the line.\<close>

definition ack_packet :: "int \<Rightarrow> u8 \<Rightarrow> u8 list" where
  "ack_packet seq ty =
     (let body = takeWhile (\<lambda>b. b \<noteq> 0) [0x23, word_of_int (seq + 0x20), ty];
          checksum = sum_list (map unat body)
      in takeWhile (\<lambda>b. b \<noteq> 0) (MARK_START # body @ [of_nat (kermit_check checksum), KERM_KEY_TERM]))"

definition send_ack_packet :: "int \<Rightarrow> u8 \<Rightarrow> ('d, 'e) load_state_scheme \<Rightarrow> ('d, 'e) load_state_scheme" where
  "send_ack_packet seq ty s = fold uart_send_byte (ack_packet seq ty) s"

text \<open>The wait for the start of a packet, and the packet up to its terminator.\<close>

fun recv_mark :: "uart_line \<Rightarrow> uart_line option" where
  "recv_mark [] = None"
| "recv_mark (None # l) = recv_mark l"
| "recv_mark (Some b # l) = (if b = MARK_START then Some l else recv_mark l)"

fun recv_packet :: "(nat \<Rightarrow> u8) \<Rightarrow> nat \<Rightarrow> uart_line \<Rightarrow> ((nat \<Rightarrow> u8) \<times> uart_line) option" where
  "recv_packet buff index [] = None"
| "recv_packet buff index (None # l) = recv_packet buff index l"
| "recv_packet buff index (Some b # l) =
     (if index \<ge> KERM_BUF_LEN then None
      else if b = KERM_KEY_TERM then Some (buff(index := b), l)
      else recv_packet (buff(index := b)) (index + 1) l)"

definition decode_char :: "u8 \<Rightarrow> u8" where
  "decode_char c =
     (if 0x40 = c AND 0x60 then c AND NOT 0x40
      else if 0x3f = c AND 0x7f then c OR 0x40
      else c)"

text \<open>The field of a packet, decoded: the characters, the index behind it and the checksum so far.\<close>

function decode_field :: "(nat \<Rightarrow> u8) \<Rightarrow> nat \<Rightarrow> int \<Rightarrow> nat \<Rightarrow> u8 list \<times> nat \<times> nat" where
  "decode_field buff index len checksum =
     (if len > 1
      then let c = buff index
           in if c = KERM_KEY_SHARP
              then let c' = buff (index + 1);
                       (cs, r) = decode_field buff (index + 2) (len - 2) (checksum + unat c + unat c')
                   in (decode_char c' # cs, r)
              else let (cs, r) = decode_field buff (index + 1) (len - 1) (checksum + unat c) in (c # cs, r)
      else ([], index, checksum))"
  by pat_completeness auto
termination by (relation "measure (\<lambda>(buff, index, len, checksum). nat len)") auto

function skip_field :: "(nat \<Rightarrow> u8) \<Rightarrow> nat \<Rightarrow> int \<Rightarrow> nat \<Rightarrow> nat \<times> nat" where
  "skip_field buff index len checksum =
     (if len > 1 then skip_field buff (index + 1) (len - 1) (checksum + unat (buff index)) else (index, checksum))"
  by pat_completeness auto
termination by (relation "measure (\<lambda>(buff, index, len, checksum). nat len)") auto

declare decode_field.simps [simp del] skip_field.simps [simp del]

section \<open>The receiver\<close>

record 'd kermit = "'d load_state" +
  buff :: "nat \<Rightarrow> u8"
  curr_addr :: nat
  real_seq :: int
  pkt_type :: u8
  fd :: int
  img_type :: image_t

text \<open>
  A packet with the expected number: its field is stored before its checksum is looked at. \<open>Inl\<close> is the
  way out through \<^verbatim>\<open>error\<close>, \<open>Inr\<close> the next round.
\<close>

definition kermit_accept :: "'d file_calls \<Rightarrow> loader_opt \<Rightarrow> int \<Rightarrow> int \<Rightarrow> nat \<Rightarrow> 'd kermit \<Rightarrow> 'd kermit + 'd kermit" where
  "kermit_accept fc opt len seq checksum k =
     (let k = k\<lparr>real_seq := (real_seq k + 1) mod 64\<rparr>;
          ty = buff k 2;
          k = k\<lparr>pkt_type := ty\<rparr>;
          checksum = checksum + unat ty;
          len = (if len \<noteq> 0 then len - 2 else len);
          (count, index, checksum, k) =
            (if ty = KERM_TYPE_HEAD
             then let (cs, index, checksum) = decode_field (buff k) 3 len checksum
                  in (0, index, checksum, k\<lparr>file_name := cs\<rparr>)
             else if ty = KERM_TYPE_DATA
             then let (cs, index, checksum) = decode_field (buff k) 3 len checksum
                  in (length cs, index, checksum, k\<lparr>mem := store_bytes (curr_addr k) cs (mem k)\<rparr>)
             else let (index, checksum) = skip_field (buff k) 3 len checksum in (0, index, checksum, k))
      in if unat (buff k index) \<noteq> kermit_check checksum
         then Inr (send_ack_packet (real_seq k) KERM_TYPE_NACK k)
         else if buff k (index + 1) \<noteq> KERM_KEY_TERM then Inl k
         else let (ret, k) =
                (if dst opt = None then (0, k)
                 else let (ret, img, d) = store_block fc (fd k) (\<lambda>i. mem k (curr_addr k + i)) count (img_type k) (dev k)
                      in (ret, k\<lparr>img_type := img, dev := d\<rparr>))
              in if ret < 0 then Inl k
                 else let k = (if load_addr opt \<noteq> NULL then k\<lparr>curr_addr := curr_addr k + count\<rparr> else k);
                          k = k\<lparr>load_size := wrap32 (load_size k + int count)\<rparr>
                      in Inr (send_ack_packet seq KERM_TYPE_ACK k))"

definition kermit_round :: "'d file_calls \<Rightarrow> loader_opt \<Rightarrow> 'd kermit \<Rightarrow> ('d kermit + 'd kermit) option" where
  "kermit_round fc opt k =
     (case recv_mark (uart k) of
        None \<Rightarrow> None
      | Some l \<Rightarrow>
          (case recv_packet (buff k) 0 l of
             None \<Rightarrow> None
           | Some (b, l) \<Rightarrow>
               let k = k\<lparr>uart := l, buff := b\<rparr>;
                   len = int (unat (b 0)) - int KERM_KEY_SPACE;
                   seq = int (unat (b 1)) - int KERM_KEY_SPACE;
                   checksum = unat (b 0) + unat (b 1)
               in Some (if seq \<noteq> real_seq k then Inr (send_ack_packet (real_seq k) KERM_TYPE_NACK k)
                        else kermit_accept fc opt len seq checksum k)))"

partial_function (option) kermit_loop :: "'d file_calls \<Rightarrow> loader_opt \<Rightarrow> 'd kermit \<Rightarrow> (int \<times> 'd kermit) option" where
  "kermit_loop fc opt k =
     (case kermit_round fc opt k of
        None \<Rightarrow> None
      | Some (Inl k) \<Rightarrow> Some (- EFAULT, if dst opt = None then k else k\<lparr>dev := f_close fc (fd k) (dev k)\<rparr>)
      | Some (Inr k) \<Rightarrow> if pkt_type k \<noteq> KERM_TYPE_BREAK then kermit_loop fc opt k else Some (load_size k, k))"

declare kermit_loop.simps [code]

definition kermit_load :: "'d file_calls \<Rightarrow> loader_opt \<Rightarrow> (nat \<Rightarrow> u8) \<Rightarrow> nat \<Rightarrow> 'd load_state \<Rightarrow> (int \<times> 'd kermit) option" where
  "kermit_load fc opt stack data s =
     (let k = load_state.extend s \<lparr>buff = stack, curr_addr = (if load_addr opt = NULL then data else load_addr opt),
                real_seq = 0, pkt_type = KERM_TYPE_BREAK, fd = - 1, img_type = IMG_MAX\<rparr>;
          k = go_set_addr (curr_addr k) k;
          k = k\<lparr>load_size := 0\<rparr>
      in case dst opt of
           None \<Rightarrow> kermit_loop fc opt k
         | Some path \<Rightarrow>
             let (ret, d) = f_open fc path (dev k); k = k\<lparr>fd := ret, dev := d\<rparr>
             in if ret < 0 then Some (ret, k) else kermit_loop fc opt k)"

section \<open>A sender\<close>

text \<open>
  What a Kermit sender puts on the line: control characters and the quoting character itself are
  quoted, then come length, number, type, field, check and terminator.
\<close>

fun quote :: "u8 list \<Rightarrow> u8 list" where
  "quote [] = []"
| "quote (c # cs) =
     (if c AND 0x60 = 0 \<or> c AND 0x7f = 0x7f then KERM_KEY_SHARP # (c XOR 0x40) # quote cs
      else if c = KERM_KEY_SHARP then KERM_KEY_SHARP # c # quote cs
      else c # quote cs)"

definition kermit_body :: "nat \<Rightarrow> u8 \<Rightarrow> u8 list \<Rightarrow> u8 list" where
  "kermit_body seq ty cs = of_nat (length (quote cs) + 3 + KERM_KEY_SPACE) # of_nat (seq mod 64 + KERM_KEY_SPACE) # ty # quote cs"

definition kermit_packet :: "nat \<Rightarrow> u8 \<Rightarrow> u8 list \<Rightarrow> u8 list" where
  "kermit_packet seq ty cs =
     MARK_START # kermit_body seq ty cs @ [of_nat (kermit_check (sum_list (map unat (kermit_body seq ty cs)))), KERM_KEY_TERM]"

lemma decode_quoted:
  "c AND 0x60 = 0 \<or> c AND 0x7f = 0x7f \<Longrightarrow> decode_char (c XOR 0x40) = c"
proof -
  have "\<forall>c::u8 \<in> set (map of_nat [0..<256]). c AND 0x60 = 0 \<or> c AND 0x7f = 0x7f \<longrightarrow> decode_char (c XOR 0x40) = c"
    by code_simp
  moreover have "c \<in> set (map of_nat [0..<256])"
    using unsigned_less [where 'a = nat, of c] by (auto simp: image_iff intro!: bexI [of _ "unat c"])
  ultimately show "c AND 0x60 = 0 \<or> c AND 0x7f = 0x7f \<Longrightarrow> decode_char (c XOR 0x40) = c" by blast
qed

lemma quote_no_term: "KERM_KEY_TERM \<notin> set (quote cs)"
proof (induction cs)
  case (Cons c cs)
  have "c XOR 0x40 \<noteq> 0x0d" if "c AND 0x60 = 0 \<or> c AND 0x7f = 0x7f"
  proof
    assume "c XOR 0x40 = 0x0d"
    then have "c = 0x0d XOR 0x40" by (metis xor.assoc xor.right_neutral xor_self_eq)
    with that show False by simp
  qed
  with Cons show ?case by auto
qed simp

lemma decode_field_quote:
  assumes "\<forall>i<length (quote cs). b (index + i) = quote cs ! i"
  shows "decode_field b index (int (length (quote cs)) + 1) ck
     = (cs, index + length (quote cs), ck + sum_list (map unat (quote cs)))"
  using assms
proof (induction cs arbitrary: index ck)
  case Nil
  then show ?case by (simp add: decode_field.simps)
next
  case (Cons c cs)
  show ?case
  proof (cases "c AND 0x60 = 0 \<or> c AND 0x7f = 0x7f \<or> c = KERM_KEY_SHARP")
    case True
    then obtain d where q: "quote (c # cs) = KERM_KEY_SHARP # d # quote cs" and d: "decode_char d = c"
      by (auto simp: decode_quoted) (auto simp: decode_char_def)
    from Cons.prems [unfolded q] have "b index = KERM_KEY_SHARP" "b (index + 1) = d" "\<forall>i<length (quote cs). b (index + 2 + i) = quote cs ! i"
      by (auto dest: spec [of _ 0] spec [of _ "Suc 0"] spec [of _ "Suc (Suc _)"])
    with Cons.IH [of "index + 2" "ck + unat KERM_KEY_SHARP + unat d"] show ?thesis
      unfolding q by (subst decode_field.simps) (simp add: d ac_simps)
  next
    case False
    then have q: "quote (c # cs) = c # quote cs" "c \<noteq> KERM_KEY_SHARP" by auto
    from Cons.prems [unfolded q(1)] have "b index = c" "\<forall>i<length (quote cs). b (index + 1 + i) = quote cs ! i"
      by (auto dest: spec [of _ 0] spec [of _ "Suc _"])
    with Cons.IH [of "index + 1" "ck + unat c"] q(2) show ?thesis
      unfolding q(1) by (subst decode_field.simps) (simp add: ac_simps)
  qed
qed

lemma skip_field_sum:
  assumes "\<forall>i<length cs. b (index + i) = cs ! i"
  shows "skip_field b index (int (length cs) + 1) ck = (index + length cs, ck + sum_list (map unat cs))"
  using assms
proof (induction cs arbitrary: index ck)
  case (Cons c cs)
  then have "b index = c" "\<forall>i<length cs. b (index + 1 + i) = cs ! i" by (auto dest: spec [of _ 0] spec [of _ "Suc _"])
  with Cons.IH [of "index + 1" "ck + unat c"] show ?case
    by (subst skip_field.simps) (simp add: ac_simps)
qed (simp add: skip_field.simps)

lemma recv_mark_arriving: "arriving l = MARK_START # bs \<Longrightarrow> \<exists>l'. recv_mark l = Some l' \<and> arriving l' = bs"
  by (induction l rule: recv_mark.induct) auto

lemma recv_packet_arriving:
  assumes "arriving l = ps @ KERM_KEY_TERM # bs" "KERM_KEY_TERM \<notin> set ps" "index + length ps < KERM_BUF_LEN"
  shows "\<exists>l'. recv_packet b index l = Some (store_bytes index (ps @ [KERM_KEY_TERM]) b, l') \<and> arriving l' = bs"
  using assms by (induction b index l arbitrary: ps rule: recv_packet.induct) (auto simp: Cons_eq_append_conv)


lemma kermit_body_facts:
  assumes "length (quote cs) \<le> 91" "ty \<noteq> KERM_KEY_TERM"
  shows "KERM_KEY_TERM \<notin> set (kermit_body seq ty cs)" "length (kermit_body seq ty cs) = length (quote cs) + 3"
    "unat (kermit_body seq ty cs ! 0) = length (quote cs) + 35" "unat (kermit_body seq ty cs ! 1) = seq mod 64 + 32"
proof -
  have "(of_nat n :: u8) \<noteq> 0x0d" if "32 \<le> n" "n < 256" for n
    using that by (auto simp: word_eq_iff_unsigned unsigned_of_nat take_bit_eq_mod dest: arg_cong [where f = unat])
  moreover have "seq mod 64 < 64" by simp
  ultimately show "KERM_KEY_TERM \<notin> set (kermit_body seq ty cs)"
    using assms quote_no_term [of cs] unfolding kermit_body_def by (auto simp del: of_nat_add of_nat_numeral)
qed (use assms in \<open>auto simp: kermit_body_def unat_of_nat simp del: of_nat_add\<close>)

lemma kermit_check_bound: "32 \<le> kermit_check n" "kermit_check n < 96"
proof -
  have "0x3f AND (n + (0x03 AND drop_bit 6 n)) < 64"
    using take_bit_nat_less_exp [of 6 "n + (0x03 AND drop_bit 6 n)"] by (simp add: take_bit_eq_mask mask_eq_exp_minus_1 and.commute)
  then show "32 \<le> kermit_check n" "kermit_check n < 96" by (simp_all add: kermit_check_def)
qed

section \<open>Reception\<close>

lemma send_ack_packet_eq: "send_ack_packet seq ty s = s\<lparr>sent := sent s @ ack_packet seq ty\<rparr>"
proof -
  have "fold uart_send_byte bs s = s\<lparr>sent := sent s @ bs\<rparr>" for bs :: "u8 list" and s :: "('a, 'b) load_state_scheme"
    by (induction bs arbitrary: s) (simp_all add: uart_send_byte_def)
  then show ?thesis by (simp add: send_ack_packet_def)
qed

text \<open>What a good packet does to the state.\<close>

definition received :: "loader_opt \<Rightarrow> nat \<Rightarrow> u8 \<Rightarrow> u8 list \<Rightarrow> 'd kermit \<Rightarrow> 'd kermit" where
  "received opt seq ty cs k =
     (let stored = (if ty = KERM_TYPE_DATA then cs else [])
      in k\<lparr>sent := sent k @ ack_packet (int (seq mod 64)) KERM_TYPE_ACK, mem := store_bytes (curr_addr k) stored (mem k),
           file_name := (if ty = KERM_TYPE_HEAD then cs else file_name k), load_size := wrap32 (load_size k + int (length stored)),
           curr_addr := (if load_addr opt \<noteq> NULL then curr_addr k + length stored else curr_addr k),
           real_seq := int (Suc seq mod 64), pkt_type := ty\<rparr>)"

text \<open>The buffer holds a packet: its header, its field, the check byte \<open>c\<close> and the terminator.\<close>

definition in_buffer :: "nat \<Rightarrow> u8 \<Rightarrow> u8 list \<Rightarrow> u8 \<Rightarrow> (nat \<Rightarrow> u8) \<Rightarrow> bool" where
  "in_buffer seq ty cs c b \<longleftrightarrow> b 2 = ty \<and> (\<forall>i<length (quote cs). b (3 + i) = quote cs ! i)
     \<and> b (3 + length (quote cs)) = c \<and> b (4 + length (quote cs)) = KERM_KEY_TERM
     \<and> unat (b 0) + unat (b 1) + unat ty + sum_list (map unat (quote cs)) = sum_list (map unat (kermit_body seq ty cs))"

lemma kermit_round_body:
  assumes line: "arriving (uart k) = MARK_START # kermit_body seq ty cs @ [c, KERM_KEY_TERM] @ bs"
    and len: "length (quote cs) \<le> 91" and ty: "ty \<noteq> KERM_KEY_TERM" and c: "c \<noteq> KERM_KEY_TERM"
  shows "\<exists>l b. arriving l = bs \<and> in_buffer seq ty cs c b \<and> kermit_round fc opt k = Some
     (if int (seq mod 64) \<noteq> real_seq k
      then Inr (k\<lparr>uart := l, buff := b, sent := sent k @ ack_packet (real_seq k) KERM_TYPE_NACK\<rparr>)
      else kermit_accept fc opt (int (length (quote cs)) + 3) (int (seq mod 64)) (unat (b 0) + unat (b 1)) (k\<lparr>uart := l, buff := b\<rparr>))"
proof -
  define body where "body = kermit_body seq ty cs"
  note body = kermit_body_facts [OF len ty, of seq, folded body_def]
  from line obtain l where l: "recv_mark (uart k) = Some l" "arriving l = (body @ [c]) @ KERM_KEY_TERM # bs"
    using recv_mark_arriving [of "uart k"] by (auto simp: body_def)
  define b where "b = store_bytes 0 (body @ [c, KERM_KEY_TERM]) (buff k)"
  from body(1,2) len c recv_packet_arriving [OF l(2), of 0 "buff k"] obtain l' where l':
    "recv_packet (buff k) 0 l = Some (b, l')" "arriving l' = bs" by (auto simp: b_def)
  have b: "b i = (body @ [c, KERM_KEY_TERM]) ! i" if "i < length body + 2" for i
    using that by (simp add: b_def store_bytes_apply)
  have b012: "b 0 = body ! 0" "b 1 = body ! 1" "b 2 = ty" using b [of 0] b [of 1] b [of 2] body(2)
    by (auto simp: nth_append body_def kermit_body_def)
  have "b (3 + i) = quote cs ! i" if "i < length (quote cs)" for i
    using b [of "3 + i"] body(2) that by (auto simp: nth_append body_def kermit_body_def numeral_3_eq_3)
  then have "in_buffer seq ty cs c b"
    using b [of "3 + length (quote cs)"] b [of "4 + length (quote cs)"] body(2) b012
    by (simp add: in_buffer_def nth_append) (simp add: body_def kermit_body_def)
  moreover have "int (unat (b 0)) - 32 = int (length (quote cs)) + 3" "int (unat (b 1)) - 32 = int (seq mod 64)"
    using body(3,4) b012 by auto
  then have "kermit_round fc opt k = Some
     (if int (seq mod 64) \<noteq> real_seq k
      then Inr (k\<lparr>uart := l', buff := b, sent := sent k @ ack_packet (real_seq k) KERM_TYPE_NACK\<rparr>)
      else kermit_accept fc opt (int (length (quote cs)) + 3) (int (seq mod 64)) (unat (b 0) + unat (b 1)) (k\<lparr>uart := l', buff := b\<rparr>))"
    by (simp add: kermit_round_def l(1) l'(1) Let_def add.commute [of 3] send_ack_packet_eq)
  ultimately show ?thesis using l'(2) by blast
qed

lemma Suc_seq: "(int (seq mod 64) + 1) mod 64 = int (Suc seq mod 64)"
  by (simp add: zmod_int mod_simps add.commute)

lemma kermit_accept_good:
  assumes b: "in_buffer seq ty cs c (buff k)" and c: "unat c = kermit_check (sum_list (map unat (kermit_body seq ty cs)))"
    and seq: "real_seq k = int (seq mod 64)" and dst: "dst opt = None"
  shows "kermit_accept fc opt (int (length (quote cs)) + 3) (int (seq mod 64)) (unat (buff k 0) + unat (buff k 1)) k
     = Inr (received opt seq ty cs k)"
proof -
  have field: "\<forall>i<length (quote cs). buff k (3 + i) = quote cs ! i" using b by (simp add: in_buffer_def)
  note [simp] = decode_field_quote [OF field] skip_field_sum [OF field]
  have len: "int (length (quote cs)) + 3 - 2 = int (length (quote cs)) + 1" by simp
  have tail: "unat (buff k (3 + length (quote cs)))
      = kermit_check (unat (buff k 0) + unat (buff k 1) + unat ty + sum_list (map unat (quote cs)))"
    "buff k (4 + length (quote cs)) = KERM_KEY_TERM" "buff k 2 = ty" using b c by (simp_all add: in_buffer_def)
  show ?thesis
    unfolding kermit_accept_def received_def Let_def send_ack_packet_eq
    by (simp add: len tail seq Suc_seq dst del: of_nat_mod One_nat_def)
qed

lemma kermit_accept_bad:
  assumes b: "in_buffer seq ty cs c (buff k)" and c: "unat c \<noteq> kermit_check (sum_list (map unat (kermit_body seq ty cs)))"
    and seq: "real_seq k = int (seq mod 64)"
  shows "kermit_accept fc opt (int (length (quote cs)) + 3) (int (seq mod 64)) (unat (buff k 0) + unat (buff k 1)) k
     = Inr (k\<lparr>sent := sent k @ ack_packet (int (Suc seq mod 64)) KERM_TYPE_NACK,
          mem := (if ty = KERM_TYPE_DATA then store_bytes (curr_addr k) cs (mem k) else mem k),
          file_name := (if ty = KERM_TYPE_HEAD then cs else file_name k), real_seq := int (Suc seq mod 64), pkt_type := ty\<rparr>)"
proof -
  have field: "\<forall>i<length (quote cs). buff k (3 + i) = quote cs ! i" using b by (simp add: in_buffer_def)
  note [simp] = decode_field_quote [OF field] skip_field_sum [OF field]
  have len: "int (length (quote cs)) + 3 - 2 = int (length (quote cs)) + 1" by simp
  have tail: "unat (buff k (3 + length (quote cs)))
      \<noteq> kermit_check (unat (buff k 0) + unat (buff k 1) + unat ty + sum_list (map unat (quote cs)))"
    "buff k 2 = ty" using b c by (simp_all add: in_buffer_def)
  show ?thesis
    using tail(1) unfolding kermit_accept_def Let_def send_ack_packet_eq
    by (auto simp: len tail(2) seq Suc_seq simp del: of_nat_mod One_nat_def)
qed

lemma kermit_packet_eq:
  obtains c where "kermit_packet seq ty cs = MARK_START # kermit_body seq ty cs @ [c, KERM_KEY_TERM]"
    "unat c = kermit_check (sum_list (map unat (kermit_body seq ty cs)))" "c \<noteq> KERM_KEY_TERM"
proof -
  let ?n = "kermit_check (sum_list (map unat (kermit_body seq ty cs)))"
  have "unat (of_nat ?n :: u8) = ?n" "32 \<le> ?n"
    using kermit_check_bound [of "sum_list (map unat (kermit_body seq ty cs))"] by (simp_all add: unat_of_nat)
  moreover from this have "(of_nat ?n :: u8) \<noteq> 0x0d" by (auto dest: arg_cong [where f = unat])
  ultimately show ?thesis using that [of "of_nat ?n"] by (simp add: kermit_packet_def)
qed

lemma kermit_round_packet:
  assumes line: "arriving (uart k) = kermit_packet seq ty cs @ bs" and len: "length (quote cs) \<le> 91" and ty: "ty \<noteq> KERM_KEY_TERM"
    and seq: "real_seq k = int (seq mod 64)" and dst: "dst opt = None"
  shows "\<exists>l b. arriving l = bs \<and> kermit_round fc opt k = Some (Inr (received opt seq ty cs (k\<lparr>uart := l, buff := b\<rparr>)))"
proof -
  obtain c where c: "kermit_packet seq ty cs = MARK_START # kermit_body seq ty cs @ [c, KERM_KEY_TERM]"
    "unat c = kermit_check (sum_list (map unat (kermit_body seq ty cs)))" "c \<noteq> KERM_KEY_TERM" by (rule kermit_packet_eq)
  with line have "arriving (uart k) = MARK_START # kermit_body seq ty cs @ [c, KERM_KEY_TERM] @ bs" by simp
  from kermit_round_body [OF this len ty c(3), of fc opt] obtain l b where lb: "arriving l = bs" "in_buffer seq ty cs c b"
    "kermit_round fc opt k = Some (kermit_accept fc opt (int (length (quote cs)) + 3) (int (seq mod 64)) (unat (b 0) + unat (b 1)) (k\<lparr>uart := l, buff := b\<rparr>))"
    using seq by auto
  then show ?thesis
    using kermit_accept_good [of seq ty cs c "k\<lparr>uart := l, buff := b\<rparr>" opt fc] c(2) seq dst by auto
qed

section \<open>A transfer\<close>

text \<open>A transfer is a list of packets, each with its type and its field, the last of type \<^verbatim>\<open>B\<close>.\<close>

fun kermit_stream :: "nat \<Rightarrow> (u8 \<times> u8 list) list \<Rightarrow> u8 list" where
  "kermit_stream seq [] = []"
| "kermit_stream seq ((ty, cs) # ps) = kermit_packet seq ty cs @ kermit_stream (seq + 1) ps"

definition sendable :: "u8 \<times> u8 list \<Rightarrow> bool" where
  "sendable p \<longleftrightarrow> fst p \<noteq> KERM_KEY_TERM \<and> length (quote (snd p)) \<le> 91"

definition file_data :: "(u8 \<times> u8 list) list \<Rightarrow> u8 list" where
  "file_data ps = concat (map snd (filter (\<lambda>p. fst p = KERM_TYPE_DATA) ps))"

definition head_name :: "(u8 \<times> u8 list) list \<Rightarrow> u8 list \<Rightarrow> u8 list" where
  "head_name ps s = fold (\<lambda>p s. if fst p = KERM_TYPE_HEAD then snd p else s) ps s"

definition acks :: "nat \<Rightarrow> nat \<Rightarrow> u8 list" where
  "acks seq n = concat (map (\<lambda>i. ack_packet (int (i mod 64)) KERM_TYPE_ACK) [seq..<seq + n])"

lemma kermit_loop_stream:
  assumes "arriving (uart k) = kermit_stream seq (ps @ [(KERM_TYPE_BREAK, cs)]) @ bs"
    and "\<forall>p\<in>set ps. sendable p \<and> fst p \<noteq> KERM_TYPE_BREAK" "sendable (KERM_TYPE_BREAK, cs)"
    and "real_seq k = int (seq mod 64)" "dst opt = None" "load_addr opt \<noteq> NULL"
  shows "\<exists>k'. kermit_loop fc opt k = Some (load_size k', k') \<and> load_size k' = wrap32 (load_size k + int (length (file_data ps)))
     \<and> mem k' = store_bytes (curr_addr k) (file_data ps) (mem k) \<and> file_name k' = head_name ps (file_name k)
     \<and> sent k' = sent k @ acks seq (length ps + 1) \<and> arriving (uart k') = bs \<and> dev k' = dev k \<and> jump_addr k' = jump_addr k"
  using assms
proof (induction ps arbitrary: k seq)
  case Nil
  then obtain l b where "arriving l = bs" "kermit_round fc opt k = Some (Inr (received opt seq KERM_TYPE_BREAK cs (k\<lparr>uart := l, buff := b\<rparr>)))"
    using kermit_round_packet [of k seq KERM_TYPE_BREAK cs bs opt fc] by (auto simp: sendable_def)
  then show ?case
    by (subst kermit_loop.simps) (simp add: received_def file_data_def head_name_def acks_def)
next
  case (Cons p ps)
  obtain ty f where p: "p = (ty, f)" by (cases p)
  let ?rest = "kermit_stream (seq + 1) (ps @ [(KERM_TYPE_BREAK, cs)]) @ bs"
  obtain l b where l: "arriving l = ?rest" "kermit_round fc opt k = Some (Inr (received opt seq ty f (k\<lparr>uart := l, buff := b\<rparr>)))"
    using Cons.prems kermit_round_packet [of k seq ty f ?rest opt fc] by (auto simp: sendable_def p)
  let ?k = "received opt seq ty f (k\<lparr>uart := l, buff := b\<rparr>)"
  have loop: "kermit_loop fc opt k = kermit_loop fc opt ?k"
    using Cons.prems(2) by (subst kermit_loop.simps) (simp add: l(2) received_def p Let_def)
  have acks: "ack_packet (int (seq mod 64)) KERM_TYPE_ACK @ acks (seq + 1) (length ps + 1) = acks seq (length (p # ps) + 1)"
    by (simp add: acks_def upt_conv_Cons del: upt_Suc of_nat_mod)
  have "arriving (uart ?k) = ?rest" "real_seq ?k = int ((seq + 1) mod 64)" by (simp_all add: received_def l(1) Let_def)
  with Cons.IH [of ?k "seq + 1"] Cons.prems obtain k' where "kermit_loop fc opt ?k = Some (load_size k', k')"
      "load_size k' = wrap32 (load_size ?k + int (length (file_data ps)))"
      "mem k' = store_bytes (curr_addr ?k) (file_data ps) (mem ?k)" "file_name k' = head_name ps (file_name ?k)"
      "sent k' = sent ?k @ acks (seq + 1) (length ps + 1)" "arriving (uart k') = bs" "dev k' = dev ?k" "jump_addr k' = jump_addr ?k" by auto
  with Cons.prems(6) show ?case
    unfolding loop acks [symmetric]
    by (auto simp: received_def Let_def p wrap32_add file_data_def head_name_def store_bytes_append add.assoc)
qed

text \<open>
  C27. A file sent by Kermit arrives. Whatever packets a sender transmits, numbered from zero, quoted and
  checked, the last of them of type \<^verbatim>\<open>B\<close>, and however the bytes are spaced on the line, \<^verbatim>\<open>kermit_load\<close>
  returns: the fields of the data packets lie one behind the other at the load address and nothing else
  in memory has changed, the result is their length, the file name is that of the header packet, every
  packet has been acknowledged by its number, and what follows on the line is left unread.
\<close>

theorem kermit_transfers:
  assumes "arriving (uart s) = kermit_stream 0 (ps @ [(KERM_TYPE_BREAK, cs)]) @ bs"
    and "\<forall>p\<in>set ps. sendable p \<and> fst p \<noteq> KERM_TYPE_BREAK" "sendable (KERM_TYPE_BREAK, cs)"
    and "dst opt = None" "load_addr opt \<noteq> NULL" "length (file_data ps) < 2 ^ 31"
  shows "\<exists>k. kermit_load fc opt stack data s = Some (int (length (file_data ps)), k)
     \<and> load_size k = int (length (file_data ps))
     \<and> (\<forall>p. mem k p = (if load_addr opt \<le> p \<and> p < load_addr opt + length (file_data ps)
                        then file_data ps ! (p - load_addr opt) else mem s p))
     \<and> file_name k = head_name ps (file_name s) \<and> jump_addr k = load_addr opt
     \<and> sent k = sent s @ acks 0 (length ps + 1) \<and> arriving (uart k) = bs \<and> dev k = dev s"
proof -
  define k where "k = (go_set_addr (load_addr opt) (load_state.extend s \<lparr>buff = stack, curr_addr = load_addr opt,
                real_seq = 0, pkt_type = KERM_TYPE_BREAK, fd = - 1, img_type = IMG_MAX\<rparr>))\<lparr>load_size := 0\<rparr>"
  have k: "uart k = uart s" "mem k = mem s" "file_name k = file_name s" "sent k = sent s" "dev k = dev s" "jump_addr k = load_addr opt"
     "load_size k = 0" "real_seq k = 0" "curr_addr k = load_addr opt"
    by (simp_all add: k_def go_set_addr_def load_state.defs)
  have "kermit_load fc opt stack data s = kermit_loop fc opt k"
    using assms(4,5) by (simp add: kermit_load_def Let_def k_def load_state.defs)
  moreover have "wrap32 (int (length (file_data ps))) = int (length (file_data ps))"
    using assms(6) by (simp add: wrap32_def)
  ultimately show ?thesis
    using kermit_loop_stream [of k 0 ps cs bs opt fc] assms by (auto simp: k store_bytes_apply)
qed

definition demo_opt :: loader_opt where "demo_opt = \<lparr> load_addr = 0x8000, dst = None \<rparr>"

definition demo_load :: "u8 list \<Rightarrow> unit load_state" where
  "demo_load bs = \<lparr> uart = map Some bs, sent = [], mem = (\<lambda>_. 0), dev = (), file_name = [], load_size = 0, jump_addr = 0 \<rparr>"

definition demo_packets :: "(u8 \<times> u8 list) list" where
  "demo_packets = [(0x53, [0x7e]), (KERM_TYPE_HEAD, [0x61, 0x2e, 0x62]), (KERM_TYPE_DATA, [0, 0x0d, 0x23, 0xff]), (KERM_TYPE_DATA, [1, 0x80]), (0x5a, [])]"

theorem kermit_transfers_witness:
  "\<exists>k. kermit_load null_files demo_opt (\<lambda>_. 0) 0 (demo_load (kermit_stream 0 (demo_packets @ [(KERM_TYPE_BREAK, [])]) @ [7])) = Some (6, k)
     \<and> mem k 0x8002 = 0x23 \<and> mem k 0x8005 = 0x80 \<and> file_name k = [0x61, 0x2e, 0x62] \<and> arriving (uart k) = [7]"
proof -
  have facts: "\<forall>p\<in>set demo_packets. sendable p \<and> fst p \<noteq> KERM_TYPE_BREAK" "sendable (KERM_TYPE_BREAK, [])"
    "file_data demo_packets = [0, 0x0d, 0x23, 0xff, 1, 0x80]" "head_name demo_packets [] = [0x61, 0x2e, 0x62]"
    by code_simp+
  have opt: "dst demo_opt = None" "load_addr demo_opt = 0x8000" by (simp_all add: demo_opt_def)
  show ?thesis
    using kermit_transfers [of "demo_load (kermit_stream 0 (demo_packets @ [(KERM_TYPE_BREAK, [])]) @ [7])" demo_packets "[]" "[7]" demo_opt
        null_files "\<lambda>_. 0" 0, OF _ facts(1,2) opt(1)]
    by (auto simp: facts(3,4) opt demo_load_def)
qed

section \<open>Damaged packets\<close>

lemma kermit_round_repeat:
  assumes line: "arriving (uart k) = kermit_packet seq ty cs @ bs" and len: "length (quote cs) \<le> 91" and ty: "ty \<noteq> KERM_KEY_TERM"
    and seq: "real_seq k \<noteq> int (seq mod 64)"
  shows "\<exists>l b. arriving l = bs \<and> kermit_round fc opt k
     = Some (Inr (k\<lparr>uart := l, buff := b, sent := sent k @ ack_packet (real_seq k) KERM_TYPE_NACK\<rparr>))"
proof -
  obtain c where c: "kermit_packet seq ty cs = MARK_START # kermit_body seq ty cs @ [c, KERM_KEY_TERM]" "c \<noteq> KERM_KEY_TERM"
    by (rule kermit_packet_eq)
  with line have "arriving (uart k) = MARK_START # kermit_body seq ty cs @ [c, KERM_KEY_TERM] @ bs" by simp
  from kermit_round_body [OF this len ty c(2), of fc opt] seq show ?thesis by auto
qed

lemma kermit_loop_repeats:
  assumes "arriving (uart k) = concat (replicate n (kermit_packet seq ty cs)) @ bs" "length (quote cs) \<le> 91" "ty \<noteq> KERM_KEY_TERM"
    and "real_seq k \<noteq> int (seq mod 64)" "pkt_type k \<noteq> KERM_TYPE_BREAK"
  shows "\<exists>k'. kermit_loop fc opt k = kermit_loop fc opt k' \<and> arriving (uart k') = bs \<and> load_size k' = load_size k
     \<and> curr_addr k' = curr_addr k \<and> real_seq k' = real_seq k \<and> mem k' = mem k
     \<and> sent k' = sent k @ concat (replicate n (ack_packet (real_seq k) KERM_TYPE_NACK))"
  using assms
proof (induction n arbitrary: k)
  case 0
  then show ?case by (intro exI [of _ k]) simp
next
  case (Suc n)
  then obtain l b where l: "arriving l = concat (replicate n (kermit_packet seq ty cs)) @ bs"
    "kermit_round fc opt k = Some (Inr (k\<lparr>uart := l, buff := b, sent := sent k @ ack_packet (real_seq k) KERM_TYPE_NACK\<rparr>))"
    using kermit_round_repeat [of k seq ty cs "concat (replicate n (kermit_packet seq ty cs)) @ bs" fc opt] by auto
  let ?k = "k\<lparr>uart := l, buff := b, sent := sent k @ ack_packet (real_seq k) KERM_TYPE_NACK\<rparr>"
  have "kermit_loop fc opt k = kermit_loop fc opt ?k"
    using Suc.prems(5) by (subst kermit_loop.simps) (simp add: l(2))
  with Suc.IH [of ?k] l(1) Suc.prems show ?case by auto
qed

text \<open>
  A damaged Kermit packet cannot be repaired by sending it again. After a packet with the expected
  number and a wrong check byte, the receiver asks for the next number and refuses every repetition of the
  packet: however often the sender repeats it, the size and the load address stay where they were, and each
  copy is answered by the same request for the next packet.
\<close>

theorem kermit_damaged_packet_lost:
  assumes "arriving (uart k) = MARK_START # kermit_body seq ty cs @ [c, KERM_KEY_TERM] @ concat (replicate n (kermit_packet seq ty cs)) @ bs"
    and "unat c \<noteq> kermit_check (sum_list (map unat (kermit_body seq ty cs)))" "c \<noteq> KERM_KEY_TERM"
    and "sendable (ty, cs)" "ty \<noteq> KERM_TYPE_BREAK" "real_seq k = int (seq mod 64)"
  shows "\<exists>k'. kermit_loop fc opt k = kermit_loop fc opt k' \<and> arriving (uart k') = bs \<and> load_size k' = load_size k
     \<and> curr_addr k' = curr_addr k \<and> real_seq k' = int (Suc seq mod 64)
     \<and> sent k' = sent k @ concat (replicate (Suc n) (ack_packet (int (Suc seq mod 64)) KERM_TYPE_NACK))"
proof -
  let ?rest = "concat (replicate n (kermit_packet seq ty cs)) @ bs"
  have len: "length (quote cs) \<le> 91" "ty \<noteq> KERM_KEY_TERM" using assms(4) by (simp_all add: sendable_def)
  from kermit_round_body [OF assms(1) len assms(3), of fc opt] assms(6) obtain l b where lb: "arriving l = ?rest" "in_buffer seq ty cs c b"
    "kermit_round fc opt k = Some (kermit_accept fc opt (int (length (quote cs)) + 3) (int (seq mod 64)) (unat (b 0) + unat (b 1)) (k\<lparr>uart := l, buff := b\<rparr>))"
    by auto
  define k0 where "k0 = k\<lparr>uart := l, buff := b\<rparr>"
  have k0: "buff k0 = b" "uart k0 = l" "real_seq k0 = int (seq mod 64)" "load_size k0 = load_size k" "curr_addr k0 = curr_addr k" "sent k0 = sent k"
    using assms(6) by (simp_all add: k0_def)
  define k1 where "k1 = k0\<lparr>sent := sent k0 @ ack_packet (int (Suc seq mod 64)) KERM_TYPE_NACK,
      mem := (if ty = KERM_TYPE_DATA then store_bytes (curr_addr k0) cs (mem k0) else mem k0),
      file_name := (if ty = KERM_TYPE_HEAD then cs else file_name k0), real_seq := int (Suc seq mod 64), pkt_type := ty\<rparr>"
  have k1: "arriving (uart k1) = ?rest" "real_seq k1 = int (Suc seq mod 64)" "pkt_type k1 = ty"
    "load_size k1 = load_size k" "curr_addr k1 = curr_addr k" "sent k1 = sent k @ ack_packet (int (Suc seq mod 64)) KERM_TYPE_NACK"
    using lb(1) k0 by (simp_all add: k1_def del: of_nat_mod)
  have "in_buffer seq ty cs c (buff k0)" using lb(2) k0(1) by simp
  from kermit_accept_bad [OF this assms(2) k0(3), of fc opt] have round: "kermit_round fc opt k = Some (Inr k1)"
    unfolding lb(3) k0_def [symmetric] k1_def k0(1) by (rule arg_cong)
  have "real_seq k1 \<noteq> int (seq mod 64)" unfolding k1(2) of_nat_eq_iff mod_Suc by auto
  with kermit_loop_repeats [OF k1(1) len, of fc opt] k1(3) assms(5) obtain k' where k': "kermit_loop fc opt k1 = kermit_loop fc opt k'" "arriving (uart k') = bs"
    "load_size k' = load_size k1" "curr_addr k' = curr_addr k1" "real_seq k' = real_seq k1"
    "sent k' = sent k1 @ concat (replicate n (ack_packet (real_seq k1) KERM_TYPE_NACK))" by auto
  moreover have "kermit_loop fc opt k = kermit_loop fc opt k1"
    using assms(5) k1(3) by (subst kermit_loop.simps) (simp add: round)
  ultimately show ?thesis using k1 by (intro exI [of _ k']) (simp del: of_nat_mod)
qed

theorem kermit_damaged_packet_lost_witness:
  "\<exists>k'. load_size k' = (0::int) \<and> real_seq k' = 3 \<and> arriving (uart k') = []
     \<and> kermit_loop null_files demo_opt (load_state.extend
         (demo_load (MARK_START # kermit_body 2 KERM_TYPE_DATA [0x61] @ [0x20, KERM_KEY_TERM] @ kermit_packet 2 KERM_TYPE_DATA [0x61]))
         \<lparr>buff = (\<lambda>_. 0), curr_addr = 0x8000, real_seq = 2, pkt_type = KERM_TYPE_HEAD, fd = - 1, img_type = IMG_MAX\<rparr>)
       = kermit_loop null_files demo_opt k'"
proof -
  let ?k = "load_state.extend
         (demo_load (MARK_START # kermit_body 2 KERM_TYPE_DATA [0x61] @ [0x20, KERM_KEY_TERM] @ kermit_packet 2 KERM_TYPE_DATA [0x61]))
         \<lparr>buff = (\<lambda>_. 0), curr_addr = 0x8000, real_seq = 2, pkt_type = KERM_TYPE_HEAD, fd = - 1, img_type = IMG_MAX\<rparr>"
  have "arriving (uart ?k) = MARK_START # kermit_body 2 KERM_TYPE_DATA [0x61] @ [0x20, KERM_KEY_TERM]
      @ concat (replicate 1 (kermit_packet 2 KERM_TYPE_DATA [0x61])) @ []" "load_size ?k = 0" "real_seq ?k = int (2 mod 64)"
    by (simp_all add: load_state.defs demo_load_def)
  moreover have "unat (0x20::u8) \<noteq> kermit_check (sum_list (map unat (kermit_body 2 KERM_TYPE_DATA [0x61])))" "sendable (KERM_TYPE_DATA, [0x61])"
    by code_simp+
  ultimately show ?thesis
    using kermit_damaged_packet_lost [of ?k 2 KERM_TYPE_DATA "[0x61]" "0x20" 1 "[]" null_files demo_opt] by auto
qed

text \<open>
  A receiver that has seen no packet yet gives up at the first one with an unexpected number: \<^verbatim>\<open>continue\<close>
  evaluates the condition of the loop, and the type still has its initial value.
\<close>

lemma kermit_first_refused:
  assumes "arriving (uart k) = kermit_packet seq ty cs @ bs" "sendable (ty, cs)" "real_seq k \<noteq> int (seq mod 64)" "pkt_type k = KERM_TYPE_BREAK"
  shows "\<exists>k'. kermit_loop fc opt k = Some (load_size k, k') \<and> arriving (uart k') = bs"
  using kermit_round_repeat [of k seq ty cs bs fc opt] assms by (subst kermit_loop.simps) (auto simp: sendable_def)

end
