(* ===== verification/Ymodem.thy ===== *)
theory Ymodem
  imports Loader "HOL-Library.Monad_Syntax"
begin

unbundle bit_operations_syntax

text \<open>
  The Ymodem receiver, \<^verbatim>\<open>lib/uart/ymodem.c\<close>. \<open>None\<close> is a line that falls silent, or a file name that does not fit its buffer. \<open>data\<close> is the
  address of the local buffer that the code uses when no load address is given. What the code prints on the console is left out of \<open>sent\<close>.
\<close>

section \<open>The receiver\<close>

abbreviation (input) SOH :: u8 where "SOH \<equiv> 0x01"
abbreviation (input) STX :: u8 where "STX \<equiv> 0x02"
abbreviation (input) EOT :: u8 where "EOT \<equiv> 0x04"
abbreviation (input) ACK :: u8 where "ACK \<equiv> 0x06"
abbreviation (input) NAK :: u8 where "NAK \<equiv> 0x15"
abbreviation (input) CAN :: u8 where "CAN \<equiv> 0x18"
abbreviation (input) CRC_REQ :: u8 where "CRC_REQ \<equiv> 0x43"
abbreviation (input) FILE_NAME_SIZE :: nat where "FILE_NAME_SIZE \<equiv> 256"

record 'd ymodem = "'d load_state" +
  y_addr :: nat
  blk :: u8
  y_fd :: int
  y_img :: image_t

fun uart_clear_buff :: "uart_line \<Rightarrow> uart_line option" where
  "uart_clear_buff [] = None"
| "uart_clear_buff (None # l) = Some l"
| "uart_clear_buff (Some _ # l) = uart_clear_buff l"

definition modem_end_rx :: "'d ymodem \<Rightarrow> 'd ymodem" where
  "modem_end_rx y = fold uart_send_byte (ACK # replicate 6 CAN) y"

text \<open>The first loop: it asks for a block before every byte that it reads.\<close>

fun wait_first :: "uart_line \<Rightarrow> u8 list \<Rightarrow> (nat \<times> uart_line \<times> u8 list) option" where
  "wait_first [] out = None"
| "wait_first (x # l) out =
     (if x = Some SOH then Some (128, l, out @ [CRC_REQ])
      else if x = Some STX then Some (1024, l, out @ [CRC_REQ])
      else wait_first l (out @ [CRC_REQ]))"

text \<open>The file name: at most \<open>n\<close> characters more; a time-out leaves the character that the buffer held.\<close>

fun recv_name :: "nat \<Rightarrow> nat \<Rightarrow> u8 list \<Rightarrow> uart_line \<Rightarrow> (u8 list \<times> uart_line) option" where
  "recv_name 0 count name l = Some (name, l)"
| "recv_name (Suc n) count name [] = None"
| "recv_name (Suc n) count name (None # l) = recv_name n (count + 1) name l"
| "recv_name (Suc n) count name (Some b # l) =
     (if count \<ge> FILE_NAME_SIZE then None
      else let name = (name @ replicate (count + 1 - length name) 0)[count := b]
           in if b = 0 then Some (name, l) else recv_name n (count + 1) name l)"

text \<open>The wait for the next block: its size, or \<open>None\<close> inside for the end of the transfer.\<close>

fun wait_block :: "uart_line \<Rightarrow> (nat option \<times> uart_line) option" where
  "wait_block [] = None"
| "wait_block (x # l) =
     (if x = Some SOH then Some (Some 128, l)
      else if x = Some STX then Some (Some 1024, l)
      else if x = Some EOT then Some (None, l)
      else wait_block l)"

fun recv_data :: "nat \<Rightarrow> uart_line \<Rightarrow> (u8 list \<times> uart_line) option" where
  "recv_data 0 l = Some ([], l)"
| "recv_data (Suc n) [] = None"
| "recv_data (Suc n) (None # l) = Some ([], l)"
| "recv_data (Suc n) (Some b # l) = do { (bs, l) \<leftarrow> recv_data n l; Some (b # bs, l) }"

text \<open>A block with the expected number: \<open>Inl\<close> is the way out through \<^verbatim>\<open>error\<close>.\<close>

definition ymodem_accept :: "'d file_calls \<Rightarrow> loader_opt \<Rightarrow> u8 list \<Rightarrow> 'd ymodem \<Rightarrow> (int \<times> 'd ymodem) + 'd ymodem" where
  "ymodem_accept fc opt bs y =
     (let count = length bs;
          y = y\<lparr>mem := store_bytes (y_addr y) bs (mem y)\<rparr>;
          (ret, y) =
            (if dst opt = None then (0, y)
             else let (ret, img, d) = store_block fc (y_fd y) (\<lambda>i. mem y (y_addr y + i)) count (y_img y) (dev y)
                  in (ret, y\<lparr>y_img := img, dev := d\<rparr>))
      in if ret < 0 then Inl (ret, y)
         else let y = (if load_addr opt \<noteq> NULL then y\<lparr>y_addr := y_addr y + count\<rparr> else y);
                  y = uart_send_byte ACK y
              in Inr (y\<lparr>load_size := wrap32 (load_size y + int count), blk := blk y + 1\<rparr>))"

text \<open>The two check bytes are read and not looked at.\<close>

definition ymodem_block :: "'d file_calls \<Rightarrow> loader_opt \<Rightarrow> nat \<Rightarrow> 'd ymodem \<Rightarrow> ((int \<times> 'd ymodem) + 'd ymodem) option" where
  "ymodem_block fc opt sz y = do {
     (b0, l) \<leftarrow> uart_recv_byte (uart y);
     (b1, l) \<leftarrow> uart_recv_byte l;
     if b0 XOR b1 \<noteq> 0xFF \<or> b0 \<noteq> blk y then do {
       l \<leftarrow> uart_clear_buff l;
       Some (Inr (uart_send_byte NAK (y\<lparr>uart := l\<rparr>))) }
     else do {
       (bs, l) \<leftarrow> recv_data sz l;
       (_, l) \<leftarrow> uart_recv_byte_timeout l;
       (_, l) \<leftarrow> uart_recv_byte_timeout l;
       Some (ymodem_accept fc opt bs (y\<lparr>uart := l\<rparr>)) } }"

definition ymodem_close :: "'d file_calls \<Rightarrow> loader_opt \<Rightarrow> 'd ymodem \<Rightarrow> 'd ymodem" where
  "ymodem_close fc opt y = (if dst opt = None then y else y\<lparr>dev := f_close fc (y_fd y) (dev y)\<rparr>)"

partial_function (option) ymodem_loop :: "'d file_calls \<Rightarrow> loader_opt \<Rightarrow> 'd ymodem \<Rightarrow> (int \<times> 'd ymodem) option" where
  "ymodem_loop fc opt y = do {
     (sz, l) \<leftarrow> wait_block (uart y);
     case sz of
       None \<Rightarrow> let y = modem_end_rx (y\<lparr>uart := l\<rparr>) in Some (load_size y, ymodem_close fc opt y)
     | Some sz \<Rightarrow> do {
         r \<leftarrow> ymodem_block fc opt sz (y\<lparr>uart := l\<rparr>);
         case r of Inl (ret, y) \<Rightarrow> Some (ret, ymodem_close fc opt y) | Inr y \<Rightarrow> ymodem_loop fc opt y } }"

definition ymodem_start :: "'d ymodem \<Rightarrow> 'd ymodem option" where
  "ymodem_start y = do {
     (sz, l, out) \<leftarrow> wait_first (uart y) (sent y);
     (_, l) \<leftarrow> uart_recv_byte l;
     (_, l) \<leftarrow> uart_recv_byte l;
     (name, l) \<leftarrow> recv_name sz 0 (file_name y) l;
     l \<leftarrow> uart_clear_buff l;
     Some (y\<lparr>uart := l, sent := out @ [ACK, CRC_REQ], file_name := name, blk := 1\<rparr>) }"

definition ymodem_load :: "'d file_calls \<Rightarrow> loader_opt \<Rightarrow> nat \<Rightarrow> 'd load_state \<Rightarrow> (int \<times> 'd ymodem) option" where
  "ymodem_load fc opt data s =
     (let y = load_state.extend s \<lparr>y_addr = (if load_addr opt = NULL then data else load_addr opt), blk = 0, y_fd = 0, y_img = IMG_MAX\<rparr>;
          y = go_set_addr (y_addr y) y;
          y = y\<lparr>load_size := 0\<rparr>
      in case dst opt of
           None \<Rightarrow> do { y \<leftarrow> ymodem_start y; ymodem_loop fc opt y }
         | Some path \<Rightarrow>
             let (ret, d) = f_open fc path (dev y); y = y\<lparr>y_fd := ret, dev := d\<rparr>
             in if ret < 0 then Some (ret, y) else do { y \<leftarrow> ymodem_start y; ymodem_loop fc opt y })"

section \<open>A sender\<close>

text \<open>
  The first block carries the name; then come the blocks of the file, each a pause, its mark, number, data and two check bytes, and the end. A
  pause follows the first block, as the sender waits for its answer.
\<close>

type_synonym y_block = "nat \<times> u8 list \<times> u8 \<times> u8"

definition y_frame :: "u8 \<Rightarrow> y_block \<Rightarrow> uart_line" where
  "y_frame n = (\<lambda>(p, bs, c, c'). replicate p None @ map Some ([if length bs = 128 then SOH else STX, n, n XOR 0xFF] @ bs @ [c, c']))"

definition y_ok :: "y_block \<Rightarrow> bool" where
  "y_ok b \<longleftrightarrow> length (fst (snd b)) \<in> {128, 1024}"

fun y_stream :: "u8 \<Rightarrow> y_block list \<Rightarrow> uart_line" where
  "y_stream n [] = [Some EOT]"
| "y_stream n (b # bs) = y_frame n b @ y_stream (n + 1) bs"

definition y_data :: "y_block list \<Rightarrow> u8 list" where
  "y_data bs = concat (map (fst \<circ> snd) bs)"

definition y_head :: "u8 list \<Rightarrow> u8 list \<Rightarrow> uart_line" where
  "y_head name pad = map Some ([SOH, 0, 0xFF] @ name @ 0 # pad) @ [None]"

lemma wait_block_pauses: "wait_block (replicate p None @ l) = wait_block l"
  by (induction p) simp_all

lemma recv_data_all: "recv_data (length bs) (map Some bs @ l) = Some (bs, l)"
  by (induction bs) simp_all

lemma clear_buff_line: "uart_clear_buff (map Some bs @ None # l) = Some l"
  by (induction bs) simp_all

lemma name_put: "count \<le> length N \<Longrightarrow> (N @ replicate (Suc count - length N) 0)[count := b] = take count N @ b # drop (Suc count) N"
  by (cases "count = length N") (auto simp: list_update_append upd_conv_take_nth_drop Suc_diff_le)

lemma recv_name_text:
  "0 \<notin> set cs \<Longrightarrow> length cs < n \<Longrightarrow> count + length cs < FILE_NAME_SIZE \<Longrightarrow> count \<le> length N
     \<Longrightarrow> recv_name n count N (map Some (cs @ 0 # pad) @ l) = Some (take count N @ cs @ 0 # drop (count + length cs + 1) N, map Some pad @ l)"
proof (induction cs arbitrary: n count N)
  case Nil
  then show ?case by (cases n) (simp_all add: name_put)
next
  case (Cons c cs)
  then obtain m where m: "n = Suc m" by (cases n) auto
  let ?N = "take count N @ c # drop (Suc count) N"
  have "recv_name n count N (map Some ((c # cs) @ 0 # pad) @ l) = recv_name m (count + 1) ?N (map Some (cs @ 0 # pad) @ l)"
    using Cons.prems name_put [OF Cons.prems(4), of c] by (simp add: m Let_def)
  then show ?case using Cons.prems Cons.IH [of m "count + 1" ?N] by (simp add: m add.commute [of count])
qed

text \<open>What a block with the expected number leaves, when the data goes to memory alone.\<close>

definition y_stored :: "u8 list \<Rightarrow> 'd ymodem \<Rightarrow> 'd ymodem" where
  "y_stored bs y = y\<lparr>mem := store_bytes (y_addr y) bs (mem y), y_addr := y_addr y + length bs, sent := sent y @ [ACK],
     load_size := wrap32 (load_size y + int (length bs)), blk := blk y + 1\<rparr>"

lemma ymodem_loop_block:
  assumes "uart y = y_frame (blk y) b @ l" "y_ok b" "dst opt = None" "load_addr opt \<noteq> NULL"
  shows "ymodem_loop fc opt y = ymodem_loop fc opt (y_stored (fst (snd b)) (y\<lparr>uart := l\<rparr>))"
proof -
  obtain p bs c c' where b: "b = (p, bs, c, c')" by (cases b) auto
  let ?l = "map Some ([blk y, blk y XOR 0xFF] @ bs @ [c, c']) @ l"
  have w: "wait_block (uart y) = Some (Some (length bs), ?l)"
    using assms(1,2) by (auto simp: b y_frame_def y_ok_def wait_block_pauses)
  have "ymodem_block fc opt (length bs) (y\<lparr>uart := ?l\<rparr>) = Some (Inr (y_stored bs (y\<lparr>uart := l\<rparr>)))"
    using assms(3,4) by (simp add: ymodem_block_def recv_data_all ymodem_accept_def y_stored_def uart_send_byte_def Let_def xor.assoc [symmetric])
  then show ?thesis using w by (subst ymodem_loop.simps) (simp add: b)
qed


lemma y_stored_simps [simp]:
  "blk (y_stored bs y) = blk y + 1" "uart (y_stored bs y) = uart y" "sent (y_stored bs y) = sent y @ [ACK]"
  "y_addr (y_stored bs y) = y_addr y + length bs" "mem (y_stored bs y) = store_bytes (y_addr y) bs (mem y)"
  "load_size (y_stored bs y) = wrap32 (load_size y + int (length bs))" "file_name (y_stored bs y) = file_name y"
  by (simp_all add: y_stored_def)

lemma y_data_simps [simp]: "y_data [] = []" "y_data (b # bs) = fst (snd b) @ y_data bs"
  by (simp_all add: y_data_def)

lemma ymodem_loop_stream:
  assumes "list_all y_ok bs" "uart y = y_stream (blk y) bs @ l" "dst opt = None" "load_addr opt \<noteq> NULL"
  shows "\<exists>z. ymodem_loop fc opt y = Some (load_size z, z) \<and> mem z = store_bytes (y_addr y) (y_data bs) (mem y)
     \<and> load_size z = (if bs = [] then load_size y else wrap32 (load_size y + int (length (y_data bs))))
     \<and> sent z = sent y @ replicate (length bs) ACK @ ACK # replicate 6 CAN \<and> uart z = l \<and> file_name z = file_name y"
  using assms
proof (induction bs arbitrary: y)
  case Nil
  then have "wait_block (uart y) = Some (None, l)" by simp
  then show ?case
    using Nil.prems by (subst ymodem_loop.simps) (simp add: modem_end_rx_def ymodem_close_def uart_send_byte_def numeral_eq_Suc)
next
  case (Cons b bs)
  let ?y = "y_stored (fst (snd b)) (y\<lparr>uart := y_stream (blk y + 1) bs @ l\<rparr>)"
  have step: "ymodem_loop fc opt y = ymodem_loop fc opt ?y" using Cons.prems by (intro ymodem_loop_block) auto
  have "\<exists>z. ymodem_loop fc opt ?y = Some (load_size z, z) \<and> mem z = store_bytes (y_addr ?y) (y_data bs) (mem ?y)
     \<and> load_size z = (if bs = [] then load_size ?y else wrap32 (load_size ?y + int (length (y_data bs))))
     \<and> sent z = sent ?y @ replicate (length bs) ACK @ ACK # replicate 6 CAN \<and> uart z = l \<and> file_name z = file_name ?y"
    using Cons.prems by (intro Cons.IH) auto
  then show ?case unfolding step by (auto simp: store_bytes_append wrap32_add add.assoc replicate_app_Cons_same)
qed

text \<open>A block whose number is damaged or is not the expected one is skipped up to the next pause and refused.\<close>

lemma ymodem_loop_refuses:
  assumes "uart y = map Some ([if long then STX else SOH, b0, b1] @ junk) @ None # l" "b0 XOR b1 \<noteq> 0xFF \<or> b0 \<noteq> blk y"
  shows "ymodem_loop fc opt y = ymodem_loop fc opt (y\<lparr>uart := l, sent := sent y @ [NAK]\<rparr>)"
proof -
  have "\<exists>sz. wait_block (uart y) = Some (Some sz, map Some ([b0, b1] @ junk) @ None # l)"
    using assms(1) by auto
  then obtain sz where w: "wait_block (uart y) = Some (Some sz, map Some ([b0, b1] @ junk) @ None # l)" ..
  have "ymodem_block fc opt sz (y\<lparr>uart := map Some ([b0, b1] @ junk) @ None # l\<rparr>) = Some (Inr (y\<lparr>uart := l, sent := sent y @ [NAK]\<rparr>))"
    using assms(2) by (auto simp: ymodem_block_def clear_buff_line uart_send_byte_def)
  then show ?thesis using w by (subst ymodem_loop.simps) simp
qed

lemma ymodem_start_head:
  assumes "uart y = y_head name pad @ l" "0 \<notin> set name" "length name < 128"
  shows "ymodem_start y = Some (y\<lparr>uart := l, sent := sent y @ [CRC_REQ, ACK, CRC_REQ],
           file_name := name @ 0 # drop (length name + 1) (file_name y), blk := 1\<rparr>)"
proof -
  have "recv_name 128 0 (file_name y) (map Some (name @ 0 # pad) @ None # l)
      = Some (take 0 (file_name y) @ name @ 0 # drop (0 + length name + 1) (file_name y), map Some pad @ None # l)"
    using assms(2,3) by (intro recv_name_text) auto
  then show ?thesis using assms(1) by (simp add: ymodem_start_def y_head_def clear_buff_line)
qed

text \<open>
  C28. A file sent by Ymodem arrives. Whatever blocks of 128 or 1024 bytes a sender transmits after the block with the file's name, and whatever check
  bytes it puts behind each, the receiver stores their data one after the other at the load address, acknowledges every block in turn, ends the
  transfer after the last, keeps the name and returns the number of bytes of the blocks. More than 255 blocks are fine: the block number wraps.
\<close>

theorem ymodem_transfers:
  assumes "list_all y_ok bs" "uart s = y_head name pad @ y_stream 1 bs @ l" "0 \<notin> set name" "length name < 128"
    and "dst opt = None" "load_addr opt \<noteq> NULL"
  shows "\<exists>y. ymodem_load fc opt data s = Some (wrap32 (int (length (y_data bs))), y)
     \<and> mem y = store_bytes (load_addr opt) (y_data bs) (mem s) \<and> load_size y = wrap32 (int (length (y_data bs)))
     \<and> file_name y = name @ 0 # drop (length name + 1) (file_name s)
     \<and> sent y = sent s @ [CRC_REQ, ACK, CRC_REQ] @ replicate (length bs) ACK @ ACK # replicate 6 CAN \<and> uart y = l"
proof -
  define y0 where "y0 = (go_set_addr (load_addr opt) (load_state.extend s \<lparr>y_addr = load_addr opt, blk = 0, y_fd = 0, y_img = IMG_MAX\<rparr>))\<lparr>load_size := 0\<rparr>"
  have y0: "uart y0 = uart s" "sent y0 = sent s" "mem y0 = mem s" "file_name y0 = file_name s" "y_addr y0 = load_addr opt" "load_size y0 = 0"
    by (simp_all add: y0_def go_set_addr_def load_state.defs)
  define y1 where "y1 = y0\<lparr>uart := y_stream 1 bs @ l, sent := sent s @ [CRC_REQ, ACK, CRC_REQ],
    file_name := name @ 0 # drop (length name + 1) (file_name s), blk := 1\<rparr>"
  have "ymodem_start y0 = Some y1"
    using ymodem_start_head [of y0 name pad "y_stream 1 bs @ l"] assms y0 by (simp add: y1_def)
  then have load: "ymodem_load fc opt data s = ymodem_loop fc opt y1"
    using assms(5,6) by (simp add: ymodem_load_def y0_def Let_def go_set_addr_def load_state.defs)
  have "uart y1 = y_stream (blk y1) bs @ l" by (simp add: y1_def)
  from ymodem_loop_stream [OF assms(1) this assms(5,6), of fc] show ?thesis
    unfolding load by (auto simp: y1_def y0 wrap32_def)
qed

text \<open>Two blocks, the first of 128 bytes after a pause and the second of 1024, with wrong check bytes.\<close>

definition y_demo_blocks :: "y_block list" where
  "y_demo_blocks = [(1, replicate 128 7, 0, 0), (0, replicate 1024 8, 0, 0)]"

definition y_demo_load :: "uart_line \<Rightarrow> unit load_state" where
  "y_demo_load l = \<lparr> uart = l, sent = [], mem = (\<lambda>_. 0), dev = (), file_name = [], load_size = 0, jump_addr = 0 \<rparr>"

theorem ymodem_transfers_witness:
  "\<exists>y. ymodem_load null_files \<lparr>load_addr = 0x8000, dst = None\<rparr> 0 (y_demo_load (y_head [0x61] [0x32, 0] @ y_stream 1 y_demo_blocks @ [None]))
        = Some (1152, y)
     \<and> mem y 0x807f = 7 \<and> mem y 0x8080 = 8 \<and> file_name y = [0x61, 0] \<and> sent y = [CRC_REQ, ACK, CRC_REQ, ACK, ACK, ACK, CAN, CAN, CAN, CAN, CAN, CAN]"
proof -
  let ?opt = "\<lparr>load_addr = 0x8000, dst = None\<rparr>"
  let ?s = "y_demo_load (y_head [0x61] [0x32, 0] @ y_stream 1 y_demo_blocks @ [None])"
  have ok: "list_all y_ok y_demo_blocks" by (simp add: y_demo_blocks_def y_ok_def)
  have data: "y_data y_demo_blocks = replicate 128 7 @ replicate 1024 8" "length y_demo_blocks = 2" by (simp_all add: y_demo_blocks_def)
  have "store_bytes 0x8000 (y_data y_demo_blocks) m 0x807f = 7" "store_bytes 0x8000 (y_data y_demo_blocks) m 0x8080 = 8" for m
    by (simp_all add: data store_bytes_apply nth_append)
  moreover have "replicate 6 x = [x, x, x, x, x, x]" "replicate 2 x = [x, x]" for x :: u8 by (simp_all add: numeral_eq_Suc)
  ultimately show ?thesis
    using ymodem_transfers [of y_demo_blocks ?s "[0x61]" "[0x32, 0]" "[None]" ?opt null_files 0, OF ok]
    by (auto simp: y_demo_load_def data wrap32_def)
qed

end
