(* ===== verification/Block.thy ===== *)
theory Block
  imports Loader "HOL-Library.Monad_Syntax"
begin

text \<open>
  Block devices and disk drives: \<^verbatim>\<open>driver/block/block.c\<close>, \<^verbatim>\<open>drive.c\<close>, \<^verbatim>\<open>include/block.h\<close>, \<^verbatim>\<open>drive.h\<close>. The functions of a drive work on a state \<open>'s\<close> of the
  device. Buffers are memories from their first byte on. \<open>room\<close> is the number of structures that can still be allocated. \<open>None\<close> is a name that does not fit the buffer of
  \<^verbatim>\<open>vsnprintf\<close>. A partition table of a disk has up to four entries in the first sector; extended partitions are not supported by the code.
\<close>

section \<open>Block devices\<close>

record block_device =
  bdev_name :: string
  bdev_flags :: u32
  bdev_base :: u32
  bdev_size :: u32
  bdev_label :: string

record part_attr =
  part_base :: u32
  part_size :: u32
  part_label :: string
  part_flags :: u32

definition bdev_get :: "string \<Rightarrow> block_device list \<Rightarrow> block_device option" where
  "bdev_get name bdevs = find (\<lambda>b. bdev_name b = name) bdevs"

definition block_device_register :: "block_device \<Rightarrow> block_device list \<Rightarrow> int \<times> block_device list" where
  "block_device_register bdev bdevs = (0, bdevs @ [bdev])"

section \<open>Drives\<close>

record 's disk_drive =
  drive_bdev :: block_device
  sect_size :: u32
  get_block :: "u32 \<Rightarrow> (nat \<Rightarrow> u8) \<Rightarrow> 's \<Rightarrow> int \<times> (nat \<Rightarrow> u8) \<times> 's"
  put_block :: "u32 \<Rightarrow> (nat \<Rightarrow> u8) \<Rightarrow> 's \<Rightarrow> int \<times> 's"

datatype bio_rw = READ | WRITE

record bio =
  bio_data :: "nat \<Rightarrow> u8"
  bio_size :: nat
  bio_sect :: u32
  bio_flags :: u32

text \<open>The loop of \<^verbatim>\<open>submit_bio\<close>, which works on 512 bytes at a time; \<^verbatim>\<open>sect << 9\<close> keeps 32 bits.\<close>

function bio_loop :: "bio_rw \<Rightarrow> 's disk_drive \<Rightarrow> nat \<Rightarrow> u32 \<Rightarrow> bio \<Rightarrow> 's \<Rightarrow> bio \<times> 's" where
  "bio_loop rw drive l sect bio s =
     (if l < bio_size bio
      then let (ret, m, s) =
             (if rw = READ then get_block drive (push_bit 9 sect) (at_pos l (bio_data bio)) s
              else let (ret, s) = put_block drive (push_bit 9 sect) (at_pos l (bio_data bio)) s in (ret, at_pos l (bio_data bio), s));
             bio = bio\<lparr>bio_data := put_pos l m (bio_data bio)\<rparr>;
             bio = (if ret < 0 then bio\<lparr>bio_flags := 1\<rparr> else bio)
           in bio_loop rw drive (l + 512) (sect + 1) bio s
      else (bio, s))"
  by pat_completeness auto
termination
  by (relation "measure (\<lambda>(rw, drive, l, sect, bio, s). bio_size bio - l)") (auto split: if_splits)

declare bio_loop.simps [simp del]

definition submit_bio :: "bio_rw \<Rightarrow> bio \<Rightarrow> 's disk_drive \<Rightarrow> 's \<Rightarrow> bio \<times> 's" where
  "submit_bio rw bio drive s = bio_loop rw drive 0 (bio_sect bio) bio s"

section \<open>Partitions\<close>

abbreviation (input) MBR_PART_TAB_OFF :: nat where "MBR_PART_TAB_OFF \<equiv> 0x1BE"
abbreviation (input) LABEL_NAME_SIZE :: u32 where "LABEL_NAME_SIZE \<equiv> 32"

record msdos_part =
  boot_flag :: u8
  chs_start :: "u8 list"
  dos_type :: u8
  chs_end :: "u8 list"
  lba_start :: u32
  lba_size :: u32

definition dos_pt :: "(nat \<Rightarrow> u8) \<Rightarrow> nat \<Rightarrow> msdos_part" where
  "dos_pt m i = (let a = MBR_PART_TAB_OFF + 16 * i in
     \<lparr>boot_flag = m a, chs_start = window m (a + 1) 3, dos_type = m (a + 4), chs_end = window m (a + 5) 3,
      lba_start = load32 m (a + 8), lba_size = load32 m (a + 12)\<rparr>)"

text \<open>\<open>stack\<close> is what the array of \<^verbatim>\<open>sect_size\<close> bytes holds at first, which stays when the sector cannot be read.\<close>

definition msdos_part_scan :: "'s disk_drive \<Rightarrow> (nat \<Rightarrow> u8) \<Rightarrow> 's \<Rightarrow> part_attr list \<times> 's" where
  "msdos_part_scan drive stack s =
     (let (ret, buff, s) = get_block drive 0 stack s
      in (map (\<lambda>p. \<lparr>part_base = lba_start p * sect_size drive, part_size = lba_size p * sect_size drive, part_label = [], part_flags = 0\<rparr>)
            (takeWhile (\<lambda>p. lba_size p \<noteq> 0) (map (dos_pt buff) [0..<4])), s))"

definition drive_get_block :: "'s disk_drive \<Rightarrow> u32 \<Rightarrow> u32 \<Rightarrow> (nat \<Rightarrow> u8) \<Rightarrow> 's \<Rightarrow> int \<times> (nat \<Rightarrow> u8) \<times> 's" where
  "drive_get_block master base start buff s = get_block master (base + start) buff s"

definition drive_put_block :: "'s disk_drive \<Rightarrow> u32 \<Rightarrow> u32 \<Rightarrow> (nat \<Rightarrow> u8) \<Rightarrow> 's \<Rightarrow> int \<times> 's" where
  "drive_put_block master base start buff s = put_block master (base + start) buff s"

definition slave_drive :: "'s disk_drive \<Rightarrow> string \<Rightarrow> part_attr \<Rightarrow> 's disk_drive" where
  "slave_drive drive name p =
     \<lparr>drive_bdev = \<lparr>bdev_name = name, bdev_flags = 0, bdev_base = part_base p, bdev_size = part_size p, bdev_label = []\<rparr>,
      sect_size = sect_size drive, get_block = drive_get_block drive (part_base p), put_block = drive_put_block drive (part_base p)\<rparr>"

text \<open>The drives that are registered, each with its partitions, and all block devices.\<close>

record 's disk_sys =
  drives :: "('s disk_drive \<times> 's disk_drive list) list"
  bdev_list :: "block_device list"

definition slave_name :: "string \<Rightarrow> nat \<Rightarrow> string option" where
  "slave_name name i = map_option (c_text \<circ> fst) (snprintf (\<lambda>_. name) LABEL_NAME_SIZE ''%sp%d'' (\<lambda>k. of_nat (i + 1)))"

fun register_slaves ::
  "'s disk_drive \<Rightarrow> nat \<Rightarrow> nat \<Rightarrow> part_attr list \<Rightarrow> int \<Rightarrow> 's disk_drive list \<Rightarrow> block_device list
     \<Rightarrow> (int \<times> 's disk_drive list \<times> block_device list) option" where
  "register_slaves drive i room [] ret slaves bdevs = Some (ret, slaves, bdevs)"
| "register_slaves drive i room (p # ps) ret slaves bdevs =
     (if room = 0 then Some (- ENOMEM, slaves, bdevs)
      else do {
        name \<leftarrow> slave_name (bdev_name (drive_bdev drive)) i;
        let slave = slave_drive drive name p;
        let (ret, bdevs) = block_device_register (drive_bdev slave) bdevs;
        register_slaves drive (i + 1) (room - 1) ps ret (slaves @ [slave]) bdevs })"

definition disk_drive_register :: "nat \<Rightarrow> 's disk_drive \<Rightarrow> (nat \<Rightarrow> u8) \<Rightarrow> 's disk_sys \<Rightarrow> 's \<Rightarrow> (int \<times> 's disk_sys \<times> 's) option" where
  "disk_drive_register room drive stack sys s = do {
     let (ret, bdevs) = block_device_register (drive_bdev drive) (bdev_list sys);
     let (parts, s) = msdos_part_scan drive stack s;
     (ret, slaves, bdevs) \<leftarrow> register_slaves drive 0 room parts ret [] bdevs;
     Some (ret, sys\<lparr>drives := drives sys @ [(drive, slaves)], bdev_list := bdevs\<rparr>, s) }"

section \<open>Sectors\<close>

text \<open>
  What the block layer relies on of a drive with \<open>n\<close> sectors of 512 bytes: reading fills the buffer from the content, writing changes the sector alone.
\<close>

locale sector_disk =
  fixes drive :: "'s disk_drive" and content :: "'s \<Rightarrow> nat \<Rightarrow> u8" and n :: nat
  assumes get: "k < n \<Longrightarrow> \<exists>s'. get_block drive (of_nat (512 * k)) m s = (0, store_bytes 0 (window (content s) (512 * k) 512) m, s') \<and> content s' = content s"
    and put: "k < n \<Longrightarrow> \<exists>s'. put_block drive (of_nat (512 * k)) m s = (0, s') \<and> content s' = store_bytes (512 * k) (window m 0 512) (content s)"
begin

lemma sector_number: "push_bit 9 (of_nat k :: u32) = of_nat (512 * k)"
  by (simp add: push_bit_eq_mult)

lemma put_back: "put_pos p (at_pos p m) m = m"
  by (auto simp: put_pos_def at_pos_def fun_eq_iff)

lemma read_sectors:
  assumes "k + j \<le> n" "l + 512 * j < bio_size bio + 512" "bio_size bio \<le> l + 512 * j"
  shows "\<exists>s'. bio_loop READ drive l (of_nat k) bio s = (bio\<lparr>bio_data := store_bytes l (window (content s) (512 * k) (512 * j)) (bio_data bio)\<rparr>, s')
     \<and> content s' = content s"
  using assms
proof (induction j arbitrary: k l bio s)
  case 0
  then show ?case by (subst bio_loop.simps) (simp add: window_def)
next
  case (Suc j)
  from Suc.prems(1) have k: "k < n" "Suc k + j \<le> n" by auto
  from get [OF k(1)] obtain s1 where s1: "get_block drive (of_nat (512 * k)) (at_pos l (bio_data bio)) s
      = (0, store_bytes 0 (window (content s) (512 * k) 512) (at_pos l (bio_data bio)), s1)" "content s1 = content s" by blast
  let ?bio = "bio\<lparr>bio_data := store_bytes l (window (content s) (512 * k) 512) (bio_data bio)\<rparr>"
  have sz: "l + 512 + 512 * j < bio_size ?bio + 512" "bio_size ?bio \<le> l + 512 + 512 * j" using Suc.prems(2,3) by simp_all
  from Suc.IH [OF k(2) sz, of s1] obtain s2 where
    s2: "bio_loop READ drive (l + 512) (of_nat (Suc k)) ?bio s1
       = (?bio\<lparr>bio_data := store_bytes (l + 512) (window (content s1) (512 * Suc k) (512 * j)) (bio_data ?bio)\<rparr>, s2)" "content s2 = content s1" by blast
  have "store_bytes (l + 512) (window (content s) (512 * Suc k) (512 * j)) (bio_data ?bio)
      = store_bytes l (window (content s) (512 * k) (512 * Suc j)) (bio_data bio)"
    using store_windows [of l 512 "content s" "512 * k" "512 * j" "bio_data bio"] by (simp add: algebra_simps)
  moreover have "bio_loop READ drive l (of_nat k) bio s = bio_loop READ drive (l + 512) (of_nat (Suc k)) ?bio s1"
    using Suc.prems(2) s1(1) by (subst bio_loop.simps) (simp add: sector_number put_at add.commute)
  ultimately show ?case using s2 s1(2) by simp
qed

lemma write_sectors:
  assumes "k + j \<le> n" "l + 512 * j < bio_size bio + 512" "bio_size bio \<le> l + 512 * j"
  shows "\<exists>s'. bio_loop WRITE drive l (of_nat k) bio s = (bio, s') \<and> content s' = store_bytes (512 * k) (window (bio_data bio) l (512 * j)) (content s)"
  using assms
proof (induction j arbitrary: k l s)
  case 0
  then show ?case by (subst bio_loop.simps) (simp add: window_def)
next
  case (Suc j)
  from Suc.prems(1) have k: "k < n" "Suc k + j \<le> n" by auto
  from put [OF k(1)] obtain s1 where s1: "put_block drive (of_nat (512 * k)) (at_pos l (bio_data bio)) s = (0, s1)"
      "content s1 = store_bytes (512 * k) (window (bio_data bio) l 512) (content s)" by fastforce
  have sz: "l + 512 + 512 * j < bio_size bio + 512" "bio_size bio \<le> l + 512 + 512 * j" using Suc.prems(2,3) by simp_all
  from Suc.IH [OF k(2) sz, of s1] obtain s2 where
    s2: "bio_loop WRITE drive (l + 512) (of_nat (Suc k)) bio s1 = (bio, s2)"
      "content s2 = store_bytes (512 * Suc k) (window (bio_data bio) (l + 512) (512 * j)) (content s1)" by blast
  have "content s2 = store_bytes (512 * k) (window (bio_data bio) l (512 * Suc j)) (content s)"
    using s1(2) s2(2) store_windows [of "512 * k" 512 "bio_data bio" l "512 * j" "content s"] by (simp add: algebra_simps)
  moreover have "bio_loop WRITE drive l (of_nat k) bio s = bio_loop WRITE drive (l + 512) (of_nat (Suc k)) bio s1"
    using Suc.prems(2) s1(1) by (subst bio_loop.simps) (simp add: sector_number put_back add.commute)
  ultimately show ?case using s2(1) by simp
qed

text \<open>A partition is a drive of its own, over its part of the content.\<close>

lemma partition:
  assumes "b + m \<le> n" "part_base p = of_nat (512 * b)"
  shows "sector_disk (slave_drive drive name p) (\<lambda>s. at_pos (512 * b) (content s)) m"
proof
  fix k buf s assume "k < m"
  then have k: "b + k < n" using assms(1) by simp
  have "part_base p + of_nat (512 * k) = (of_nat (512 * (b + k)) :: u32)" by (simp add: assms(2) algebra_simps)
  then show "\<exists>s'. get_block (slave_drive drive name p) (of_nat (512 * k)) buf s = (0, store_bytes 0 (window (at_pos (512 * b) (content s)) (512 * k) 512) buf, s')
      \<and> at_pos (512 * b) (content s') = at_pos (512 * b) (content s)"
    using get [OF k, of buf s] by (auto simp: slave_drive_def drive_get_block_def algebra_simps)
next
  fix k buf s assume "k < m"
  then have k: "b + k < n" using assms(1) by simp
  have "part_base p + of_nat (512 * k) = (of_nat (512 * (b + k)) :: u32)" by (simp add: assms(2) algebra_simps)
  then show "\<exists>s'. put_block (slave_drive drive name p) (of_nat (512 * k)) buf s = (0, s')
      \<and> at_pos (512 * b) (content s') = store_bytes (512 * k) (window buf 0 512) (at_pos (512 * b) (content s))"
    using put [OF k, of buf s] by (auto simp: slave_drive_def drive_put_block_def algebra_simps at_pos_def store_bytes_apply fun_eq_iff)
qed

end

lemma directive_vsnprintf_s:
  "directive Some (vsnprintf_conv strs para) para (CHR ''s'' # r) i = (Some (strs (para i)), r, i + 1)"
  by (simp add: directive_def vsnprintf_conv_def skip_l_def looking_at_def isdigit_def no_style_def put_text_def)

lemma slave_name_digit:
  assumes "i < 4"
  shows "slave_name name i = Some (c_text (take 31 (name @ [CHR ''p'', char_of (49 + i)])))"
proof -
  have "i = 0 \<or> i = 1 \<or> i = 2 \<or> i = 3" using assms by auto
  then have n: "num_to_ascii (of_nat (i + 1)) 0 10 no_style = [char_of (49 + i)]"
    by (elim disjE) (simp_all add: num_to_ascii_def no_style_def num_digits_step pdigit_def char_of_def bit_0)
  have sz: "sint (32 :: u32) = 32" by simp
  show ?thesis unfolding slave_name_def snprintf_def vsnprintf_def sz
    using n
    by (simp add: looking_at_def directive_vsnprintf_s directive_vsnprintf_number ch_num_def fold_IF_UNOVER IF_UNOVER_def take_Cons')
qed


section \<open>Partitions of a disk\<close>

lemma submit_bio_sectors:
  assumes "sector_disk drive content n" "bio_sect bio = of_nat k" "j = (bio_size bio + 511) div 512" "k + j \<le> n"
  shows "\<exists>s'. submit_bio READ bio drive s = (bio\<lparr>bio_data := store_bytes 0 (window (content s) (512 * k) (512 * j)) (bio_data bio)\<rparr>, s') \<and> content s' = content s"
    and "\<exists>s'. submit_bio WRITE bio drive s = (bio, s') \<and> content s' = store_bytes (512 * k) (window (bio_data bio) 0 (512 * j)) (content s)"
proof -
  have sz: "0 + 512 * j < bio_size bio + 512" "bio_size bio \<le> 0 + 512 * j" unfolding assms(3) by auto
  show "\<exists>s'. submit_bio READ bio drive s = (bio\<lparr>bio_data := store_bytes 0 (window (content s) (512 * k) (512 * j)) (bio_data bio)\<rparr>, s') \<and> content s' = content s"
    using sector_disk.read_sectors [OF assms(1,4) sz, of s] by (simp add: submit_bio_def assms(2))
  show "\<exists>s'. submit_bio WRITE bio drive s = (bio, s') \<and> content s' = store_bytes (512 * k) (window (bio_data bio) 0 (512 * j)) (content s)"
    using sector_disk.write_sectors [OF assms(1,4) sz, of s] by (simp add: submit_bio_def assms(2))
qed

text \<open>Through a partition, a request is the one for the drive with its sector moved.\<close>

lemma bio_loop_slave:
  "part_base p = push_bit 9 b \<Longrightarrow> bio_loop rw (slave_drive drive name p) l sect bio s = bio_loop rw drive l (b + sect) bio s"
proof (induction "bio_size bio - l" arbitrary: l sect bio s rule: less_induct)
  case less
  have shift: "part_base p + push_bit 9 sect = push_bit 9 (b + sect)" using less.prems by (simp add: push_bit_eq_mult algebra_simps)
  show ?case
  proof (cases "l < bio_size bio")
    case True
    then have "bio_loop rw (slave_drive drive name p) (l + 512) (sect + 1) bio' s' = bio_loop rw drive (l + 512) (b + sect + 1) bio' s'"
      if "bio_size bio' = bio_size bio" for bio' s'
      using less(1) [of bio' "l + 512" "sect + 1" s'] less(2) that by (simp add: add.assoc)
    then show ?thesis using shift True
      by (subst (1 2) bio_loop.simps) (simp add: slave_drive_def drive_get_block_def drive_put_block_def Let_def split: prod.split)
  qed (simp add: bio_loop.simps)
qed

text \<open>
  C11. A partition is the part of the disk that its entry says. For every drive that reads and writes its sectors and every partition inside of it, writing
  through the partition changes the sectors of the request, counted from the start of the partition, and nothing else on the disk, and reading them through the partition
  gives back the bytes written, in whole sectors.
\<close>

theorem partition_roundtrip:
  assumes "sector_disk drive content n" "b + m \<le> n" "part_base p = of_nat (512 * b)"
    and "bio_sect bio = of_nat k" "j = (bio_size bio + 511) div 512" "k + j \<le> m"
  shows "\<exists>s'. submit_bio WRITE bio (slave_drive drive name p) s = (bio, s')
     \<and> content s' = store_bytes (512 * (b + k)) (window (bio_data bio) 0 (512 * j)) (content s)
     \<and> (\<exists>s''. submit_bio READ (bio\<lparr>bio_data := buf\<rparr>) (slave_drive drive name p) s'
          = (bio\<lparr>bio_data := store_bytes 0 (window (bio_data bio) 0 (512 * j)) buf\<rparr>, s'') \<and> content s'' = content s')"
proof -
  have base: "part_base p = push_bit 9 (of_nat b)" using assms(3) by (simp add: push_bit_eq_mult)
  have move: "submit_bio rw bio' (slave_drive drive name p) t = bio_loop rw drive 0 (of_nat (b + k)) bio' t" if "bio_sect bio' = of_nat k" for rw bio' t
    unfolding submit_bio_def that bio_loop_slave [OF base] by simp
  have sz: "0 + 512 * j < bio_size bio + 512" "bio_size bio \<le> 0 + 512 * j" unfolding assms(5) by auto
  have k: "b + k + j \<le> n" using assms(2,6) by simp
  from sector_disk.write_sectors [OF assms(1) k sz, of s] obtain s' where w: "bio_loop WRITE drive 0 (of_nat (b + k)) bio s = (bio, s')"
      "content s' = store_bytes (512 * (b + k)) (window (bio_data bio) 0 (512 * j)) (content s)" by blast
  let ?bio = "bio\<lparr>bio_data := buf\<rparr>"
  have sz': "0 + 512 * j < bio_size ?bio + 512" "bio_size ?bio \<le> 0 + 512 * j" using sz by simp_all
  have "window (content s') (512 * (b + k)) (512 * j) = window (bio_data bio) 0 (512 * j)"
    unfolding w(2) by (rule nth_equalityI) (simp_all add: window_def store_bytes_apply)
  with sector_disk.read_sectors [OF assms(1) k sz', of s'] w show ?thesis
    using move [OF assms(4)] move [of ?bio] assms(4) by auto
qed

text \<open>The first sector has a partition table with these starts and sizes, counted in sectors; behind the last used entry is an empty one.\<close>

definition mbr_table :: "(nat \<Rightarrow> u8) \<Rightarrow> (nat \<times> nat) list \<Rightarrow> bool" where
  "mbr_table m ps \<longleftrightarrow> length ps \<le> 4
     \<and> (\<forall>i<length ps. lba_start (dos_pt m i) = of_nat (fst (ps ! i)) \<and> lba_size (dos_pt m i) = of_nat (snd (ps ! i)) \<and> lba_size (dos_pt m i) \<noteq> 0)
     \<and> (length ps < 4 \<longrightarrow> lba_size (dos_pt m (length ps)) = 0)"

lemma takeWhile_table:
  assumes "mbr_table m ps"
  shows "takeWhile (\<lambda>p. lba_size p \<noteq> 0) (map (dos_pt m) [0..<4]) = map (dos_pt m) [0..<length ps]"
proof -
  have le: "length ps \<le> 4" using assms by (simp add: mbr_table_def)
  then have "[0..<4] = [0..<length ps] @ [length ps..<4]" using upt_add_eq_append [of 0 "length ps" "4 - length ps"] by simp
  moreover have "takeWhile (\<lambda>p. lba_size p \<noteq> 0) (map (dos_pt m) [length ps..<4]) = []"
    using assms le by (cases "length ps < 4") (auto simp: upt_rec mbr_table_def)
  moreover have "\<forall>p\<in>set (map (dos_pt m) [0..<length ps]). lba_size p \<noteq> 0" using assms by (auto simp: mbr_table_def)
  ultimately show ?thesis
    using takeWhile_append2 [of "map (dos_pt m) [0..<length ps]" "\<lambda>p. lba_size p \<noteq> 0" "map (dos_pt m) [length ps..<4]"] by auto
qed

definition slave_of :: "'s disk_drive \<Rightarrow> part_attr list \<Rightarrow> nat \<Rightarrow> 's disk_drive" where
  "slave_of drive ps i = slave_drive drive (c_text (take 31 (bdev_name (drive_bdev drive) @ [CHR ''p'', char_of (49 + i)]))) (ps ! i)"

lemma register_slaves_all:
  assumes "i + length qs \<le> 4" "length qs \<le> room" "drop i ps = qs" "ret = 0"
  shows "register_slaves drive i room qs ret slaves bdevs = Some (0, slaves @ map (slave_of drive ps) [i..<i + length qs],
     bdevs @ map (\<lambda>i. drive_bdev (slave_of drive ps i)) [i..<i + length qs])"
  using assms
proof (induction qs arbitrary: i room ret slaves bdevs)
  case (Cons q qs)
  have q: "ps ! i = q" "drop (Suc i) ps = qs" using Cons.prems(3) by (metis nth_via_drop, metis drop_Suc tl_drop list.sel(3))
  have name: "slave_name (bdev_name (drive_bdev drive)) i = Some (c_text (take 31 (bdev_name (drive_bdev drive) @ [CHR ''p'', char_of (49 + i)])))"
    using Cons.prems(1) by (intro slave_name_digit) simp
  have upt: "[i..<i + length (q # qs)] = i # [Suc i..<Suc i + length qs]" by (simp add: upt_conv_Cons del: upt_Suc)
  have "register_slaves drive i room (q # qs) ret slaves bdevs
      = register_slaves drive (Suc i) (room - 1) qs 0 (slaves @ [slave_of drive ps i]) (bdevs @ [drive_bdev (slave_of drive ps i)])"
    using Cons.prems(2) by (simp only: register_slaves.simps name slave_of_def q(1)) (simp add: block_device_register_def Let_def)
  with Cons.IH [of "Suc i" "room - 1" 0 "slaves @ [slave_of drive ps i]" "bdevs @ [drive_bdev (slave_of drive ps i)]"] Cons.prems(1,2) q(2) show ?case
    unfolding upt by (simp del: upt_Suc)
qed simp

text \<open>
  C12. Registering a disk registers its partitions. For every drive whose first sector holds a table of up to four partitions inside of the drive,
  and with enough memory, registering succeeds, leaves the disk as it is, and adds the drive and then one device for each entry, with the place and
  the size of the entry in bytes. Inside of its size, each of these devices is a disk whose contents are its part of the drive's. Any request, also one outside of
  the size, goes to the drive with the place of the partition added to its address: nothing compares it with the size, so a
  request behind the end of a partition reaches the one that follows.
\<close>

theorem disk_drive_partitions:
  assumes "sector_disk drive content n" "0 < n" "sect_size drive = 512" "mbr_table (content s) ps" "length ps \<le> room"
    and "\<forall>i<length ps. fst (ps ! i) + snd (ps ! i) \<le> n"
  shows "\<exists>sys' s' slaves. disk_drive_register room drive stack sys s = Some (0, sys', s') \<and> content s' = content s
     \<and> drives sys' = drives sys @ [(drive, slaves)] \<and> bdev_list sys' = bdev_list sys @ drive_bdev drive # map drive_bdev slaves \<and> length slaves = length ps
     \<and> (\<forall>i<length ps. bdev_base (drive_bdev (slaves ! i)) = of_nat (512 * fst (ps ! i)) \<and> bdev_size (drive_bdev (slaves ! i)) = of_nat (512 * snd (ps ! i))
         \<and> sector_disk (slaves ! i) (\<lambda>s. at_pos (512 * fst (ps ! i)) (content s)) (snd (ps ! i))
         \<and> (\<forall>a m t. get_block (slaves ! i) a m t = get_block drive (of_nat (512 * fst (ps ! i)) + a) m t
             \<and> put_block (slaves ! i) a m t = put_block drive (of_nat (512 * fst (ps ! i)) + a) m t))"
proof -
  obtain s' where s': "get_block drive 0 stack s = (0, store_bytes 0 (window (content s) 0 512) stack, s')" "content s' = content s"
    using sector_disk.get [OF assms(1,2), of stack s] by auto
  let ?m = "store_bytes 0 (window (content s) 0 512) stack"
  have same: "?m i = content s i" if "i < 512" for i using that by (simp add: store_bytes_apply window_def)
  have pt: "lba_start (dos_pt ?m i) = lba_start (dos_pt (content s) i)" "lba_size (dos_pt ?m i) = lba_size (dos_pt (content s) i)" if "i < 4" for i
    using that by (simp_all add: dos_pt_def Let_def load32_def same)
  have table: "mbr_table ?m ps" using assms(4) pt by (auto simp: mbr_table_def)
  let ?as = "map (\<lambda>p. \<lparr>part_base = lba_start p * sect_size drive, part_size = lba_size p * sect_size drive, part_label = [], part_flags = 0\<rparr>) (map (dos_pt ?m) [0..<length ps])"
  have le: "length ps \<le> 4" using table by (simp add: mbr_table_def)
  let ?slaves = "map (slave_of drive ?as) [0..<length ps]"
  have "register_slaves drive 0 room ?as 0 [] (bdev_list sys @ [drive_bdev drive])
      = Some (0, ?slaves, (bdev_list sys @ [drive_bdev drive]) @ map drive_bdev ?slaves)"
    using register_slaves_all [of 0 ?as room ?as 0 drive "[]" "bdev_list sys @ [drive_bdev drive]"] le assms(5) by (simp add: comp_def)
  then have reg: "disk_drive_register room drive stack sys s
      = Some (0, sys\<lparr>drives := drives sys @ [(drive, ?slaves)], bdev_list := bdev_list sys @ drive_bdev drive # map drive_bdev ?slaves\<rparr>, s')"
    by (simp add: disk_drive_register_def block_device_register_def msdos_part_scan_def s'(1) takeWhile_table [OF table])
  have at: "part_base (?as ! i) = of_nat (512 * fst (ps ! i))" "part_size (?as ! i) = of_nat (512 * snd (ps ! i))" if "i < length ps" for i
    using that table assms(3) by (simp_all add: mbr_table_def)
  have disk: "sector_disk (?slaves ! i) (\<lambda>s. at_pos (512 * fst (ps ! i)) (content s)) (snd (ps ! i))" if "i < length ps" for i
    using that assms(6) sector_disk.partition [OF assms(1) _ at(1) [OF that]] by (simp add: slave_of_def)
  have "bdev_base (drive_bdev (?slaves ! i)) = of_nat (512 * fst (ps ! i))" "bdev_size (drive_bdev (?slaves ! i)) = of_nat (512 * snd (ps ! i))"
    if "i < length ps" for i using that at [OF that] by (simp_all add: slave_of_def slave_drive_def)
  moreover have "get_block (?slaves ! i) a m t = get_block drive (of_nat (512 * fst (ps ! i)) + a) m t"
    "put_block (?slaves ! i) a m t = put_block drive (of_nat (512 * fst (ps ! i)) + a) m t" if "i < length ps" for i a m t
    using that at(1) [OF that] by (simp_all add: slave_of_def slave_drive_def drive_get_block_def drive_put_block_def)
  ultimately show ?thesis using disk reg s'(2)
    by (intro exI [of _ "sys\<lparr>drives := drives sys @ [(drive, ?slaves)], bdev_list := bdev_list sys @ drive_bdev drive # map drive_bdev ?slaves\<rparr>"]
        exI [of _ s'] exI [of _ ?slaves] conjI) auto
qed

text \<open>A disk in memory with 16 sectors, and a partition of it.\<close>

definition ram_drive :: "(nat \<Rightarrow> u8) disk_drive" where
  "ram_drive = \<lparr>drive_bdev = \<lparr>bdev_name = ''ram'', bdev_flags = 0, bdev_base = 0, bdev_size = 8192, bdev_label = []\<rparr>, sect_size = 512,
     get_block = (\<lambda>a m s. (0, store_bytes 0 (window s (unat a) 512) m, s)), put_block = (\<lambda>a m s. (0, store_bytes (unat a) (window m 0 512) s))\<rparr>"

definition ram_part :: part_attr where
  "ram_part = \<lparr>part_base = 1024, part_size = 4096, part_label = [], part_flags = 0\<rparr>"

lemma ram_address: "k < 16 \<Longrightarrow> unat (512 * of_nat k :: u32) = 512 * k"
  using unat_of_nat [of "512 * k", where 'a = 32] by simp

interpretation ram: sector_disk ram_drive "\<lambda>s. s" 16
  by unfold_locales (simp_all add: ram_drive_def ram_address)

interpretation ram_slave: sector_disk "slave_drive ram_drive ''ramp1'' ram_part" "at_pos (512 * 2)" 8
  using ram.partition [of 2 8 ram_part "''ramp1''"] by (simp add: ram_part_def)

definition ram_mbr :: "nat \<Rightarrow> u8" where
  "ram_mbr = (\<lambda>_. 0)(454 := 2, 458 := 8)"

theorem disk_drive_partitions_witness:
  "\<exists>sys' s' slaves. disk_drive_register 3 ram_drive (\<lambda>_. 7) \<lparr>drives = [], bdev_list = []\<rparr> ram_mbr = Some (0, sys', s')
     \<and> drives sys' = [(ram_drive, slaves)] \<and> length slaves = 1 \<and> bdev_base (drive_bdev (slaves ! 0)) = 1024 \<and> bdev_size (drive_bdev (slaves ! 0)) = 4096
     \<and> put_block (slaves ! 0) 4096 (\<lambda>_. 1) ram_mbr = (0, store_bytes 5120 (replicate 512 1) ram_mbr)"
proof -
  have "mbr_table ram_mbr [(2, 8)]" by (simp add: mbr_table_def dos_pt_def ram_mbr_def load32_def)
  moreover have "sect_size ram_drive = 512" by (simp add: ram_drive_def)
  moreover have "put_block ram_drive (1024 + 4096) (\<lambda>_. 1) ram_mbr = (0, store_bytes 5120 (replicate 512 1) ram_mbr)"
    by (simp add: ram_drive_def window_def map_replicate_trivial)
  ultimately show ?thesis
    using disk_drive_partitions [OF ram.sector_disk_axioms, of ram_mbr "[(2, 8)]" 3 "\<lambda>_. 7" "\<lparr>drives = [], bdev_list = []\<rparr>"] by fastforce
qed

theorem partition_roundtrip_witness:
  "\<exists>s'. submit_bio WRITE \<lparr>bio_data = (\<lambda>i. of_nat i), bio_size = 700, bio_sect = 3, bio_flags = 0\<rparr> (slave_drive ram_drive ''ramp1'' ram_part) (\<lambda>_. 0)
     = (\<lparr>bio_data = (\<lambda>i. of_nat i), bio_size = 700, bio_sect = 3, bio_flags = 0\<rparr>, s')
     \<and> s' = store_bytes 2560 (window (\<lambda>i. of_nat i) 0 1024) (\<lambda>_. 0)"
proof -
  let ?bio = "\<lparr>bio_data = (\<lambda>i. of_nat i), bio_size = 700, bio_sect = 3, bio_flags = 0\<rparr>"
  have "part_base ram_part = of_nat (512 * 2)" "bio_sect ?bio = of_nat 3" by (simp_all add: ram_part_def)
  moreover have "2 + 8 \<le> (16 :: nat)" "2 = (bio_size ?bio + 511) div 512" "3 + 2 \<le> (8 :: nat)" by simp_all
  ultimately obtain s' where
    "submit_bio WRITE ?bio (slave_drive ram_drive ''ramp1'' ram_part) (\<lambda>_. 0) = (?bio, s')"
    "s' = store_bytes (512 * (2 + 3)) (window (bio_data ?bio) 0 (512 * 2)) (\<lambda>_. 0)"
    using partition_roundtrip [OF ram.sector_disk_axioms, of 2 8 ram_part ?bio 3 2 "''ramp1''" "\<lambda>_. 0" "\<lambda>_. 0"] by blast
  then show ?thesis by (intro exI [of _ s']) simp
qed

end
