(* ===== verification/NandChip.thy ===== *)
theory NandChip
  imports Loader NandEcc "HOL-Library.Monad_Syntax"
begin

unbundle bit_operations_syntax

text \<open>
  The NAND layer below whole transfers (\<^verbatim>\<open>driver/flash/nand/nand_core.c\<close>, \<^verbatim>\<open>include/mtd/nand.h\<close>): commands and data on the bus, pages with
  and without error-correcting code, spare bytes. The functions of a board's driver are a parameter, the record \<open>nand_bus\<close>, over a state \<open>'b\<close>
  of its own; delays are left out. Buffers of callers are memories from their first byte on. \<open>None\<close> is \<^verbatim>\<open>BUG()\<close>, a null pointer, or a wait that does not end.
\<close>

section \<open>The bus\<close>

abbreviation (input) NAND_CMMD_READ0 :: int where "NAND_CMMD_READ0 \<equiv> 0x00"
abbreviation (input) NAND_CMMD_READ1 :: int where "NAND_CMMD_READ1 \<equiv> 0x01"
abbreviation (input) NAND_CMMD_RNDOUT :: int where "NAND_CMMD_RNDOUT \<equiv> 0x05"
abbreviation (input) NAND_CMMD_PAGEPROG :: int where "NAND_CMMD_PAGEPROG \<equiv> 0x10"
abbreviation (input) NAND_CMMD_CACHEDPROG :: int where "NAND_CMMD_CACHEDPROG \<equiv> 0x15"
abbreviation (input) NAND_CMMD_READSTART :: int where "NAND_CMMD_READSTART \<equiv> 0x30"
abbreviation (input) NAND_CMMD_READOOB :: int where "NAND_CMMD_READOOB \<equiv> 0x50"
abbreviation (input) NAND_CMMD_ERASE1 :: int where "NAND_CMMD_ERASE1 \<equiv> 0x60"
abbreviation (input) NAND_CMMD_STATUS :: int where "NAND_CMMD_STATUS \<equiv> 0x70"
abbreviation (input) NAND_CMMD_STATUS_MULTI :: int where "NAND_CMMD_STATUS_MULTI \<equiv> 0x71"
abbreviation (input) NAND_CMMD_SEQIN :: int where "NAND_CMMD_SEQIN \<equiv> 0x80"
abbreviation (input) NAND_CMMD_RNDIN :: int where "NAND_CMMD_RNDIN \<equiv> 0x85"
abbreviation (input) NAND_CMMD_READID :: int where "NAND_CMMD_READID \<equiv> 0x90"
abbreviation (input) NAND_CMMD_ERASE2 :: int where "NAND_CMMD_ERASE2 \<equiv> 0xd0"
abbreviation (input) NAND_CMMD_RNDOUTSTART :: int where "NAND_CMMD_RNDOUTSTART \<equiv> 0xE0"
abbreviation (input) NAND_CMMD_RESET :: int where "NAND_CMMD_RESET \<equiv> 0xff"
abbreviation (input) NAND_CMMD_DEPLETE1 :: int where "NAND_CMMD_DEPLETE1 \<equiv> 0x100"
abbreviation (input) NAND_CMMD_NONE :: int where "NAND_CMMD_NONE \<equiv> - 1"

abbreviation (input) NAND_STATUS_FAIL :: u8 where "NAND_STATUS_FAIL \<equiv> 0x01"
abbreviation (input) NAND_STATUS_READY :: u8 where "NAND_STATUS_READY \<equiv> 0x40"
abbreviation (input) NAND_STATUS_WP :: u8 where "NAND_STATUS_WP \<equiv> 0x80"

abbreviation (input) NAND_NO_AUTOINCR :: nat where "NAND_NO_AUTOINCR \<equiv> 0x00000001"
abbreviation (input) NAND_BUSWIDTH_16 :: nat where "NAND_BUSWIDTH_16 \<equiv> 0x00000002"
abbreviation (input) NAND_IS_AND :: nat where "NAND_IS_AND \<equiv> 0x00000020"
abbreviation (input) NAND_4PAGE_ARRAY :: nat where "NAND_4PAGE_ARRAY \<equiv> 0x00000040"
abbreviation (input) BBT_AUTO_REFRESH :: nat where "BBT_AUTO_REFRESH \<equiv> 0x00000080"
abbreviation (input) NAND_NO_READRDY :: nat where "NAND_NO_READRDY \<equiv> 0x00000100"
abbreviation (input) NAND_USE_FLASH_BBT :: nat where "NAND_USE_FLASH_BBT \<equiv> 0x00010000"
abbreviation (input) NAND_SKIP_BBTSCAN :: nat where "NAND_SKIP_BBTSCAN \<equiv> 0x00020000"
abbreviation (input) NAND_OWN_BUFFERS :: nat where "NAND_OWN_BUFFERS \<equiv> 0x00040000"

abbreviation (input) SOFT_ECC_DATA_LEN :: nat where "SOFT_ECC_DATA_LEN \<equiv> 256"
abbreviation (input) SOFT_ECC_CODE_NUM :: nat where "SOFT_ECC_CODE_NUM \<equiv> 3"
abbreviation (input) NAND_ECC_READ :: nat where "NAND_ECC_READ \<equiv> 0"
abbreviation (input) NAND_ECC_WRITE :: nat where "NAND_ECC_WRITE \<equiv> 1"

text \<open>The functions of a driver: registers, the ready line, and the error correction of the controller.\<close>

record 'b hw_ecc =
  ecc_enable :: "nat \<Rightarrow> 'b \<Rightarrow> 'b"
  ecc_generate :: "(nat \<Rightarrow> u8) \<Rightarrow> 'b \<Rightarrow> u8 list \<times> 'b"
  ecc_correct :: "(nat \<Rightarrow> u8) \<Rightarrow> (nat \<Rightarrow> u8) \<Rightarrow> (nat \<Rightarrow> u8) \<Rightarrow> int \<times> (nat \<Rightarrow> u8)"

record 'b nand_bus =
  wr_cmmd :: "u8 \<Rightarrow> 'b \<Rightarrow> 'b"
  wr_addr :: "u8 \<Rightarrow> 'b \<Rightarrow> 'b"
  rd_data :: "'b \<Rightarrow> u8 \<times> 'b"
  wr_data :: "u8 \<Rightarrow> 'b \<Rightarrow> 'b"
  rd_data16 :: "'b \<Rightarrow> u16 \<times> 'b"
  wr_data16 :: "u16 \<Rightarrow> 'b \<Rightarrow> 'b"
  flash_ready :: "('b \<Rightarrow> bool \<times> 'b) option"
  hw :: "'b hw_ecc option"

section \<open>Chips\<close>

record nand_oob_layout =
  ecc_pos :: "nat list"
  free_region :: "(nat \<times> nat) list"
  free_oob_sum :: nat

definition g_oob8_layout :: nand_oob_layout where
  "g_oob8_layout = \<lparr>ecc_pos = [0, 1, 2], free_region = [(3, 2), (6, 2)], free_oob_sum = 0\<rparr>"

definition g_oob16_layout :: nand_oob_layout where
  "g_oob16_layout = \<lparr>ecc_pos = [0, 1, 2, 3, 6, 7], free_region = [(8, 8)], free_oob_sum = 0\<rparr>"

definition g_oob64_layout :: nand_oob_layout where
  "g_oob64_layout = \<lparr>ecc_pos = [40..<64], free_region = [(2, 38)], free_oob_sum = 0\<rparr>"

text \<open>Elements of the array behind its initialisers are zero.\<close>

definition ecc_pos_at :: "nand_oob_layout \<Rightarrow> nat \<Rightarrow> nat" where
  "ecc_pos_at lay i = (if i < length (ecc_pos lay) then ecc_pos lay ! i else 0)"

datatype ECC_MODE = NAND_ECC_NONE | NAND_ECC_SW | NAND_ECC_HW | NAND_ECC_YAFFS2

datatype NAND_STATE = FL_READY | FL_READING | FL_WRITING | FL_ERASING | FL_SYNCING | FL_CACHEDPRG | FL_PM_SUSPENDED

text \<open>Which of the functions the pointers of \<^verbatim>\<open>struct nand_ctrl\<close> hold.\<close>

datatype command_fn = COMMAND_SMALL | COMMAND_LARGE
datatype page_fn = PAGE_RAW | PAGE_SWECC | PAGE_HWECC
datatype erase_fn = ERASE_ONE | ERASE_EX

record nand_ctrl =
  slaves :: nat
  max_slaves :: nat
  state :: NAND_STATE
  command :: command_fn
  page_access :: page_fn
  erase_block :: erase_fn
  wide :: bool
  ecc_mode :: ECC_MODE
  hard_oob_layout :: "nand_oob_layout option"
  soft_oob_layout :: "nand_oob_layout option"
  curr_oob_layout :: "nand_oob_layout option"
  ecc_data_len :: nat
  ecc_code_len :: nat

record mtd_oob_ops =
  mode :: OOB_MODE
  len :: nat
  retlen :: nat
  ooblen :: nat
  oobretlen :: nat
  ooboffs :: nat
  datbuf :: "(nat \<Rightarrow> u8) option"
  oobbuf :: "(nat \<Rightarrow> u8) option"

text \<open>The calls of \<^verbatim>\<open>callback_func\<close>, made when it and its arguments are set, are recorded.\<close>

record mtd_info =
  write_size :: nat
  erase_size :: nat
  chip_size :: nat
  write_shift :: nat
  erase_shift :: nat
  chip_shift :: nat
  oob_size :: nat
  ecc_correct_count :: u32
  ecc_failed_count :: u32
  badblocks :: u32
  bbtblocks :: u32
  bad_allow :: bool
  callback :: bool
  called :: "(nat \<times> nat) list"

text \<open>Descriptors of bad-block tables; those in use are globals of the code, one chip uses them.\<close>

record nand_bad_blk =
  bb_flags :: nat
  bb_pages :: "nat \<Rightarrow> int"
  bb_offs :: nat
  veroffs :: nat
  bb_len :: nat
  maxblocks :: nat
  reserved_block_code :: u8
  bb_version :: "nat \<Rightarrow> u8"
  bb_pattern :: "u8 list"

record nand_chip = mtd_info +
  master :: nand_ctrl
  device_id :: nat
  vendor_id :: nat
  flags :: nat
  phy_erase_shift :: nat
  bbt_erase_shift :: nat
  page_num_mask :: nat
  page_in_buff :: int
  bad_blk_oob_pos :: nat
  opt :: mtd_oob_ops
  oob_buf :: "nat \<Rightarrow> u8"
  ecccalc :: "nat \<Rightarrow> u8"
  ecccode :: "nat \<Rightarrow> u8"
  bus_idx :: nat
  bbt :: "(nat \<Rightarrow> u8) option"
  bbt_td :: "nand_bad_blk option"
  bbt_md :: "nand_bad_blk option"
  bad_blk_patt :: "nand_bad_blk option"
  mark_len :: u32

section \<open>Commands and data\<close>

definition nand_cmd_ctrl :: "'b nand_bus \<Rightarrow> int \<Rightarrow> bool \<Rightarrow> 'b \<Rightarrow> 'b" where
  "nand_cmd_ctrl bus arg cle b =
     (if arg = NAND_CMMD_NONE then b else if cle then wr_cmmd bus (of_int arg) b else wr_addr bus (of_int arg) b)"

definition nand_chipsel :: "'b nand_bus \<Rightarrow> bool \<Rightarrow> 'b \<Rightarrow> 'b" where
  "nand_chipsel bus chip_select b = (if \<not> chip_select then nand_cmd_ctrl bus NAND_CMMD_NONE False b else b)"

definition nand_release_chip :: "'b nand_bus \<Rightarrow> nand_chip \<Rightarrow> 'b \<Rightarrow> nand_chip \<times> 'b" where
  "nand_release_chip bus c b = (c\<lparr>master := (master c)\<lparr>state := FL_READY\<rparr>\<rparr>, nand_chipsel bus False b)"

text \<open>\<^verbatim>\<open>nand_read_u8\<close>, \<^verbatim>\<open>nand_read_u16\<close> and \<^verbatim>\<open>nand_read_u16ex\<close>.\<close>

definition read_byte :: "'b nand_bus \<Rightarrow> nand_chip \<Rightarrow> 'b \<Rightarrow> u8 \<times> 'b" where
  "read_byte bus c b = (if wide (master c) then let (w, b) = rd_data16 bus b in (ucast w, b) else rd_data bus b)"

definition read_word :: "'b nand_bus \<Rightarrow> 'b \<Rightarrow> u16 \<times> 'b" where
  "read_word bus b = rd_data16 bus b"

fun nand_read_buff :: "'b nand_bus \<Rightarrow> nat \<Rightarrow> 'b \<Rightarrow> u8 list \<times> 'b" where
  "nand_read_buff bus 0 b = ([], b)"
| "nand_read_buff bus (Suc n) b = (let (d, b) = rd_data bus b; (ds, b) = nand_read_buff bus n b in (d # ds, b))"

definition nand_write_buff :: "'b nand_bus \<Rightarrow> u8 list \<Rightarrow> 'b \<Rightarrow> 'b" where
  "nand_write_buff bus ds b = fold (wr_data bus) ds b"

fun nand_verify_buff :: "'b nand_bus \<Rightarrow> u8 list \<Rightarrow> 'b \<Rightarrow> int \<times> 'b" where
  "nand_verify_buff bus [] b = (0, b)"
| "nand_verify_buff bus (d # ds) b = (let (e, b) = rd_data bus b in if d \<noteq> e then (- EFAULT, b) else nand_verify_buff bus ds b)"

text \<open>The functions for a bus of 16 bits: half as many words, an odd byte at the end is left out.\<close>

fun words16 :: "u8 list \<Rightarrow> u16 list" where
  "words16 (l # h # ds) = (ucast l OR push_bit 8 (ucast h)) # words16 ds"
| "words16 _ = []"

fun nand_read_words :: "'b nand_bus \<Rightarrow> nat \<Rightarrow> 'b \<Rightarrow> u8 list \<times> 'b" where
  "nand_read_words bus 0 b = ([], b)"
| "nand_read_words bus (Suc n) b =
     (let (w, b) = rd_data16 bus b; (ds, b) = nand_read_words bus n b in (ucast w # ucast (drop_bit 8 w) # ds, b))"

definition nand_read_buff16 :: "'b nand_bus \<Rightarrow> nat \<Rightarrow> 'b \<Rightarrow> u8 list \<times> 'b" where
  "nand_read_buff16 bus n b = nand_read_words bus (n div 2) b"

definition nand_write_buff16 :: "'b nand_bus \<Rightarrow> u8 list \<Rightarrow> 'b \<Rightarrow> 'b" where
  "nand_write_buff16 bus ds b = fold (wr_data16 bus) (words16 ds) b"

fun verify_words :: "'b nand_bus \<Rightarrow> u16 list \<Rightarrow> 'b \<Rightarrow> int \<times> 'b" where
  "verify_words bus [] b = (0, b)"
| "verify_words bus (d # ds) b = (let (e, b) = rd_data16 bus b in if d \<noteq> e then (- EFAULT, b) else verify_words bus ds b)"

definition nand_verify_buff16 :: "'b nand_bus \<Rightarrow> u8 list \<Rightarrow> 'b \<Rightarrow> int \<times> 'b" where
  "nand_verify_buff16 bus ds b = verify_words bus (words16 ds) b"

definition read_buff :: "'b nand_bus \<Rightarrow> nand_chip \<Rightarrow> nat \<Rightarrow> 'b \<Rightarrow> u8 list \<times> 'b" where
  "read_buff bus c n b = (if wide (master c) then nand_read_buff16 bus n b else nand_read_buff bus n b)"

definition write_buff :: "'b nand_bus \<Rightarrow> nand_chip \<Rightarrow> u8 list \<Rightarrow> 'b \<Rightarrow> 'b" where
  "write_buff bus c ds b = (if wide (master c) then nand_write_buff16 bus ds b else nand_write_buff bus ds b)"

fun poll_ready :: "nat \<Rightarrow> ('b \<Rightarrow> bool \<times> 'b) \<Rightarrow> 'b \<Rightarrow> 'b" where
  "poll_ready 0 r b = b"
| "poll_ready (Suc k) r b = (let (ok, b) = r b in if ok then b else poll_ready k r b)"

definition nand_wait_ready :: "'b nand_bus \<Rightarrow> 'b \<Rightarrow> 'b option" where
  "nand_wait_ready bus b = (case flash_ready bus of None \<Rightarrow> None | Some r \<Rightarrow> Some (poll_ready 10 r b))"

text \<open>After a reset, without a ready line: until the status says so.\<close>

partial_function (option) wait_status :: "'b nand_bus \<Rightarrow> nand_chip \<Rightarrow> 'b \<Rightarrow> 'b option" where
  "wait_status bus c b = (let (s, b) = read_byte bus c b in if s AND NAND_STATUS_READY = 0 then wait_status bus c b else Some b)"

definition bus_col :: "nand_chip \<Rightarrow> int \<Rightarrow> int" where
  "bus_col c col = (if flags c AND NAND_BUSWIDTH_16 \<noteq> 0 then drop_bit 1 col else col)"

definition nand_command_small :: "'b nand_bus \<Rightarrow> nand_chip \<Rightarrow> int \<Rightarrow> int \<Rightarrow> int \<Rightarrow> 'b \<Rightarrow> 'b option" where
  "nand_command_small bus c cmd col row b =
     (let (col, b) =
        (if cmd = NAND_CMMD_SEQIN
         then if col \<ge> int (write_size c) then (col - int (write_size c), nand_cmd_ctrl bus NAND_CMMD_READOOB True b)
              else if col < 256 then (col, nand_cmd_ctrl bus NAND_CMMD_READ0 True b)
              else (col - 256, nand_cmd_ctrl bus NAND_CMMD_READ1 True b)
         else (col, b));
        b = nand_cmd_ctrl bus cmd True b;
        b = (if col \<noteq> - 1 then nand_cmd_ctrl bus (bus_col c col) False b else b);
        b = (if row \<noteq> - 1
             then let b = nand_cmd_ctrl bus row False b; b = nand_cmd_ctrl bus (drop_bit 8 row) False b
                  in if chip_size c > 2 ^ 25 then nand_cmd_ctrl bus (drop_bit 16 row) False b else b
             else b);
        b = nand_cmd_ctrl bus NAND_CMMD_NONE False b
      in if cmd \<in> {NAND_CMMD_PAGEPROG, NAND_CMMD_ERASE1, NAND_CMMD_ERASE2, NAND_CMMD_SEQIN, NAND_CMMD_STATUS} then Some b
         else if flash_ready bus = None
         then if cmd = NAND_CMMD_RESET
              then wait_status bus c (nand_cmd_ctrl bus NAND_CMMD_NONE False (nand_cmd_ctrl bus NAND_CMMD_STATUS True b))
              else Some b
         else nand_wait_ready bus b)"

definition nand_command_large :: "'b nand_bus \<Rightarrow> nand_chip \<Rightarrow> int \<Rightarrow> int \<Rightarrow> int \<Rightarrow> 'b \<Rightarrow> 'b option" where
  "nand_command_large bus c cmd col row b =
     (let (cmd, col) = (if cmd = NAND_CMMD_READOOB then (NAND_CMMD_READ0, col + int (write_size c)) else (cmd, col));
        b = nand_cmd_ctrl bus (cmd AND 0xFF) True b;
        b = (if col \<noteq> - 1
             then nand_cmd_ctrl bus (drop_bit 8 (bus_col c col)) False (nand_cmd_ctrl bus (bus_col c col) False b) else b);
        b = (if row \<noteq> - 1
             then let b = nand_cmd_ctrl bus row False b; b = nand_cmd_ctrl bus (drop_bit 8 row) False b
                  in if chip_size c > 2 ^ 27 then nand_cmd_ctrl bus (drop_bit 16 row) False b else b
             else b);
        b = nand_cmd_ctrl bus NAND_CMMD_NONE False b
      in if cmd \<in> {NAND_CMMD_CACHEDPROG, NAND_CMMD_PAGEPROG, NAND_CMMD_ERASE1, NAND_CMMD_ERASE2, NAND_CMMD_SEQIN, NAND_CMMD_RNDIN,
                   NAND_CMMD_STATUS, NAND_CMMD_DEPLETE1} \<union> {0x72..0x76} then Some b
         else if cmd = NAND_CMMD_RESET \<and> flash_ready bus = None
         then wait_status bus c (nand_cmd_ctrl bus NAND_CMMD_NONE False (nand_cmd_ctrl bus NAND_CMMD_STATUS True b))
         else if cmd = NAND_CMMD_RNDOUT
         then Some (nand_cmd_ctrl bus NAND_CMMD_NONE False (nand_cmd_ctrl bus NAND_CMMD_RNDOUTSTART True b))
         else let b = (if cmd = NAND_CMMD_READ0
                       then nand_cmd_ctrl bus NAND_CMMD_NONE False (nand_cmd_ctrl bus NAND_CMMD_READSTART True b) else b)
              in if flash_ready bus = None then Some b else nand_wait_ready bus b)"

definition nand_command :: "'b nand_bus \<Rightarrow> nand_chip \<Rightarrow> int \<Rightarrow> int \<Rightarrow> int \<Rightarrow> 'b \<Rightarrow> 'b option" where
  "nand_command bus c cmd col row b =
     (case command (master c) of COMMAND_SMALL \<Rightarrow> nand_command_small bus c cmd col row b
      | COMMAND_LARGE \<Rightarrow> nand_command_large bus c cmd col row b)"

text \<open>The ten rounds of \<^verbatim>\<open>nand_wait\<close>: the ready line, or else the status.\<close>

fun poll_status :: "nat \<Rightarrow> 'b nand_bus \<Rightarrow> nand_chip \<Rightarrow> 'b \<Rightarrow> 'b" where
  "poll_status 0 bus c b = b"
| "poll_status (Suc k) bus c b = (let (s, b) = read_byte bus c b in if s AND NAND_STATUS_READY \<noteq> 0 then b else poll_status k bus c b)"

definition nand_wait :: "'b nand_bus \<Rightarrow> nand_chip \<Rightarrow> 'b \<Rightarrow> (u8 \<times> 'b) option" where
  "nand_wait bus c b = do {
     b \<leftarrow> nand_command bus c (if state (master c) = FL_ERASING \<and> flags c AND NAND_IS_AND \<noteq> 0 then NAND_CMMD_STATUS_MULTI else NAND_CMMD_STATUS)
            (- 1) (- 1) b;
     let b = (case flash_ready bus of Some r \<Rightarrow> poll_ready 10 r b | None \<Rightarrow> poll_status 10 bus c b);
     Some (read_byte bus c b) }"

definition nand_check_wp :: "'b nand_bus \<Rightarrow> nand_chip \<Rightarrow> 'b \<Rightarrow> (bool \<times> 'b) option" where
  "nand_check_wp bus c b = do {
     b \<leftarrow> nand_command bus c NAND_CMMD_STATUS (- 1) (- 1) b;
     let (s, b) = read_byte bus c b;
     Some (s AND NAND_STATUS_WP = 0, b) }"

definition erase_one_block :: "'b nand_bus \<Rightarrow> nand_chip \<Rightarrow> nat \<Rightarrow> 'b \<Rightarrow> 'b option" where
  "erase_one_block bus c page b = do {
     b \<leftarrow> nand_command bus c NAND_CMMD_ERASE1 (- 1) (int page) b;
     nand_command bus c NAND_CMMD_ERASE2 (- 1) (- 1) b }"

definition erase_block_ex :: "'b nand_bus \<Rightarrow> nand_chip \<Rightarrow> nat \<Rightarrow> 'b \<Rightarrow> 'b option" where
  "erase_block_ex bus c page b = do {
     b \<leftarrow> nand_command bus c NAND_CMMD_ERASE1 (- 1) (int page) b;
     b \<leftarrow> nand_command bus c NAND_CMMD_ERASE1 (- 1) (int page + 1) b;
     b \<leftarrow> nand_command bus c NAND_CMMD_ERASE1 (- 1) (int page + 2) b;
     b \<leftarrow> nand_command bus c NAND_CMMD_ERASE1 (- 1) (int page + 3) b;
     nand_command bus c NAND_CMMD_ERASE2 (- 1) (- 1) b }"

definition nand_erase_block :: "'b nand_bus \<Rightarrow> nand_chip \<Rightarrow> nat \<Rightarrow> 'b \<Rightarrow> 'b option" where
  "nand_erase_block bus c page b =
     (case erase_block (master c) of ERASE_ONE \<Rightarrow> erase_one_block bus c page b | ERASE_EX \<Rightarrow> erase_block_ex bus c page b)"

section \<open>Pages\<close>

text \<open>The functions take the memory at the caller's buffer and return it as they leave it.\<close>

definition nand_read_page_raw :: "'b nand_bus \<Rightarrow> nand_chip \<Rightarrow> (nat \<Rightarrow> u8) \<Rightarrow> 'b \<Rightarrow> (nat \<Rightarrow> u8) \<times> nand_chip \<times> 'b" where
  "nand_read_page_raw bus c m b =
     (let (ds, b) = read_buff bus c (write_size c) b; (os, b) = read_buff bus c (oob_size c) b
      in (store_bytes 0 ds m, c\<lparr>oob_buf := store_bytes 0 os (oob_buf c)\<rparr>, b))"

definition nand_write_page_raw :: "'b nand_bus \<Rightarrow> nand_chip \<Rightarrow> (nat \<Rightarrow> u8) \<Rightarrow> 'b \<Rightarrow> 'b" where
  "nand_write_page_raw bus c m b =
     write_buff bus c (window (oob_buf c) 0 (oob_size c)) (write_buff bus c (window m 0 (write_size c)) b)"

text \<open>Rounds of a loop that goes through a page in steps.\<close>

definition rounds :: "nat \<Rightarrow> nat \<Rightarrow> nat list" where
  "rounds n step = [0..<(n + step - 1) div step]"

definition soft_codes :: "nand_chip \<Rightarrow> (nat \<Rightarrow> u8) \<Rightarrow> (nat \<Rightarrow> u8) \<Rightarrow> nat \<Rightarrow> u8" where
  "soft_codes c m = fold (\<lambda>k calc.
     let (x, y, z) = snd (nand_calculate_ecc (ecc_data_len (master c)) (window m (SOFT_ECC_DATA_LEN * k) (ecc_data_len (master c))))
     in store_bytes (SOFT_ECC_CODE_NUM * k) [x, y, z] calc) (rounds (write_size c) SOFT_ECC_DATA_LEN)"

text \<open>The code bytes between their buffer and the spare bytes, from the last to the first.\<close>

definition codes_from_oob :: "nand_oob_layout \<Rightarrow> nat \<Rightarrow> (nat \<Rightarrow> u8) \<Rightarrow> (nat \<Rightarrow> u8) \<Rightarrow> nat \<Rightarrow> u8" where
  "codes_from_oob lay n oob = fold (\<lambda>i codes. codes(i := oob (ecc_pos_at lay i))) (rev [0..<n])"

definition codes_to_oob :: "nand_oob_layout \<Rightarrow> nat \<Rightarrow> (nat \<Rightarrow> u8) \<Rightarrow> (nat \<Rightarrow> u8) \<Rightarrow> nat \<Rightarrow> u8" where
  "codes_to_oob lay n codes = fold (\<lambda>i oob. oob(ecc_pos_at lay i := codes i)) (rev [0..<n])"

definition count_ecc :: "int \<Rightarrow> nand_chip \<Rightarrow> nand_chip" where
  "count_ecc stat c = (if stat < 0 then c\<lparr>ecc_failed_count := ecc_failed_count c + 1\<rparr> else c\<lparr>ecc_correct_count := ecc_correct_count c + of_int stat\<rparr>)"

definition nand_read_page_swecc :: "'b nand_bus \<Rightarrow> nand_chip \<Rightarrow> (nat \<Rightarrow> u8) \<Rightarrow> 'b \<Rightarrow> ((nat \<Rightarrow> u8) \<times> nand_chip \<times> 'b) option" where
  "nand_read_page_swecc bus c m b = do {
     lay \<leftarrow> curr_oob_layout (master c);
     let (m, c, b) = nand_read_page_raw bus c m b;
     let ks = rounds (write_size c) SOFT_ECC_DATA_LEN;
     let c = c\<lparr>ecccalc := soft_codes c m (ecccalc c), ecccode := codes_from_oob lay (SOFT_ECC_CODE_NUM * length ks) (oob_buf c) (ecccode c)\<rparr>;
     let (m, c) = fold (\<lambda>k (m, c).
        let i = SOFT_ECC_CODE_NUM * k;
            (stat, ds) = nand_correct_data (window m (SOFT_ECC_DATA_LEN * k) (ecc_data_len (master c)))
               (ecccode c i, ecccode c (i + 1), ecccode c (i + 2)) (ecccalc c i, ecccalc c (i + 1), ecccalc c (i + 2))
        in (store_bytes (SOFT_ECC_DATA_LEN * k) ds m, count_ecc stat c)) ks (m, c);
     Some (m, c, b) }"

definition nand_write_page_swecc :: "'b nand_bus \<Rightarrow> nand_chip \<Rightarrow> (nat \<Rightarrow> u8) \<Rightarrow> 'b \<Rightarrow> (nand_chip \<times> 'b) option" where
  "nand_write_page_swecc bus c m b = do {
     lay \<leftarrow> curr_oob_layout (master c);
     let ks = rounds (write_size c) SOFT_ECC_DATA_LEN;
     let c = c\<lparr>ecccalc := soft_codes c m (ecccalc c)\<rparr>;
     let c = c\<lparr>oob_buf := codes_to_oob lay (SOFT_ECC_CODE_NUM * length ks) (ecccalc c) (oob_buf c)\<rparr>;
     Some (c, nand_write_page_raw bus c m b) }"

definition nand_write_page_hwecc :: "'b nand_bus \<Rightarrow> nand_chip \<Rightarrow> (nat \<Rightarrow> u8) \<Rightarrow> 'b \<Rightarrow> (nand_chip \<times> 'b) option" where
  "nand_write_page_hwecc bus c m b = do {
     lay \<leftarrow> curr_oob_layout (master c);
     h \<leftarrow> hw bus;
     let dlen = ecc_data_len (master c);
     let clen = ecc_code_len (master c);
     if dlen = 0 then None else do {
     let ks = rounds (write_size c) dlen;
     let (codes, b) = fold (\<lambda>k (codes, b).
        let b = ecc_enable h NAND_ECC_WRITE b;
            b = write_buff bus c (window m (dlen * k) dlen) b;
            (bs, b) = ecc_generate h (\<lambda>i. m (dlen * k + i)) b
        in (store_bytes (clen * k) bs codes, b)) ks (ecccalc c, b);
     let c = c\<lparr>ecccalc := codes, oob_buf := codes_to_oob lay (clen * length ks) codes (oob_buf c)\<rparr>;
     Some (c, write_buff bus c (window (oob_buf c) 0 (oob_size c)) b) } }"

definition nand_read_page_hwecc :: "'b nand_bus \<Rightarrow> nand_chip \<Rightarrow> (nat \<Rightarrow> u8) \<Rightarrow> 'b \<Rightarrow> ((nat \<Rightarrow> u8) \<times> nand_chip \<times> 'b) option" where
  "nand_read_page_hwecc bus c m b = do {
     lay \<leftarrow> curr_oob_layout (master c);
     h \<leftarrow> hw bus;
     let dlen = ecc_data_len (master c);
     let clen = ecc_code_len (master c);
     if dlen = 0 then None else do {
     let ks = rounds (write_size c) dlen;
     let (m, codes, b) = fold (\<lambda>k (m, codes, b).
        let b = ecc_enable h NAND_ECC_READ b;
            (ds, b) = read_buff bus c dlen b;
            m = store_bytes (dlen * k) ds m;
            (bs, b) = ecc_generate h (\<lambda>i. m (dlen * k + i)) b
        in (m, store_bytes (clen * k) bs codes, b)) ks (m, ecccalc c, b);
     let (os, b) = read_buff bus c (oob_size c) b;
     let c = c\<lparr>ecccalc := codes, oob_buf := store_bytes 0 os (oob_buf c)\<rparr>;
     let c = c\<lparr>ecccode := codes_from_oob lay (clen * length ks) (oob_buf c) (ecccode c)\<rparr>;
     let (m, c) = fold (\<lambda>k (m, c).
        let (stat, d) = ecc_correct h (\<lambda>i. m (dlen * k + i)) (\<lambda>i. ecccode c (clen * k + i)) (\<lambda>i. ecccalc c (clen * k + i))
        in (\<lambda>i. if i < dlen * k then m i else d (i - dlen * k), count_ecc stat c)) ks (m, c);
     Some (m, c, b) } }"

definition nand_read_page :: "'b nand_bus \<Rightarrow> nand_chip \<Rightarrow> (nat \<Rightarrow> u8) \<Rightarrow> 'b \<Rightarrow> ((nat \<Rightarrow> u8) \<times> nand_chip \<times> 'b) option" where
  "nand_read_page bus c m b =
     (case page_access (master c) of PAGE_RAW \<Rightarrow> Some (nand_read_page_raw bus c m b) | PAGE_SWECC \<Rightarrow> nand_read_page_swecc bus c m b
      | PAGE_HWECC \<Rightarrow> nand_read_page_hwecc bus c m b)"

definition nand_write_page :: "'b nand_bus \<Rightarrow> nand_chip \<Rightarrow> (nat \<Rightarrow> u8) \<Rightarrow> 'b \<Rightarrow> (nand_chip \<times> 'b) option" where
  "nand_write_page bus c m b =
     (case page_access (master c) of PAGE_RAW \<Rightarrow> Some (c, nand_write_page_raw bus c m b) | PAGE_SWECC \<Rightarrow> nand_write_page_swecc bus c m b
      | PAGE_HWECC \<Rightarrow> nand_write_page_hwecc bus c m b)"

section \<open>Spare bytes\<close>

text \<open>
  The regions of free spare bytes that a range meets: where each piece lies, and its length. In the code a region that is skipped takes
  \<^verbatim>\<open>bytes\<close> off the length, which is 0 until a region has been used, and then none is skipped.
\<close>

fun free_pieces :: "(nat \<times> nat) list \<Rightarrow> nat \<Rightarrow> nat \<Rightarrow> (nat \<times> nat) list" where
  "free_pieces [] offs n = []"
| "free_pieces ((off, l) # regions) offs n =
     (if l = 0 \<or> n = 0 then []
      else if offs \<noteq> 0
      then if offs \<ge> l then free_pieces regions (offs - l) n
           else let k = min n (l - offs) in (off + offs, k) # free_pieces regions 0 (n - k)
      else let k = min n l in (off, k) # free_pieces regions 0 (n - k))"

definition nand_copy_oob :: "nand_chip \<Rightarrow> mtd_oob_ops \<Rightarrow> nat \<Rightarrow> u8 list option" where
  "nand_copy_oob c ops n =
     (case mode ops of
        MTD_OPS_AUTO_OOB \<Rightarrow> (case curr_oob_layout (master c) of None \<Rightarrow> None
          | Some lay \<Rightarrow> Some (concat (map (\<lambda>(off, k). window (oob_buf c) off k) (free_pieces (free_region lay) (ooboffs ops) n))))
      | _ \<Rightarrow> Some (window (oob_buf c) (ooboffs ops) n))"

text \<open>\<^verbatim>\<open>nand_fill_oob\<close>: the chip, and how many of the caller's bytes were used.\<close>

definition nand_fill_oob :: "nand_chip \<Rightarrow> (nat \<Rightarrow> u8) \<Rightarrow> mtd_oob_ops \<Rightarrow> (nand_chip \<times> nat) option" where
  "nand_fill_oob c m ops =
     (case mode ops of
        MTD_OPS_AUTO_OOB \<Rightarrow> (case curr_oob_layout (master c) of None \<Rightarrow> None
          | Some lay \<Rightarrow> let (oob, used) = fold (\<lambda>(off, k) (oob, used). (store_bytes off (window m used k) oob, used + k))
                             (free_pieces (free_region lay) (ooboffs ops) (ooblen ops)) (oob_buf c, 0)
              in Some (c\<lparr>oob_buf := oob\<rparr>, used))
      | _ \<Rightarrow> Some (c\<lparr>oob_buf := store_bytes (ooboffs ops) (window m 0 (ooblen ops)) (oob_buf c)\<rparr>, ooblen ops))"

definition nand_read_oob_std :: "'b nand_bus \<Rightarrow> nand_chip \<Rightarrow> nat \<Rightarrow> bool \<Rightarrow> 'b \<Rightarrow> (nand_chip \<times> 'b) option" where
  "nand_read_oob_std bus c page sndcmd b = do {
     b \<leftarrow> (if sndcmd then nand_command bus c NAND_CMMD_READOOB 0 (int page) b else Some b);
     let (os, b) = read_buff bus c (oob_size c) b;
     Some (c\<lparr>oob_buf := store_bytes 0 os (oob_buf c)\<rparr>, b) }"

definition nand_write_oob_std :: "'b nand_bus \<Rightarrow> nand_chip \<Rightarrow> nat \<Rightarrow> 'b \<Rightarrow> (int \<times> 'b) option" where
  "nand_write_oob_std bus c page b = do {
     b \<leftarrow> nand_command bus c NAND_CMMD_SEQIN (int (write_size c)) (int page) b;
     let b = write_buff bus c (window (oob_buf c) 0 (oob_size c)) b;
     b \<leftarrow> nand_command bus c NAND_CMMD_PAGEPROG (- 1) (- 1) b;
     (status, b) \<leftarrow> nand_wait bus c b;
     Some (if status AND NAND_STATUS_FAIL \<noteq> 0 then - EIO else 0, b) }"

section \<open>Bad blocks\<close>

definition nand_blk_bad :: "'b nand_bus \<Rightarrow> nand_chip \<Rightarrow> nat \<Rightarrow> bool \<Rightarrow> 'b \<Rightarrow> (bool \<times> nand_chip \<times> 'b) option" where
  "nand_blk_bad bus c ofs getchip b = do {
     let page = (ofs div 2 ^ write_shift c) AND page_num_mask c;
     let b = (if getchip then nand_chipsel bus True b else b);
     (bad, b) \<leftarrow>
       (if flags c AND NAND_BUSWIDTH_16 \<noteq> 0
        then do {
          b \<leftarrow> nand_command bus c NAND_CMMD_READOOB (int (bad_blk_oob_pos c AND 0xFE)) (int page) b;
          let (w, b) = read_word bus b;
          Some ((if odd (bad_blk_oob_pos c) then drop_bit 8 w else w) AND 0xFF \<noteq> 0xFF, b) }
        else do {
          b \<leftarrow> nand_command bus c NAND_CMMD_READOOB (int (bad_blk_oob_pos c)) (int page) b;
          let (d, b) = read_byte bus c b;
          Some (d \<noteq> 0xFF, b) });
     let (c, b) = (if getchip then nand_release_chip bus c b else (c, b));
     Some (bad, c, b) }"

section \<open>The chip behind the bus\<close>

text \<open>
  What the core relies on of a chip, as data sheets state it. A page is its data bytes and then its spare bytes. Programming can only clear bits; a chip that
  fails to program or erase says so in bit 0 of its status and may leave anything in the page or block concerned. Bit 7 of the status is
  clear when the chip is write protected. The chip has a ready line, which may show it busy after a command; data can only be read from it while the line
  shows it ready. Data sheets bound the busy time; \<^verbatim>\<open>nand_wait_ready\<close> and \<^verbatim>\<open>nand_wait\<close> poll the line ten times and then go on as
  if it were ready, so \<open>ready_soon\<close> asks of the pair of chip and driver that ten polls outlast the busy time. What the code does with a slower chip is not
  covered by the lemmas of this locale (the definitions have it: \<open>poll_ready\<close> gives up like the code).
\<close>

datatype chip_mode = Idle | Reading nat nat | Loading nat nat "u8 list" | ErasePage nat | ShowStatus

definition program :: "nat \<Rightarrow> u8 list \<Rightarrow> u8 list \<Rightarrow> u8 list" where
  "program k ds p = take k p @ map2 (AND) ds (take (length ds) (drop k p)) @ drop (k + length ds) p"

lemma length_program [simp]: "k + length ds \<le> length p \<Longrightarrow> length (program k ds p) = length p"
  by (simp add: program_def)

lemma take_program: "take n (program 0 ds p) = map2 (AND) (take n ds) (take (min n (length ds)) p) @ take (n - length ds) (drop (length ds) p)"
  if "length ds \<le> length p"
  using that by (simp add: program_def take_map take_zip min.absorb1 min.absorb2 min_def)

lemma and_ff [simp]: "d AND 0xFF = d" for d :: u8
proof -
  have "(0xFF :: u8) = - 1" by simp
  then show ?thesis by (simp only: and.right_neutral)
qed

lemma program_erased: "k + length ds \<le> n \<Longrightarrow> program k ds (replicate n 0xFF) = replicate k 0xFF @ ds @ replicate (n - k - length ds) 0xFF"
proof -
  have "map2 (AND) ds (replicate (length ds) (0xFF :: u8)) = ds" for ds :: "u8 list" by (induction ds) simp_all
  then show "k + length ds \<le> n \<Longrightarrow> ?thesis" by (auto simp: program_def min_def algebra_simps)
qed

locale nand_device =
  fixes bus :: "'b nand_bus"
    and mode_of :: "'b \<Rightarrow> chip_mode"
    and page :: "'b \<Rightarrow> nat \<Rightarrow> u8 list"
    and status :: "'b \<Rightarrow> u8"
    and psize :: nat and ppb :: nat
    and protected :: bool
    and rdy :: "'b \<Rightarrow> bool \<times> 'b"
  assumes page_length: "length (page b r) = psize"
    and status_wp: "(status b AND NAND_STATUS_WP = 0) = protected"
    and ready_line: "flash_ready bus = Some rdy"
    and ready_keeps: "mode_of (snd (rdy b)) = mode_of b" "page (snd (rdy b)) = page b" "status (snd (rdy b)) = status b"
      "fst (rdy b) \<Longrightarrow> fst (rdy (snd (rdy b)))"
    and ready_soon: "\<exists>k<10. fst (rdy (((snd \<circ> rdy) ^^ k) b))"
    and data_out: "mode_of b = Reading r k \<Longrightarrow> k < psize \<Longrightarrow> fst (rdy b)
      \<Longrightarrow> \<exists>b'. rd_data bus b = (page b r ! k, b') \<and> mode_of b' = Reading r (Suc k) \<and> page b' = page b \<and> fst (rdy b')"
    and data_in: "mode_of b = Loading r k ds \<Longrightarrow> k + length ds < psize
      \<Longrightarrow> mode_of (wr_data bus d b) = Loading r k (ds @ [d]) \<and> page (wr_data bus d b) = page b"
    and program_cycle: "mode_of b = Loading r k ds \<Longrightarrow> q \<noteq> r \<Longrightarrow> page (wr_cmmd bus 0x10 b) q = page b q"
      "mode_of b = Loading r k ds \<Longrightarrow> k + length ds \<le> psize \<Longrightarrow> status (wr_cmmd bus 0x10 b) AND NAND_STATUS_FAIL = 0 \<Longrightarrow> \<not> protected
         \<Longrightarrow> page (wr_cmmd bus 0x10 b) r = program k ds (page b r)"
    and status_cycle: "mode_of (wr_cmmd bus 0x70 b) = ShowStatus" "page (wr_cmmd bus 0x70 b) = page b" "status (wr_cmmd bus 0x70 b) = status b"
    and status_out: "mode_of b = ShowStatus \<Longrightarrow> \<exists>b'. rd_data bus b = (status b, b') \<and> page b' = page b \<and> status b' = status b"
    and erase_cycle: "mode_of b = ErasePage r \<Longrightarrow> q div ppb \<noteq> r div ppb \<Longrightarrow> page (wr_cmmd bus 0xd0 b) q = page b q"
      "mode_of b = ErasePage r \<Longrightarrow> status (wr_cmmd bus 0xd0 b) AND NAND_STATUS_FAIL = 0 \<Longrightarrow> \<not> protected \<Longrightarrow> q div ppb = r div ppb
         \<Longrightarrow> page (wr_cmmd bus 0xd0 b) q = replicate psize 0xFF"
    and reset_cycle: "page (wr_cmmd bus 0xff b) = page b"
begin

lemma nand_read_buff_reading:
  "mode_of b = Reading r k \<Longrightarrow> k + n \<le> psize \<Longrightarrow> fst (rdy b)
     \<Longrightarrow> \<exists>b'. nand_read_buff bus n b = (take n (drop k (page b r)), b') \<and> mode_of b' = Reading r (k + n) \<and> page b' = page b \<and> fst (rdy b')"
proof (induction n arbitrary: b k)
  case (Suc n)
  then obtain b1 where b1: "rd_data bus b = (page b r ! k, b1)" "mode_of b1 = Reading r (Suc k)" "page b1 = page b" "fst (rdy b1)"
    using data_out [of b r k] by auto
  with Suc.IH [of b1 "Suc k"] Suc.prems obtain b2 where
    "nand_read_buff bus n b1 = (take n (drop (Suc k) (page b r)), b2)" "mode_of b2 = Reading r (k + Suc n)" "page b2 = page b" "fst (rdy b2)" by auto
  then show ?case using b1 Suc.prems page_length [of b r] by (simp add: Cons_nth_drop_Suc [symmetric])
qed simp

lemma nand_write_buff_loading:
  "mode_of b = Loading r k ds \<Longrightarrow> k + length ds + length xs \<le> psize
     \<Longrightarrow> mode_of (nand_write_buff bus xs b) = Loading r k (ds @ xs) \<and> page (nand_write_buff bus xs b) = page b"
  unfolding nand_write_buff_def
proof (induction xs arbitrary: b ds)
  case (Cons x xs)
  then show ?case using data_in [of b r k ds x] Cons.IH [of "wr_data bus x b" "ds @ [x]"] by simp
qed simp

text \<open>Ten polls are enough, and change nothing but the time.\<close>

lemma poll_ready_keeps:
  "mode_of (poll_ready k rdy b) = mode_of b" "page (poll_ready k rdy b) = page b" "status (poll_ready k rdy b) = status b"
  by (induction k arbitrary: b) (simp_all add: ready_keeps case_prod_beta Let_def)

lemma poll_ready_soon: "j < k \<Longrightarrow> fst (rdy (((snd \<circ> rdy) ^^ j) b)) \<Longrightarrow> fst (rdy (poll_ready k rdy b))"
proof (induction k arbitrary: j b)
  case (Suc k)
  show ?case
  proof (cases "fst (rdy b)")
    case True
    then show ?thesis using ready_keeps(4) by (simp add: case_prod_beta Let_def)
  next
    case False
    then obtain i where "j = Suc i" using Suc.prems by (cases j) auto
    then show ?thesis using False Suc.IH [of i "snd (rdy b)"] Suc.prems
      by (simp add: case_prod_beta Let_def funpow_swap1 del: funpow.simps) (simp add: funpow_Suc_right del: funpow.simps)
  qed
qed simp

lemma poll_ready_rdy:
  "fst (rdy (poll_ready 10 rdy b))" "nand_wait_ready bus b = Some (poll_ready 10 rdy b)"
  using ready_soon [of b] poll_ready_soon [of _ 10 b] by (auto simp: nand_wait_ready_def ready_line)

end

text \<open>
  A chip structure that fits a chip with pages of \<open>2 ^ wsh\<close> bytes and \<open>os\<close> spare bytes, \<open>2 ^ bb\<close> pages in a block and \<open>2 ^ pb\<close> in all, on a bus of 8 bits.
\<close>

definition chip_fits :: "command_fn \<Rightarrow> nat \<Rightarrow> nat \<Rightarrow> nat \<Rightarrow> nat \<Rightarrow> nand_chip \<Rightarrow> bool" where
  "chip_fits cmd wsh os pb bb c \<longleftrightarrow>
     command (master c) = cmd \<and> \<not> wide (master c) \<and> erase_block (master c) = ERASE_ONE \<and> flags c AND NAND_BUSWIDTH_16 = 0 \<and> flags c AND NAND_IS_AND = 0
     \<and> write_size c = 2 ^ wsh \<and> write_shift c = wsh \<and> oob_size c = os \<and> page_num_mask c = 2 ^ pb - 1 \<and> chip_size c = 2 ^ (wsh + pb) \<and> chip_shift c = wsh + pb
     \<and> erase_size c = 2 ^ (wsh + bb) \<and> erase_shift c = wsh + bb \<and> bbt_erase_shift c = wsh + bb \<and> phy_erase_shift c = wsh + bb"

definition geometry :: "nat \<Rightarrow> nat \<Rightarrow> nat \<Rightarrow> nat \<Rightarrow> bool" where
  "geometry wsh os pb bb \<longleftrightarrow> 0 < os \<and> os \<le> 2 ^ wsh \<and> bb \<le> pb \<and> wsh + pb < 32"

definition row_cycles :: "'b nand_bus \<Rightarrow> bool \<Rightarrow> nat \<Rightarrow> 'b \<Rightarrow> 'b" where
  "row_cycles bus three row b =
     (let b = wr_addr bus (of_nat (drop_bit 8 row)) (wr_addr bus (of_nat row) b)
      in if three then wr_addr bus (of_nat (drop_bit 16 row)) b else b)"

definition col_cycles :: "'b nand_bus \<Rightarrow> nat \<Rightarrow> 'b \<Rightarrow> 'b" where
  "col_cycles bus col b = wr_addr bus (of_nat (drop_bit 8 col)) (wr_addr bus (of_nat col) b)"

text \<open>What the transfers need of the commands, whatever the size of a page.\<close>

locale nand_commands = nand_device bus mode_of page status "2 ^ wsh + os" "2 ^ bb" protected rdy
  for bus :: "'b nand_bus" and mode_of :: "'b \<Rightarrow> chip_mode" and page :: "'b \<Rightarrow> nat \<Rightarrow> u8 list" and status :: "'b \<Rightarrow> u8"
    and wsh os pb bb :: nat and protected :: bool and rdy :: "'b \<Rightarrow> bool \<times> 'b" +
  fixes cmd :: command_fn
  assumes geom: "geometry wsh os pb bb"
    and command_read: "chip_fits cmd wsh os pb bb c \<Longrightarrow> row < 2 ^ pb
      \<Longrightarrow> \<exists>b'. nand_command bus c NAND_CMMD_READ0 0 (int row) b = Some b' \<and> mode_of b' = Reading row 0 \<and> page b' = page b \<and> fst (rdy b')"
    and command_read_oob: "chip_fits cmd wsh os pb bb c \<Longrightarrow> row < 2 ^ pb \<Longrightarrow> col < os
      \<Longrightarrow> \<exists>b'. nand_command bus c NAND_CMMD_READOOB (int col) (int row) b = Some b' \<and> mode_of b' = Reading row (2 ^ wsh + col) \<and> page b' = page b
        \<and> fst (rdy b')"
    and command_seqin: "chip_fits cmd wsh os pb bb c \<Longrightarrow> row < 2 ^ pb \<Longrightarrow> col < 2 ^ wsh + os
      \<Longrightarrow> \<exists>b'. nand_command bus c NAND_CMMD_SEQIN (int col) (int row) b = Some b' \<and> mode_of b' = Loading row col [] \<and> page b' = page b"
    and command_prog: "chip_fits cmd wsh os pb bb c \<Longrightarrow> nand_command bus c NAND_CMMD_PAGEPROG (- 1) (- 1) b = Some (wr_cmmd bus 0x10 b)"
    and command_erase1: "chip_fits cmd wsh os pb bb c \<Longrightarrow> row < 2 ^ pb
      \<Longrightarrow> \<exists>b'. nand_command bus c NAND_CMMD_ERASE1 (- 1) (int row) b = Some b' \<and> mode_of b' = ErasePage row \<and> page b' = page b"
    and command_erase2: "chip_fits cmd wsh os pb bb c \<Longrightarrow> nand_command bus c NAND_CMMD_ERASE2 (- 1) (- 1) b = Some (wr_cmmd bus 0xd0 b)"
    and command_status: "chip_fits cmd wsh os pb bb c \<Longrightarrow> nand_command bus c NAND_CMMD_STATUS (- 1) (- 1) b = Some (wr_cmmd bus 0x70 b)"
    and command_reset: "chip_fits cmd wsh os pb bb c \<Longrightarrow> nand_command bus c NAND_CMMD_RESET (- 1) (- 1) b = Some (poll_ready 10 rdy (wr_cmmd bus 0xff b))"

text \<open>The address cycles of chips with large pages, and of those with pages of 512 bytes, where a command chooses the half of the page or the spare bytes.\<close>

locale nand_large = nand_device bus mode_of page status "2 ^ wsh + os" "2 ^ bb" protected rdy
  for bus :: "'b nand_bus" and mode_of :: "'b \<Rightarrow> chip_mode" and page :: "'b \<Rightarrow> nat \<Rightarrow> u8 list" and status :: "'b \<Rightarrow> u8"
    and wsh os pb bb :: nat and protected :: bool and rdy :: "'b \<Rightarrow> bool \<times> 'b" +
  fixes three :: bool
  assumes geometry_ok: "geometry wsh os pb bb"
    and three: "three \<longleftrightarrow> wsh + pb > 27"
    and read_cycles: "row < 2 ^ pb \<Longrightarrow> col < 2 ^ wsh + os \<Longrightarrow> b' = wr_cmmd bus 0x30 (row_cycles bus three row (col_cycles bus col (wr_cmmd bus 0x00 b)))
      \<Longrightarrow> mode_of b' = Reading row col \<and> page b' = page b"
    and seqin_cycles: "row < 2 ^ pb \<Longrightarrow> col < 2 ^ wsh + os \<Longrightarrow> b' = row_cycles bus three row (col_cycles bus col (wr_cmmd bus 0x80 b))
      \<Longrightarrow> mode_of b' = Loading row col [] \<and> page b' = page b"
    and erase_cycles: "row < 2 ^ pb \<Longrightarrow> b' = row_cycles bus three row (wr_cmmd bus 0x60 b) \<Longrightarrow> mode_of b' = ErasePage row \<and> page b' = page b"

locale nand_small = nand_device bus mode_of page status "2 ^ wsh + os" "2 ^ bb" protected rdy
  for bus :: "'b nand_bus" and mode_of :: "'b \<Rightarrow> chip_mode" and page :: "'b \<Rightarrow> nat \<Rightarrow> u8 list" and status :: "'b \<Rightarrow> u8"
    and wsh os pb bb :: nat and protected :: bool and rdy :: "'b \<Rightarrow> bool \<times> 'b" +
  fixes three :: bool
  assumes geometry_ok: "geometry wsh os pb bb" and small: "wsh = 9" "os = 16"
    and three: "three \<longleftrightarrow> wsh + pb > 25"
    and read_cycles: "row < 2 ^ pb \<Longrightarrow> col < 256 \<Longrightarrow> b' = row_cycles bus three row (wr_addr bus (of_nat col) (wr_cmmd bus 0x00 b))
      \<Longrightarrow> mode_of b' = Reading row col \<and> page b' = page b"
    and read_oob_cycles: "row < 2 ^ pb \<Longrightarrow> col < os \<Longrightarrow> b' = row_cycles bus three row (wr_addr bus (of_nat col) (wr_cmmd bus 0x50 b))
      \<Longrightarrow> mode_of b' = Reading row (2 ^ wsh + col) \<and> page b' = page b"
    and seqin_cycles: "row < 2 ^ pb \<Longrightarrow> col < 256 \<Longrightarrow> ptr \<in> {0x00, 0x01, 0x50} \<Longrightarrow> ptr = 0x50 \<longrightarrow> col < os
      \<Longrightarrow> b' = row_cycles bus three row (wr_addr bus (of_nat col) (wr_cmmd bus 0x80 (wr_cmmd bus ptr b)))
      \<Longrightarrow> mode_of b' = Loading row (col + (if ptr = 0x01 then 256 else if ptr = 0x50 then 2 ^ wsh else 0)) [] \<and> page b' = page b"
    and erase_cycles: "row < 2 ^ pb \<Longrightarrow> b' = row_cycles bus three row (wr_cmmd bus 0x60 b) \<Longrightarrow> mode_of b' = ErasePage row \<and> page b' = page b"

text \<open>The bytes of an address, as the commands compute them.\<close>

lemma address_bytes [simp]:
  "nand_cmd_ctrl bus (int n) False b = wr_addr bus (of_nat n) b"
  "nand_cmd_ctrl bus (drop_bit k (int n)) False b = wr_addr bus (of_nat (drop_bit k n)) b"
  "nand_cmd_ctrl bus 0 False b = wr_addr bus 0 b"
  "nand_cmd_ctrl bus (- 1) cle b = b"
  by (simp_all add: nand_cmd_ctrl_def drop_bit_of_nat)

lemma bus_col_fits: "chip_fits cmd wsh os pb bb c \<Longrightarrow> bus_col c col = col"
  by (simp add: bus_col_def chip_fits_def)

lemma command_cycle [simp]: "0 \<le> cm \<Longrightarrow> nand_cmd_ctrl bus cm True b = wr_cmmd bus (of_int cm) b"
  by (simp add: nand_cmd_ctrl_def)

lemma row_cycles_eq:
  "(if 2 ^ n < chip_size c then nand_cmd_ctrl bus (drop_bit 16 (int row)) False (nand_cmd_ctrl bus (drop_bit 8 (int row)) False (nand_cmd_ctrl bus (int row) False b))
    else nand_cmd_ctrl bus (drop_bit 8 (int row)) False (nand_cmd_ctrl bus (int row) False b)) = row_cycles bus (2 ^ n < chip_size c) row b"
  by (simp add: row_cycles_def)

lemma fits_above: "chip_fits cmd wsh os pb bb c \<Longrightarrow> 2 ^ n < chip_size c \<longleftrightarrow> n < wsh + pb"
  by (simp add: chip_fits_def)

lemma ff_and [simp]: "(of_int (0xFF :: int) :: u8) = 0xff" "(0xff AND 0xFF :: int) = 0xff"
  by simp_all

sublocale nand_large \<subseteq> nand_commands bus mode_of page status wsh os pb bb protected rdy COMMAND_LARGE
proof
  fix c b and row col :: nat
  assume c: "chip_fits COMMAND_LARGE wsh os pb bb c"
  then have t: "134217728 < chip_size c \<longleftrightarrow> three" using fits_above [OF c, of 27] three by simp
  have c': "command (master c) = COMMAND_LARGE" "write_size c = 2 ^ wsh" using c by (simp_all add: chip_fits_def)
  note cmd = nand_command_def nand_command_large_def Let_def bus_col_fits [OF c] t ready_line poll_ready_rdy poll_ready_keeps
  show "nand_command bus c NAND_CMMD_PAGEPROG (- 1) (- 1) b = Some (wr_cmmd bus 0x10 b)"
    "nand_command bus c NAND_CMMD_ERASE2 (- 1) (- 1) b = Some (wr_cmmd bus 0xd0 b)"
    "nand_command bus c NAND_CMMD_STATUS (- 1) (- 1) b = Some (wr_cmmd bus 0x70 b)"
    "nand_command bus c NAND_CMMD_RESET (- 1) (- 1) b = Some (poll_ready 10 rdy (wr_cmmd bus 0xff b))"
    using c' by (simp_all add: cmd)
  assume row: "row < 2 ^ pb"
  show "\<exists>b'. nand_command bus c NAND_CMMD_READ0 0 (int row) b = Some b' \<and> mode_of b' = Reading row 0 \<and> page b' = page b \<and> fst (rdy b')"
    using c' read_cycles [OF row, of 0 _ b] by (cases three) (simp_all add: cmd row_cycles_def col_cycles_def)
  show "\<exists>b'. nand_command bus c NAND_CMMD_ERASE1 (- 1) (int row) b = Some b' \<and> mode_of b' = ErasePage row \<and> page b' = page b"
    using c' erase_cycles [OF row, of _ b] by (cases three) (simp_all add: cmd row_cycles_def)
  show "\<exists>b'. nand_command bus c NAND_CMMD_SEQIN (int col) (int row) b = Some b' \<and> mode_of b' = Loading row col [] \<and> page b' = page b"
    if "col < 2 ^ wsh + os"
    using c' seqin_cycles [OF row that, of _ b] by (cases three) (simp_all add: cmd row_cycles_def col_cycles_def)
  show "\<exists>b'. nand_command bus c NAND_CMMD_READOOB (int col) (int row) b = Some b' \<and> mode_of b' = Reading row (2 ^ wsh + col) \<and> page b' = page b
        \<and> fst (rdy b')"
    if "col < os"
  proof -
    have e: "int col + int (write_size c) = int (2 ^ wsh + col)" using c' by simp
    then show ?thesis
      using c'(1) read_cycles [OF row, of "2 ^ wsh + col" _ b] that by (cases three) (simp_all add: cmd e row_cycles_def col_cycles_def del: of_nat_add of_nat_power)
  qed
qed (rule geometry_ok)

sublocale nand_small \<subseteq> nand_commands bus mode_of page status wsh os pb bb protected rdy COMMAND_SMALL
proof
  fix c b and row col :: nat
  assume c: "chip_fits COMMAND_SMALL wsh os pb bb c"
  then have t: "33554432 < chip_size c \<longleftrightarrow> three" using fits_above [OF c, of 25] three by simp
  have c': "command (master c) = COMMAND_SMALL" "write_size c = 512" using c small by (simp_all add: chip_fits_def)
  note cmd = nand_command_def nand_command_small_def Let_def bus_col_fits [OF c] t ready_line poll_ready_rdy poll_ready_keeps
  show "nand_command bus c NAND_CMMD_PAGEPROG (- 1) (- 1) b = Some (wr_cmmd bus 0x10 b)"
    "nand_command bus c NAND_CMMD_ERASE2 (- 1) (- 1) b = Some (wr_cmmd bus 0xd0 b)"
    "nand_command bus c NAND_CMMD_STATUS (- 1) (- 1) b = Some (wr_cmmd bus 0x70 b)"
    "nand_command bus c NAND_CMMD_RESET (- 1) (- 1) b = Some (poll_ready 10 rdy (wr_cmmd bus 0xff b))"
    using c' by (simp_all add: cmd)
  assume row: "row < 2 ^ pb"
  show "\<exists>b'. nand_command bus c NAND_CMMD_READ0 0 (int row) b = Some b' \<and> mode_of b' = Reading row 0 \<and> page b' = page b \<and> fst (rdy b')"
    using c' read_cycles [OF row, of 0 _ b] by (cases three) (simp_all add: cmd row_cycles_def)
  show "\<exists>b'. nand_command bus c NAND_CMMD_ERASE1 (- 1) (int row) b = Some b' \<and> mode_of b' = ErasePage row \<and> page b' = page b"
    using c' erase_cycles [OF row, of _ b] by (cases three) (simp_all add: cmd row_cycles_def)
  show "\<exists>b'. nand_command bus c NAND_CMMD_READOOB (int col) (int row) b = Some b' \<and> mode_of b' = Reading row (2 ^ wsh + col) \<and> page b' = page b
        \<and> fst (rdy b')"
    if "col < os"
    using c' read_oob_cycles [OF row that, of _ b] by (cases three) (simp_all add: cmd row_cycles_def)
  show "\<exists>b'. nand_command bus c NAND_CMMD_SEQIN (int col) (int row) b = Some b' \<and> mode_of b' = Loading row col [] \<and> page b' = page b"
    if "col < 2 ^ wsh + os"
  proof -
    consider "col < 256" | "256 \<le> col" "col < 512" | "512 \<le> col" by linarith
    then show ?thesis
    proof cases
      case 1
      then show ?thesis
        using c' seqin_cycles [OF row, where col = col and ptr = 0 and b = b] by (cases three) (simp_all add: cmd row_cycles_def)
    next
      case 2
      then have "int col - 256 = int (col - 256)" by simp
      then show ?thesis
        using 2 c' seqin_cycles [OF row, where col = "col - 256" and ptr = 1 and b = b] by (cases three) (simp_all add: cmd row_cycles_def del: of_nat_diff)
    next
      case 3
      then have "int col - int 512 = int (col - 512)" by simp
      then show ?thesis
        using 3 c' that small seqin_cycles [OF row, where col = "col - 512" and ptr = "0x50" and b = b] by (cases three) (simp_all add: cmd row_cycles_def del: of_nat_diff)
    qed
  qed
qed (rule geometry_ok)

section \<open>A chip that keeps the contract\<close>

text \<open>
  A simple chip, with large pages or with pages of 512 bytes: the cells, the last command, the address bytes since, and the part of a small page that a
  command chose. It never fails and is not protected.
\<close>

record sim =
  s_mode :: chip_mode
  s_cmd :: u8
  s_addr :: "u8 list"
  s_base :: nat
  cells :: "nat \<Rightarrow> nat \<Rightarrow> u8"

fun sim_num :: "u8 list \<Rightarrow> nat" where
  "sim_num [] = 0"
| "sim_num (a # as) = unat a + 256 * sim_num as"

definition sim_cmmd :: "nat \<Rightarrow> u8 \<Rightarrow> sim \<Rightarrow> sim" where
  "sim_cmmd ppb x s =
     (if x = 0x10
      then (case s_mode s of
              Loading r k ds \<Rightarrow> s\<lparr>s_mode := Idle, cells := (cells s)(r := \<lambda>i. if k \<le> i \<and> i < k + length ds then ds ! (i - k) AND cells s r i else cells s r i)\<rparr>
            | _ \<Rightarrow> s\<lparr>s_mode := Idle\<rparr>)
      else if x = 0xd0
      then (case s_mode s of
              ErasePage r \<Rightarrow> s\<lparr>s_mode := Idle, cells := (\<lambda>q i. if q div ppb = r div ppb then 0xFF else cells s q i)\<rparr>
            | _ \<Rightarrow> s\<lparr>s_mode := Idle\<rparr>)
      else if x = 0x70 then s\<lparr>s_mode := ShowStatus\<rparr>
      else if x = 0xff then s\<lparr>s_mode := Idle\<rparr>
      else if x = 0x30 then s\<lparr>s_mode := Reading (sim_num (drop 2 (s_addr s))) (sim_num (take 2 (s_addr s)))\<rparr>
      else if x = 0x80 \<or> x = 0x60 then s\<lparr>s_cmd := x, s_addr := []\<rparr>
      else s\<lparr>s_cmd := x, s_addr := [], s_base := (if x = 0x01 then 256 else if x = 0x50 then 512 else 0)\<rparr>)"

definition sim_addr :: "bool \<Rightarrow> u8 \<Rightarrow> sim \<Rightarrow> sim" where
  "sim_addr large a s =
     (let as = s_addr s @ [a];
          row = sim_num (drop (if large then 2 else 1) as);
          col = (if large then sim_num (take 2 as) else s_base s + sim_num (take 1 as))
      in s\<lparr>s_addr := as,
           s_mode := (if s_cmd s = 0x60 then ErasePage (sim_num as) else if s_cmd s = 0x80 then Loading row col [] else Reading row col)\<rparr>)"

definition sim_read :: "sim \<Rightarrow> u8 \<times> sim" where
  "sim_read s =
     (case s_mode s of Reading r k \<Rightarrow> (cells s r k, s\<lparr>s_mode := Reading r (Suc k)\<rparr>) | ShowStatus \<Rightarrow> (0xC0, s) | _ \<Rightarrow> (0, s))"

definition sim_write :: "u8 \<Rightarrow> sim \<Rightarrow> sim" where
  "sim_write d s = (case s_mode s of Loading r k ds \<Rightarrow> s\<lparr>s_mode := Loading r k (ds @ [d])\<rparr> | _ \<Rightarrow> s)"

definition sim_bus :: "bool \<Rightarrow> nat \<Rightarrow> sim nand_bus" where
  "sim_bus large ppb = \<lparr>wr_cmmd = sim_cmmd ppb, wr_addr = sim_addr large, rd_data = sim_read, wr_data = sim_write,
     rd_data16 = (\<lambda>s. (0, s)), wr_data16 = (\<lambda>_ s. s), flash_ready = Some (Pair True), hw = None\<rparr>"

definition sim_page :: "nat \<Rightarrow> sim \<Rightarrow> nat \<Rightarrow> u8 list" where
  "sim_page psize s r = map (cells s r) [0..<psize]"

lemma num_bytes:
  "r < 2 ^ 16 \<Longrightarrow> sim_num [of_nat r, of_nat (drop_bit 8 r)] = r"
  by (simp add: drop_bit_eq_div unat_of_nat less_mult_imp_div_less mult.commute)

lemma num_two: "r < 2 ^ 16 \<Longrightarrow> unat (of_nat r :: u8) + 256 * unat (of_nat (drop_bit 8 r) :: u8) = r"
  using num_bytes [of r] by simp

lemma sim_program:
  "k + length ds \<le> psize \<Longrightarrow> map (\<lambda>i. if k \<le> i \<and> i < k + length ds then ds ! (i - k) AND f i else f i) [0..<psize] = program k ds (map f [0..<psize])"
  by (rule nth_equalityI) (auto simp: program_def nth_append)


lemma sim_bus_simps [simp]:
  "wr_cmmd (sim_bus large ppb) = sim_cmmd ppb" "wr_addr (sim_bus large ppb) = sim_addr large" "rd_data (sim_bus large ppb) = sim_read"
  "wr_data (sim_bus large ppb) = sim_write" "flash_ready (sim_bus large ppb) = Some (Pair True)"
  by (simp_all add: sim_bus_def)

lemma sim_device: "nand_device (sim_bus large ppb) s_mode (sim_page psize) (\<lambda>_. 0xC0) psize ppb False (Pair True)"
proof
  fix b r k ds q and d :: u8
  show "length (sim_page psize b r) = psize" by (simp add: sim_page_def)
  show "\<exists>k<10. fst (Pair True (((snd \<circ> Pair True) ^^ k) b))" by (rule exI [of _ 0]) simp
  show "\<exists>b'. rd_data (sim_bus large ppb) b = (sim_page psize b r ! k, b') \<and> s_mode b' = Reading r (Suc k) \<and> sim_page psize b' = sim_page psize b
      \<and> fst (Pair True b')"
    if "s_mode b = Reading r k" "k < psize"
    using that by (auto simp: sim_read_def sim_page_def fun_eq_iff)
  show "s_mode (wr_data (sim_bus large ppb) d b) = Loading r k (ds @ [d]) \<and> sim_page psize (wr_data (sim_bus large ppb) d b) = sim_page psize b"
    if "s_mode b = Loading r k ds" "k + length ds < psize"
    using that by (auto simp: sim_write_def sim_page_def fun_eq_iff)
  show "sim_page psize (wr_cmmd (sim_bus large ppb) 0x10 b) q = sim_page psize b q" if "s_mode b = Loading r k ds" "q \<noteq> r"
    using that by (simp add: sim_cmmd_def sim_page_def)
  show "sim_page psize (wr_cmmd (sim_bus large ppb) 0x10 b) r = program k ds (sim_page psize b r)"
    if "s_mode b = Loading r k ds" "k + length ds \<le> psize"
    using that by (simp add: sim_cmmd_def sim_page_def sim_program)
  show "sim_page psize (wr_cmmd (sim_bus large ppb) 0xd0 b) q = sim_page psize b q" if "s_mode b = ErasePage r" "q div ppb \<noteq> r div ppb"
    using that by (simp add: sim_cmmd_def sim_page_def)
  show "sim_page psize (wr_cmmd (sim_bus large ppb) 0xd0 b) q = replicate psize 0xFF" if "s_mode b = ErasePage r" "q div ppb = r div ppb"
    using that by (simp add: sim_cmmd_def sim_page_def map_replicate_trivial)
qed (auto simp: sim_cmmd_def sim_read_def sim_page_def fun_eq_iff)

lemma sim_page_modes [simp]:
  "sim_page psize (s\<lparr>s_mode := m\<rparr>) = sim_page psize s" "sim_page psize (s\<lparr>s_cmd := x\<rparr>) = sim_page psize s"
  "sim_page psize (s\<lparr>s_addr := as\<rparr>) = sim_page psize s" "sim_page psize (s\<lparr>s_base := k\<rparr>) = sim_page psize s"
  by (simp_all add: sim_page_def fun_eq_iff)

lemma num_one: "k < 256 \<Longrightarrow> unat (of_nat k :: u8) = k"
  by (simp add: unat_of_nat)

lemmas sim_cycles = row_cycles_def col_cycles_def sim_cmmd_def sim_addr_def num_one num_two Let_def geometry_def

text \<open>A chip of 64 megabytes with pages of 2048 bytes, and one of 16 megabytes with pages of 512.\<close>

interpretation sim_large: nand_large "sim_bus True (2 ^ 6)" s_mode "sim_page (2 ^ 11 + 64)" "\<lambda>_. 0xC0" 11 64 15 6 False "Pair True" False
proof (intro nand_large.intro nand_large_axioms.intro sim_device)
  show "geometry 11 64 15 6" by (simp add: geometry_def)
qed (auto simp: sim_cycles)

interpretation sim_small: nand_small "sim_bus False (2 ^ 5)" s_mode "sim_page (2 ^ 9 + 16)" "\<lambda>_. 0xC0" 9 16 15 5 False "Pair True" False
proof (intro nand_small.intro nand_small_axioms.intro sim_device)
  show "geometry 9 16 15 5" by (simp add: geometry_def)
qed (auto simp: sim_cycles)

end
