(* ===== verification/NandCore.thy ===== *)
theory NandCore
  imports NandChip
begin

unbundle bit_operations_syntax

text \<open>
  Transfers of the NAND core (\<^verbatim>\<open>driver/flash/nand/nand_core.c\<close>): reading and writing of ranges of pages and of spare bytes, in the three modes. Sums of
  addresses and lengths wrap at 32 bits, as in the code.
\<close>

abbreviation (input) EROFS :: int where "EROFS \<equiv> 30"
abbreviation (input) EBADMSG :: int where "EBADMSG \<equiv> 74"
abbreviation (input) EUCLEAN :: int where "EUCLEAN \<equiv> 117"

section \<open>Reading\<close>

text \<open>
  The variables of a transfer: the chip and the bus, the current page, the memories at the two buffers of the caller with the positions in
  them, and the lengths so far.
\<close>

record 'b transfer =
  t_chip :: nand_chip
  t_bus :: 'b
  real_page :: nat
  t_dat :: "nat \<Rightarrow> u8"
  t_pos :: nat
  t_oob :: "nat \<Rightarrow> u8"
  t_oobpos :: nat
  t_len :: nat
  t_ooblen :: nat

definition call_back :: "nat \<Rightarrow> nand_chip \<Rightarrow> nand_chip" where
  "call_back page c = (if callback c then c\<lparr>called := called c @ [(page, page div 2 ^ (erase_shift c - write_shift c))]\<rparr> else c)"

definition read_one_page :: "'b nand_bus \<Rightarrow> mtd_oob_ops \<Rightarrow> 'b transfer \<Rightarrow> 'b transfer option" where
  "read_one_page bus ops t = do {
     let c = t_chip t;
     let page = real_page t AND page_num_mask c;
     b \<leftarrow> nand_command bus c NAND_CMMD_READ0 0 (int page) (t_bus t);
     t \<leftarrow> (if mode ops = FLASH_OOB_RAW
           then do {
             let (m, c, b) = nand_read_page_raw bus c (at_pos (t_pos t) (t_dat t)) b;
             os \<leftarrow> nand_copy_oob c ops (oob_size c);
             Some (t\<lparr>t_chip := c, t_bus := b, t_dat := store_bytes (t_pos t + write_size c) os (put_pos (t_pos t) m (t_dat t)),
               t_pos := t_pos t + write_size c + length os, t_len := add32 (t_len t) (write_size c + oob_size c)\<rparr>) }
           else do {
             (m, c, b) \<leftarrow> nand_read_page bus c (at_pos (t_pos t) (t_dat t)) b;
             let t = t\<lparr>t_chip := c, t_bus := b, t_dat := put_pos (t_pos t) m (t_dat t),
                       t_pos := t_pos t + write_size c, t_len := add32 (t_len t) (write_size c)\<rparr>;
             if oobbuf ops = None then Some t
             else do {
               os \<leftarrow> nand_copy_oob c ops (ooblen ops);
               Some (t\<lparr>t_oob := store_bytes (t_oobpos t) os (t_oob t), t_oobpos := t_oobpos t + length os,
                 t_ooblen := add32 (t_ooblen t) (ooblen ops)\<rparr>) } });
     b \<leftarrow> (if flash_ready bus = None then Some (t_bus t) else nand_wait_ready bus (t_bus t));
     Some (t\<lparr>t_chip := call_back page (t_chip t), t_bus := b, real_page := real_page t + 1\<rparr>) }"

partial_function (option) page_loop :: "'b nand_bus \<Rightarrow> mtd_oob_ops \<Rightarrow> 'b transfer \<Rightarrow> 'b transfer option" where
  "page_loop bus ops t = (if t_len t < len ops then do { t \<leftarrow> read_one_page bus ops t; page_loop bus ops t } else Some t)"

definition memory_at :: "(nat \<Rightarrow> u8) option \<Rightarrow> nat \<Rightarrow> u8" where
  "memory_at p = (case p of None \<Rightarrow> \<lambda>_. 0 | Some m \<Rightarrow> m)"

definition nand_read_by_opt :: "'b nand_bus \<Rightarrow> nat \<Rightarrow> mtd_oob_ops \<Rightarrow> nand_chip \<Rightarrow> 'b \<Rightarrow> (int \<times> mtd_oob_ops \<times> nand_chip \<times> 'b) option" where
  "nand_read_by_opt bus from ops c b = do {
     dat \<leftarrow> datbuf ops;
     t \<leftarrow> page_loop bus ops \<lparr>t_chip = c, t_bus = nand_chipsel bus True b, real_page = from div 2 ^ write_shift c, t_dat = dat, t_pos = 0,
            t_oob = memory_at (oobbuf ops), t_oobpos = 0, t_len = 0, t_ooblen = 0\<rparr>;
     let ops = ops\<lparr>retlen := t_len t, datbuf := Some (t_dat t)\<rparr>;
     let ops = (if oobbuf ops = None then ops else ops\<lparr>oobretlen := t_ooblen t, oobbuf := Some (t_oob t)\<rparr>);
     let c' = t_chip t;
     Some (if ecc_failed_count c' - ecc_failed_count c \<noteq> 0 then - EBADMSG
           else if ecc_correct_count c' - ecc_correct_count c \<noteq> 0 then - EUCLEAN else 0, ops, c', t_bus t) }"

text \<open>\<^verbatim>\<open>nand_read\<close>: the result, \<^verbatim>\<open>*retlen\<close> where it is written, and the memory at the buffer.\<close>

definition nand_read :: "'b nand_bus \<Rightarrow> nat \<Rightarrow> nat \<Rightarrow> (nat \<Rightarrow> u8) \<Rightarrow> nand_chip \<Rightarrow> 'b \<Rightarrow> (int \<times> nat option \<times> (nat \<Rightarrow> u8) \<times> nand_chip \<times> 'b) option" where
  "nand_read bus from n buff c b =
     (if add32 from n > chip_size c then Some (- EINVAL, None, buff, c, b)
      else if n = 0 then Some (0, None, buff, c, b)
      else do {
        (ret, ops, c, b) \<leftarrow> nand_read_by_opt bus from ((opt c)\<lparr>len := n, datbuf := Some buff, oobbuf := None\<rparr>) c b;
        let (c, b) = nand_release_chip bus (c\<lparr>opt := ops\<rparr>) b;
        Some (ret, Some (retlen ops), memory_at (datbuf ops), c, b) })"

text \<open>The spare bytes one gets in a mode.\<close>

definition oob_avail :: "nand_chip \<Rightarrow> OOB_MODE \<Rightarrow> nat option" where
  "oob_avail c md = (if md = MTD_OPS_AUTO_OOB then map_option free_oob_sum (curr_oob_layout (master c)) else Some (oob_size c))"

record 'b oob_read =
  o_chip :: nand_chip
  o_bus :: 'b
  o_page :: nat
  o_buf :: "nat \<Rightarrow> u8"
  o_pos :: nat
  o_left :: nat
  o_len :: nat
  sndcmd :: bool

partial_function (option) oob_loop :: "'b nand_bus \<Rightarrow> mtd_oob_ops \<Rightarrow> 'b oob_read \<Rightarrow> 'b oob_read option" where
  "oob_loop bus ops r = do {
     let page = o_page r AND page_num_mask (o_chip r);
     (c, b) \<leftarrow> nand_read_oob_std bus (o_chip r) page (sndcmd r) (o_bus r);
     let n = min (o_len r) (o_left r);
     os \<leftarrow> nand_copy_oob c ops n;
     b \<leftarrow> (if flags c AND NAND_NO_READRDY = 0 \<and> flash_ready bus \<noteq> None then nand_wait_ready bus b else Some b);
     let r = r\<lparr>o_chip := c, o_bus := b, o_buf := store_bytes (o_pos r) os (o_buf r), o_pos := o_pos r + length os,
               o_left := o_left r - n, o_len := n, sndcmd := False\<rparr>;
     if o_left r = 0 then Some r
     else do {
       let r = r\<lparr>o_chip := call_back page c, o_page := o_page r + 1\<rparr>;
       let page = o_page r AND page_num_mask c;
       let b = (if page = 0 then nand_chipsel bus True (nand_chipsel bus False (o_bus r)) else o_bus r);
       let blkcheck = 2 ^ (phy_erase_shift c - write_shift c) - 1;
       oob_loop bus ops (r\<lparr>o_bus := b, sndcmd := flags c AND NAND_NO_AUTOINCR \<noteq> 0 \<or> page AND blkcheck = 0\<rparr>) } }"

text \<open>The room for spare bytes from an address to the end of the chip.\<close>

definition oob_room :: "nand_chip \<Rightarrow> nat \<Rightarrow> nat \<Rightarrow> nat" where
  "oob_room c from n = ((chip_size c div 2 ^ write_shift c - from div 2 ^ write_shift c) * n) mod 2 ^ 32"

definition nand_do_read_oob :: "'b nand_bus \<Rightarrow> nat \<Rightarrow> mtd_oob_ops \<Rightarrow> nand_chip \<Rightarrow> 'b \<Rightarrow> (int \<times> mtd_oob_ops \<times> nand_chip \<times> 'b) option" where
  "nand_do_read_oob bus from ops c b = do {
     n \<leftarrow> oob_avail c (mode ops);
     if ooboffs ops \<ge> n then Some (- EINVAL, ops, c, b)
     else if from \<ge> chip_size c \<or> add32 (ooboffs ops) (ooblen ops) > oob_room c from n then Some (- EINVAL, ops, c, b)
     else do {
       m \<leftarrow> oobbuf ops;
       r \<leftarrow> oob_loop bus ops \<lparr>o_chip = c, o_bus = nand_chipsel bus True b, o_page = from div 2 ^ write_shift c, o_buf = m, o_pos = 0,
              o_left = ooblen ops, o_len = n, sndcmd = True\<rparr>;
       Some (0, ops\<lparr>oobretlen := ooblen ops, oobbuf := Some (o_buf r)\<rparr>, o_chip r, o_bus r) } }"

definition nand_read_oob :: "'b nand_bus \<Rightarrow> nat \<Rightarrow> mtd_oob_ops \<Rightarrow> nand_chip \<Rightarrow> 'b \<Rightarrow> (int \<times> mtd_oob_ops \<times> nand_chip \<times> 'b) option" where
  "nand_read_oob bus from ops c b =
     (let ops = ops\<lparr>retlen := 0\<rparr>
      in if datbuf ops \<noteq> None \<and> add32 from (len ops) > chip_size c then Some (- EINVAL, ops, c, b)
         else do {
           (ret, ops, c, b) \<leftarrow> (if datbuf ops = None then nand_do_read_oob bus from ops c b else nand_read_by_opt bus from ops c b);
           let (c, b) = nand_release_chip bus c b;
           Some (ret, ops, c, b) })"

section \<open>Writing\<close>

definition check_aligned :: "nat \<Rightarrow> nat \<Rightarrow> bool" where
  "check_aligned align val \<longleftrightarrow> val AND (align - 1) = 0"

definition blank_oob :: "nand_chip \<Rightarrow> nand_chip" where
  "blank_oob c = c\<lparr>oob_buf := store_bytes 0 (replicate (oob_size c) 0xFF) (oob_buf c)\<rparr>"

text \<open>One page; \<open>Inl\<close> is a chip that reports a failure.\<close>

definition write_one_page :: "'b nand_bus \<Rightarrow> mtd_oob_ops \<Rightarrow> 'b transfer \<Rightarrow> ('b transfer + 'b transfer) option" where
  "write_one_page bus ops t = do {
     let c = t_chip t;
     let page = real_page t AND page_num_mask c;
     let curr = at_pos (t_pos t) (t_dat t);
     let t = t\<lparr>t_pos := t_pos t + write_size c, t_len := add32 (t_len t) (write_size c)\<rparr>;
     b \<leftarrow> nand_command bus c NAND_CMMD_SEQIN 0 (int page) (t_bus t);
     t \<leftarrow> (if mode ops = FLASH_OOB_RAW
           then do {
             (c, used) \<leftarrow> nand_fill_oob c (at_pos (t_pos t) (t_dat t)) ops;
             Some (t\<lparr>t_chip := c, t_pos := t_pos t + used, t_len := add32 (t_len t) (oob_size c), t_bus := nand_write_page_raw bus c curr b\<rparr>) }
           else do {
             (c, used) \<leftarrow> (if oobbuf ops = None then Some (c, 0) else nand_fill_oob c (at_pos (t_oobpos t) (t_oob t)) ops);
             (c, b) \<leftarrow> nand_write_page bus c curr b;
             Some (t\<lparr>t_chip := c, t_oobpos := t_oobpos t + used, t_bus := b\<rparr>) });
     b \<leftarrow> nand_command bus (t_chip t) NAND_CMMD_PAGEPROG (- 1) (- 1) (t_bus t);
     (status, b) \<leftarrow> nand_wait bus (t_chip t) b;
     let t = t\<lparr>t_bus := b\<rparr>;
     Some (if status AND NAND_STATUS_FAIL \<noteq> 0 then Inl t
           else Inr (t\<lparr>t_chip := call_back page (t_chip t), real_page := real_page t + 1\<rparr>)) }"

partial_function (option) write_loop :: "'b nand_bus \<Rightarrow> mtd_oob_ops \<Rightarrow> 'b transfer \<Rightarrow> ('b transfer + 'b transfer) option" where
  "write_loop bus ops t =
     (if t_len t < len ops
      then do { r \<leftarrow> write_one_page bus ops t; case r of Inl t \<Rightarrow> Some (Inl t) | Inr t \<Rightarrow> write_loop bus ops t }
      else Some (Inr t))"

text \<open>The page in the buffer is forgotten when it is written.\<close>

definition forget_page :: "nat \<Rightarrow> nat \<Rightarrow> nand_chip \<Rightarrow> nand_chip" where
  "forget_page to n c =
     (let off = nat ((page_in_buff c * 2 ^ write_shift c) mod 2 ^ 32)
      in if to \<le> off \<and> off < add32 to n then c\<lparr>page_in_buff := - 1\<rparr> else c)"

definition nand_write_by_opt :: "'b nand_bus \<Rightarrow> nat \<Rightarrow> mtd_oob_ops \<Rightarrow> nand_chip \<Rightarrow> 'b \<Rightarrow> (int \<times> mtd_oob_ops \<times> nand_chip \<times> 'b) option" where
  "nand_write_by_opt bus to ops c b =
     (let ops = ops\<lparr>retlen := 0\<rparr>
      in if len ops = 0 then Some (0, ops, c, b)
         else if \<not> check_aligned (write_size c) to then Some (- EINVAL, ops, c, b)
         else do {
           (wp, b) \<leftarrow> nand_check_wp bus c (nand_chipsel bus True b);
           if wp then None
           else do {
             dat \<leftarrow> datbuf ops;
             let c = forget_page to (len ops) c;
             let c = (if oobbuf ops = None then blank_oob c else c);
             r \<leftarrow> write_loop bus ops \<lparr>t_chip = c, t_bus = b, real_page = to div 2 ^ write_shift c, t_dat = dat, t_pos = 0,
                    t_oob = memory_at (oobbuf ops), t_oobpos = 0, t_len = 0, t_ooblen = 0\<rparr>;
             case r of Inl t \<Rightarrow> Some (- EIO, ops, t_chip t, t_bus t)
             | Inr t \<Rightarrow>
                 let ops = ops\<lparr>retlen := t_len t\<rparr>;
                     ops = (if oobbuf ops = None then ops else ops\<lparr>oobretlen := ooblen ops\<rparr>)
                 in Some (0, ops, t_chip t, t_bus t) } })"

definition nand_write :: "'b nand_bus \<Rightarrow> nat \<Rightarrow> nat \<Rightarrow> (nat \<Rightarrow> u8) \<Rightarrow> nand_chip \<Rightarrow> 'b \<Rightarrow> (int \<times> nat option \<times> nand_chip \<times> 'b) option" where
  "nand_write bus to n buff c b =
     (if add32 to n > chip_size c then Some (- EINVAL, None, c, b)
      else if n = 0 then Some (0, None, c, b)
      else do {
        (ret, ops, c, b) \<leftarrow> nand_write_by_opt bus to ((opt c)\<lparr>len := n, datbuf := Some buff, oobbuf := None, mode := FLASH_OOB_PLACE\<rparr>) c b;
        let (c, b) = nand_release_chip bus (c\<lparr>opt := ops\<rparr>) b;
        Some (ret, Some (retlen ops), c, b) })"

definition nand_do_write_oob :: "'b nand_bus \<Rightarrow> nat \<Rightarrow> mtd_oob_ops \<Rightarrow> nand_chip \<Rightarrow> 'b \<Rightarrow> (int \<times> mtd_oob_ops \<times> nand_chip \<times> 'b) option" where
  "nand_do_write_oob bus to ops c b = do {
     n \<leftarrow> oob_avail c (mode ops);
     if add32 (ooboffs ops) (ooblen ops) > n then Some (- EINVAL, ops, c, b)
     else if ooboffs ops \<ge> n then Some (- EINVAL, ops, c, b)
     else if to \<ge> chip_size c \<or> add32 (ooboffs ops) (ooblen ops) > oob_room c to n then Some (- EINVAL, ops, c, b)
     else do {
       let page = to div 2 ^ write_shift c;
       b \<leftarrow> nand_command bus c NAND_CMMD_RESET (- 1) (- 1) (nand_chipsel bus True b);
       (wp, b) \<leftarrow> nand_check_wp bus c b;
       if wp then Some (- EROFS, ops, c, b)
       else do {
         let c = blank_oob (if int page = page_in_buff c then c\<lparr>page_in_buff := - 1\<rparr> else c);
         m \<leftarrow> oobbuf ops;
         (c, _) \<leftarrow> nand_fill_oob c m ops;
         (status, b) \<leftarrow> nand_write_oob_std bus c (page AND page_num_mask c) b;
         let c = blank_oob c;
         Some (if status \<noteq> 0 then (status, ops, c, b) else (0, ops\<lparr>oobretlen := ooblen ops\<rparr>, c, b)) } } }"

definition nand_write_oob :: "'b nand_bus \<Rightarrow> nat \<Rightarrow> mtd_oob_ops \<Rightarrow> nand_chip \<Rightarrow> 'b \<Rightarrow> (int \<times> mtd_oob_ops \<times> nand_chip \<times> 'b) option" where
  "nand_write_oob bus to ops c b =
     (let ops = ops\<lparr>retlen := 0\<rparr>
      in if datbuf ops \<noteq> None \<and> add32 to (len ops) > chip_size c then Some (- EINVAL, ops, c, b)
         else do {
           (ret, ops, c, b) \<leftarrow> (if datbuf ops = None then nand_do_write_oob bus to ops c b else nand_write_by_opt bus to ops c b);
           let (c, b) = nand_release_chip bus c b;
           Some (ret, ops, c, b) })"

section \<open>Transfers over a chip\<close>

lemma chip_fits_update [simp]:
  "chip_fits cmd wsh os pb bb (c\<lparr>oob_buf := ob\<rparr>) = chip_fits cmd wsh os pb bb c"
  "chip_fits cmd wsh os pb bb (c\<lparr>ecccalc := ec\<rparr>) = chip_fits cmd wsh os pb bb c"
  "chip_fits cmd wsh os pb bb (c\<lparr>ecccode := ec\<rparr>) = chip_fits cmd wsh os pb bb c"
  "chip_fits cmd wsh os pb bb (c\<lparr>opt := ops\<rparr>) = chip_fits cmd wsh os pb bb c"
  "chip_fits cmd wsh os pb bb (c\<lparr>page_in_buff := p\<rparr>) = chip_fits cmd wsh os pb bb c"
  "chip_fits cmd wsh os pb bb (c\<lparr>called := cs\<rparr>) = chip_fits cmd wsh os pb bb c"
  "chip_fits cmd wsh os pb bb (c\<lparr>bbt := t\<rparr>) = chip_fits cmd wsh os pb bb c"
  "chip_fits cmd wsh os pb bb (c\<lparr>badblocks := n\<rparr>) = chip_fits cmd wsh os pb bb c"
  "chip_fits cmd wsh os pb bb (c\<lparr>master := (master c)\<lparr>state := st\<rparr>\<rparr>) = chip_fits cmd wsh os pb bb c"
  "chip_fits cmd wsh os pb bb (call_back q c) = chip_fits cmd wsh os pb bb c"
  "chip_fits cmd wsh os pb bb (blank_oob c) = chip_fits cmd wsh os pb bb c"
  "chip_fits cmd wsh os pb bb (forget_page to l c) = chip_fits cmd wsh os pb bb c"
  by (simp_all add: chip_fits_def call_back_def blank_oob_def forget_page_def Let_def)

text \<open>Pages without a code, or with the code of the software.\<close>

definition plain_pages :: "nand_chip \<Rightarrow> bool" where
  "plain_pages c \<longleftrightarrow> page_access (master c) = PAGE_RAW \<or> page_access (master c) = PAGE_SWECC \<and> curr_oob_layout (master c) \<noteq> None"

lemma plain_pages_update [simp]:
  "plain_pages (c\<lparr>oob_buf := ob\<rparr>) = plain_pages c" "plain_pages (c\<lparr>ecccalc := ec\<rparr>) = plain_pages c" "plain_pages (c\<lparr>ecccode := ec\<rparr>) = plain_pages c"
  "plain_pages (c\<lparr>opt := ops\<rparr>) = plain_pages c" "plain_pages (c\<lparr>page_in_buff := p\<rparr>) = plain_pages c"
  "plain_pages (c\<lparr>master := (master c)\<lparr>state := st\<rparr>\<rparr>) = plain_pages c"
  "plain_pages (call_back q c) = plain_pages c" "plain_pages (blank_oob c) = plain_pages c" "plain_pages (forget_page to n c) = plain_pages c"
  by (simp_all add: plain_pages_def call_back_def blank_oob_def forget_page_def Let_def)

lemma and_low: "a AND (2 ^ w - 1) = a mod 2 ^ w" for a :: nat
  by (metis mask_eq_exp_minus_1 take_bit_eq_mask take_bit_eq_mod)

lemma fits_page: "chip_fits cmd wsh os pb bb c \<Longrightarrow> r < 2 ^ pb \<Longrightarrow> r AND page_num_mask c = r"
  by (simp add: chip_fits_def and_low del: One_nat_def)

lemma count_ecc_0 [simp]: "count_ecc 0 c = c"
  by (simp add: count_ecc_def)

lemma fold_same: "(\<And>k. k \<in> set ks \<Longrightarrow> f k s = s) \<Longrightarrow> fold f ks s = s"
  by (induction ks) simp_all

lemma nand_chipsel_id [simp]: "nand_chipsel bus sel b = b"
  by (simp add: nand_chipsel_def nand_cmd_ctrl_def)

context nand_commands
begin

lemma check_wp:
  assumes "chip_fits cmd wsh os pb bb c"
  shows "\<exists>b'. nand_check_wp bus c b = Some (protected, b') \<and> page b' = page b \<and> status b' = status b"
proof -
  obtain b' where "rd_data bus (wr_cmmd bus 0x70 b) = (status b, b')" "page b' = page b" "status b' = status b"
    using status_out [OF status_cycle(1), of b] status_cycle by auto
  then show ?thesis
    using assms by (simp add: nand_check_wp_def command_status [OF assms] read_byte_def status_wp chip_fits_def)
qed

lemma wait_status_byte:
  assumes "chip_fits cmd wsh os pb bb c"
  shows "\<exists>b'. nand_wait bus c b = Some (status b, b') \<and> page b' = page b \<and> status b' = status b"
proof -
  let ?b = "poll_ready 10 rdy (wr_cmmd bus 0x70 b)"
  obtain b' where "rd_data bus ?b = (status b, b')" "page b' = page b" "status b' = status b"
    using status_out [of ?b] status_cycle by (auto simp: poll_ready_keeps)
  then show ?thesis
    using assms by (simp add: nand_wait_def command_status [OF assms] read_byte_def ready_line chip_fits_def)
qed

lemma read_page_raw:
  assumes "chip_fits cmd wsh os pb bb c" "mode_of b = Reading r 0" "fst (rdy b)"
  shows "\<exists>b'. nand_read_page_raw bus c m b
      = (store_bytes 0 (take (2 ^ wsh) (page b r)) m, c\<lparr>oob_buf := store_bytes 0 (drop (2 ^ wsh) (page b r)) (oob_buf c)\<rparr>, b') \<and> page b' = page b"
proof -
  have c: "\<not> wide (master c)" "write_size c = 2 ^ wsh" "oob_size c = os" using assms(1) by (simp_all add: chip_fits_def)
  obtain b1 where b1: "nand_read_buff bus (2 ^ wsh) b = (take (2 ^ wsh) (page b r), b1)" "mode_of b1 = Reading r (2 ^ wsh)" "page b1 = page b" "fst (rdy b1)"
    using nand_read_buff_reading [OF assms(2) _ assms(3), of "2 ^ wsh"] by auto
  then obtain b2 where "nand_read_buff bus os b1 = (take os (drop (2 ^ wsh) (page b r)), b2)" "page b2 = page b"
    using nand_read_buff_reading [OF b1(2) _ b1(4), of os] by auto
  then show ?thesis using b1 c page_length [of b r] by (simp add: nand_read_page_raw_def read_buff_def)
qed

lemma read_page_plain:
  assumes "chip_fits cmd wsh os pb bb c" "mode_of b = Reading r 0" "plain_pages c" "fst (rdy b)"
  shows "\<exists>ob ec es b'. nand_read_page bus c m b
      = Some (store_bytes 0 (take (2 ^ wsh) (page b r)) m, c\<lparr>oob_buf := ob, ecccalc := ec, ecccode := es\<rparr>, b') \<and> page b' = page b"
proof -
  obtain b' where raw: "nand_read_page_raw bus c m b
      = (store_bytes 0 (take (2 ^ wsh) (page b r)) m, c\<lparr>oob_buf := store_bytes 0 (drop (2 ^ wsh) (page b r)) (oob_buf c)\<rparr>, b')" "page b' = page b"
    using read_page_raw [OF assms(1,2,4)] by blast
  show ?thesis
  proof (cases "page_access (master c)")
    case PAGE_RAW
    have "c\<lparr>oob_buf := ob\<rparr> = c\<lparr>oob_buf := ob, ecccalc := ecccalc c, ecccode := ecccode c\<rparr>" for ob by simp
    then show ?thesis using raw PAGE_RAW unfolding nand_read_page_def by (metis page_fn.simps(7))
  next
    case PAGE_SWECC
    then obtain lay where "curr_oob_layout (master c) = Some lay" using assms(3) by (auto simp: plain_pages_def)
    moreover have fold_id: "fold (\<lambda>k (m, c). let i = SOFT_ECC_CODE_NUM * k;
            (stat, ds) = nand_correct_data (window m (SOFT_ECC_DATA_LEN * k) (ecc_data_len (master c)))
               (ecccode c i, ecccode c (i + 1), ecccode c (i + 2)) (ecccalc c i, ecccalc c (i + 1), ecccalc c (i + 2))
        in (store_bytes (SOFT_ECC_DATA_LEN * k) ds m, count_ecc stat c)) ks (m', c') = (m', c')" for ks m' c'
      by (rule fold_same) (simp add: nand_correct_data_def store_window)
    ultimately show ?thesis
      using raw PAGE_SWECC by (auto simp: nand_read_page_def nand_read_page_swecc_def Let_def intro!: exI)
  next
    case PAGE_HWECC
    then show ?thesis using assms(3) by (simp add: plain_pages_def)
  qed
qed

end

text \<open>What a transfer leaves alone in the chip structure.\<close>

definition chip_kept :: "nand_chip \<Rightarrow> nand_chip \<Rightarrow> bool" where
  "chip_kept c c' \<longleftrightarrow> ecc_failed_count c' = ecc_failed_count c \<and> ecc_correct_count c' = ecc_correct_count c \<and> bbt c' = bbt c \<and> flags c' = flags c
     \<and> bad_allow c' = bad_allow c \<and> opt c' = opt c \<and> bad_blk_oob_pos c' = bad_blk_oob_pos c \<and> callback c' = callback c \<and> master c' = master c
     \<and> bbt_td c' = bbt_td c \<and> bbt_md c' = bbt_md c"

lemma chip_kept_trans: "chip_kept c c' \<Longrightarrow> chip_kept c' c'' \<Longrightarrow> chip_kept c c''"
  by (simp add: chip_kept_def)

lemma chip_kept_update [simp]:
  "chip_kept c (c'\<lparr>oob_buf := ob\<rparr>) = chip_kept c c'" "chip_kept c (c'\<lparr>ecccalc := ec\<rparr>) = chip_kept c c'" "chip_kept c (c'\<lparr>ecccode := ec\<rparr>) = chip_kept c c'"
  "chip_kept c (c'\<lparr>page_in_buff := p\<rparr>) = chip_kept c c'" "chip_kept c (call_back q c') = chip_kept c c'" "chip_kept c (blank_oob c') = chip_kept c c'"
  "chip_kept c (forget_page to n c') = chip_kept c c'" "chip_kept c c"
  by (simp_all add: chip_kept_def call_back_def blank_oob_def forget_page_def Let_def)

definition released :: "nand_chip \<Rightarrow> nand_chip" where
  "released c = c\<lparr>master := (master c)\<lparr>state := FL_READY\<rparr>\<rparr>"

lemma release_eq [simp]: "nand_release_chip bus c b = (released c, b)"
  by (simp add: nand_release_chip_def released_def)

lemma released_simps [simp]:
  "chip_fits cmd wsh os pb bb (released c) = chip_fits cmd wsh os pb bb c" "plain_pages (released c) = plain_pages c" "opt (released c) = opt c"
  "bbt (released c) = bbt c" "bad_allow (released c) = bad_allow c" "flags (released c) = flags c" "bad_blk_oob_pos (released c) = bad_blk_oob_pos c"
  "bbt_td (released c) = bbt_td c" "bbt_md (released c) = bbt_md c" "callback (released c) = callback c"
  by (simp_all add: released_def)

definition data_of :: "nat \<Rightarrow> (nat \<Rightarrow> u8 list) \<Rightarrow> nat \<Rightarrow> nat \<Rightarrow> u8 list" where
  "data_of ws pg r k = concat (map (\<lambda>i. take ws (pg (r + i))) [0..<k])"

lemma data_of_Suc: "data_of ws pg r (Suc k) = take ws (pg r) @ data_of ws pg (Suc r) k"
  by (simp add: data_of_def upt_conv_Cons map_Suc_upt [symmetric] o_def del: upt_Suc map_Suc_upt)

lemma data_of_0 [simp]: "data_of ws pg r 0 = []"
  by (simp add: data_of_def)

lemma round_up: "0 < w \<Longrightarrow> n \<le> (n + w - 1) div w * w" "0 < w \<Longrightarrow> (n + w - 1) div w * w < n + w" for n :: nat
  using div_mult_mod_eq [of "n + w - 1" w] mod_less_divisor [of w "n + w - 1"] by linarith+

context nand_commands
begin

lemma fits_small: "chip_fits cmd wsh os pb bb c \<Longrightarrow> chip_size c < 2 ^ 32"
proof -
  have "(2 :: nat) ^ (wsh + pb) < 2 ^ 32" using geom by (intro power_strict_increasing) (auto simp: geometry_def)
  then show "chip_fits cmd wsh os pb bb c \<Longrightarrow> ?thesis" by (simp add: chip_fits_def)
qed

lemma read_one_page_plain:
  assumes "chip_fits cmd wsh os pb bb (t_chip t)" "plain_pages (t_chip t)" "mode ops \<noteq> FLASH_OOB_RAW" "oobbuf ops = None" "real_page t < 2 ^ pb"
  shows "\<exists>c b. read_one_page bus ops t = Some (t\<lparr>t_chip := c, t_bus := b, t_dat := store_bytes (t_pos t) (take (2 ^ wsh) (page (t_bus t) (real_page t))) (t_dat t),
            t_pos := t_pos t + 2 ^ wsh, t_len := add32 (t_len t) (2 ^ wsh), real_page := Suc (real_page t)\<rparr>)
     \<and> chip_kept (t_chip t) c \<and> chip_fits cmd wsh os pb bb c \<and> plain_pages c \<and> page b = page (t_bus t)"
proof -
  let ?r = "real_page t" and ?c = "t_chip t"
  obtain b1 where b1: "nand_command bus ?c NAND_CMMD_READ0 0 (int ?r) (t_bus t) = Some b1" "mode_of b1 = Reading ?r 0" "page b1 = page (t_bus t)" "fst (rdy b1)"
    using command_read [OF assms(1,5)] by blast
  obtain ob ec es b2 where b2: "nand_read_page bus ?c (at_pos (t_pos t) (t_dat t)) b1
      = Some (store_bytes 0 (take (2 ^ wsh) (page b1 ?r)) (at_pos (t_pos t) (t_dat t)), ?c\<lparr>oob_buf := ob, ecccalc := ec, ecccode := es\<rparr>, b2)" "page b2 = page b1"
    using read_page_plain [OF assms(1) b1(2) assms(2) b1(4)] by blast
  have ws: "write_size ?c = 2 ^ wsh" using assms(1) by (simp add: chip_fits_def)
  let ?c' = "call_back ?r (?c\<lparr>oob_buf := ob, ecccalc := ec, ecccode := es\<rparr>)"
  show ?thesis
    by (rule exI [of _ ?c'], rule exI [of _ "poll_ready 10 rdy b2"])
      (use assms b1 b2 ws in \<open>simp add: read_one_page_def Let_def fits_page [OF assms(1,5)] put_at ready_line poll_ready_rdy poll_ready_keeps\<close>)
qed

lemma read_loop_plain:
  assumes "chip_fits cmd wsh os pb bb (t_chip t)" "plain_pages (t_chip t)" "mode ops \<noteq> FLASH_OOB_RAW" "oobbuf ops = None"
    and "real_page t + k \<le> 2 ^ pb" "\<forall>j<k. t_len t + j * 2 ^ wsh < len ops" "len ops \<le> t_len t + k * 2 ^ wsh" "t_len t + k * 2 ^ wsh < 2 ^ 32"
  shows "\<exists>t'. page_loop bus ops t = Some t' \<and> t_dat t' = store_bytes (t_pos t) (data_of (2 ^ wsh) (page (t_bus t)) (real_page t) k) (t_dat t)
     \<and> t_len t' = t_len t + k * 2 ^ wsh \<and> page (t_bus t') = page (t_bus t) \<and> chip_kept (t_chip t) (t_chip t')
     \<and> chip_fits cmd wsh os pb bb (t_chip t') \<and> plain_pages (t_chip t')"
  using assms
proof (induction k arbitrary: t)
  case 0
  then show ?case by (subst page_loop.simps) simp
next
  case (Suc k)
  have r: "real_page t < 2 ^ pb" and l: "t_len t < len ops" using Suc.prems by auto
  obtain c b where t1: "read_one_page bus ops t = Some (t\<lparr>t_chip := c, t_bus := b, t_dat := store_bytes (t_pos t) (take (2 ^ wsh) (page (t_bus t) (real_page t))) (t_dat t),
            t_pos := t_pos t + 2 ^ wsh, t_len := add32 (t_len t) (2 ^ wsh), real_page := Suc (real_page t)\<rparr>)" (is "_ = Some ?t")
    and c: "chip_kept (t_chip t) c" "chip_fits cmd wsh os pb bb c" "plain_pages c" "page b = page (t_bus t)"
    using read_one_page_plain [OF Suc.prems(1-4) r] by blast
  have add: "add32 (t_len t) (2 ^ wsh) = t_len t + 2 ^ wsh" using Suc.prems(8) by simp
  have "t_len ?t + j * 2 ^ wsh < len ops" if "j < k" for j using Suc.prems(6) [rule_format, of "Suc j"] that by (simp add: add)
  with Suc.IH [of ?t] Suc.prems c obtain t' where "page_loop bus ops ?t = Some t'" 
      "t_dat t' = store_bytes (t_pos t + 2 ^ wsh) (data_of (2 ^ wsh) (page (t_bus t)) (Suc (real_page t)) k) (store_bytes (t_pos t) (take (2 ^ wsh) (page (t_bus t) (real_page t))) (t_dat t))"
      "t_len t' = t_len t + Suc k * 2 ^ wsh" "page (t_bus t') = page (t_bus t)" "chip_kept c (t_chip t')" "chip_fits cmd wsh os pb bb (t_chip t')" "plain_pages (t_chip t')"
    by (auto simp: add algebra_simps)
  moreover have "length (take (2 ^ wsh) (page (t_bus t) (real_page t))) = 2 ^ wsh" by (simp add: page_length)
  moreover have "page_loop bus ops t = page_loop bus ops ?t" using t1 l by (subst page_loop.simps) simp
  ultimately show ?case using c(1) by (auto simp: data_of_Suc store_bytes_append intro: chip_kept_trans)
qed

text \<open>The pages that a range of addresses takes up.\<close>

lemma page_range:
  assumes "chip_fits cmd wsh os pb bb c" "from + n \<le> chip_size c" and k: "k = (n + 2 ^ wsh - 1) div 2 ^ wsh"
  shows "from div 2 ^ wsh + k \<le> 2 ^ pb" "\<And>j. j < k \<Longrightarrow> j * 2 ^ wsh < n" "n \<le> k * 2 ^ wsh" "k * 2 ^ wsh < 2 ^ 32" "add32 from n \<le> chip_size c"
proof -
  let ?ws = "2 ^ wsh :: nat"
  have c: "chip_size c = 2 ^ wsh * 2 ^ pb" using assms(1) by (simp add: chip_fits_def power_add)
  show kn: "n \<le> k * ?ws" unfolding k by (rule round_up) simp
  have kn': "k * ?ws < n + ?ws" unfolding k by (rule round_up) simp
  have "from div ?ws * ?ws + k * ?ws < chip_size c + ?ws" using kn' assms(2) div_times_less_eq_dividend [of "from" ?ws] by linarith
  then have "(from div ?ws + k) * ?ws < (2 ^ pb + 1) * ?ws" unfolding c by (simp add: algebra_simps)
  then show last: "from div ?ws + k \<le> 2 ^ pb" by (simp del: mult_Suc)
  show "j * ?ws < n" if "j < k" for j using kn' that mult_le_mono1 [of "Suc j" k ?ws] by simp
  have "k * ?ws \<le> chip_size c" unfolding c using last by (simp add: mult.commute)
  then show "k * ?ws < 2 ^ 32" using fits_small [OF assms(1)] by (rule order.strict_trans1)
  show "add32 from n \<le> chip_size c" using fits_small [OF assms(1)] assms(2) by simp
qed

text \<open>Reading, for any address and length: whole pages, from the page of the address on.\<close>

lemma nand_read_pages:
  assumes "chip_fits cmd wsh os pb bb c" "plain_pages c" "mode (opt c) = FLASH_OOB_PLACE" "from + n \<le> chip_size c" "0 < n"
    and k: "k = (n + 2 ^ wsh - 1) div 2 ^ wsh"
  shows "\<exists>c' b'. nand_read bus from n buff c b
       = Some (0, Some (k * 2 ^ wsh), store_bytes 0 (data_of (2 ^ wsh) (page b) (from div 2 ^ wsh) k) buff, c', b')
     \<and> page b' = page b \<and> chip_fits cmd wsh os pb bb c' \<and> plain_pages c' \<and> mode (opt c') = FLASH_OOB_PLACE \<and> bbt c' = bbt c \<and> bad_allow c' = bad_allow c"
proof -
  let ?ws = "2 ^ wsh :: nat"
  let ?t = "\<lparr>t_chip = c, t_bus = b, real_page = from div ?ws, t_dat = buff, t_pos = 0, t_oob = memory_at None, t_oobpos = 0, t_len = 0, t_ooblen = 0\<rparr>"
  let ?ops = "(opt c)\<lparr>len := n, datbuf := Some buff, oobbuf := None\<rparr>"
  have c: "write_shift c = wsh" using assms(1) by (simp add: chip_fits_def)
  note range = page_range [OF assms(1,4) k]
  obtain t' where "page_loop bus ?ops ?t = Some t'" "t_dat t' = store_bytes 0 (data_of ?ws (page b) (from div ?ws) k) buff" "t_len t' = k * ?ws"
      "page (t_bus t') = page b" "chip_kept c (t_chip t')" "chip_fits cmd wsh os pb bb (t_chip t')" "plain_pages (t_chip t')"
    using read_loop_plain [of ?t ?ops k] assms(1-3) range by auto
  then show ?thesis
    using assms(3,5) c range(5) by (auto simp: nand_read_def nand_read_by_opt_def memory_at_def chip_kept_def)
qed

end

text \<open>What programming makes of the data bytes of a page.\<close>

definition written :: "nat \<Rightarrow> (nat \<Rightarrow> u8) \<Rightarrow> nat \<Rightarrow> u8 list \<Rightarrow> u8 list" where
  "written ws dat p old = map2 (AND) (window dat p ws) (take ws old)"

context nand_commands
begin

lemma write_page_plain:
  assumes "chip_fits cmd wsh os pb bb c" "mode_of b = Loading r 0 []" "plain_pages c"
  shows "\<exists>ob ec b'. nand_write_page bus c m b = Some (c\<lparr>oob_buf := ob, ecccalc := ec\<rparr>, b')
     \<and> mode_of b' = Loading r 0 (window m 0 (2 ^ wsh) @ window ob 0 os) \<and> page b' = page b"
proof -
  have c: "\<not> wide (master c)" "write_size c = 2 ^ wsh" "oob_size c = os" using assms(1) by (simp_all add: chip_fits_def)
  have raw: "mode_of (nand_write_page_raw bus c' m b) = Loading r 0 (window m 0 (2 ^ wsh) @ window (oob_buf c') 0 os) \<and> page (nand_write_page_raw bus c' m b) = page b"
    if "\<not> wide (master c')" "write_size c' = 2 ^ wsh" "oob_size c' = os" for c'
    using that nand_write_buff_loading [OF assms(2), of "window m 0 (2 ^ wsh)"]
      nand_write_buff_loading [of "nand_write_buff bus (window m 0 (2 ^ wsh)) b" r 0 "window m 0 (2 ^ wsh)" "window (oob_buf c') 0 os"]
    by (simp add: nand_write_page_raw_def write_buff_def)
  show ?thesis
  proof (cases "page_access (master c)")
    case PAGE_RAW
    show ?thesis
      by (rule exI [of _ "oob_buf c"], rule exI [of _ "ecccalc c"]) (use raw c PAGE_RAW in \<open>simp add: nand_write_page_def\<close>)
  next
    case PAGE_SWECC
    then obtain lay where lay: "curr_oob_layout (master c) = Some lay" using assms(3) by (auto simp: plain_pages_def)
    let ?ec = "soft_codes c m (ecccalc c)"
    let ?ob = "codes_to_oob lay (SOFT_ECC_CODE_NUM * length (rounds (write_size c) SOFT_ECC_DATA_LEN)) ?ec (oob_buf c)"
    show ?thesis
      by (rule exI [of _ ?ob], rule exI [of _ ?ec])
        (use raw [of "c\<lparr>ecccalc := ?ec, oob_buf := ?ob\<rparr>"] c PAGE_SWECC lay in \<open>simp add: nand_write_page_def nand_write_page_swecc_def Let_def\<close>)
  next
    case PAGE_HWECC
    then show ?thesis using assms(3) by (simp add: plain_pages_def)
  qed
qed

lemma write_one_page_plain:
  assumes "chip_fits cmd wsh os pb bb (t_chip t)" "plain_pages (t_chip t)" "mode ops \<noteq> FLASH_OOB_RAW" "oobbuf ops = None" "real_page t < 2 ^ pb" "\<not> protected"
  shows "\<exists>c b. chip_kept (t_chip t) c \<and> chip_fits cmd wsh os pb bb c \<and> plain_pages c \<and> (\<forall>q. q \<noteq> real_page t \<longrightarrow> page b q = page (t_bus t) q)
     \<and> (write_one_page bus ops t = Some (Inl (t\<lparr>t_chip := c, t_bus := b, t_pos := t_pos t + 2 ^ wsh, t_len := add32 (t_len t) (2 ^ wsh)\<rparr>))
          \<and> status b AND NAND_STATUS_FAIL \<noteq> 0
        \<or> write_one_page bus ops t = Some (Inr (t\<lparr>t_chip := c, t_bus := b, t_pos := t_pos t + 2 ^ wsh, t_len := add32 (t_len t) (2 ^ wsh), real_page := Suc (real_page t)\<rparr>))
        \<and> take (2 ^ wsh) (page b (real_page t)) = written (2 ^ wsh) (t_dat t) (t_pos t) (page (t_bus t) (real_page t)))"
proof -
  let ?r = "real_page t" and ?c = "t_chip t"
  obtain b1 where b1: "nand_command bus ?c NAND_CMMD_SEQIN 0 (int ?r) (t_bus t) = Some b1" "mode_of b1 = Loading ?r 0 []" "page b1 = page (t_bus t)"
    using command_seqin [OF assms(1,5), of 0] geom by (auto simp: geometry_def)
  obtain ob ec b2 where b2: "nand_write_page bus ?c (at_pos (t_pos t) (t_dat t)) b1 = Some (?c\<lparr>oob_buf := ob, ecccalc := ec\<rparr>, b2)"
      "mode_of b2 = Loading ?r 0 (window (t_dat t) (t_pos t) (2 ^ wsh) @ window ob 0 os)" "page b2 = page (t_bus t)"
    using write_page_plain [OF assms(1) b1(2) assms(2), of "at_pos (t_pos t) (t_dat t)"] b1(3) by auto
  let ?c2 = "?c\<lparr>oob_buf := ob, ecccalc := ec\<rparr>" and ?b3 = "wr_cmmd bus 0x10 b2"
  have fits: "chip_fits cmd wsh os pb bb ?c2" using assms(1) by simp
  obtain b4 where b4: "nand_wait bus ?c2 ?b3 = Some (status ?b3, b4)" "page b4 = page ?b3" "status b4 = status ?b3" using wait_status_byte [OF fits] by blast
  have others: "page b4 q = page (t_bus t) q" if "q \<noteq> ?r" for q using program_cycle(1) [OF b2(2) that] b2(3) b4(2) by simp
  have "take (2 ^ wsh) (page b4 ?r) = written (2 ^ wsh) (t_dat t) (t_pos t) (page (t_bus t) ?r)" if "status ?b3 AND NAND_STATUS_FAIL = 0"
    using program_cycle(2) [OF b2(2) _ that assms(6)] b2(3) b4(2) page_length [of "t_bus t" ?r] by (simp add: take_program written_def)
  moreover have ws: "write_size ?c = 2 ^ wsh" using assms(1) by (simp add: chip_fits_def)
  ultimately show ?thesis
    using assms b1 b2(1) b4(1,3) others fits command_prog [OF fits, of b2]
    by (intro exI [of _ "if status ?b3 AND NAND_STATUS_FAIL = 0 then call_back ?r ?c2 else ?c2"] exI [of _ b4])
      (auto simp: write_one_page_def Let_def fits_page [OF assms(1,5)])
qed

end

context nand_commands
begin

lemma write_loop_plain:
  assumes "chip_fits cmd wsh os pb bb (t_chip t)" "plain_pages (t_chip t)" "mode ops \<noteq> FLASH_OOB_RAW" "oobbuf ops = None" "\<not> protected"
    and "real_page t + k \<le> 2 ^ pb" "\<forall>j<k. t_len t + j * 2 ^ wsh < len ops" "len ops \<le> t_len t + k * 2 ^ wsh" "t_len t + k * 2 ^ wsh < 2 ^ 32"
  shows "\<exists>t'. chip_kept (t_chip t) (t_chip t') \<and> chip_fits cmd wsh os pb bb (t_chip t') \<and> plain_pages (t_chip t')
     \<and> (\<forall>q. q < real_page t \<or> real_page t + k \<le> q \<longrightarrow> page (t_bus t') q = page (t_bus t) q)
     \<and> (write_loop bus ops t = Some (Inl t') \<and> status (t_bus t') AND NAND_STATUS_FAIL \<noteq> 0
        \<or> write_loop bus ops t = Some (Inr t') \<and> t_len t' = t_len t + k * 2 ^ wsh
          \<and> (\<forall>i<k. take (2 ^ wsh) (page (t_bus t') (real_page t + i)) = written (2 ^ wsh) (t_dat t) (t_pos t + i * 2 ^ wsh) (page (t_bus t) (real_page t + i))))"
  using assms
proof (induction k arbitrary: t)
  case 0
  then have "write_loop bus ops t = Some (Inr t)" by (subst write_loop.simps) simp
  then show ?case using "0.prems" by (intro exI [of _ t]) simp
next
  case (Suc k)
  let ?ws = "2 ^ wsh :: nat" and ?r = "real_page t"
  have r: "?r < 2 ^ pb" and l: "t_len t < len ops" using Suc.prems by auto
  have unfold: "write_loop bus ops t = (write_one_page bus ops t \<bind> (\<lambda>x. case x of Inl t \<Rightarrow> Some (Inl t) | Inr t \<Rightarrow> write_loop bus ops t))"
    using l by (subst write_loop.simps) simp
  obtain c b where c: "chip_kept (t_chip t) c" "chip_fits cmd wsh os pb bb c" "plain_pages c" "\<forall>q. q \<noteq> ?r \<longrightarrow> page b q = page (t_bus t) q"
    and step: "write_one_page bus ops t = Some (Inl (t\<lparr>t_chip := c, t_bus := b, t_pos := t_pos t + ?ws, t_len := add32 (t_len t) ?ws\<rparr>)) \<and> status b AND NAND_STATUS_FAIL \<noteq> 0
        \<or> write_one_page bus ops t = Some (Inr (t\<lparr>t_chip := c, t_bus := b, t_pos := t_pos t + ?ws, t_len := add32 (t_len t) ?ws, real_page := Suc ?r\<rparr>))
        \<and> take ?ws (page b ?r) = written ?ws (t_dat t) (t_pos t) (page (t_bus t) ?r)"
    using write_one_page_plain [OF Suc.prems(1-4) r Suc.prems(5)] by blast
  have add: "add32 (t_len t) ?ws = t_len t + ?ws" using Suc.prems(9) by simp
  from step show ?case
  proof (elim disjE conjE)
    assume s: "write_one_page bus ops t = Some (Inl (t\<lparr>t_chip := c, t_bus := b, t_pos := t_pos t + ?ws, t_len := add32 (t_len t) ?ws\<rparr>))"
      and "status b AND NAND_STATUS_FAIL \<noteq> 0"
    then show ?case using unfold c by (intro exI [of _ "t\<lparr>t_chip := c, t_bus := b, t_pos := t_pos t + ?ws, t_len := add32 (t_len t) ?ws\<rparr>"]) auto
  next
    let ?t = "t\<lparr>t_chip := c, t_bus := b, t_pos := t_pos t + ?ws, t_len := add32 (t_len t) ?ws, real_page := Suc ?r\<rparr>"
    assume s: "write_one_page bus ops t = Some (Inr ?t)" and w: "take ?ws (page b ?r) = written ?ws (t_dat t) (t_pos t) (page (t_bus t) ?r)"
    have "t_len ?t + j * ?ws < len ops" if "j < k" for j using Suc.prems(7) [rule_format, of "Suc j"] that by (simp add: add)
    with Suc.IH [of ?t] Suc.prems c(2,3) obtain t' where t': "chip_kept c (t_chip t')" "chip_fits cmd wsh os pb bb (t_chip t')" "plain_pages (t_chip t')"
        "\<forall>q. q < Suc ?r \<or> Suc ?r + k \<le> q \<longrightarrow> page (t_bus t') q = page b q"
        "write_loop bus ops ?t = Some (Inl t') \<and> status (t_bus t') AND NAND_STATUS_FAIL \<noteq> 0 \<or> write_loop bus ops ?t = Some (Inr t') \<and> t_len t' = t_len t + Suc k * ?ws
          \<and> (\<forall>i<k. take ?ws (page (t_bus t') (Suc ?r + i)) = written ?ws (t_dat t) (t_pos t + ?ws + i * ?ws) (page b (Suc ?r + i)))"
      by (auto simp: add algebra_simps)
    have "write_loop bus ops t = write_loop bus ops ?t" using unfold s by simp
    moreover have "take ?ws (page (t_bus t') (?r + i)) = written ?ws (t_dat t) (t_pos t + i * ?ws) (page (t_bus t) (?r + i))"
      if "i < Suc k" "\<forall>i<k. take ?ws (page (t_bus t') (Suc ?r + i)) = written ?ws (t_dat t) (t_pos t + ?ws + i * ?ws) (page b (Suc ?r + i))" for i
      using that w t'(4) c(4) by (cases i) (auto simp: algebra_simps)
    ultimately show ?case
      using t' c chip_kept_trans [OF c(1) t'(1)] by (intro exI [of _ t']) auto
  qed
qed

text \<open>
  Writing, from the start of a page on: the chip reports a failure, or all pages of the range hold what programming makes of them. No other page is touched.
\<close>

lemma nand_write_pages:
  assumes "chip_fits cmd wsh os pb bb c" "plain_pages c" "to + n \<le> chip_size c" "0 < n" "2 ^ wsh dvd to" "\<not> protected"
    and k: "k = (n + 2 ^ wsh - 1) div 2 ^ wsh"
  shows "\<exists>ret rl c' b'. nand_write bus to n buff c b = Some (ret, Some rl, c', b') \<and> (ret = - EIO \<and> rl = 0 \<and> status b' AND NAND_STATUS_FAIL \<noteq> 0
       \<or> ret = 0 \<and> rl = k * 2 ^ wsh \<and> (\<forall>i<k. take (2 ^ wsh) (page b' (to div 2 ^ wsh + i)) = written (2 ^ wsh) buff (i * 2 ^ wsh) (page b (to div 2 ^ wsh + i))))
     \<and> (\<forall>q. q < to div 2 ^ wsh \<or> to div 2 ^ wsh + k \<le> q \<longrightarrow> page b' q = page b q)
     \<and> chip_fits cmd wsh os pb bb c' \<and> plain_pages c' \<and> mode (opt c') = FLASH_OOB_PLACE \<and> bbt c' = bbt c \<and> bad_allow c' = bad_allow c"
proof -
  let ?ws = "2 ^ wsh :: nat"
  note range = page_range [OF assms(1,3) k]
  let ?ops = "(opt c)\<lparr>len := n, datbuf := Some buff, oobbuf := None, mode := FLASH_OOB_PLACE, retlen := 0\<rparr>"
  let ?c = "blank_oob (forget_page to n c)"
  obtain b1 where b1: "nand_check_wp bus c b = Some (protected, b1)" "page b1 = page b" using check_wp [OF assms(1)] by blast
  let ?t = "\<lparr>t_chip = ?c, t_bus = b1, real_page = to div ?ws, t_dat = buff, t_pos = 0, t_oob = memory_at None, t_oobpos = 0, t_len = 0, t_ooblen = 0\<rparr>"
  have c: "chip_fits cmd wsh os pb bb ?c" "plain_pages ?c" "chip_kept c ?c" "write_shift ?c = wsh" "write_size c = ?ws"
    using assms(1,2) by (simp_all add: chip_fits_def blank_oob_def forget_page_def Let_def)
  obtain t' where t': "chip_kept ?c (t_chip t')" "chip_fits cmd wsh os pb bb (t_chip t')" "plain_pages (t_chip t')"
      "\<forall>q. q < to div ?ws \<or> to div ?ws + k \<le> q \<longrightarrow> page (t_bus t') q = page b q"
    and res: "write_loop bus ?ops ?t = Some (Inl t') \<and> status (t_bus t') AND NAND_STATUS_FAIL \<noteq> 0 \<or> write_loop bus ?ops ?t = Some (Inr t') \<and> t_len t' = k * ?ws
          \<and> (\<forall>i<k. take ?ws (page (t_bus t') (to div ?ws + i)) = written ?ws buff (i * ?ws) (page b (to div ?ws + i)))"
    using write_loop_plain [of ?t ?ops k] c(1,2) assms(6) range b1(2) by auto
  have al: "check_aligned (write_size c) to"
    using assms(5) c(5) and_low [of to wsh] by (simp add: check_aligned_def)
  have kept: "chip_kept c (t_chip t')" using chip_kept_trans [OF c(3) t'(1)] .
  show ?thesis
    using res
  proof (elim disjE conjE)
    assume "write_loop bus ?ops ?t = Some (Inl t')" and f: "status (t_bus t') AND NAND_STATUS_FAIL \<noteq> 0"
    then have "nand_write bus to n buff c b = Some (- EIO, Some 0, released ((t_chip t')\<lparr>opt := ?ops\<rparr>), t_bus t')"
      using assms(4,6) al b1 range(5) c(4) by (simp add: nand_write_def nand_write_by_opt_def Let_def memory_at_def)
    then show ?thesis using t' kept f by (auto simp: chip_kept_def)
  next
    assume "write_loop bus ?ops ?t = Some (Inr t')" and w: "t_len t' = k * ?ws"
      "\<forall>i<k. take ?ws (page (t_bus t') (to div ?ws + i)) = written ?ws buff (i * ?ws) (page b (to div ?ws + i))"
    then have "nand_write bus to n buff c b = Some (0, Some (k * ?ws), released ((t_chip t')\<lparr>opt := ?ops\<lparr>retlen := k * ?ws\<rparr>\<rparr>), t_bus t')"
      using assms(4,6) al b1 range(5) c(4) by (simp add: nand_write_def nand_write_by_opt_def Let_def memory_at_def)
    then show ?thesis using t' kept w by (auto simp: chip_kept_def)
  qed
qed

end

section \<open>Properties\<close>

lemma data_of_windows:
  "(\<And>i. i < k \<Longrightarrow> take ws (pg (r + i)) = window m (a + i * ws) ws) \<Longrightarrow> data_of ws pg r k = window m a (k * ws)"
proof (induction k arbitrary: r a)
  case (Suc k)
  have "take ws (pg (Suc r + i)) = window m (a + ws + i * ws) ws" if "i < k" for i
    using Suc.prems [of "Suc i"] that by (simp add: algebra_simps)
  then show ?case
    using Suc.IH [of "Suc r" "a + ws"] Suc.prems [of 0] window_append [of m a ws "k * ws"] by (simp add: data_of_Suc)
qed (simp add: window_def)

lemma written_erased: "written ws dat p (replicate (ws + os) 0xFF) = window dat p ws"
proof -
  have "map2 (AND) ds (replicate (length ds) (0xFF :: u8)) = ds" for ds :: "u8 list" by (induction ds) simp_all
  from this [of "window dat p ws"] show ?thesis by (simp add: written_def)
qed

text \<open>
  C6. What is written to erased flash is read back. For every chip that behaves as data sheets say, with large or small pages, without or with the code of
  the software, and for every range that starts at a page and lies on the chip: writing returns; either the result is \<^verbatim>\<open>-EIO\<close> and the
  chip shows a failure in its status, or it is 0, and reading the range returns 0 and the bytes written, up to the end of the last page. On a chip whose status
  never shows a failure it is 0. All pages outside of the range are as before.
\<close>

theorem nand_roundtrip:
  assumes "nand_commands bus mode_of page status wsh os pb bb False rdy cmd"
    and "chip_fits cmd wsh os pb bb c" "plain_pages c" "to + n \<le> chip_size c" "0 < n" "2 ^ wsh dvd to" "k = (n + 2 ^ wsh - 1) div 2 ^ wsh"
    and "\<forall>i<k. page b (to div 2 ^ wsh + i) = replicate (2 ^ wsh + os) 0xFF"
  shows "\<exists>ret rl c' b'. nand_write bus to n buff c b = Some (ret, rl, c', b')
     \<and> (\<forall>q. q < to div 2 ^ wsh \<or> to div 2 ^ wsh + k \<le> q \<longrightarrow> page b' q = page b q)
     \<and> (ret = - EIO \<and> status b' AND NAND_STATUS_FAIL \<noteq> 0 \<or> ret = 0 \<and> rl = Some (k * 2 ^ wsh)
        \<and> (\<exists>c'' b''. nand_read bus to n buff' c' b' = Some (0, Some (k * 2 ^ wsh), store_bytes 0 (window buff 0 (k * 2 ^ wsh)) buff', c'', b'')))"
proof -
  obtain ret rl c' b' where w: "nand_write bus to n buff c b = Some (ret, Some rl, c', b')"
      "ret = - EIO \<and> rl = 0 \<and> status b' AND NAND_STATUS_FAIL \<noteq> 0 \<or> ret = 0 \<and> rl = k * 2 ^ wsh
        \<and> (\<forall>i<k. take (2 ^ wsh) (page b' (to div 2 ^ wsh + i)) = written (2 ^ wsh) buff (i * 2 ^ wsh) (page b (to div 2 ^ wsh + i)))"
      "\<forall>q. q < to div 2 ^ wsh \<or> to div 2 ^ wsh + k \<le> q \<longrightarrow> page b' q = page b q"
      "chip_fits cmd wsh os pb bb c'" "plain_pages c'" "mode (opt c') = FLASH_OOB_PLACE"
    using nand_commands.nand_write_pages [OF assms(1-6) _ assms(7), of buff b] by auto
  have "chip_size c' = chip_size c" using assms(2) w(4) by (simp add: chip_fits_def)
  moreover have "data_of (2 ^ wsh) (page b') (to div 2 ^ wsh) k = window buff 0 (k * 2 ^ wsh)" if "ret = 0"
    using w(2) that assms(8) by (intro data_of_windows) (auto simp: written_erased)
  ultimately show ?thesis
    using w nand_commands.nand_read_pages [OF assms(1) w(4,5,6) _ assms(5,7), of to buff' b'] assms(4) by fastforce
qed

text \<open>A chip structure for the simulated chip with large pages, with the code of the software.\<close>

definition demo_ops :: mtd_oob_ops where
  "demo_ops = \<lparr>mode = FLASH_OOB_PLACE, len = 0, retlen = 0, ooblen = 0, oobretlen = 0, ooboffs = 0, datbuf = None, oobbuf = None\<rparr>"

definition demo_chip :: nand_chip where
  "demo_chip = \<lparr>write_size = 2048, erase_size = 131072, chip_size = 67108864, write_shift = 11, erase_shift = 17, chip_shift = 26, oob_size = 64,
     ecc_correct_count = 0, ecc_failed_count = 0, badblocks = 0, bbtblocks = 0, bad_allow = True, callback = False, called = [],
     master = \<lparr>slaves = 1, max_slaves = 1, state = FL_READY, command = COMMAND_LARGE, page_access = PAGE_SWECC, erase_block = ERASE_ONE, wide = False,
       ecc_mode = NAND_ECC_SW, hard_oob_layout = None, soft_oob_layout = Some g_oob64_layout, curr_oob_layout = Some g_oob64_layout,
       ecc_data_len = 256, ecc_code_len = 3\<rparr>,
     device_id = 0xF2, vendor_id = 0xec, flags = 1, phy_erase_shift = 17, bbt_erase_shift = 17, page_num_mask = 32767, page_in_buff = - 1,
     bad_blk_oob_pos = 0, opt = demo_ops, oob_buf = (\<lambda>_. 0), ecccalc = (\<lambda>_. 0), ecccode = (\<lambda>_. 0), bus_idx = 0, bbt = None,
     bbt_td = None, bbt_md = None, bad_blk_patt = None, mark_len = 0\<rparr>"

definition blank_sim :: sim where
  "blank_sim = \<lparr>s_mode = Idle, s_cmd = 0, s_addr = [], s_base = 0, cells = (\<lambda>_ _. 0xFF)\<rparr>"

lemma demo_fits: "chip_fits COMMAND_LARGE 11 64 15 6 demo_chip" "plain_pages demo_chip" "mode (opt demo_chip) = FLASH_OOB_PLACE" "chip_size demo_chip = 67108864"
  by (simp_all add: chip_fits_def plain_pages_def demo_chip_def demo_ops_def)

theorem nand_roundtrip_witness:
  "\<exists>rl c' b'. nand_write (sim_bus True (2 ^ 6)) 4096 3000 (\<lambda>i. of_nat i) demo_chip blank_sim = Some (0, rl, c', b')
     \<and> (\<exists>c'' b''. nand_read (sim_bus True (2 ^ 6)) 4096 3000 (\<lambda>_. 0) c' b'
          = Some (0, Some 4096, store_bytes 0 (window (\<lambda>i. of_nat i) 0 4096) (\<lambda>_. 0), c'', b''))"
proof -
  have "sim_page (2 ^ 11 + 64) blank_sim q = replicate (2 ^ 11 + 64) 0xFF" for q
    by (simp add: sim_page_def blank_sim_def map_replicate_trivial)
  then show ?thesis
    using nand_roundtrip [OF sim_large.nand_commands_axioms demo_fits(1,2), of 4096 3000 2 blank_sim "\<lambda>i. of_nat i" "\<lambda>_. 0"] demo_fits(4) by auto
qed

text \<open>
  C10. Reading works on whole pages. For every range on the chip, \<^verbatim>\<open>nand_read\<close> returns 0 and stores all the data bytes of the pages that it takes to cover as
  many bytes as asked for, from the first byte of the page that holds the address: the place of the address in its page is not
  used, the bytes behind the end of the caller's range are overwritten, and what the pages hold comes back as it is, damaged or not, with the code of the
  software as without.
\<close>

theorem nand_read_whole_pages:
  assumes "nand_commands bus mode_of page status wsh os pb bb protected rdy cmd"
    and "chip_fits cmd wsh os pb bb c" "plain_pages c" "mode (opt c) = FLASH_OOB_PLACE" "from + n \<le> chip_size c" "0 < n"
    and "k = (n + 2 ^ wsh - 1) div 2 ^ wsh"
  shows "\<exists>c' b'. nand_read bus from n buff c b = Some (0, Some (k * 2 ^ wsh), store_bytes 0 (data_of (2 ^ wsh) (page b) (from div 2 ^ wsh) k) buff, c', b')
     \<and> page b' = page b"
  using nand_commands.nand_read_pages [OF assms, of buff b] by blast

theorem nand_read_whole_pages_witness:
  "\<exists>c' b'. nand_read (sim_bus True (2 ^ 6)) 100 10 (\<lambda>_. 0) demo_chip blank_sim
     = Some (0, Some 2048, store_bytes 0 (take 2048 (sim_page 2112 blank_sim 0)) (\<lambda>_. 0), c', b')"
proof -
  have "data_of (2 ^ 11) (sim_page (2 ^ 11 + 64) blank_sim) (100 div 2 ^ 11) 1 = take 2048 (sim_page 2112 blank_sim 0)" by (simp add: data_of_def)
  then show ?thesis
    using nand_read_whole_pages [OF sim_large.nand_commands_axioms demo_fits(1-3), of 100 10 1 "\<lambda>_. 0" blank_sim] demo_fits(4) by auto
qed

end
