(* ===== verification/NandBbt.thy ===== *)
theory NandBbt
  imports NandCore
begin

unbundle bit_operations_syntax

text \<open>
  Bad blocks and erasing: \<^verbatim>\<open>driver/flash/nand/nand_bbt.c\<close> and the rest of the transfers of \<^verbatim>\<open>nand_core.c\<close>. The table in memory has two bits for each block:
  00 good, 01 marked while running, 10 reserved for tables, 11 found bad. The allocation of buffers is a parameter \<open>alloc\<close>: the memory
  from the new buffer on, or \<open>None\<close> when there is no room.
\<close>

section \<open>Constants\<close>

abbreviation (input) NAND_BBT_NRBITS_MSK :: nat where "NAND_BBT_NRBITS_MSK \<equiv> 0x0000000F"
abbreviation (input) NAND_BBT_2BIT :: nat where "NAND_BBT_2BIT \<equiv> 0x00000002"
abbreviation (input) NAND_BBT_LASTBLOCK :: nat where "NAND_BBT_LASTBLOCK \<equiv> 0x00000010"
abbreviation (input) NAND_BBT_ABSPAGE :: nat where "NAND_BBT_ABSPAGE \<equiv> 0x00000020"
abbreviation (input) NAND_BBT_PERCHIP :: nat where "NAND_BBT_PERCHIP \<equiv> 0x00000080"
abbreviation (input) NAND_BBT_VERSION :: nat where "NAND_BBT_VERSION \<equiv> 0x00000100"
abbreviation (input) NAND_BBT_CREATE :: nat where "NAND_BBT_CREATE \<equiv> 0x00000200"
abbreviation (input) NAND_BBT_SCANALLPAGES :: nat where "NAND_BBT_SCANALLPAGES \<equiv> 0x00000400"
abbreviation (input) NAND_BBT_SCANEMPTY :: nat where "NAND_BBT_SCANEMPTY \<equiv> 0x00000800"
abbreviation (input) NAND_BBT_WRITE :: nat where "NAND_BBT_WRITE \<equiv> 0x00001000"
abbreviation (input) NAND_BBT_SAVECONTENT :: nat where "NAND_BBT_SAVECONTENT \<equiv> 0x00002000"
abbreviation (input) NAND_BBT_SCAN2NDPAGE :: nat where "NAND_BBT_SCAN2NDPAGE \<equiv> 0x00004000"

abbreviation (input) EDF_JFFS2 :: nat where "EDF_JFFS2 \<equiv> 1"
abbreviation (input) EDF_ALLOWBB :: nat where "EDF_ALLOWBB \<equiv> 256"

definition has :: "nat \<Rightarrow> nat \<Rightarrow> bool" where
  "has fl b \<longleftrightarrow> fl AND b \<noteq> 0"

definition blank_desc :: nand_bad_blk where
  "blank_desc = \<lparr>bb_flags = 0, bb_pages = (\<lambda>_. 0), bb_offs = 0, veroffs = 0, bb_len = 0, maxblocks = 0, reserved_block_code = 0, bb_version = (\<lambda>_. 0),
     bb_pattern = []\<rparr>"

definition g_bbSmallPageMemBased :: nand_bad_blk where
  "g_bbSmallPageMemBased = blank_desc\<lparr>bb_flags := NAND_BBT_SCAN2NDPAGE, bb_offs := 5, bb_len := 1, bb_pattern := [0xff, 0xff]\<rparr>"

definition g_bbLargePageMemBased :: nand_bad_blk where
  "g_bbLargePageMemBased = blank_desc\<lparr>bb_flags := 0, bb_offs := 0, bb_len := 2, bb_pattern := [0xff, 0xff]\<rparr>"

definition g_bbSmallPageFlashBased :: nand_bad_blk where
  "g_bbSmallPageFlashBased = blank_desc\<lparr>bb_flags := NAND_BBT_SCAN2NDPAGE, bb_offs := 5, bb_len := 1, bb_pattern := [0xff, 0xff]\<rparr>"

definition g_bbLargePageFlashBased :: nand_bad_blk where
  "g_bbLargePageFlashBased = blank_desc\<lparr>bb_flags := NAND_BBT_SCAN2NDPAGE, bb_offs := 0, bb_len := 2, bb_pattern := [0xff, 0xff]\<rparr>"

definition g_bbt_agand_flash_based :: nand_bad_blk where
  "g_bbt_agand_flash_based = blank_desc\<lparr>bb_flags := NAND_BBT_SCANEMPTY + NAND_BBT_SCANALLPAGES, bb_offs := 0x20, bb_len := 6,
     bb_pattern := [0x1C, 0x71, 0xC7, 0x1C, 0x71, 0xC7]\<rparr>"

definition g_bbt_main_desc :: nand_bad_blk where
  "g_bbt_main_desc = blank_desc\<lparr>bb_flags := NAND_BBT_LASTBLOCK + NAND_BBT_CREATE + NAND_BBT_WRITE + NAND_BBT_2BIT + NAND_BBT_VERSION + NAND_BBT_PERCHIP,
     bb_offs := 8, bb_len := 4, veroffs := 12, maxblocks := 4, bb_pattern := [0x42, 0x62, 0x74, 0x30]\<rparr>"

definition g_bbt_mirror_desc :: nand_bad_blk where
  "g_bbt_mirror_desc = g_bbt_main_desc\<lparr>bb_pattern := [0x31, 0x74, 0x62, 0x42]\<rparr>"

section \<open>The table in memory\<close>

text \<open>The entry of a block, and setting bits in it.\<close>

definition bbt_get :: "(nat \<Rightarrow> u8) \<Rightarrow> nat \<Rightarrow> nat" where
  "bbt_get t block = unat (drop_bit (2 * (block AND 3)) (t (block div 4)) AND 3)"

definition bbt_or :: "nat \<Rightarrow> u8 \<Rightarrow> (nat \<Rightarrow> u8) \<Rightarrow> nat \<Rightarrow> u8" where
  "bbt_or block v t = t(block div 4 := t (block div 4) OR push_bit (2 * (block AND 3)) v)"

definition nand_is_bad_bbt :: "nand_chip \<Rightarrow> nat \<Rightarrow> bool option" where
  "nand_is_bad_bbt c ofs = do {
     t \<leftarrow> bbt c;
     let block = ofs div 2 ^ (bbt_erase_shift c - 1);
     let ret = drop_bit (block AND 6) (t (block div 8)) AND 3;
     Some (if ret = 0 then False else if ret = 1 then True else if ret = 2 then \<not> bad_allow c else True) }"

definition nand_check_blk_bad :: "'b nand_bus \<Rightarrow> nand_chip \<Rightarrow> nat \<Rightarrow> bool \<Rightarrow> 'b \<Rightarrow> (bool \<times> nand_chip \<times> 'b) option" where
  "nand_check_blk_bad bus c ofs getchip b =
     (if bbt c = None then nand_blk_bad bus c ofs getchip b else do { bad \<leftarrow> nand_is_bad_bbt c ofs; Some (bad, c, b) })"

definition nand_blk_is_bad :: "'b nand_bus \<Rightarrow> nand_chip \<Rightarrow> nat \<Rightarrow> 'b \<Rightarrow> (int \<times> nand_chip \<times> 'b) option" where
  "nand_blk_is_bad bus c ofs b =
     (if ofs > chip_size c then Some (- EINVAL, c, b)
      else do { (bad, c, b) \<leftarrow> nand_check_blk_bad bus c ofs True b; Some (of_bool bad, c, b) })"

section \<open>Erasing\<close>

datatype erase_state = ERASE_NEW | FLASH_ERASING | FLASH_ERASE_DONE | FLASH_ERASE_FAILED

record erase_info =
  e_addr :: nat
  e_len :: nat
  fail_addr :: nat
  e_state :: erase_state
  e_flags :: nat

text \<open>
  The clean marker of JFFS2 is a static object of \<^verbatim>\<open>nand_erase\<close>: its length, \<open>mark_len\<close> here, is 0 at the start, is set to 8 by the first chip with
  spare areas of 16 bytes, and stays so for every chip after. Whoever has several chips hands it on from one chip structure to the next.
\<close>

definition cleanmark :: "nand_chip \<Rightarrow> u8 list" where
  "cleanmark c = [0x85, 0x19, 0x03, 0x20, ucast (mark_len c), ucast (drop_bit 8 (mark_len c)), ucast (drop_bit 16 (mark_len c)), ucast (drop_bit 24 (mark_len c))]"

definition write_cleanmark :: "'b nand_bus \<Rightarrow> nand_chip \<Rightarrow> nat \<Rightarrow> 'b \<Rightarrow> (nand_chip \<times> 'b) option" where
  "write_cleanmark bus c page b = do {
     let c = (if oob_size c = 16 then c\<lparr>mark_len := 8\<rparr> else c);
     b \<leftarrow> nand_command bus c NAND_CMMD_SEQIN (int (write_size c) + 8) (int page) b;
     b \<leftarrow> nand_command bus c NAND_CMMD_PAGEPROG (- 1) (- 1) (write_buff bus c (cleanmark c) b);
     (_, b) \<leftarrow> nand_wait bus c b;
     Some (c, b) }"

text \<open>One block. The result says whether the loop goes on.\<close>

definition erase_one :: "'b nand_bus \<Rightarrow> nat option \<Rightarrow> erase_info \<Rightarrow> nat \<Rightarrow> nat \<Rightarrow> nand_chip \<Rightarrow> 'b \<Rightarrow> (bool \<times> nat \<times> erase_info \<times> nand_chip \<times> 'b) option" where
  "erase_one bus masked e page rewrite c b = do {
     let addr = page * 2 ^ write_shift c;
     (bad, c, b) \<leftarrow> (if has (e_flags e) EDF_ALLOWBB then Some (False, c, b) else nand_check_blk_bad bus c addr False b);
     if bad then Some (False, rewrite, e\<lparr>e_state := FLASH_ERASE_FAILED\<rparr>, c, b)
     else do {
       let c = (if int page \<le> page_in_buff c \<and> page_in_buff c < int (page + erase_size c div 2 ^ write_shift c) then c\<lparr>page_in_buff := - 1\<rparr> else c);
       b \<leftarrow> nand_erase_block bus c (page AND page_num_mask c) b;
       (status, b) \<leftarrow> nand_wait bus c b;
       if status AND NAND_STATUS_FAIL \<noteq> 0 then Some (False, rewrite, e\<lparr>e_state := FLASH_ERASE_FAILED, fail_addr := addr\<rparr>, c, b)
       else do {
         let rewrite = (if masked = Some (page AND 0xffffff3f) then addr else rewrite);
         (c, b) \<leftarrow> (if has (e_flags e) EDF_JFFS2 then write_cleanmark bus c page b else Some (c, b));
         Some (True, rewrite, e, call_back page c, b) } } }"

partial_function (option) erase_loop :: "'b nand_bus \<Rightarrow> nat option \<Rightarrow> nat \<Rightarrow> erase_info \<Rightarrow> nat \<Rightarrow> nat \<Rightarrow> nand_chip \<Rightarrow> 'b \<Rightarrow> (nat \<times> erase_info \<times> nand_chip \<times> 'b) option" where
  "erase_loop bus masked count e page rewrite c b =
     (if count = 0 then Some (rewrite, e\<lparr>e_state := FLASH_ERASE_DONE\<rparr>, c, b)
      else do {
        (more, rewrite, e, c, b) \<leftarrow> erase_one bus masked e page rewrite c b;
        if more then erase_loop bus masked (sub32 count (erase_size c)) e (page + erase_size c div 2 ^ write_shift c) rewrite c b
        else Some (rewrite, e, c, b) })"

text \<open>
  \<^verbatim>\<open>nand_erase\<close>. \<open>update\<close> is \<^verbatim>\<open>nand_update_bbt\<close>, which erases in turn. \<open>masked\<close> is the page of the table on the chip, when erasing it would call for a
  new one; one chip has a controller, so there is one place for the address that is to be written again.
\<close>

definition nand_erase_with ::
  "(nat \<Rightarrow> nand_chip \<Rightarrow> 'b \<Rightarrow> (int \<times> nand_chip \<times> 'b) option) \<Rightarrow> 'b nand_bus \<Rightarrow> erase_info \<Rightarrow> nand_chip \<Rightarrow> 'b \<Rightarrow> (int \<times> erase_info \<times> nand_chip \<times> 'b) option" where
  "nand_erase_with update bus e c b =
     (if e_addr e AND (erase_size c - 1) \<noteq> 0 then Some (- EINVAL, e, c, b)
      else if e_len e AND (erase_size c - 1) \<noteq> 0 then Some (- EINVAL, e, c, b)
      else if (e_len e + e_addr e) mod 2 ^ 64 > chip_size c then Some (- EINVAL, e, c, b)
      else do {
        let e = e\<lparr>fail_addr := 0xffffffff\<rparr>;
        (wp, b) \<leftarrow> nand_check_wp bus c (nand_chipsel bus True b);
        (masked, rewrite, e, c, b) \<leftarrow>
          (if wp then Some (None, 0, e\<lparr>e_state := FLASH_ERASE_FAILED\<rparr>, c, b)
           else do {
             masked \<leftarrow> (if has (flags c) BBT_AUTO_REFRESH \<and> \<not> bad_allow c
                        then do { td \<leftarrow> bbt_td c; Some (let p = nat (bb_pages td (bus_idx c) mod 2 ^ 32) AND 0xffffff3f in if p = 0xffffffff then None else Some p) }
                        else Some None);
             (rewrite, e, c, b) \<leftarrow> erase_loop bus masked (e_len e mod 2 ^ 32) (e\<lparr>e_state := FLASH_ERASING\<rparr>)
                (e_addr e div 2 ^ write_shift c mod 2 ^ 32) 0 c b;
             Some (masked, rewrite, e, c, b) });
        let ret = (if e_state e = FLASH_ERASE_DONE then 0 else - EIO);
        let (c, b) = nand_release_chip bus c b;
        if masked = None \<or> ret \<noteq> 0 \<or> bus_idx c \<ge> slaves (master c) \<or> rewrite = 0 then Some (ret, e, c, b)
        else do { (_, c, b) \<leftarrow> update rewrite c b; Some (ret, e, c, b) } })"

section \<open>Tables on the chip\<close>

text \<open>\<^verbatim>\<open>check_pattern\<close> and \<^verbatim>\<open>check_short_pattern\<close>: whether the pattern is there.\<close>

definition check_pattern :: "(nat \<Rightarrow> u8) \<Rightarrow> nat \<Rightarrow> nat \<Rightarrow> nand_bad_blk \<Rightarrow> bool" where
  "check_pattern buf n paglen td \<longleftrightarrow>
     (let e = paglen + bb_offs td; empty = has (bb_flags td) NAND_BBT_SCANEMPTY
      in (empty \<longrightarrow> list_all (\<lambda>i. buf i = 0xff) [0..<e])
       \<and> list_all (\<lambda>i. buf (e + i) = bb_pattern td ! i) [0..<bb_len td]
       \<and> (empty \<longrightarrow> list_all (\<lambda>i. buf i = 0xff) [e + bb_len td..<n]))"

definition check_short_pattern :: "(nat \<Rightarrow> u8) \<Rightarrow> nand_bad_blk \<Rightarrow> bool" where
  "check_short_pattern buf td \<longleftrightarrow> list_all (\<lambda>i. buf (bb_offs td + i) = bb_pattern td ! i) [0..<bb_len td]"

text \<open>What one entry of a table that was read does to the table in memory; \<open>act\<close> is twice the number of the block.\<close>

definition read_bbt_entry :: "nat \<Rightarrow> u8 \<Rightarrow> u8 \<Rightarrow> nat \<Rightarrow> u8 \<Rightarrow> nand_chip \<Rightarrow> nand_chip" where
  "read_bbt_entry ofs msk reserved act tmp c =
     (if tmp = msk then c
      else let setb = (\<lambda>v. map_option (\<lambda>t. t(ofs + act div 8 := t (ofs + act div 8) OR push_bit (act AND 6) v)) (bbt c))
           in if reserved \<noteq> 0 \<and> tmp = reserved then c\<lparr>bbt := setb 2, bbtblocks := bbtblocks c + 1\<rparr>
              else c\<lparr>bbt := setb (if tmp = 0 then 3 else 1), badblocks := badblocks c + 1\<rparr>)"

definition read_bbt_byte :: "nat \<Rightarrow> nat \<Rightarrow> u8 \<Rightarrow> u8 \<Rightarrow> nat \<times> nand_chip \<Rightarrow> nat \<times> nand_chip" where
  "read_bbt_byte ofs bits reserved dat = fold (\<lambda>j (act, c).
     (act + 2, read_bbt_entry ofs (2 ^ bits - 1) reserved act (drop_bit (bits * j) dat AND (2 ^ bits - 1)) c)) [0..<(8 + bits - 1) div bits]"

partial_function (option) read_bbt_loop ::
  "'b nand_bus \<Rightarrow> nat \<Rightarrow> nat \<Rightarrow> u8 \<Rightarrow> nat \<Rightarrow> nat \<Rightarrow> (nat \<Rightarrow> u8) \<Rightarrow> nat \<Rightarrow> nand_chip \<Rightarrow> 'b \<Rightarrow> (int \<times> (nat \<Rightarrow> u8) \<times> nand_chip \<times> 'b) option" where
  "read_bbt_loop bus ofs bits reserved totlen from buf act c b =
     (if totlen = 0 then Some (0, buf, c, b)
      else do {
        let n = min totlen (2 ^ bbt_erase_shift c);
        (ret, rl, buf, c, b) \<leftarrow> nand_read bus from n buf c b;
        rl \<leftarrow> (if ret < 0 then rl else Some n);
        if rl \<noteq> n then Some (ret, buf, c, b)
        else let (act, c) = fold (read_bbt_byte ofs bits reserved) (window buf 0 n) (act, c)
             in read_bbt_loop bus ofs bits reserved (totlen - n) (add32 from n) buf act c b })"

definition read_bbt ::
  "'b nand_bus \<Rightarrow> (nat \<Rightarrow> u8) \<Rightarrow> int \<Rightarrow> nat \<Rightarrow> nat \<Rightarrow> nat \<Rightarrow> u8 \<Rightarrow> nand_chip \<Rightarrow> 'b \<Rightarrow> (int \<times> (nat \<Rightarrow> u8) \<times> nand_chip \<times> 'b) option" where
  "read_bbt bus buf page num bits ofs reserved c b =
     read_bbt_loop bus ofs bits reserved (num * bits div 8) (nat (page * 2 ^ write_shift c mod 2 ^ 32)) buf 0 c b"

definition blocks_of :: "nand_chip \<Rightarrow> nat" where
  "blocks_of c = chip_size c div 2 ^ bbt_erase_shift c"

fun read_chips ::
  "'b nand_bus \<Rightarrow> nand_bad_blk \<Rightarrow> int \<Rightarrow> nat list \<Rightarrow> (nat \<Rightarrow> u8) \<Rightarrow> nand_chip \<Rightarrow> 'b \<Rightarrow> (int \<times> (nat \<Rightarrow> u8) \<times> nand_chip \<times> 'b) option" where
  "read_chips bus td chip [] buf c b = Some (0, buf, c, b)"
| "read_chips bus td chip (i # is) buf c b = do {
     (ret, buf, c, b) \<leftarrow>
       (if chip = - 1 \<or> chip = int i
        then read_bbt bus buf (bb_pages td i) (blocks_of c) (bb_flags td AND NAND_BBT_NRBITS_MSK) (i * (blocks_of c div 4)) (reserved_block_code td) c b
        else Some (0, buf, c, b));
     if ret \<noteq> 0 then Some (ret, buf, c, b) else read_chips bus td chip is buf c b }"

definition read_abs_bbt ::
  "'b nand_bus \<Rightarrow> (nat \<Rightarrow> u8) \<Rightarrow> nand_bad_blk \<Rightarrow> int \<Rightarrow> nand_chip \<Rightarrow> 'b \<Rightarrow> (int \<times> (nat \<Rightarrow> u8) \<times> nand_chip \<times> 'b) option" where
  "read_abs_bbt bus buf td chip c b =
     (if has (bb_flags td) NAND_BBT_PERCHIP then read_chips bus td chip [0..<slaves (master c)] buf c b
      else read_bbt bus buf (bb_pages td 0) (blocks_of c) (bb_flags td AND NAND_BBT_NRBITS_MSK) 0 (reserved_block_code td) c b)"

definition scan_ops :: "OOB_MODE \<Rightarrow> nand_chip \<Rightarrow> mtd_oob_ops" where
  "scan_ops md c = \<lparr>mode = md, len = 0, retlen = 0, ooblen = oob_size c, oobretlen = 0, ooboffs = 0, datbuf = None, oobbuf = None\<rparr>"

text \<open>The buffer serves for the data and the spare bytes; in the raw mode only the first is written.\<close>

definition scan_read_raw :: "'b nand_bus \<Rightarrow> (nat \<Rightarrow> u8) \<Rightarrow> nat \<Rightarrow> nat \<Rightarrow> nand_chip \<Rightarrow> 'b \<Rightarrow> (int \<times> (nat \<Rightarrow> u8) \<times> nand_chip \<times> 'b) option" where
  "scan_read_raw bus buf ofs n c b = do {
     (ret, ops, c, b) \<leftarrow> nand_read_oob bus ofs ((scan_ops FLASH_OOB_RAW c)\<lparr>oobbuf := Some buf, datbuf := Some buf, len := n\<rparr>) c b;
     Some (ret, memory_at (datbuf ops), c, b) }"

definition scan_write_bbt :: "'b nand_bus \<Rightarrow> nat \<Rightarrow> nat \<Rightarrow> (nat \<Rightarrow> u8) \<Rightarrow> (nat \<Rightarrow> u8) \<Rightarrow> nand_chip \<Rightarrow> 'b \<Rightarrow> (int \<times> nand_chip \<times> 'b) option" where
  "scan_write_bbt bus ofs n buf oob c b = do {
     (ret, _, c, b) \<leftarrow> nand_write_oob bus ofs ((scan_ops FLASH_OOB_PLACE c)\<lparr>oobbuf := Some oob, datbuf := Some buf, len := n\<rparr>) c b;
     Some (ret, c, b) }"

section \<open>Scanning for bad blocks\<close>

definition scan_block_full ::
  "'b nand_bus \<Rightarrow> nand_bad_blk \<Rightarrow> nat \<Rightarrow> (nat \<Rightarrow> u8) \<Rightarrow> nat \<Rightarrow> nat \<Rightarrow> nat \<Rightarrow> nand_chip \<Rightarrow> 'b \<Rightarrow> (int \<times> (nat \<Rightarrow> u8) \<times> nand_chip \<times> 'b) option" where
  "scan_block_full bus bd ofs buf readlen scanlen n c b = do {
     (ret, buf, c, b) \<leftarrow> scan_read_raw bus buf ofs readlen c b;
     Some (if ret \<noteq> 0 then ret
           else if list_all (\<lambda>j. check_pattern (\<lambda>i. buf (scanlen * j + i)) scanlen (write_size c) bd) [0..<n] then 0 else 1, buf, c, b) }"

fun scan_block_fast ::
  "'b nand_bus \<Rightarrow> nand_bad_blk \<Rightarrow> nat \<Rightarrow> (nat \<Rightarrow> u8) \<Rightarrow> nat \<Rightarrow> nand_chip \<Rightarrow> 'b \<Rightarrow> (int \<times> (nat \<Rightarrow> u8) \<times> nand_chip \<times> 'b) option" where
  "scan_block_fast bus bd ofs buf 0 c b = Some (0, buf, c, b)"
| "scan_block_fast bus bd ofs buf (Suc n) c b = do {
     (ret, ops, c, b) \<leftarrow> nand_read_oob bus ofs ((scan_ops FLASH_OOB_PLACE c)\<lparr>oobbuf := Some buf\<rparr>) c b;
     let buf = memory_at (oobbuf ops);
     if ret \<noteq> 0 then Some (ret, buf, c, b)
     else if \<not> check_short_pattern buf bd then Some (1, buf, c, b)
     else scan_block_fast bus bd (add32 ofs (write_size c)) buf n c b }"

definition pages_to_scan :: "nand_bad_blk \<Rightarrow> nand_chip \<Rightarrow> nat" where
  "pages_to_scan bd c =
     (if has (bb_flags bd) NAND_BBT_SCANALLPAGES then 2 ^ (bbt_erase_shift c - write_shift c)
      else if has (bb_flags bd) NAND_BBT_SCAN2NDPAGE then 2 else 1)"

definition scan_block ::
  "'b nand_bus \<Rightarrow> nand_bad_blk \<Rightarrow> nat \<Rightarrow> (nat \<Rightarrow> u8) \<Rightarrow> nand_chip \<Rightarrow> 'b \<Rightarrow> (int \<times> (nat \<Rightarrow> u8) \<times> nand_chip \<times> 'b) option" where
  "scan_block bus bd from buf c b =
     (let n = pages_to_scan bd c; empty = has (bb_flags bd) NAND_BBT_SCANEMPTY;
          scanlen = (if empty then write_size c + oob_size c else 0);
          readlen = (if empty then n * write_size c else bb_len bd)
      in if has (bb_flags bd) NAND_BBT_SCANALLPAGES then scan_block_full bus bd from buf readlen scanlen n c b
         else scan_block_fast bus bd from buf n c b)"

text \<open>\<open>k\<close> more blocks, from number \<open>block\<close> at \<open>from\<close> on. In the code \<^verbatim>\<open>i\<close> is twice the number.\<close>

fun create_loop ::
  "'b nand_bus \<Rightarrow> nand_bad_blk \<Rightarrow> nat \<Rightarrow> nat \<Rightarrow> nat \<Rightarrow> (nat \<Rightarrow> u8) \<Rightarrow> nand_chip \<Rightarrow> 'b \<Rightarrow> (int \<times> (nat \<Rightarrow> u8) \<times> nand_chip \<times> 'b) option" where
  "create_loop bus bd 0 block from buf c b = Some (0, buf, c, b)"
| "create_loop bus bd (Suc k) block from buf c b = do {
     (ret, buf, c, b) \<leftarrow> scan_block bus bd from buf c b;
     if ret < 0 then Some (ret, buf, c, b)
     else do {
       t \<leftarrow> bbt c;
       let c = (if ret \<noteq> 0 then c\<lparr>bbt := Some (bbt_or block 3 t), badblocks := badblocks c + 1\<rparr> else c);
       create_loop bus bd k (block + 1) (add32 from (2 ^ bbt_erase_shift c)) buf c b } }"

definition create_bbt ::
  "'b nand_bus \<Rightarrow> (nat \<Rightarrow> u8) \<Rightarrow> nand_bad_blk \<Rightarrow> int \<Rightarrow> nand_chip \<Rightarrow> 'b \<Rightarrow> (int \<times> (nat \<Rightarrow> u8) \<times> nand_chip \<times> 'b) option" where
  "create_bbt bus buf bd chip c b =
     (if chip = - 1 then create_loop bus bd (blocks_of c) 0 0 buf c b
      else if chip \<ge> int (slaves (master c)) then Some (- EINVAL, buf, c, b)
      else create_loop bus bd (blocks_of c) (nat chip * blocks_of c) (nat chip * blocks_of c * 2 ^ bbt_erase_shift c mod 2 ^ 32) buf c b)"

section \<open>Finding and writing the tables\<close>

text \<open>\<open>TD\<close> and \<open>MD\<close> stand for the two pointers to descriptors in the chip.\<close>

datatype bbt_table = TD | MD

fun desc :: "bbt_table \<Rightarrow> nand_chip \<Rightarrow> nand_bad_blk option" where
  "desc TD c = bbt_td c"
| "desc MD c = bbt_md c"

fun set_desc :: "bbt_table \<Rightarrow> (nand_bad_blk \<Rightarrow> nand_bad_blk) \<Rightarrow> nand_chip \<Rightarrow> nand_chip" where
  "set_desc TD f c = c\<lparr>bbt_td := map_option f (bbt_td c)\<rparr>"
| "set_desc MD f c = c\<lparr>bbt_md := map_option f (bbt_md c)\<rparr>"

fun other :: "bbt_table \<Rightarrow> bbt_table" where
  "other TD = MD"
| "other MD = TD"

definition set_page :: "bbt_table \<Rightarrow> nat \<Rightarrow> int \<Rightarrow> nand_chip \<Rightarrow> nand_chip" where
  "set_page w i p = set_desc w (\<lambda>d. d\<lparr>bb_pages := (bb_pages d)(i := p)\<rparr>)"

definition set_version :: "bbt_table \<Rightarrow> nat \<Rightarrow> u8 \<Rightarrow> nand_chip \<Rightarrow> nand_chip" where
  "set_version w i v = set_desc w (\<lambda>d. d\<lparr>bb_version := (bb_version d)(i := v)\<rparr>)"

definition chips_of :: "nand_bad_blk \<Rightarrow> nand_chip \<Rightarrow> nat" where
  "chips_of td c = (if has (bb_flags td) NAND_BBT_PERCHIP then slaves (master c) else 1)"

fun search_blocks ::
  "'b nand_bus \<Rightarrow> bbt_table \<Rightarrow> nat \<Rightarrow> int list \<Rightarrow> (nat \<Rightarrow> u8) \<Rightarrow> nand_chip \<Rightarrow> 'b \<Rightarrow> ((nat \<Rightarrow> u8) \<times> nand_chip \<times> 'b) option" where
  "search_blocks bus w i [] buf c b = Some (buf, c, b)"
| "search_blocks bus w i (block # blocks) buf c b = do {
     (_, buf, c, b) \<leftarrow> scan_read_raw bus buf (nat (block * 2 ^ bbt_erase_shift c mod 2 ^ 32)) (write_size c) c b;
     td \<leftarrow> desc w c;
     if check_pattern buf (write_size c + oob_size c) (write_size c) td
     then let c = set_page w i (block * 2 ^ (bbt_erase_shift c - write_shift c)) c;
              c = (if has (bb_flags td) NAND_BBT_VERSION then set_version w i (buf (write_size c + veroffs td)) c else c)
          in Some (buf, c, b)
     else search_blocks bus w i blocks buf c b }"

fun search_chips ::
  "'b nand_bus \<Rightarrow> bbt_table \<Rightarrow> int \<Rightarrow> int \<Rightarrow> nat list \<Rightarrow> (nat \<Rightarrow> u8) \<Rightarrow> nand_chip \<Rightarrow> 'b \<Rightarrow> ((nat \<Rightarrow> u8) \<times> nand_chip \<times> 'b) option" where
  "search_chips bus w startblock dir [] buf c b = Some (buf, c, b)"
| "search_chips bus w startblock dir (i # is) buf c b = do {
     td \<leftarrow> desc w c;
     let c = set_page w i (- 1) (set_version w i 0 c);
     (buf, c, b) \<leftarrow> search_blocks bus w i (map (\<lambda>k. startblock + dir * int k) [0..<maxblocks td]) buf c b;
     search_chips bus w (startblock + int (blocks_of c)) dir is buf c b }"

definition search_bbt :: "'b nand_bus \<Rightarrow> bbt_table \<Rightarrow> (nat \<Rightarrow> u8) \<Rightarrow> nand_chip \<Rightarrow> 'b \<Rightarrow> ((nat \<Rightarrow> u8) \<times> nand_chip \<times> 'b) option" where
  "search_bbt bus w buf c b = do {
     td \<leftarrow> desc w c;
     let (startblock, dir) = (if has (bb_flags td) NAND_BBT_LASTBLOCK then (int (blocks_of c) - 1, - 1) else (0, 1));
     let startblock = (if has (bb_flags td) NAND_BBT_PERCHIP then startblock AND (int (blocks_of c) - 1) else startblock);
     search_chips bus w startblock dir [0..<chips_of td c] buf c b }"

definition search_read_bbts :: "'b nand_bus \<Rightarrow> (nat \<Rightarrow> u8) \<Rightarrow> nand_chip \<Rightarrow> 'b \<Rightarrow> ((nat \<Rightarrow> u8) \<times> nand_chip \<times> 'b) option" where
  "search_read_bbts bus buf c b = do {
     (buf, c, b) \<leftarrow> search_bbt bus TD buf c b;
     if bbt_md c = None then Some (buf, c, b) else search_bbt bus MD buf c b }"

definition read_version :: "'b nand_bus \<Rightarrow> bbt_table \<Rightarrow> (nat \<Rightarrow> u8) \<Rightarrow> nand_chip \<Rightarrow> 'b \<Rightarrow> ((nat \<Rightarrow> u8) \<times> nand_chip \<times> 'b) option" where
  "read_version bus w buf c b =
     (case desc w c of None \<Rightarrow> Some (buf, c, b)
      | Some td \<Rightarrow>
          if has (bb_flags td) NAND_BBT_VERSION
          then do {
            (_, buf, c, b) \<leftarrow> scan_read_raw bus buf (nat (bb_pages td 0 * 2 ^ write_shift c mod 2 ^ 32)) (write_size c) c b;
            Some (buf, set_version w 0 (buf (write_size c + veroffs td)) c, b) }
          else Some (buf, c, b))"

definition read_abs_bbts :: "'b nand_bus \<Rightarrow> (nat \<Rightarrow> u8) \<Rightarrow> nand_chip \<Rightarrow> 'b \<Rightarrow> ((nat \<Rightarrow> u8) \<times> nand_chip \<times> 'b) option" where
  "read_abs_bbts bus buf c b = do { (buf, c, b) \<leftarrow> read_version bus TD buf c b; read_version bus MD buf c b }"

text \<open>The page for a table: the one it has, or the first block that is neither bad nor taken by the other table.\<close>

definition bbt_page :: "bbt_table \<Rightarrow> nat \<Rightarrow> nand_chip \<Rightarrow> int option" where
  "bbt_page w chip c = do {
     td \<leftarrow> desc w c;
     t \<leftarrow> bbt c;
     if bb_pages td chip \<noteq> - 1 then Some (bb_pages td chip)
     else do {
       let (startblock, dir) = (if has (bb_flags td) NAND_BBT_LASTBLOCK then (int (blocks_of c * (chip + 1)) - 1, - 1) else (int (chip * blocks_of c), 1));
       let pages = map (\<lambda>k. (startblock + dir * int k) * 2 ^ (bbt_erase_shift c - write_shift c))
                     (filter (\<lambda>k. bbt_get t (nat (startblock + dir * int k)) \<notin> {1, 3}) [0..<maxblocks td]);
       List.find (\<lambda>p. case desc (other w) c of None \<Rightarrow> True | Some md \<Rightarrow> bb_pages md chip \<noteq> p) pages } }"

text \<open>How an entry is packed: the shift from blocks to bytes, the mask for the place in the byte, and the bits to clear.\<close>

fun bbt_masks :: "nat \<Rightarrow> u8 \<Rightarrow> (nat \<times> nat \<times> (nat \<Rightarrow> u8)) option" where
  "bbt_masks bits rcode =
     (let m2 = NOT (if rcode = 0 then 0xff else rcode)
      in if bits = 1 then Some (3, 7, \<lambda>v. [0, 1, m2, 1] ! v)
         else if bits = 2 then Some (2, 6, \<lambda>v. [0, 1, m2, 3] ! v)
         else if bits = 4 then Some (1, 4, \<lambda>v. [0, 0x0C, m2, 0x0f] ! v)
         else if bits = 8 then Some (0, 0, \<lambda>v. [0, 0x0F, m2, 0xff] ! v)
         else None)"

definition pack_bbt :: "nat \<Rightarrow> nat \<Rightarrow> (nat \<Rightarrow> u8) \<Rightarrow> (nat \<Rightarrow> u8) \<Rightarrow> nat \<Rightarrow> nat \<Rightarrow> nat \<Rightarrow> (nat \<Rightarrow> u8) \<Rightarrow> nat \<Rightarrow> u8" where
  "pack_bbt sft sftmsk msk t bbtoffs numblocks ofs = fold (\<lambda>i buf.
     let v = bbt_get (\<lambda>k. t (bbtoffs + k)) i; p = ofs + i div 2 ^ sft
     in buf(p := buf p AND NOT (push_bit (i * 2 ^ (3 - sft) AND sftmsk) (msk v)))) [0..<4 * ((numblocks + 3) div 4)]"

text \<open>
  The buffer before the entries are packed, for a table that shares its block with other data and for one that does not: the result of reading,
  if it goes wrong, or the address, the length, the places of the entries and of the spare bytes.
\<close>

definition prepare_bbt ::
  "'b nand_bus \<Rightarrow> nand_bad_blk \<Rightarrow> int \<Rightarrow> nat \<Rightarrow> (nat \<Rightarrow> u8) \<Rightarrow> nand_chip \<Rightarrow> 'b
     \<Rightarrow> ((int + nat \<times> nat \<times> nat \<times> nat) \<times> (nat \<Rightarrow> u8) \<times> nand_chip \<times> 'b) option" where
  "prepare_bbt bus td page sft buf c b =
     (let to = nat (page * 2 ^ write_shift c mod 2 ^ 32)
      in if has (bb_flags td) NAND_BBT_SAVECONTENT
         then do {
           let to = to div 2 ^ bbt_erase_shift c * 2 ^ bbt_erase_shift c;
           let n = 2 ^ bbt_erase_shift c;
           (ret, rl, buf, c, b) \<leftarrow> nand_read bus to n buf c b;
           rl \<leftarrow> (if ret < 0 then rl else Some n);
           if rl \<noteq> n then Some (Inl ret, buf, c, b)
           else do {
             let ol = (n div 2 ^ write_shift c) * oob_size c;
             (ret, ops, c, b) \<leftarrow> nand_read_oob bus (add32 to (write_size c)) ((scan_ops FLASH_OOB_PLACE c)\<lparr>ooblen := ol, oobbuf := Some (at_pos n buf)\<rparr>) c b;
             let buf = put_pos n (memory_at (oobbuf ops)) buf;
             if ret < 0 \<or> oobretlen ops \<noteq> ooblen ops then Some (Inl ret, buf, c, b)
             else do {
               let pageoffs = nat page - to div 2 ^ write_shift c;
               let ofs = pageoffs * 2 ^ write_shift c;
               Some (Inr (to, n, ofs, n + pageoffs * oob_size c), store_bytes ofs (replicate (blocks_of c div 2 ^ sft) 0xff) buf, c, b) } } }
         else do {
           let n = (blocks_of c div 2 ^ sft + (write_size c - 1)) div write_size c * write_size c;
           let buf = store_bytes 0 (replicate (n + (n div 2 ^ write_shift c) * oob_size c) 0xff) buf;
           Some (Inr (to, n, 0, n), store_bytes (n + bb_offs td) (take (bb_len td) (bb_pattern td)) buf, c, b) })"

definition write_bbt_chip ::
  "(erase_info \<Rightarrow> nand_chip \<Rightarrow> 'b \<Rightarrow> (int \<times> erase_info \<times> nand_chip \<times> 'b) option) \<Rightarrow> 'b nand_bus \<Rightarrow> bbt_table \<Rightarrow> nat \<Rightarrow> (nat \<Rightarrow> u8) \<Rightarrow> nand_chip \<Rightarrow> 'b
     \<Rightarrow> (int \<times> (nat \<Rightarrow> u8) \<times> nand_chip \<times> 'b) option" where
  "write_bbt_chip er bus w chip buf c b = do {
     td \<leftarrow> desc w c;
     t \<leftarrow> bbt c;
     case bbt_page w chip c of None \<Rightarrow> Some (- ENOSPC, buf, c, b)
     | Some page \<Rightarrow>
       (case bbt_masks (bb_flags td AND NAND_BBT_NRBITS_MSK) (reserved_block_code td) of None \<Rightarrow> Some (- EINVAL, buf, c, b)
        | Some (sft, sftmsk, msk) \<Rightarrow> do {
            (r, buf, c, b) \<leftarrow> prepare_bbt bus td page sft buf c b;
            case r of Inl ret \<Rightarrow> Some (ret, buf, c, b)
            | Inr (to, n, ofs, oob_off) \<Rightarrow> do {
                let buf = (if has (bb_flags td) NAND_BBT_VERSION then buf(oob_off + veroffs td := bb_version td chip) else buf);
                let buf = pack_bbt sft sftmsk msk t (chip * (blocks_of c div 4)) (blocks_of c) ofs buf;
                let c = c\<lparr>bad_allow := True\<rparr>;
                (ret, _, c, b) \<leftarrow> er \<lparr>e_addr = to, e_len = 2 ^ bbt_erase_shift c, fail_addr = 0, e_state = ERASE_NEW, e_flags = 0\<rparr> c b;
                if ret < 0 then Some (ret, buf, c, b)
                else do {
                  (ret, c, b) \<leftarrow> scan_write_bbt bus to n buf (at_pos n buf) c b;
                  Some (if ret < 0 then (ret, buf, c, b) else (0, buf, set_page w chip page c, b)) } } }) }"

fun write_bbt_chips ::
  "(erase_info \<Rightarrow> nand_chip \<Rightarrow> 'b \<Rightarrow> (int \<times> erase_info \<times> nand_chip \<times> 'b) option) \<Rightarrow> 'b nand_bus \<Rightarrow> bbt_table \<Rightarrow> nat list \<Rightarrow> (nat \<Rightarrow> u8) \<Rightarrow> nand_chip \<Rightarrow> 'b
     \<Rightarrow> (int \<times> (nat \<Rightarrow> u8) \<times> nand_chip \<times> 'b) option" where
  "write_bbt_chips er bus w [] buf c b = Some (0, buf, c, b)"
| "write_bbt_chips er bus w (chip # chips) buf c b = do {
     (ret, buf, c, b) \<leftarrow> write_bbt_chip er bus w chip buf c b;
     if ret \<noteq> 0 then Some (ret, buf, c, b) else write_bbt_chips er bus w chips buf c b }"

definition write_bbt ::
  "(erase_info \<Rightarrow> nand_chip \<Rightarrow> 'b \<Rightarrow> (int \<times> erase_info \<times> nand_chip \<times> 'b) option) \<Rightarrow> 'b nand_bus \<Rightarrow> bbt_table \<Rightarrow> int \<Rightarrow> (nat \<Rightarrow> u8) \<Rightarrow> nand_chip \<Rightarrow> 'b
     \<Rightarrow> (int \<times> (nat \<Rightarrow> u8) \<times> nand_chip \<times> 'b) option" where
  "write_bbt er bus w chipsel buf c b = do {
     td \<leftarrow> desc w c;
     write_bbt_chips er bus w
       (if has (bb_flags td) NAND_BBT_PERCHIP then if chipsel = - 1 then [0..<slaves (master c)] else [nat chipsel] else [0]) buf c b }"

type_synonym allocator = "nat \<Rightarrow> (nat \<Rightarrow> u8) option"

definition bbt_buffer :: "nand_chip \<Rightarrow> nat" where
  "bbt_buffer c = 2 ^ bbt_erase_shift c + (2 ^ bbt_erase_shift c div 2 ^ write_shift c) * oob_size c"

definition nand_update_bbt_with ::
  "(erase_info \<Rightarrow> nand_chip \<Rightarrow> 'b \<Rightarrow> (int \<times> erase_info \<times> nand_chip \<times> 'b) option) \<Rightarrow> allocator \<Rightarrow> 'b nand_bus \<Rightarrow> nat \<Rightarrow> nand_chip \<Rightarrow> 'b
     \<Rightarrow> (int \<times> nand_chip \<times> 'b) option" where
  "nand_update_bbt_with er alloc bus ofs c b =
     (case (bbt c, bbt_td c) of
        (Some t, Some td) \<Rightarrow>
          (case alloc (bbt_buffer c) of None \<Rightarrow> Some (- ENOMEM, c, b)
           | Some buf \<Rightarrow> do {
               let (chip, chipsel) = (if has (bb_flags td) NAND_BBT_PERCHIP then (ofs div 2 ^ chip_shift c, int (ofs div 2 ^ chip_shift c)) else (0, - 1));
               let c = set_version TD chip (bb_version td chip + 1) c;
               let c = (case bbt_md c of None \<Rightarrow> c | Some md \<Rightarrow> set_version MD chip (bb_version md chip + 1) c);
               (ret, buf, c, b) \<leftarrow> (if has (bb_flags td) NAND_BBT_WRITE then write_bbt er bus TD chipsel buf c b else Some (0, buf, c, b));
               if ret < 0 then Some (ret, c, b)
               else (case bbt_md c of
                       Some md \<Rightarrow> if has (bb_flags md) NAND_BBT_WRITE
                         then do { (ret, _, c, b) \<leftarrow> write_bbt er bus MD chipsel buf c b; Some (ret, c, b) } else Some (ret, c, b)
                     | None \<Rightarrow> Some (ret, c, b)) })
      | _ \<Rightarrow> Some (- EINVAL, c, b))"

text \<open>
  \<^verbatim>\<open>nand_erase\<close> and \<^verbatim>\<open>nand_update_bbt\<close> call each other. The first argument bounds the depth of these calls; 2 is always enough, since writing a table
  sets \<^verbatim>\<open>bad_allow\<close>.
\<close>

fun nand_erase_depth :: "nat \<Rightarrow> allocator \<Rightarrow> 'b nand_bus \<Rightarrow> erase_info \<Rightarrow> nand_chip \<Rightarrow> 'b \<Rightarrow> (int \<times> erase_info \<times> nand_chip \<times> 'b) option" where
  "nand_erase_depth 0 alloc bus e c b = None"
| "nand_erase_depth (Suc k) alloc bus e c b = nand_erase_with (nand_update_bbt_with (nand_erase_depth k alloc bus) alloc bus) bus e c b"

definition nand_erase :: "allocator \<Rightarrow> 'b nand_bus \<Rightarrow> erase_info \<Rightarrow> nand_chip \<Rightarrow> 'b \<Rightarrow> (int \<times> erase_info \<times> nand_chip \<times> 'b) option" where
  "nand_erase = nand_erase_depth 2"

definition nand_update_bbt :: "allocator \<Rightarrow> 'b nand_bus \<Rightarrow> nat \<Rightarrow> nand_chip \<Rightarrow> 'b \<Rightarrow> (int \<times> nand_chip \<times> 'b) option" where
  "nand_update_bbt alloc bus = nand_update_bbt_with (nand_erase alloc bus) alloc bus"

section \<open>Marking a block\<close>

definition nand_mark_blk_bad :: "allocator \<Rightarrow> 'b nand_bus \<Rightarrow> nat \<Rightarrow> nand_chip \<Rightarrow> 'b \<Rightarrow> (int \<times> nand_chip \<times> 'b) option" where
  "nand_mark_blk_bad alloc bus ofs c b = do {
     let c = c\<lparr>bbt := map_option (bbt_or (ofs div 2 ^ bbt_erase_shift c) 1) (bbt c)\<rparr>;
     (ret, c, b) \<leftarrow>
       (if has (flags c) NAND_USE_FLASH_BBT then nand_update_bbt alloc bus ofs c b
        else do {
          (ret, ops, c, b) \<leftarrow> nand_do_write_oob bus (add32 ofs (oob_size c))
             ((opt c)\<lparr>len := 2, ooblen := 2, datbuf := None, oobbuf := Some (\<lambda>_. 0), ooboffs := bad_blk_oob_pos c div 2 * 2\<rparr>) c b;
          let (c, b) = nand_release_chip bus (c\<lparr>opt := ops\<rparr>) b;
          Some (ret, c, b) });
     Some (ret, if ret = 0 then c\<lparr>badblocks := badblocks c + 1\<rparr> else c, b) }"

definition nand_block_mark_bad :: "allocator \<Rightarrow> 'b nand_bus \<Rightarrow> nat \<Rightarrow> nand_chip \<Rightarrow> 'b \<Rightarrow> (int \<times> nand_chip \<times> 'b) option" where
  "nand_block_mark_bad alloc bus ofs c b = do {
     (ret, c, b) \<leftarrow> nand_blk_is_bad bus c ofs b;
     if ret > 0 then Some (0, c, b) else if ret < 0 then Some (ret, c, b) else nand_mark_blk_bad alloc bus ofs c b }"

section \<open>The scan when a chip is registered\<close>

definition nand_memory_bbt :: "'b nand_bus \<Rightarrow> (nat \<Rightarrow> u8) \<Rightarrow> nand_bad_blk \<Rightarrow> nand_chip \<Rightarrow> 'b \<Rightarrow> (int \<times> nand_chip \<times> 'b) option" where
  "nand_memory_bbt bus data_buff bd c b = do {
     (ret, _, c, b) \<leftarrow> create_bbt bus data_buff (bd\<lparr>bb_flags := bb_flags bd AND (0xFFFFF7FF)\<rparr>) (- 1) c b;
     Some (ret, c, b) }"

text \<open>
  What \<^verbatim>\<open>check_create\<close> does for chip \<open>i\<close>: the tables to read and to write, the versions, and whether a table is made. The difference of the versions
  is compared as a plain \<^verbatim>\<open>char\<close>, which is unsigned.
\<close>

definition reconcile :: "nat \<Rightarrow> nand_chip \<Rightarrow> (bool \<times> bbt_table list \<times> bool \<times> bool \<times> nand_chip) option" where
  "reconcile i c = do {
     td \<leftarrow> bbt_td c;
     case bbt_md c of
       None \<Rightarrow> Some (if bb_pages td i = - 1 then (True, [], True, False, c) else (False, [TD], False, False, c))
     | Some md \<Rightarrow> Some (
         if bb_pages td i = - 1 \<and> bb_pages md i = - 1 then (True, [], True, True, c)
         else if bb_pages td i = - 1 then (False, [MD], True, False, set_version TD i (bb_version md i) c)
         else if bb_pages md i = - 1 then (False, [TD], False, True, set_version MD i (bb_version td i) c)
         else if bb_version td i = bb_version md i
         then (False, if has (bb_flags td) NAND_BBT_VERSION then [TD] else [TD, MD], False, False, c)
         else if bb_version td i - bb_version md i > 0 then (False, [TD], False, True, set_version MD i (bb_version td i) c)
         else (False, [MD], True, False, set_version TD i (bb_version md i) c)) }"

fun read_tables :: "'b nand_bus \<Rightarrow> int \<Rightarrow> bbt_table list \<Rightarrow> (nat \<Rightarrow> u8) \<Rightarrow> nand_chip \<Rightarrow> 'b \<Rightarrow> ((nat \<Rightarrow> u8) \<times> nand_chip \<times> 'b) option" where
  "read_tables bus chipsel [] buf c b = Some (buf, c, b)"
| "read_tables bus chipsel (w # ws) buf c b = do {
     td \<leftarrow> desc w c;
     (_, buf, c, b) \<leftarrow> read_abs_bbt bus buf td chipsel c b;
     read_tables bus chipsel ws buf c b }"

fun check_chips ::
  "allocator \<Rightarrow> 'b nand_bus \<Rightarrow> nand_bad_blk \<Rightarrow> nat list \<Rightarrow> (nat \<Rightarrow> u8) \<Rightarrow> nand_chip \<Rightarrow> 'b \<Rightarrow> (int \<times> (nat \<Rightarrow> u8) \<times> nand_chip \<times> 'b) option" where
  "check_chips alloc bus bd [] buf c b = Some (0, buf, c, b)"
| "check_chips alloc bus bd (i # is) buf c b = do {
     td \<leftarrow> bbt_td c;
     let chipsel = (if has (bb_flags td) NAND_BBT_PERCHIP then int i else - 1);
     (create, rds, wr_td, wr_md, c) \<leftarrow> reconcile i c;
     if create \<and> \<not> has (bb_flags td) NAND_BBT_CREATE then check_chips alloc bus bd is buf c b
     else do {
       (buf, c, b) \<leftarrow> (if create
          then do { (_, buf, c, b) \<leftarrow> create_bbt bus buf bd chipsel c b; Some (buf, set_version MD i 1 (set_version TD i 1 c), b) }
          else Some (buf, c, b));
       (buf, c, b) \<leftarrow> read_tables bus chipsel rds buf c b;
       (ret, buf, c, b) \<leftarrow> (if wr_td \<and> has (bb_flags td) NAND_BBT_WRITE then write_bbt (nand_erase alloc bus) bus TD chipsel buf c b else Some (0, buf, c, b));
       if ret < 0 then Some (ret, buf, c, b)
       else do {
         (ret, buf, c, b) \<leftarrow>
           (case bbt_md c of
              Some md \<Rightarrow> if wr_md \<and> has (bb_flags md) NAND_BBT_WRITE then write_bbt (nand_erase alloc bus) bus MD chipsel buf c b else Some (0, buf, c, b)
            | None \<Rightarrow> Some (0, buf, c, b));
         if ret < 0 then Some (ret, buf, c, b) else check_chips alloc bus bd is buf c b } } }"

definition check_create :: "allocator \<Rightarrow> 'b nand_bus \<Rightarrow> nand_bad_blk \<Rightarrow> (nat \<Rightarrow> u8) \<Rightarrow> nand_chip \<Rightarrow> 'b \<Rightarrow> (int \<times> (nat \<Rightarrow> u8) \<times> nand_chip \<times> 'b) option" where
  "check_create alloc bus bd buf c b = do { td \<leftarrow> bbt_td c; check_chips alloc bus bd [0..<chips_of td c] buf c b }"

text \<open>\<^verbatim>\<open>mark_bbt_region\<close>: the blocks of the tables of chip \<open>i\<close>, marked as reserved, and whether a mark was new.\<close>

definition region_blocks :: "nand_bad_blk \<Rightarrow> nat \<Rightarrow> nand_chip \<Rightarrow> nat list" where
  "region_blocks td i c =
     (if has (bb_flags td) NAND_BBT_ABSPAGE \<or> \<not> has (bb_flags td) NAND_BBT_WRITE
      then if bb_pages td i = - 1 then [] else [nat (bb_pages td i) div 2 ^ (bbt_erase_shift c - write_shift c)]
      else let start = (if has (bb_flags td) NAND_BBT_LASTBLOCK then (i + 1) * blocks_of c - maxblocks td else i * blocks_of c)
           in [start..<start + maxblocks td])"

fun mark_chips :: "allocator \<Rightarrow> 'b nand_bus \<Rightarrow> bbt_table \<Rightarrow> nat list \<Rightarrow> nand_chip \<Rightarrow> 'b \<Rightarrow> (nand_chip \<times> 'b) option" where
  "mark_chips alloc bus w [] c b = Some (c, b)"
| "mark_chips alloc bus w (i # is) c b = do {
     td \<leftarrow> desc w c;
     t \<leftarrow> bbt c;
     let blocks = region_blocks td i c;
     let new = list_ex (\<lambda>k. \<not> has (bbt_get t k) 2) blocks;
     let c = c\<lparr>bbt := Some (fold (\<lambda>k. bbt_or k 2) blocks t)\<rparr>;
     (c, b) \<leftarrow> (if new \<and> reserved_block_code td \<noteq> 0
                then do { (_, c, b) \<leftarrow> nand_update_bbt alloc bus (last blocks * 2 ^ bbt_erase_shift c mod 2 ^ 32) c b; Some (c, b) } else Some (c, b));
     mark_chips alloc bus w is c b }"

definition mark_bbt_region :: "allocator \<Rightarrow> 'b nand_bus \<Rightarrow> bbt_table \<Rightarrow> nand_chip \<Rightarrow> 'b \<Rightarrow> (nand_chip \<times> 'b) option" where
  "mark_bbt_region alloc bus w c b = do { td \<leftarrow> desc w c; mark_chips alloc bus w [0..<chips_of td c] c b }"

text \<open>\<open>data_buff\<close> is the chip's own page buffer.\<close>

definition nand_scan_bad_block ::
  "allocator \<Rightarrow> 'b nand_bus \<Rightarrow> (nat \<Rightarrow> u8) \<Rightarrow> nand_bad_blk \<Rightarrow> nand_chip \<Rightarrow> 'b \<Rightarrow> (int \<times> nand_chip \<times> 'b) option" where
  "nand_scan_bad_block alloc bus data_buff bd c b =
     (if alloc (chip_size c div 2 ^ (bbt_erase_shift c + 2)) = None then Some (- ENOMEM, c\<lparr>bbt := None\<rparr>, b)
      else let c = c\<lparr>bbt := Some (\<lambda>_. 0)\<rparr>
      in if bbt_td c = None
         then do { (ret, c, b) \<leftarrow> nand_memory_bbt bus data_buff bd c b; Some (ret, if ret \<noteq> 0 then c\<lparr>bbt := None\<rparr> else c, b) }
         else (case alloc (bbt_buffer c) of None \<Rightarrow> Some (- ENOMEM, c\<lparr>bbt := None\<rparr>, b)
               | Some buf \<Rightarrow> do {
                   td \<leftarrow> bbt_td c;
                   (buf, c, b) \<leftarrow> (if has (bb_flags td) NAND_BBT_ABSPAGE then read_abs_bbts bus buf c b else search_read_bbts bus buf c b);
                   (ret, _, c, b) \<leftarrow> check_create alloc bus bd buf c b;
                   (c, b) \<leftarrow> mark_bbt_region alloc bus TD c b;
                   (c, b) \<leftarrow> (if bbt_md c = None then Some (c, b) else mark_bbt_region alloc bus MD c b);
                   Some (ret, c, b) }))"

definition nand_scan_bbt :: "allocator \<Rightarrow> 'b nand_bus \<Rightarrow> (nat \<Rightarrow> u8) \<Rightarrow> nand_chip \<Rightarrow> 'b \<Rightarrow> (int \<times> nand_chip \<times> 'b) option" where
  "nand_scan_bbt alloc bus data_buff c b =
     (let own = (\<lambda>c. if bbt_td c = None then c\<lparr>bbt_td := Some g_bbt_main_desc, bbt_md := Some g_bbt_mirror_desc\<rparr> else c);
          patt = (\<lambda>large small c. case bad_blk_patt c of Some bd \<Rightarrow> bd | None \<Rightarrow> if write_size c > 512 then large else small)
      in if has (flags c) NAND_IS_AND
         then nand_scan_bad_block alloc bus data_buff g_bbt_agand_flash_based ((own c)\<lparr>flags := flags c OR NAND_USE_FLASH_BBT\<rparr>) b
         else let c = (if has (flags c) NAND_USE_FLASH_BBT then own c else c\<lparr>bbt_td := None, bbt_md := None\<rparr>);
                  bd = (if has (flags c) NAND_USE_FLASH_BBT then patt g_bbLargePageFlashBased g_bbSmallPageFlashBased c
                        else patt g_bbLargePageMemBased g_bbSmallPageMemBased c)
              in nand_scan_bad_block alloc bus data_buff bd (c\<lparr>bad_blk_patt := Some bd\<rparr>) b)"

section \<open>The entries of the table\<close>

definition bad_value :: "bool \<Rightarrow> nat \<Rightarrow> bool" where
  "bad_value allow v \<longleftrightarrow> v = 1 \<or> v = 3 \<or> v = 2 \<and> \<not> allow"

lemma and_six: "y AND 6 = 2 * (y div 2 AND 3)" for y :: nat
proof (rule bit_eqI)
  fix n
  have "bit (6 :: nat) (Suc m) = bit (3 :: nat) m" for m by (simp add: bit_Suc)
  then show "bit (y AND 6) n = bit (2 * (y div 2 AND 3)) n"
    by (cases n) (auto simp: bit_and_iff bit_double_iff simp flip: bit_Suc)
qed

lemma two_bits: "unat (w AND 3) < 4" "w AND 3 = 0 \<longleftrightarrow> unat (w AND 3) = 0" "w AND 3 = 1 \<longleftrightarrow> unat (w AND 3) = 1" "w AND 3 = 2 \<longleftrightarrow> unat (w AND 3) = 2"
  for w :: u8
proof -
  have "w AND 3 = take_bit 2 w" by (simp add: take_bit_eq_mask mask_eq_exp_minus_1)
  then show "unat (w AND 3) < 4" using take_bit_nat_less_exp [of 2 "unat w"] by (simp add: unsigned_take_bit_eq del: take_bit_nat_less_exp)
  show "w AND 3 = 0 \<longleftrightarrow> unat (w AND 3) = 0" "w AND 3 = 1 \<longleftrightarrow> unat (w AND 3) = 1" "w AND 3 = 2 \<longleftrightarrow> unat (w AND 3) = 2"
    by (simp_all add: word_unat_eq_iff)
qed

lemma is_bad_bbt_entry:
  assumes "bbt c = Some t" "0 < bbt_erase_shift c"
  shows "nand_is_bad_bbt c ofs = Some (bad_value (bad_allow c) (bbt_get t (ofs div 2 ^ bbt_erase_shift c)))"
proof -
  obtain s where s: "bbt_erase_shift c = Suc s" using assms(2) by (cases "bbt_erase_shift c") auto
  let ?y = "ofs div 2 ^ s"
  have y: "ofs div 2 ^ Suc s = ?y div 2" by (simp add: div_mult2_eq power_Suc2 del: power_Suc)
  have "?y div 8 = ?y div 2 div 4" using div_mult2_eq [of ?y 2 4] by simp
  then show ?thesis
    using two_bits [of "drop_bit (2 * (?y div 2 AND 3)) (t (?y div 2 div 4))"] assms(1)
    by (auto simp: nand_is_bad_bbt_def s y and_six bbt_get_def bad_value_def simp del: power_Suc)
qed

section \<open>What erasing does\<close>

text \<open>Whether \<^verbatim>\<open>nand_erase\<close> refuses a block.\<close>

definition refused :: "erase_info \<Rightarrow> nand_chip \<Rightarrow> nat \<Rightarrow> bool" where
  "refused e c block \<longleftrightarrow> \<not> has (e_flags e) EDF_ALLOWBB \<and> (case bbt c of None \<Rightarrow> False | Some t \<Rightarrow> bad_value (bad_allow c) (bbt_get t block))"

definition same_table :: "nand_chip \<Rightarrow> nand_chip \<Rightarrow> bool" where
  "same_table c c' \<longleftrightarrow> bbt c' = bbt c \<and> bad_allow c' = bad_allow c \<and> flags c' = flags c \<and> bbt_td c' = bbt_td c \<and> bbt_md c' = bbt_md c"

lemma same_table_trans: "same_table c c' \<Longrightarrow> same_table c' c'' \<Longrightarrow> same_table c c''"
  by (simp add: same_table_def)

lemma same_table_simps [simp]: "same_table c (call_back q c') = same_table c c'" "same_table c c" "same_table c (c'\<lparr>page_in_buff := p\<rparr>) = same_table c c'"
  by (simp_all add: same_table_def call_back_def)

context nand_commands
begin

lemma erase_block_pages:
  assumes "chip_fits cmd wsh os pb bb c" "r < 2 ^ pb" "\<not> protected"
  shows "\<exists>b' b''. nand_erase_block bus c r b = Some b' \<and> nand_wait bus c b' = Some (status b', b'') \<and> status b'' = status b' \<and> (\<forall>q. q div 2 ^ bb \<noteq> r div 2 ^ bb \<longrightarrow> page b'' q = page b q)
     \<and> (status b' AND NAND_STATUS_FAIL = 0 \<longrightarrow> (\<forall>q. q div 2 ^ bb = r div 2 ^ bb \<longrightarrow> page b'' q = replicate (2 ^ wsh + os) 0xFF))"
proof -
  obtain b1 where b1: "nand_command bus c NAND_CMMD_ERASE1 (- 1) (int r) b = Some b1" "mode_of b1 = ErasePage r" "page b1 = page b"
    using command_erase1 [OF assms(1,2)] by blast
  let ?b = "wr_cmmd bus 0xd0 b1"
  obtain b2 where "nand_wait bus c ?b = Some (status ?b, b2)" "page b2 = page ?b" "status b2 = status ?b" using wait_status_byte [OF assms(1)] by blast
  then show ?thesis
    using assms(1,3) b1 command_erase2 [OF assms(1), of b1] erase_cycle [OF b1(2)]
    by (auto simp: nand_erase_block_def erase_one_block_def chip_fits_def)
qed

lemma check_blk_bad:
  assumes "chip_fits cmd wsh os pb bb c" "bbt c = Some t" "0 < wsh + bb"
  shows "nand_check_blk_bad bus c (block * 2 ^ bb * 2 ^ wsh) gc b = Some (bad_value (bad_allow c) (bbt_get t block), c, b)"
proof -
  have s: "bbt_erase_shift c = wsh + bb" using assms(1) by (simp add: chip_fits_def)
  have "block * 2 ^ bb * 2 ^ wsh = block * 2 ^ (wsh + bb)" by (simp only: power_add mult_ac)
  then have "block * 2 ^ bb * 2 ^ wsh div 2 ^ (wsh + bb) = block" by (simp only: nonzero_mult_div_cancel_right) simp
  then show ?thesis using is_bad_bbt_entry [OF assms(2)] s assms(2,3) by (simp add: nand_check_blk_bad_def)
qed

lemma erase_one_block:
  assumes "chip_fits cmd wsh os pb bb c" "bbt c = Some t" "0 < wsh + bb" "block * 2 ^ bb < 2 ^ pb" "\<not> protected" "\<not> has (e_flags e) EDF_JFFS2"
  shows "if refused e c block then erase_one bus masked e (block * 2 ^ bb) rw c b = Some (False, rw, e\<lparr>e_state := FLASH_ERASE_FAILED\<rparr>, c, b)
     else \<exists>more rw' e' c' b'. erase_one bus masked e (block * 2 ^ bb) rw c b = Some (more, rw', e', c', b') \<and> chip_fits cmd wsh os pb bb c' \<and> same_table c c'
        \<and> (\<forall>q. q div 2 ^ bb \<noteq> block \<longrightarrow> page b' q = page b q)
        \<and> (if more then e' = e \<and> (\<forall>q. q div 2 ^ bb = block \<longrightarrow> page b' q = replicate (2 ^ wsh + os) 0xFF)
           else e_state e' = FLASH_ERASE_FAILED \<and> status b' AND NAND_STATUS_FAIL \<noteq> 0)"
proof (cases "refused e c block")
  case True
  then show ?thesis using assms check_blk_bad [OF assms(1-3)] by (simp add: erase_one_def refused_def chip_fits_def)
next
  case False
  let ?r = "block * 2 ^ bb" and ?c = "if int (block * 2 ^ bb) \<le> page_in_buff c \<and> page_in_buff c < int (block * 2 ^ bb + erase_size c div 2 ^ write_shift c)
      then c\<lparr>page_in_buff := - 1\<rparr> else c"
  have c: "chip_fits cmd wsh os pb bb ?c" "same_table c ?c" "write_shift c = wsh" using assms(1) by (simp_all add: chip_fits_def)
  have mask: "?r AND page_num_mask ?c = ?r" using fits_page [OF c(1) assms(4)] .
  obtain b1 b2 where e: "nand_erase_block bus ?c ?r b = Some b1" "nand_wait bus ?c b1 = Some (status b1, b2)" "status b2 = status b1" "\<forall>q. q div 2 ^ bb \<noteq> block \<longrightarrow> page b2 q = page b q"
      "status b1 AND NAND_STATUS_FAIL = 0 \<longrightarrow> (\<forall>q. q div 2 ^ bb = block \<longrightarrow> page b2 q = replicate (2 ^ wsh + os) 0xFF)"
    using erase_block_pages [OF c(1) assms(4,5), of b] by auto
  have "(if has (e_flags e) EDF_ALLOWBB then Some (False, c, b) else nand_check_blk_bad bus c (?r * 2 ^ write_shift c) False b) = Some (False, c, b)"
    using False assms(2) check_blk_bad [OF assms(1-3)] c(3) by (auto simp: refused_def)
  then show ?thesis
    using False assms(6) c(1,2) e mask by (auto simp: erase_one_def Let_def)
qed

end

definition refused_in :: "erase_info \<Rightarrow> nand_chip \<Rightarrow> nat \<Rightarrow> nat \<Rightarrow> bool" where
  "refused_in e c block nb \<longleftrightarrow> (\<exists>i. block \<le> i \<and> i < block + nb \<and> refused e c i)"

lemma refused_in_Suc: "refused_in e c block (Suc nb) \<longleftrightarrow> refused e c block \<or> refused_in e c (Suc block) nb"
  unfolding refused_in_def by (metis Suc_leD Suc_le_eq add_Suc_right add_Suc_shift le_eq_less_or_eq less_add_Suc1)

lemma refused_in_cong: "refused e' c' = refused e c \<Longrightarrow> refused_in e' c' = refused_in e c"
  by (simp add: refused_in_def fun_eq_iff)

lemma refused_cong: "same_table c c' \<Longrightarrow> refused e c' = refused e c"
  by (simp add: same_table_def refused_def fun_eq_iff split: option.split)

context nand_commands
begin

lemma erase_loop_stop:
  "erase_one bus masked e r rw c b = Some (False, rw', e', c', b') \<Longrightarrow> 0 < n \<Longrightarrow> erase_loop bus masked n e r rw c b = Some (rw', e', c', b')"
  by (subst erase_loop.simps) simp

lemma erase_loop_more:
  assumes "erase_one bus masked e (block * 2 ^ bb) rw c b = Some (True, rw', e', c', b')" "chip_fits cmd wsh os pb bb c'" "(block + Suc nb) * 2 ^ bb \<le> 2 ^ pb"
  shows "erase_loop bus masked (Suc nb * 2 ^ (wsh + bb)) e (block * 2 ^ bb) rw c b = erase_loop bus masked (nb * 2 ^ (wsh + bb)) e' (Suc block * 2 ^ bb) rw' c' b'"
proof -
  let ?S = "2 ^ (wsh + bb) :: nat"
  have sz: "erase_size c' = ?S" "?S div 2 ^ write_shift c' = 2 ^ bb" using assms(2) by (simp_all add: chip_fits_def power_add)
  have "Suc nb * ?S \<le> (block + Suc nb) * 2 ^ bb * 2 ^ wsh" by (simp add: power_add algebra_simps)
  also have "\<dots> \<le> 2 ^ pb * 2 ^ wsh" using assms(3) by (rule mult_le_mono1)
  also have "\<dots> = chip_size c'" using assms(2) by (simp add: chip_fits_def power_add mult_ac)
  finally have "Suc nb * ?S < 2 ^ 32" using fits_small [OF assms(2)] by linarith
  then have sub: "sub32 (Suc nb * ?S) ?S = nb * ?S" by simp
  have nxt: "block * 2 ^ bb + 2 ^ bb = Suc block * 2 ^ bb" by simp
  have "Suc nb * ?S \<noteq> 0" by simp
  then show ?thesis using assms(1) by (subst erase_loop.simps) (simp add: sz sub nxt del: mult_Suc)
qed

lemma erase_loop_blocks:
  assumes "chip_fits cmd wsh os pb bb c" "bbt c = Some t" "0 < wsh + bb" "(block + nb) * 2 ^ bb \<le> 2 ^ pb" "\<not> protected" "\<not> has (e_flags e) EDF_JFFS2"
  shows "\<exists>rw' e' c' b'. erase_loop bus masked (nb * 2 ^ (wsh + bb)) e (block * 2 ^ bb) rw c b = Some (rw', e', c', b')
     \<and> chip_fits cmd wsh os pb bb c' \<and> same_table c c' \<and> (\<forall>q. q div 2 ^ bb < block \<or> block + nb \<le> q div 2 ^ bb \<or> refused e c (q div 2 ^ bb) \<longrightarrow> page b' q = page b q)
     \<and> (e_state e' = FLASH_ERASE_FAILED \<and> (refused_in e c block nb \<or> status b' AND NAND_STATUS_FAIL \<noteq> 0)
       \<or> e_state e' = FLASH_ERASE_DONE \<and> (\<forall>i. block \<le> i \<and> i < block + nb \<longrightarrow> \<not> refused e c i)
         \<and> (\<forall>q. block \<le> q div 2 ^ bb \<and> q div 2 ^ bb < block + nb \<longrightarrow> page b' q = replicate (2 ^ wsh + os) 0xFF))"
  using assms
proof (induction nb arbitrary: block rw c b)
  case 0
  then show ?case by (subst erase_loop.simps) auto
next
  case (Suc nb)
  let ?S = "2 ^ (wsh + bb) :: nat"
  have "block * 2 ^ bb < (block + Suc nb) * 2 ^ bb" by (intro mult_less_mono1) auto
  then have "block * 2 ^ bb < 2 ^ pb" using Suc.prems(4) by linarith
  note one = erase_one_block [OF Suc.prems(1-3) this Suc.prems(5,6), of masked rw b]
  show ?case
  proof (cases "refused e c block")
    case True
    then show ?thesis using one Suc.prems(1) erase_loop_stop [of masked e "block * 2 ^ bb" rw c b _ _ _ _ "Suc nb * ?S"] by (intro exI) (auto simp: refused_in_Suc)
  next
    case False
    with one obtain more rw' e' c' b' where o: "erase_one bus masked e (block * 2 ^ bb) rw c b = Some (more, rw', e', c', b')"
        "chip_fits cmd wsh os pb bb c'" "same_table c c'" "\<forall>q. q div 2 ^ bb \<noteq> block \<longrightarrow> page b' q = page b q"
        "if more then e' = e \<and> (\<forall>q. q div 2 ^ bb = block \<longrightarrow> page b' q = replicate (2 ^ wsh + os) 0xFF)
          else e_state e' = FLASH_ERASE_FAILED \<and> status b' AND NAND_STATUS_FAIL \<noteq> 0"
      by auto
    note ref = refused_cong [OF o(3), of e] refused_in_cong [OF refused_cong [OF o(3), of e]]
    show ?thesis
    proof (cases more)
      case False
      then show ?thesis using o \<open>\<not> refused e c block\<close> erase_loop_stop [of masked e "block * 2 ^ bb" rw c b _ _ _ _ "Suc nb * ?S"] by (intro exI) auto
    next
      case True
      have t: "bbt c' = Some t" using o(3) Suc.prems(2) by (simp add: same_table_def)
      obtain rw2 e2 c2 b2 where l: "erase_loop bus masked (nb * ?S) e (Suc block * 2 ^ bb) rw' c' b' = Some (rw2, e2, c2, b2)"
          "chip_fits cmd wsh os pb bb c2" "same_table c' c2" "\<forall>q. q div 2 ^ bb < Suc block \<or> Suc block + nb \<le> q div 2 ^ bb \<or> refused e c (q div 2 ^ bb) \<longrightarrow> page b2 q = page b' q"
          "e_state e2 = FLASH_ERASE_FAILED \<and> (refused_in e c (Suc block) nb \<or> status b2 AND NAND_STATUS_FAIL \<noteq> 0) \<or> e_state e2 = FLASH_ERASE_DONE \<and> (\<forall>i. Suc block \<le> i \<and> i < Suc block + nb \<longrightarrow> \<not> refused e c i)
            \<and> (\<forall>q. Suc block \<le> q div 2 ^ bb \<and> q div 2 ^ bb < Suc block + nb \<longrightarrow> page b2 q = replicate (2 ^ wsh + os) 0xFF)"
        using Suc.IH [OF o(2) t Suc.prems(3) _ Suc.prems(5,6), of "Suc block" rw' b'] Suc.prems(4) ref by auto
      have "erase_loop bus masked (Suc nb * ?S) e (block * 2 ^ bb) rw c b = Some (rw2, e2, c2, b2)"
        using erase_loop_more [of masked e block rw c b rw' e' c' b' nb] o True l(1) Suc.prems(4) by auto
      moreover have "\<not> refused e c i \<and> (\<forall>q. q div 2 ^ bb = i \<longrightarrow> page b2 q = replicate (2 ^ wsh + os) 0xFF)"
        if "e_state e2 = FLASH_ERASE_DONE" "block \<le> i" "i < block + Suc nb" for i
        using that \<open>\<not> refused e c block\<close> o(5) True l(4,5) by (cases "i = block") auto
      moreover have "page b2 q = page b q" if "q div 2 ^ bb < block \<or> block + Suc nb \<le> q div 2 ^ bb \<or> refused e c (q div 2 ^ bb)" for q
        using that l(4) o(4) \<open>\<not> refused e c block\<close> by (cases "q div 2 ^ bb = block") auto
      moreover have "refused_in e c block (Suc nb) \<or> status b2 AND NAND_STATUS_FAIL \<noteq> 0"
        if "e_state e2 = FLASH_ERASE_FAILED" using l(5) that by (auto simp: refused_in_Suc)
      moreover have "e_state e2 = FLASH_ERASE_FAILED \<or> e_state e2 = FLASH_ERASE_DONE" using l(5) by blast
      ultimately show ?thesis using l(2,3) o(3) same_table_trans by (intro exI) blast
    qed
  qed
qed

end

context nand_commands
begin

lemma nand_erase_blocks:
  assumes "chip_fits cmd wsh os pb bb c" "bbt c = Some t" "0 < wsh + bb" "(block + nb) * 2 ^ bb \<le> 2 ^ pb" "\<not> protected" "\<not> has (e_flags e) EDF_JFFS2"
    and "e_addr e = block * 2 ^ (wsh + bb)" "e_len e = nb * 2 ^ (wsh + bb)" "\<not> has (flags c) BBT_AUTO_REFRESH \<or> bad_allow c"
  shows "\<exists>ret e' c' b'. nand_erase_with update bus e c b = Some (ret, e', c', b') \<and> chip_fits cmd wsh os pb bb c' \<and> same_table c c'
     \<and> (\<forall>q. q div 2 ^ bb < block \<or> block + nb \<le> q div 2 ^ bb \<or> refused e c (q div 2 ^ bb) \<longrightarrow> page b' q = page b q)
     \<and> (ret = - EIO \<and> (refused_in e c block nb \<or> status b' AND NAND_STATUS_FAIL \<noteq> 0) \<or> ret = 0 \<and> (\<forall>i. block \<le> i \<and> i < block + nb \<longrightarrow> \<not> refused e c i)
         \<and> (\<forall>q. block \<le> q div 2 ^ bb \<and> q div 2 ^ bb < block + nb \<longrightarrow> page b' q = replicate (2 ^ wsh + os) 0xFF))"
proof -
  let ?S = "2 ^ (wsh + bb) :: nat"
  have c: "erase_size c = ?S" "write_shift c = wsh" "chip_size c = 2 ^ pb * 2 ^ wsh" using assms(1) by (simp_all add: chip_fits_def power_add mult.commute)
  have al: "e_addr e AND (?S - 1) = 0" "e_len e AND (?S - 1) = 0" by (simp_all add: and_low assms(7,8) del: One_nat_def)
  have "e_len e + e_addr e = (block + nb) * 2 ^ bb * 2 ^ wsh" unfolding assms(7,8) by (simp add: power_add algebra_simps)
  also have "\<dots> \<le> chip_size c" unfolding c(3) using assms(4) by (rule mult_le_mono1)
  finally have len: "e_len e + e_addr e \<le> chip_size c" .
  have page0: "e_addr e div 2 ^ wsh mod 2 ^ 32 = block * 2 ^ bb" "e_len e mod 2 ^ 32 = nb * ?S" "(e_len e + e_addr e) mod 2 ^ 64 \<le> chip_size c"
  proof -
    have "e_addr e div 2 ^ wsh = block * 2 ^ bb" unfolding assms(7) power_add by (simp add: mult.left_commute [of block])
    moreover have "e_addr e div 2 ^ wsh \<le> e_addr e" by simp
    moreover have "e_addr e < 2 ^ 32" "e_len e < 2 ^ 32" using len fits_small [OF assms(1)] by linarith+
    ultimately show "e_addr e div 2 ^ wsh mod 2 ^ 32 = block * 2 ^ bb" "e_len e mod 2 ^ 32 = nb * ?S"
      using assms(8) by (simp_all del: mult_less_cancel2)
    show "(e_len e + e_addr e) mod 2 ^ 64 \<le> chip_size c" using len mod_less_eq_dividend order_trans by blast
  qed
  let ?e = "e\<lparr>fail_addr := 0xffffffff, e_state := FLASH_ERASING\<rparr>"
  obtain b1 where b1: "nand_check_wp bus c b = Some (False, b1)" "page b1 = page b" using check_wp [OF assms(1), of b] assms(5) by auto
  have "refused ?e c = refused e c" by (simp add: refused_def fun_eq_iff)
  note ref = this refused_in_cong [OF this]
  obtain rw e' c' b' where l: "erase_loop bus None (nb * ?S) ?e (block * 2 ^ bb) 0 c b1 = Some (rw, e', c', b')" "chip_fits cmd wsh os pb bb c'" "same_table c c'"
      "\<forall>q. q div 2 ^ bb < block \<or> block + nb \<le> q div 2 ^ bb \<or> refused e c (q div 2 ^ bb) \<longrightarrow> page b' q = page b q"
      "e_state e' = FLASH_ERASE_FAILED \<and> (refused_in e c block nb \<or> status b' AND NAND_STATUS_FAIL \<noteq> 0) \<or> e_state e' = FLASH_ERASE_DONE \<and> (\<forall>i. block \<le> i \<and> i < block + nb \<longrightarrow> \<not> refused e c i)
         \<and> (\<forall>q. block \<le> q div 2 ^ bb \<and> q div 2 ^ bb < block + nb \<longrightarrow> page b' q = replicate (2 ^ wsh + os) 0xFF)"
    using erase_loop_blocks [of c t block nb ?e None 0 b1] assms b1(2) ref by auto
  have "nand_erase_with update bus e c b = Some (if e_state e' = FLASH_ERASE_DONE then 0 else - EIO, e', released c', b')"
    using assms(9) l(1) b1 al page0 c(1,2) by (auto simp: nand_erase_with_def Let_def)
  then show ?thesis using l(2-5) by (auto simp: same_table_def)
qed

end

section \<open>The depth of the calls between erasing and updating\<close>

lemma nand_erase_allowed: "bad_allow c \<Longrightarrow> nand_erase_with u bus e c b = nand_erase_with u' bus e c b"
  by (cases "nand_check_wp bus c b") (auto simp: nand_erase_with_def Let_def split: Option.bind_splits)

lemma write_bbt_chip_cong:
  assumes "\<And>e c b. bad_allow c \<Longrightarrow> er e c b = er' e c b"
  shows "write_bbt_chip er bus w = write_bbt_chip er' bus w"
  unfolding write_bbt_chip_def Let_def by (simp add: assms cong: option.case_cong sum.case_cong prod.case_cong)

lemma write_bbt_cong:
  assumes "\<And>e c b. bad_allow c \<Longrightarrow> er e c b = er' e c b"
  shows "write_bbt er bus = write_bbt er' bus"
proof -
  have "write_bbt_chips er bus w chips = write_bbt_chips er' bus w chips" for w chips
  proof (induction chips)
    case (Cons i chips)
    then show ?case by (intro ext) (simp only: write_bbt_chips.simps write_bbt_chip_cong [of er er', OF assms])
  qed (simp add: fun_eq_iff)
  then show ?thesis by (simp add: write_bbt_def fun_eq_iff)
qed

lemma nand_update_bbt_cong:
  assumes "\<And>e c b. bad_allow c \<Longrightarrow> er e c b = er' e c b"
  shows "nand_update_bbt_with er alloc bus = nand_update_bbt_with er' alloc bus"
  by (intro ext) (simp only: nand_update_bbt_with_def write_bbt_cong [of er er' bus, OF assms])

text \<open>
  C9. Erasing and updating the table end. \<^verbatim>\<open>nand_erase\<close> and \<^verbatim>\<open>nand_update_bbt\<close> call each other, but never more than one call of each deep inside a
  call of \<^verbatim>\<open>nand_erase\<close>, whatever the chip does: a bound of two gives the same result as every larger bound.
\<close>

theorem nand_erase_depth_enough:
  "nand_erase_depth (2 + d) alloc bus e c b = nand_erase alloc bus e c b"
proof -
  have eq: "nand_update_bbt_with (nand_erase_depth (Suc k) alloc bus) alloc bus = nand_update_bbt_with (nand_erase_depth (Suc 0) alloc bus) alloc bus" for k
  proof (rule nand_update_bbt_cong)
    fix e and c :: nand_chip and b
    assume "bad_allow c"
    then show "nand_erase_depth (Suc k) alloc bus e c b = nand_erase_depth (Suc 0) alloc bus e c b"
      unfolding nand_erase_depth.simps by (rule nand_erase_allowed)
  qed
  have "nand_erase_depth (Suc (Suc k)) alloc bus e c b = nand_erase_depth (Suc (Suc 0)) alloc bus e c b" for k
    using eq [of k] by (simp only: nand_erase_depth.simps(2) [of "Suc k" for k])
  then show ?thesis by (metis nand_erase_def numeral_2_eq_2 add_2_eq_Suc)
qed

text \<open>
  C7. Erasing keeps to its range and never touches a bad block. For every chip that behaves as data sheets say and is not protected, with a table of bad
  blocks in memory, and for every range of whole blocks on the chip, \<^verbatim>\<open>nand_erase\<close> returns; the pages outside of the range and those of the blocks that the table
  has as bad are as before, unless the caller allows bad blocks. The result is \<^verbatim>\<open>-EIO\<close> only if the range has such a block or the chip shows a failure in its
  status, and otherwise 0, with no such block in the range and every page of it erased. Left out are the requests that write as well: those with
  \<^verbatim>\<open>EDF_JFFS2\<close>, which put a clean mark in every block, and those of chips with \<^verbatim>\<open>BBT_AUTO_REFRESH\<close> unless \<^verbatim>\<open>bad_allow\<close> is set, which may write
  the table of bad blocks again.
\<close>

theorem nand_erase_spec:
  assumes "nand_commands bus mode_of page status wsh os pb bb False rdy cmd"
    and "chip_fits cmd wsh os pb bb c" "bbt c = Some t" "0 < wsh + bb" "(block + nb) * 2 ^ bb \<le> 2 ^ pb" "\<not> has (e_flags e) EDF_JFFS2"
    and "e_addr e = block * 2 ^ (wsh + bb)" "e_len e = nb * 2 ^ (wsh + bb)" "\<not> has (flags c) BBT_AUTO_REFRESH \<or> bad_allow c"
  shows "\<exists>ret e' c' b'. nand_erase alloc bus e c b = Some (ret, e', c', b')
     \<and> (\<forall>q. q div 2 ^ bb < block \<or> block + nb \<le> q div 2 ^ bb \<or> refused e c (q div 2 ^ bb) \<longrightarrow> page b' q = page b q)
     \<and> (ret = - EIO \<and> ((\<exists>i. block \<le> i \<and> i < block + nb \<and> refused e c i) \<or> status b' AND NAND_STATUS_FAIL \<noteq> 0) \<or> ret = 0 \<and> (\<forall>i. block \<le> i \<and> i < block + nb \<longrightarrow> \<not> refused e c i)
         \<and> (\<forall>q. block \<le> q div 2 ^ bb \<and> q div 2 ^ bb < block + nb \<longrightarrow> page b' q = replicate (2 ^ wsh + os) 0xFF))"
proof -
  obtain ret e' c' b' where n: "nand_erase alloc bus e c b = Some (ret, e', c', b')"
    and p: "\<forall>q. q div 2 ^ bb < block \<or> block + nb \<le> q div 2 ^ bb \<or> refused e c (q div 2 ^ bb) \<longrightarrow> page b' q = page b q"
    and r: "ret = - EIO \<and> (refused_in e c block nb \<or> status b' AND NAND_STATUS_FAIL \<noteq> 0) \<or> ret = 0 \<and> (\<forall>i. block \<le> i \<and> i < block + nb \<longrightarrow> \<not> refused e c i)
         \<and> (\<forall>q. block \<le> q div 2 ^ bb \<and> q div 2 ^ bb < block + nb \<longrightarrow> page b' q = replicate (2 ^ wsh + os) 0xFF)"
    using nand_commands.nand_erase_blocks [OF assms(1-5) _ assms(6-9), of _ b]
    unfolding nand_erase_def numeral_2_eq_2 nand_erase_depth.simps by blast
  show ?thesis by (intro exI conjI) (rule n p r [unfolded refused_in_def])+
qed

text \<open>Blocks 1 and 2 of the simulated chip: with block 1 in the table nothing is erased, without it both are.\<close>

theorem nand_erase_spec_witness:
  "(\<exists>e' c' b'. nand_erase (\<lambda>_. Some (\<lambda>_. 0)) (sim_bus True (2 ^ 6))
        \<lparr>e_addr = 131072, e_len = 262144, fail_addr = 0, e_state = ERASE_NEW, e_flags = 0\<rparr> (demo_chip\<lparr>bbt := Some (\<lambda>_. 0x0C)\<rparr>) blank_sim = Some (- EIO, e', c', b')
     \<and> (\<forall>q. q div 64 = 1 \<longrightarrow> sim_page 2112 b' q = sim_page 2112 blank_sim q))
   \<and> (\<exists>e' c' b'. nand_erase (\<lambda>_. Some (\<lambda>_. 0)) (sim_bus True (2 ^ 6))
        \<lparr>e_addr = 131072, e_len = 262144, fail_addr = 0, e_state = ERASE_NEW, e_flags = 0\<rparr> (demo_chip\<lparr>bbt := Some (\<lambda>_. 0)\<rparr>) (blank_sim\<lparr>cells := (\<lambda>_ _. 0)\<rparr>)
        = Some (0, e', c', b')
     \<and> (\<forall>q. q div 64 \<in> {1, 2} \<longrightarrow> sim_page 2112 b' q = replicate 2112 0xFF))"
proof
  let ?c = "\<lambda>v. demo_chip\<lparr>bbt := Some (\<lambda>_. v)\<rparr>" and ?e = "\<lparr>e_addr = 131072, e_len = 262144, fail_addr = 0, e_state = ERASE_NEW, e_flags = 0\<rparr>"
  have c: "chip_fits COMMAND_LARGE 11 64 15 6 (?c v)" for v using demo_fits(1) by simp
  have al: "bad_allow (?c v)" for v by (simp add: demo_chip_def)
  note spec = nand_erase_spec [OF sim_large.nand_commands_axioms c, of _ _ 1 2 ?e "\<lambda>_. Some (\<lambda>_. 0)"]
  have "refused ?e (?c 0x0C) 1" by (simp add: refused_def has_def bad_value_def bbt_get_def)
  then show "\<exists>e' c' b'. nand_erase (\<lambda>_. Some (\<lambda>_. 0)) (sim_bus True (2 ^ 6)) ?e (?c 0x0C) blank_sim = Some (- EIO, e', c', b')
     \<and> (\<forall>q. q div 64 = 1 \<longrightarrow> sim_page 2112 b' q = sim_page 2112 blank_sim q)"
    using spec [of "0x0C" "\<lambda>_. 0x0C" blank_sim] al by (auto simp: has_def)
  have "\<not> refused ?e (?c 0) i" for i by (simp add: refused_def has_def bad_value_def bbt_get_def)
  then show "\<exists>e' c' b'. nand_erase (\<lambda>_. Some (\<lambda>_. 0)) (sim_bus True (2 ^ 6)) ?e (?c 0) (blank_sim\<lparr>cells := (\<lambda>_ _. 0)\<rparr>) = Some (0, e', c', b')
     \<and> (\<forall>q. q div 64 \<in> {1, 2} \<longrightarrow> sim_page 2112 b' q = replicate 2112 0xFF)"
    using spec [of 0 "\<lambda>_. 0" "blank_sim\<lparr>cells := (\<lambda>_ _. 0)\<rparr>"] al by (fastforce simp: has_def)
qed

section \<open>What the scan finds\<close>

lemma bbt_get_or:
  assumes "v \<in> {0, 1, 2, 3}"
  shows "bbt_get (bbt_or k v t) i = (if i = k then bbt_get t i OR unat v else bbt_get t i)"
proof (cases "i div 4 = k div 4")
  case True
  have "take_bit 2 v = v" using assms by auto
  then have small: "n < 2" if "bit v n" for n using that by (metis bit_take_bit_iff)
  have three: "bit (3 :: int) n \<longleftrightarrow> n < 2" for n
    using bit_mask_iff [of 2 n, where 'a = int] by (simp add: mask_eq_exp_minus_1)
  have mod4: "i AND 3 = i mod 4" for i :: nat using and_low [of i 2] by simp
  let ?x = "t (k div 4)"
  have eq: "drop_bit (2 * (i mod 4)) (?x OR push_bit (2 * (k mod 4)) v) AND 3
      = (if i = k then (drop_bit (2 * (i mod 4)) ?x AND 3) OR v else drop_bit (2 * (i mod 4)) ?x AND 3)"
  proof (rule bit_word_eqI)
    fix n assume "n < LENGTH(8)"
    have "i = k \<longleftrightarrow> i mod 4 = k mod 4" using True by (metis div_mult_mod_eq)
    moreover have "i mod 4 < 4" "k mod 4 < 4" by simp_all
    ultimately show "bit (drop_bit (2 * (i mod 4)) (?x OR push_bit (2 * (k mod 4)) v) AND 3) n
        = bit (if i = k then (drop_bit (2 * (i mod 4)) ?x AND 3) OR v else drop_bit (2 * (i mod 4)) ?x AND 3) n"
      using small [of n] small [of "2 * (i mod 4) + n - 2 * (k mod 4)"]
      by (auto simp: bit_and_iff bit_or_iff bit_drop_bit_eq bit_push_bit_iff three)
  qed
  show ?thesis using True eq by (simp add: bbt_get_def bbt_or_def mod4 unsigned_or_eq)
next
  case False
  then show ?thesis by (auto simp: bbt_get_def bbt_or_def)
qed

text \<open>The spare bytes of a page carry the pattern of an unmarked block.\<close>

definition unmarked :: "nand_bad_blk \<Rightarrow> nat \<Rightarrow> u8 list \<Rightarrow> bool" where
  "unmarked bd ws p \<longleftrightarrow> (\<forall>i<bb_len bd. p ! (ws + bb_offs bd + i) = bb_pattern bd ! i)"

lemma scan_ops_simps [simp]:
  "mode (scan_ops md c) = md" "ooblen (scan_ops md c) = oob_size c" "ooboffs (scan_ops md c) = 0" "datbuf (scan_ops md c) = None"
  by (simp_all add: scan_ops_def)

context nand_commands
begin

lemma read_oob_std:
  assumes "chip_fits cmd wsh os pb bb c" "r < 2 ^ pb"
  shows "\<exists>b'. nand_read_oob_std bus c r True b = Some (c\<lparr>oob_buf := store_bytes 0 (drop (2 ^ wsh) (page b r)) (oob_buf c)\<rparr>, b') \<and> page b' = page b"
proof -
  obtain b1 where b1: "nand_command bus c NAND_CMMD_READOOB 0 (int r) b = Some b1" "mode_of b1 = Reading r (2 ^ wsh)" "page b1 = page b" "fst (rdy b1)"
    using command_read_oob [OF assms, of 0 b] geom by (auto simp: geometry_def)
  obtain b2 where "nand_read_buff bus os b1 = (take os (drop (2 ^ wsh) (page b r)), b2)" "page b2 = page b"
    using nand_read_buff_reading [OF b1(2) _ b1(4), of os] b1(3) by auto
  then show ?thesis using assms(1) b1 page_length [of b r] by (simp add: nand_read_oob_std_def read_buff_def chip_fits_def)
qed

lemma oob_room_fits:
  assumes "chip_fits cmd wsh os pb bb c" "ofs < chip_size c"
  shows "os \<le> oob_room c ofs os"
proof -
  have c: "write_shift c = wsh" "chip_size c = 2 ^ pb * 2 ^ wsh" using assms(1) by (simp_all add: chip_fits_def power_add mult.commute)
  let ?n = "2 ^ pb - ofs div 2 ^ wsh"
  have "ofs div 2 ^ wsh < 2 ^ pb" using assms(2) unfolding c(2) by (rule less_mult_imp_div_less)
  then have "1 * os \<le> ?n * os" by (intro mult_le_mono1) simp
  have "?n * os \<le> 2 ^ pb * 2 ^ wsh" using geom by (intro mult_le_mono) (auto simp: geometry_def)
  also have "\<dots> < 2 ^ 32" using fits_small [OF assms(1)] unfolding c(2) .
  finally have "?n * os < 2 ^ 32" .
  then show ?thesis using \<open>1 * os \<le> ?n * os\<close> by (simp add: oob_room_def c)
qed

lemma read_spare_bytes:
  assumes "chip_fits cmd wsh os pb bb c" "ofs < chip_size c"
  shows "\<exists>ops c' b'. nand_read_oob bus ofs ((scan_ops FLASH_OOB_PLACE c)\<lparr>oobbuf := Some buf\<rparr>) c b = Some (0, ops, c', b')
     \<and> oobbuf ops = Some (store_bytes 0 (drop (2 ^ wsh) (page b (ofs div 2 ^ wsh))) buf) \<and> page b' = page b \<and> same_table c c' \<and> chip_fits cmd wsh os pb bb c'"
proof -
  have c: "write_shift c = wsh" "oob_size c = os" "chip_size c = 2 ^ pb * 2 ^ wsh" using assms(1) by (simp_all add: chip_fits_def power_add mult.commute)
  let ?r = "ofs div 2 ^ wsh" and ?ops = "(scan_ops FLASH_OOB_PLACE c)\<lparr>oobbuf := Some buf, retlen := 0\<rparr>"
  have r: "?r < 2 ^ pb" using assms(2) unfolding c(3) by (rule less_mult_imp_div_less)
  obtain b1 where b1: "nand_read_oob_std bus c ?r True b = Some (c\<lparr>oob_buf := store_bytes 0 (drop (2 ^ wsh) (page b ?r)) (oob_buf c)\<rparr>, b1)" "page b1 = page b"
    using read_oob_std [OF assms(1) r] by blast
  let ?c = "c\<lparr>oob_buf := store_bytes 0 (drop (2 ^ wsh) (page b ?r)) (oob_buf c)\<rparr>"
  have "length (drop (2 ^ wsh) (page b ?r)) = os" by (simp add: page_length)
  then have copy: "nand_copy_oob ?c ?ops os = Some (drop (2 ^ wsh) (page b ?r))"
    by (simp add: nand_copy_oob_def window_store)
  have "\<exists>z. oob_loop bus ?ops \<lparr>o_chip = c, o_bus = b, o_page = ?r, o_buf = buf, o_pos = 0, o_left = os, o_len = os, sndcmd = True\<rparr> = Some z
      \<and> o_chip z = ?c \<and> page (o_bus z) = page b \<and> o_buf z = store_bytes 0 (drop (2 ^ wsh) (page b ?r)) buf"
    using b1 copy by (subst oob_loop.simps) (simp add: fits_page [OF assms(1) r] poll_ready_rdy poll_ready_keeps Let_def)
  then show ?thesis
    using oob_room_fits [OF assms] c geom b1(2) assms fits_small [OF assms(1)]
    by (auto simp: nand_read_oob_def nand_do_read_oob_def oob_avail_def geometry_def add32_def same_table_def Let_def)
qed

end

lemma check_short_pattern_page:
  "length p = ws + os \<Longrightarrow> bb_offs bd + bb_len bd \<le> os \<Longrightarrow> check_short_pattern (store_bytes 0 (drop ws p) buf) bd = unmarked bd ws p"
  by (auto simp: check_short_pattern_def unmarked_def list_all_iff store_bytes_apply add.assoc)

text \<open>A block is good when none of its first pages is marked.\<close>

definition good_block :: "nand_bad_blk \<Rightarrow> nat \<Rightarrow> nat \<Rightarrow> (nat \<Rightarrow> u8 list) \<Rightarrow> nat \<Rightarrow> bool" where
  "good_block bd ws n pg r \<longleftrightarrow> (\<forall>j<n. unmarked bd ws (pg (r + j)))"

lemma good_block_Suc: "good_block bd ws (Suc n) pg r \<longleftrightarrow> unmarked bd ws (pg r) \<and> good_block bd ws n pg (Suc r)"
  by (auto simp: good_block_def less_Suc_eq_0_disj)

context nand_commands
begin

lemma page_address: "r \<le> 2 ^ pb \<Longrightarrow> r * 2 ^ wsh < 2 ^ 32" for r :: nat
proof -
  assume "r \<le> 2 ^ pb"
  then have "r * 2 ^ wsh \<le> 2 ^ pb * 2 ^ wsh" by (rule mult_le_mono1)
  also have "\<dots> = 2 ^ (pb + wsh)" by (simp add: power_add)
  also have "\<dots> < 2 ^ 32" using geom by (intro power_strict_increasing) (auto simp: geometry_def)
  finally show ?thesis .
qed

lemma scan_block_fast_marks:
  assumes "chip_fits cmd wsh os pb bb c" "bb_offs bd + bb_len bd \<le> os" "r + n \<le> 2 ^ pb"
  shows "\<exists>buf' c' b'. scan_block_fast bus bd (r * 2 ^ wsh) buf n c b = Some (if good_block bd (2 ^ wsh) n (page b) r then 0 else 1, buf', c', b')
     \<and> page b' = page b \<and> same_table c c' \<and> chip_fits cmd wsh os pb bb c'"
  using assms
proof (induction n arbitrary: r buf c b)
  case 0
  then show ?case by (simp add: good_block_def)
next
  case (Suc n)
  have "r * 2 ^ wsh < 2 ^ pb * 2 ^ wsh" using Suc.prems(3) by (intro mult_less_mono1) auto
  also have "\<dots> = chip_size c" using Suc.prems(1) by (simp add: chip_fits_def power_add)
  finally obtain ops c1 b1 where o: "nand_read_oob bus (r * 2 ^ wsh) ((scan_ops FLASH_OOB_PLACE c)\<lparr>oobbuf := Some buf\<rparr>) c b = Some (0, ops, c1, b1)"
      "oobbuf ops = Some (store_bytes 0 (drop (2 ^ wsh) (page b r)) buf)" "page b1 = page b" "same_table c c1" "chip_fits cmd wsh os pb bb c1"
    using read_spare_bytes [OF Suc.prems(1), of "r * 2 ^ wsh" buf b] by auto
  have ok: "check_short_pattern (store_bytes 0 (drop (2 ^ wsh) (page b r)) buf) bd = unmarked bd (2 ^ wsh) (page b r)"
    using Suc.prems(2) by (intro check_short_pattern_page) (simp_all add: page_length)
  have nxt: "add32 (r * 2 ^ wsh) (write_size c1) = Suc r * 2 ^ wsh"
    using page_address [of "Suc r"] Suc.prems(3) o(5) by (simp add: chip_fits_def add.commute)
  obtain buf' c' b' where "scan_block_fast bus bd (Suc r * 2 ^ wsh) (store_bytes 0 (drop (2 ^ wsh) (page b r)) buf) n c1 b1
        = Some (if good_block bd (2 ^ wsh) n (page b) (Suc r) then 0 else 1, buf', c', b')"
      "page b' = page b" "same_table c1 c'" "chip_fits cmd wsh os pb bb c'"
    using Suc.IH [OF o(5) Suc.prems(2), of "Suc r" "store_bytes 0 (drop (2 ^ wsh) (page b r)) buf" b1] Suc.prems(3) o(3) by auto
  then show ?case
    using o ok nxt same_table_trans [OF o(4), of c'] by (auto simp: memory_at_def good_block_Suc simp del: mult_Suc)
qed

lemma create_loop_marks:
  assumes "chip_fits cmd wsh os pb bb c" "bb_offs bd + bb_len bd \<le> os" "(block + k) * 2 ^ bb \<le> 2 ^ pb" "\<not> has (bb_flags bd) NAND_BBT_SCANALLPAGES"
    and "bbt c = Some t" "pages_to_scan bd c \<le> 2 ^ bb"
  shows "\<exists>buf' c' b' t'. create_loop bus bd k block (block * 2 ^ (wsh + bb)) buf c b = Some (0, buf', c', b') \<and> page b' = page b \<and> chip_fits cmd wsh os pb bb c'
     \<and> bad_allow c' = bad_allow c \<and> flags c' = flags c \<and> bbt c' = Some t'
     \<and> (\<forall>i. bbt_get t' i = (if block \<le> i \<and> i < block + k \<and> \<not> good_block bd (2 ^ wsh) (pages_to_scan bd c) (page b) (i * 2 ^ bb) then bbt_get t i OR 3 else bbt_get t i))"
  using assms
proof (induction k arbitrary: block buf c b t)
  case 0
  then show ?case by auto
next
  case (Suc k)
  let ?n = "pages_to_scan bd c" and ?r = "block * 2 ^ bb"
  have S: "block * 2 ^ (wsh + bb) = ?r * 2 ^ wsh" by (simp add: power_add mult_ac)
  have "?r + ?n \<le> Suc block * 2 ^ bb" using Suc.prems(6) by simp
  also have "\<dots> \<le> (block + Suc k) * 2 ^ bb" by (rule mult_le_mono1) simp
  finally have r: "?r + ?n \<le> 2 ^ pb" using Suc.prems(3) by linarith
  have scan: "scan_block bus bd (?r * 2 ^ wsh) buf c b = scan_block_fast bus bd (?r * 2 ^ wsh) buf ?n c b" for buf b
    using Suc.prems(4) by (simp add: scan_block_def Let_def)
  obtain buf1 c1 b1 where s: "scan_block bus bd (?r * 2 ^ wsh) buf c b = Some (if good_block bd (2 ^ wsh) ?n (page b) ?r then 0 else 1, buf1, c1, b1)"
      "page b1 = page b" "same_table c c1" "chip_fits cmd wsh os pb bb c1"
    using scan_block_fast_marks [OF Suc.prems(1,2) r, of buf b] scan by auto
  let ?t = "if good_block bd (2 ^ wsh) ?n (page b) ?r then t else bbt_or block 3 t"
  let ?c = "if good_block bd (2 ^ wsh) ?n (page b) ?r then c1 else c1\<lparr>bbt := Some ?t, badblocks := badblocks c1 + 1\<rparr>"
  have c: "chip_fits cmd wsh os pb bb ?c" "bbt ?c = Some ?t" "bad_allow ?c = bad_allow c" "flags ?c = flags c" "pages_to_scan bd ?c = ?n"
    using s Suc.prems(1,5) by (auto simp: same_table_def pages_to_scan_def chip_fits_def)
  have "Suc block * 2 ^ (wsh + bb) = Suc block * 2 ^ bb * 2 ^ wsh" by (simp add: power_add algebra_simps)
  moreover have "Suc block * 2 ^ bb \<le> 2 ^ pb" using Suc.prems(3) by (simp add: algebra_simps)
  ultimately have "Suc block * 2 ^ (wsh + bb) < 2 ^ 32" using page_address by metis
  then have nxt: "add32 (block * 2 ^ (wsh + bb)) (2 ^ bbt_erase_shift ?c) = Suc block * 2 ^ (wsh + bb)"
    using s(4) by (simp add: chip_fits_def add.commute)
  have step: "create_loop bus bd (Suc k) block (block * 2 ^ (wsh + bb)) buf c b = create_loop bus bd k (Suc block) (Suc block * 2 ^ (wsh + bb)) buf1 ?c b1"
    using s c nxt Suc.prems(5) by (simp add: S same_table_def Let_def split: if_splits)
  obtain buf' c' b' t' where l: "create_loop bus bd k (Suc block) (Suc block * 2 ^ (wsh + bb)) buf1 ?c b1 = Some (0, buf', c', b')" "page b' = page b"
      "chip_fits cmd wsh os pb bb c'" "bad_allow c' = bad_allow c" "flags c' = flags c" "bbt c' = Some t'"
      "\<forall>i. bbt_get t' i = (if Suc block \<le> i \<and> i < Suc block + k \<and> \<not> good_block bd (2 ^ wsh) ?n (page b) (i * 2 ^ bb) then bbt_get ?t i OR 3 else bbt_get ?t i)"
    using Suc.IH [OF c(1) Suc.prems(2) _ Suc.prems(4) c(2), of "Suc block" buf1 b1] Suc.prems(3,6) c(3-5) s(2) by auto
  have "bbt_get ?t i = (if i = block \<and> \<not> good_block bd (2 ^ wsh) ?n (page b) ?r then bbt_get t i OR 3 else bbt_get t i)" for i
    by (simp add: bbt_get_or)
  then have "bbt_get t' i = (if block \<le> i \<and> i < block + Suc k \<and> \<not> good_block bd (2 ^ wsh) ?n (page b) (i * 2 ^ bb) then bbt_get t i OR 3 else bbt_get t i)" for i
    using l(7) by (cases "i = block") auto
  then show ?case unfolding step using l(1-6) by blast
qed

end

text \<open>How makers mark a bad block in the spare bytes of its first page, or, on small pages, of its first two.\<close>

definition marked_bad :: "nat \<Rightarrow> (nat \<Rightarrow> u8 list) \<Rightarrow> nat \<Rightarrow> bool" where
  "marked_bad ws pg r \<longleftrightarrow>
     (if ws > 512 then pg r ! ws \<noteq> 0xFF \<or> pg r ! (ws + 1) \<noteq> 0xFF else pg r ! (ws + 5) \<noteq> 0xFF \<or> pg (r + 1) ! (ws + 5) \<noteq> 0xFF)"

definition mem_patt :: "nand_chip \<Rightarrow> nand_bad_blk" where
  "mem_patt c = (if write_size c > 512 then g_bbLargePageMemBased else g_bbSmallPageMemBased)"

lemma marked_bad_block: "marked_bad (write_size c) pg r \<longleftrightarrow> \<not> good_block (mem_patt c) (write_size c) (pages_to_scan (mem_patt c) c) pg r"
proof -
  have n: "pages_to_scan (mem_patt c) c = (if write_size c > 512 then 1 else 2)"
    by (simp add: mem_patt_def pages_to_scan_def has_def g_bbLargePageMemBased_def g_bbSmallPageMemBased_def)
  show ?thesis unfolding n
    by (cases "write_size c > 512")
      (auto simp: marked_bad_def good_block_def unmarked_def mem_patt_def less_2_cases_iff g_bbLargePageMemBased_def g_bbSmallPageMemBased_def)
qed

lemma mem_patt_simps:
  "\<not> has (bb_flags (mem_patt c)) NAND_BBT_SCANALLPAGES" "bb_offs (mem_patt c) + bb_len (mem_patt c) \<le> 6" "pages_to_scan (mem_patt c) c' \<le> 2"
  "(mem_patt c)\<lparr>bb_flags := bb_flags (mem_patt c) AND 0xFFFFF7FF\<rparr> = mem_patt c"
  by (auto simp: mem_patt_def pages_to_scan_def has_def g_bbLargePageMemBased_def g_bbSmallPageMemBased_def)

text \<open>
  C8. The scan finds the bad blocks. For every chip that behaves as data sheets say, and whose table is kept in memory, the scan when the chip is registered
  succeeds, changes nothing on the chip, and leaves a table in which exactly the blocks with the mark of their maker are bad, for every address.
\<close>

theorem nand_scan_finds_bad:
  assumes dev: "nand_commands bus mode_of page status wsh os pb bb protected rdy cmd"
    and c: "chip_fits cmd wsh os pb bb c" "6 \<le> os" "1 \<le> bb" "\<not> has (flags c) NAND_USE_FLASH_BBT" "bad_blk_patt c = None"
    and alloc: "alloc (chip_size c div 2 ^ (bbt_erase_shift c + 2)) \<noteq> None"
  shows "\<exists>c' b'. nand_scan_bbt alloc bus data_buff c b = Some (0, c', b') \<and> page b' = page b
     \<and> (\<forall>ofs<chip_size c. nand_is_bad_bbt c' ofs = Some (marked_bad (2 ^ wsh) (page b) (ofs div 2 ^ (wsh + bb) * 2 ^ bb)))"
proof -
  have sz: "write_size c = 2 ^ wsh" "chip_size c = 2 ^ (wsh + pb)" "bbt_erase_shift c = wsh + bb" using c(1) by (simp_all add: chip_fits_def)
  have le: "bb \<le> pb" using nand_commands.geom [OF dev] by (simp add: geometry_def)
  have blocks: "blocks_of c = 2 ^ (pb - bb)" unfolding blocks_of_def sz using le by (simp add: power_diff [symmetric])
  have blocks': "blocks_of (c\<lparr>bbt_td := None, bbt_md := None, bad_blk_patt := p, bbt := t\<rparr>) = 2 ^ (pb - bb)" for p t
    using blocks by (simp add: blocks_of_def)
  have two: "2 \<le> (2 :: nat) ^ bb" using c(3) by (metis power_increasing power_one_right one_le_numeral)
  let ?bd = "mem_patt c" and ?c = "c\<lparr>bbt_td := None, bbt_md := None, bad_blk_patt := Some (mem_patt c), bbt := Some (\<lambda>_. 0)\<rparr>"
  have fits: "chip_fits cmd wsh os pb bb ?c" using c(1) by (simp add: chip_fits_def)
  have n: "pages_to_scan ?bd ?c = pages_to_scan ?bd c" by (simp add: pages_to_scan_def)
  have range: "(0 + 2 ^ (pb - bb)) * 2 ^ bb \<le> (2 :: nat) ^ pb" using le by (simp add: power_add [symmetric])
  have small: "bb_offs ?bd + bb_len ?bd \<le> os" "pages_to_scan ?bd ?c \<le> 2 ^ bb" using mem_patt_simps(2) [of c] mem_patt_simps(3) [of c ?c] c(2) two by linarith+
  obtain buf' c' b' t' where l: "create_loop bus ?bd (2 ^ (pb - bb)) 0 0 data_buff ?c b = Some (0, buf', c', b')" "page b' = page b"
      "chip_fits cmd wsh os pb bb c'" "bbt c' = Some t'"
      "\<forall>i. bbt_get t' i = (if i < 2 ^ (pb - bb) \<and> \<not> good_block ?bd (2 ^ wsh) (pages_to_scan ?bd c) (page b) (i * 2 ^ bb) then bbt_get (\<lambda>_. 0) i OR 3 else bbt_get (\<lambda>_. 0) i)"
    using nand_commands.create_loop_marks [OF dev fits small(1) range mem_patt_simps(1) _ small(2), of _ data_buff b] n by auto
  have "nand_scan_bbt alloc bus data_buff c b = Some (0, c', b')"
    using c alloc l(1) fits mem_patt_simps(4) [of c]
    by (auto simp: nand_scan_bbt_def nand_scan_bad_block_def nand_memory_bbt_def create_bbt_def blocks'
        chip_fits_def has_def mem_patt_def Let_def)
  moreover have "nand_is_bad_bbt c' ofs = Some (marked_bad (2 ^ wsh) (page b) (ofs div 2 ^ (wsh + bb) * 2 ^ bb))" if "ofs < chip_size c" for ofs
  proof -
    have "ofs < 2 ^ (pb - bb) * 2 ^ (wsh + bb)" using that le sz(2) by (simp add: power_add [symmetric] add.commute)
    then have "ofs div 2 ^ (wsh + bb) < 2 ^ (pb - bb)" by (rule less_mult_imp_div_less)
    then show ?thesis
      using is_bad_bbt_entry [OF l(4), of ofs] l(3,5) c(3) marked_bad_block [of c] sz(1) by (simp add: chip_fits_def bad_value_def bbt_get_def)
  qed
  ultimately show ?thesis using l(2) by blast
qed

theorem nand_scan_finds_bad_witness:
  "\<exists>c' b'. nand_scan_bbt (\<lambda>_. Some (\<lambda>_. 0)) (sim_bus True (2 ^ 6)) (\<lambda>_. 0) demo_chip (blank_sim\<lparr>cells := (\<lambda>r i. if r = 128 \<and> i = 2048 then 0 else 0xFF)\<rparr>) = Some (0, c', b')
     \<and> nand_is_bad_bbt c' 262144 = Some True \<and> nand_is_bad_bbt c' 393216 = Some False"
proof -
  let ?b = "blank_sim\<lparr>cells := (\<lambda>r i. if r = 128 \<and> i = 2048 then 0 else 0xFF)\<rparr>"
  have pg: "sim_page (2 ^ 11 + 64) ?b r ! i = (if r = 128 \<and> i = 2048 then 0 else 0xFF)" if "i < 2112" for r i using that by (simp add: sim_page_def)
  have marks: "marked_bad (2 ^ 11) (sim_page (2 ^ 11 + 64) ?b) 128" "\<not> marked_bad (2 ^ 11) (sim_page (2 ^ 11 + 64) ?b) 192"
    using pg [of 2048] pg [of 2049] by (simp_all add: marked_bad_def)
  have "\<not> has (flags demo_chip) NAND_USE_FLASH_BBT" "bad_blk_patt demo_chip = None" by (simp_all add: demo_chip_def has_def)
  from nand_scan_finds_bad [OF sim_large.nand_commands_axioms demo_fits(1) _ _ this, of "\<lambda>_. Some (\<lambda>_. 0)" "\<lambda>_. 0" ?b] marks demo_fits(4)
  show ?thesis by fastforce
qed

end
