(* ===== verification/Getopt.thy ===== *)
theory Getopt
  imports Prelude
begin

text \<open>
  The option parser of the commands, \<^verbatim>\<open>lib/extra/getopt.c\<close>. Its file-level variables and the argument
  vector, whose entries it moves, are the record \<open>getopt_state\<close>; a string is the list of its characters,
  and reading at its length gives the terminator. The messages it prints are left out.
\<close>

section \<open>The parser\<close>

record getopt_state =
  argv :: "string list"
  optarg :: "string option"
  optind :: nat
  optopt :: char
  opt_pos :: nat
  non_arg_start :: nat
  non_arg_end :: nat

definition char_at :: "string \<Rightarrow> nat \<Rightarrow> char" where
  "char_at s i = (if i < length s then s ! i else CHR 0x00)"

definition getopt_init :: "getopt_state \<Rightarrow> getopt_state" where
  "getopt_init g = g\<lparr>optind := 1, opt_pos := 1, non_arg_start := 0, non_arg_end := 0\<rparr>"

text \<open>The inner loop of \<^verbatim>\<open>adjust_argv\<close> carries the entry at \<open>i\<close> down to \<open>start\<close>.\<close>

fun carry_down :: "nat \<Rightarrow> nat \<Rightarrow> string list \<Rightarrow> string list" where
  "carry_down start 0 av = av"
| "carry_down start (Suc i) av =
     (if Suc i > start then carry_down start i (av[i := av ! Suc i, Suc i := av ! i]) else av)"

function adjust_loop :: "nat \<Rightarrow> getopt_state \<Rightarrow> getopt_state" where
  "adjust_loop n g =
     (if n < optind g
      then adjust_loop (n + 1) (g\<lparr>argv := carry_down (non_arg_start g) n (argv g),
             non_arg_start := non_arg_start g + 1, non_arg_end := non_arg_end g + 1\<rparr>)
      else g)"
  by pat_completeness auto
termination by (relation "measure (\<lambda>(n, g). optind g - n)") auto

declare adjust_loop.simps [simp del]

definition adjust_argv :: "getopt_state \<Rightarrow> getopt_state" where
  "adjust_argv g = (if non_arg_start g > 0 then adjust_loop (non_arg_end g + 1) g else g)"

function skip_non_args :: "nat \<Rightarrow> getopt_state \<Rightarrow> getopt_state" where
  "skip_non_args argc g =
     (if optind g < argc \<and> char_at (argv g ! optind g) 0 \<noteq> CHR ''-''
      then skip_non_args argc (g\<lparr>non_arg_end := optind g,
             non_arg_start := (if non_arg_start g = 0 then optind g else non_arg_start g), optind := optind g + 1\<rparr>)
      else g)"
  by pat_completeness auto
termination by (relation "measure (\<lambda>(argc, g). argc - optind g)") auto

declare skip_non_args.simps [simp del]

text \<open>The option string behind the first occurrence of an option character, as \<^verbatim>\<open>strchr\<close> finds it.\<close>

definition opt_spec :: "string \<Rightarrow> char \<Rightarrow> string option" where
  "opt_spec opt_str c = (if c \<in> set opt_str then Some (tl (dropWhile (\<lambda>d. d \<noteq> c) opt_str)) else None)"

text \<open>The option at the position \<^verbatim>\<open>opt_pos\<close> of the word \<^verbatim>\<open>argv[optind]\<close>.\<close>

definition getopt_option :: "nat \<Rightarrow> string \<Rightarrow> getopt_state \<Rightarrow> int \<times> getopt_state" where
  "getopt_option argc opt_str g =
     (let w = argv g ! optind g; c = char_at w (opt_pos g)
      in case (if c = CHR '':'' then None else opt_spec opt_str c) of
           None \<Rightarrow>
             let g = g\<lparr>optopt := c, opt_pos := opt_pos g + 1\<rparr>;
                 g = (if char_at w (opt_pos g) = CHR 0x00 then g\<lparr>optind := optind g + 1, opt_pos := 1\<rparr> else g)
             in (of_char CHR ''?'', g)
         | Some cp \<Rightarrow>
             if char_at cp 0 = CHR '':''
             then if char_at w (opt_pos g + 1) \<noteq> CHR 0x00
                  then (of_char c, adjust_argv (g\<lparr>optarg := Some (drop (opt_pos g + 1) w), optind := optind g + 1, opt_pos := 1\<rparr>))
                  else let g = g\<lparr>optind := optind g + 1\<rparr>
                       in if optind g \<ge> argc \<or> char_at (argv g ! optind g) 0 = CHR ''-''
                          then if char_at cp 1 = CHR '':''
                               then (of_char c, adjust_argv (g\<lparr>optarg := None, opt_pos := 1\<rparr>))
                               else (of_char (if char_at opt_str 0 = CHR '':'' then CHR '':'' else CHR ''?''), g\<lparr>optopt := c, opt_pos := 1\<rparr>)
                          else (of_char c, adjust_argv (g\<lparr>optarg := Some (argv g ! optind g), optind := optind g + 1, opt_pos := 1\<rparr>))
             else let g = g\<lparr>opt_pos := opt_pos g + 1\<rparr>;
                      g = (if char_at w (opt_pos g) = CHR 0x00 then g\<lparr>opt_pos := 1, optind := optind g + 1\<rparr> else g)
                  in (of_char c, adjust_argv (g\<lparr>optarg := None\<rparr>)))"

definition getopt :: "nat \<Rightarrow> string \<Rightarrow> getopt_state \<Rightarrow> int \<times> getopt_state" where
  "getopt argc opt_str g =
     (if opt_pos g = 1
      then let g = skip_non_args argc g
           in if optind g \<ge> argc \<or> char_at (argv g ! optind g) (opt_pos g) = CHR 0x00
              then (- 1, if non_arg_start g > 0 then g\<lparr>optind := non_arg_start g\<rparr> else g)
              else getopt_option argc opt_str g
      else getopt_option argc opt_str g)"

section \<open>Moving the arguments\<close>

lemma carry_down_over:
  "carry_down (length pre) (length pre + length nons) (pre @ nons @ w # rest) = pre @ w # nons @ rest"
proof (induction nons arbitrary: rest rule: rev_induct)
  case Nil
  show ?case by (cases "length pre") simp_all
next
  case (snoc x nons)
  have *: "(pre @ nons @ x # w # rest)[length pre + length nons := w, Suc (length pre + length nons) := x] = pre @ nons @ w # x # rest"
    by (simp add: list_update_append)
  show ?case using snoc.IH [of "x # rest"] by (simp add: nth_append *)
qed

lemma adjust_loop_over:
  assumes "argv g = pre @ nons @ ws @ rest" "non_arg_start g = length pre" "optind g = length pre + length nons + length ws"
  shows "adjust_loop (length pre + length nons) g = g\<lparr>argv := pre @ ws @ nons @ rest,
     non_arg_start := length pre + length ws, non_arg_end := non_arg_end g + length ws\<rparr>"
  using assms
proof (induction ws arbitrary: pre g)
  case Nil
  then show ?case by (subst adjust_loop.simps) (cases g, simp)
next
  case (Cons w ws)
  let ?g = "g\<lparr>argv := (pre @ [w]) @ nons @ ws @ rest, non_arg_start := Suc (length pre), non_arg_end := Suc (non_arg_end g)\<rparr>"
  have "adjust_loop (length pre + length nons) g = adjust_loop (length (pre @ [w]) + length nons) ?g"
    using Cons.prems carry_down_over [of pre nons w "ws @ rest"] by (subst adjust_loop.simps) simp
  also have "\<dots> = ?g\<lparr>argv := (pre @ [w]) @ ws @ nons @ rest,
     non_arg_start := length (pre @ [w]) + length ws, non_arg_end := non_arg_end ?g + length ws\<rparr>"
    using Cons.prems by (intro Cons.IH) simp_all
  finally show ?case by simp
qed

section \<open>Command lines\<close>

text \<open>
  The words of a command line: plain arguments, words of one or more flags, and words whose last option
  takes an argument, in the same word or in the next.
\<close>

datatype item = Plain string | Flags string | Attached string char string | Separate string char string

fun words :: "item \<Rightarrow> string list" where
  "words (Plain s) = [s]"
| "words (Flags fs) = [CHR ''-'' # fs]"
| "words (Attached fs c a) = [CHR ''-'' # fs @ c # a]"
| "words (Separate fs c a) = [CHR ''-'' # fs @ [c], a]"

fun options :: "item \<Rightarrow> (char \<times> string option) list" where
  "options (Plain s) = []"
| "options (Flags fs) = map (\<lambda>f. (f, None)) fs"
| "options (Attached fs c a) = map (\<lambda>f. (f, None)) fs @ [(c, Some a)]"
| "options (Separate fs c a) = map (\<lambda>f. (f, None)) fs @ [(c, Some a)]"

fun is_plain :: "item \<Rightarrow> bool" where
  "is_plain (Plain s) = True"
| "is_plain _ = False"

definition is_flag :: "string \<Rightarrow> char \<Rightarrow> bool" where
  "is_flag opt_str c \<longleftrightarrow> c \<noteq> CHR 0x00 \<and> c \<noteq> CHR '':'' \<and>
     (case opt_spec opt_str c of None \<Rightarrow> False | Some cp \<Rightarrow> char_at cp 0 \<noteq> CHR '':'')"

definition takes_arg :: "string \<Rightarrow> char \<Rightarrow> bool" where
  "takes_arg opt_str c \<longleftrightarrow> c \<noteq> CHR 0x00 \<and> c \<noteq> CHR '':'' \<and>
     (case opt_spec opt_str c of None \<Rightarrow> False | Some cp \<Rightarrow> char_at cp 0 = CHR '':'')"

fun valid_item :: "string \<Rightarrow> item \<Rightarrow> bool" where
  "valid_item os (Plain s) = (char_at s 0 \<noteq> CHR ''-'')"
| "valid_item os (Flags fs) = (fs \<noteq> [] \<and> list_all (is_flag os) fs)"
| "valid_item os (Attached fs c a) = (list_all (is_flag os) fs \<and> takes_arg os c \<and> char_at a 0 \<noteq> CHR 0x00)"
| "valid_item os (Separate fs c a) = (list_all (is_flag os) fs \<and> takes_arg os c \<and> char_at a 0 \<noteq> CHR ''-'')"

text \<open>The loop of a command over its options, with what it sees of each.\<close>

partial_function (option) getopt_all ::
  "nat \<Rightarrow> string \<Rightarrow> getopt_state \<Rightarrow> ((int \<times> string option) list \<times> getopt_state) option" where
  "getopt_all argc os g =
     (case getopt argc os g of (r, g) \<Rightarrow>
        if r = - 1 then Some ([], g)
        else Option.bind (getopt_all argc os g) (\<lambda>(rs, g'). Some ((r, optarg g) # rs, g')))"

declare getopt_all.simps [code]

text \<open>
  Between two words: the options seen so far stand in front (\<open>pre\<close>, with the name of the command), the plain
  arguments seen so far behind them. \<open>pos\<close> is the position in the word at hand.
\<close>

definition between :: "string list \<Rightarrow> string list \<Rightarrow> string list \<Rightarrow> nat \<Rightarrow> getopt_state \<Rightarrow> bool" where
  "between pre nons rest pos g \<longleftrightarrow> argv g = pre @ nons @ rest \<and> pre \<noteq> [] \<and> opt_pos g = pos \<and> optind g = length pre + length nons
     \<and> (if nons = [] then non_arg_start g = 0 else non_arg_start g = length pre \<and> non_arg_end g = length pre + length nons - 1)"

lemma adjust_between:
  assumes "between pre nons (ws @ rest) pos g"
  shows "between (pre @ ws) nons rest p (adjust_argv (g\<lparr>optarg := a, optind := optind g + length ws, opt_pos := p\<rparr>))"
    "optarg (adjust_argv (g\<lparr>optarg := a, optind := optind g + length ws, opt_pos := p\<rparr>)) = a"
proof -
  let ?g = "g\<lparr>optarg := a, optind := optind g + length ws, opt_pos := p\<rparr>"
  have "between (pre @ ws) nons rest p (adjust_argv ?g) \<and> optarg (adjust_argv ?g) = a"
  proof (cases "nons = []")
    case True
    then show ?thesis using assms by (simp add: between_def adjust_argv_def)
  next
    case False
    then have "adjust_argv ?g = adjust_loop (length pre + length nons) ?g"
      using assms by (cases nons) (simp_all add: between_def adjust_argv_def)
    also have "\<dots> = ?g\<lparr>argv := pre @ ws @ nons @ rest, non_arg_start := length pre + length ws, non_arg_end := non_arg_end ?g + length ws\<rparr>"
      using assms False by (intro adjust_loop_over) (simp_all add: between_def)
    finally show ?thesis using assms False by (cases nons) (simp_all add: between_def)
  qed
  then show "between (pre @ ws) nons rest p (adjust_argv ?g)" "optarg (adjust_argv ?g) = a" by simp_all
qed

lemma char_not_minus_one [simp]: "(of_char c :: int) \<noteq> - 1"
proof -
  have "(of_char c :: int) = int (of_char c)" by (simp only: of_nat_of_char)
  then show ?thesis by linarith
qed

lemma getopt_word:
  assumes "between pre nons (w # rest) pos g" "0 < pos" "pos < length w" "w ! 0 = CHR ''-''" "w ! pos \<noteq> CHR 0x00" "argc = length (argv g)"
  shows "getopt argc os g = getopt_option argc os g" "argv g ! optind g = w" "char_at w pos = w ! pos"
proof -
  show w: "argv g ! optind g = w" using assms(1) by (simp add: between_def nth_append)
  show "char_at w pos = w ! pos" using assms(3) by (simp add: char_at_def)
  have "skip_non_args argc g = g" using w assms by (subst skip_non_args.simps) (auto simp: char_at_def)
  moreover have "optind g < argc" "opt_pos g = pos" using assms by (simp_all add: between_def)
  ultimately show "getopt argc os g = getopt_option argc os g"
    using w assms by (auto simp: getopt_def char_at_def Let_def)
qed

lemma getopt_flag:
  assumes g: "between pre nons (w # rest) pos g" "0 < pos" "pos < length w" "w ! 0 = CHR ''-''" "argc = length (argv g)"
    and c: "is_flag os (w ! pos)"
  shows "\<exists>g'. getopt argc os g = (of_char (w ! pos), g') \<and> optarg g' = None
     \<and> (if char_at w (pos + 1) = CHR 0x00 then between (pre @ [w]) nons rest 1 g' else between pre nons (w # rest) (pos + 1) g')"
proof -
  note w = getopt_word [OF g(1-4) _ g(5)]
  have nz: "w ! pos \<noteq> CHR 0x00" using c by (simp add: is_flag_def)
  have pos: "opt_pos g = pos" using g(1) by (simp add: between_def)
  obtain cp where cp: "w ! pos \<noteq> CHR '':''" "opt_spec os (w ! pos) = Some cp" "char_at cp 0 \<noteq> CHR '':''"
    using c by (auto simp: is_flag_def split: option.splits)
  let ?g = "if char_at w (pos + 1) = CHR 0x00 then g\<lparr>optarg := None, optind := optind g + length [w], opt_pos := 1\<rparr>
            else g\<lparr>optarg := None, optind := optind g + length ([] :: string list), opt_pos := pos + 1\<rparr>"
  have "getopt argc os g = (of_char (w ! pos), adjust_argv ?g)"
    using w [OF nz] cp pos by (cases g) (simp add: getopt_option_def Let_def)
  then show ?thesis
    using adjust_between [of pre nons "[w]" rest pos g 1 None] adjust_between [of pre nons "[]" "w # rest" pos g "pos + 1" None] g(1)
    by (cases "char_at w (pos + 1) = CHR 0x00") auto
qed

lemma getopt_arg:
  assumes g: "between pre nons (w # rest) pos g" "0 < pos" "pos < length w" "w ! 0 = CHR ''-''" "argc = length (argv g)"
    and c: "takes_arg os (w ! pos)"
  shows "char_at w (pos + 1) \<noteq> CHR 0x00 \<Longrightarrow> \<exists>g'. getopt argc os g = (of_char (w ! pos), g') \<and> optarg g' = Some (drop (pos + 1) w)
     \<and> between (pre @ [w]) nons rest 1 g'"
   and "char_at w (pos + 1) = CHR 0x00 \<Longrightarrow> rest = a # rest' \<Longrightarrow> char_at a 0 \<noteq> CHR ''-'' \<Longrightarrow>
     \<exists>g'. getopt argc os g = (of_char (w ! pos), g') \<and> optarg g' = Some a \<and> between (pre @ [w, a]) nons rest' 1 g'"
proof -
  note w = getopt_word [OF g(1-4) _ g(5)]
  have nz: "w ! pos \<noteq> CHR 0x00" using c by (simp add: takes_arg_def)
  have pos: "opt_pos g = pos" using g(1) by (simp add: between_def)
  obtain cp where cp: "w ! pos \<noteq> CHR '':''" "opt_spec os (w ! pos) = Some cp" "char_at cp 0 = CHR '':''"
    using c by (auto simp: takes_arg_def split: option.splits)
  {
    assume "char_at w (pos + 1) \<noteq> CHR 0x00"
    then have "getopt argc os g = (of_char (w ! pos), adjust_argv (g\<lparr>optarg := Some (drop (pos + 1) w), optind := optind g + length [w], opt_pos := 1\<rparr>))"
      using w [OF nz] cp pos by (simp add: getopt_option_def Let_def)
    then show "\<exists>g'. getopt argc os g = (of_char (w ! pos), g') \<and> optarg g' = Some (drop (pos + 1) w) \<and> between (pre @ [w]) nons rest 1 g'"
      using adjust_between [of pre nons "[w]" rest pos g 1 "Some (drop (pos + 1) w)"] g(1) by auto
  }
  {
    assume *: "char_at w (pos + 1) = CHR 0x00" "rest = a # rest'" "char_at a 0 \<noteq> CHR ''-''"
    have "argv g ! Suc (optind g) = a" "Suc (optind g) < argc" using g(1,5) *(2) by (simp_all add: between_def nth_append)
    with * have "getopt argc os g = (of_char (w ! pos), adjust_argv (g\<lparr>optarg := Some a, optind := optind g + length [w, a], opt_pos := 1\<rparr>))"
      using w [OF nz] cp pos by (cases g) (simp add: getopt_option_def Let_def)
    then show "\<exists>g'. getopt argc os g = (of_char (w ! pos), g') \<and> optarg g' = Some a \<and> between (pre @ [w, a]) nons rest' 1 g'"
      using adjust_between [of pre nons "[w, a]" rest' pos g 1 "Some a"] g(1) *(2) by auto
  }
qed

lemma getopt_plain:
  assumes "between pre nons (s # rest) 1 g" "char_at s 0 \<noteq> CHR ''-''" "argc = length (argv g)"
  shows "\<exists>g'. getopt_all argc os g = getopt_all argc os g' \<and> between pre (nons @ [s]) rest 1 g'"
proof -
  let ?g = "g\<lparr>non_arg_end := optind g, non_arg_start := (if non_arg_start g = 0 then optind g else non_arg_start g), optind := optind g + 1\<rparr>"
  have "skip_non_args argc g = skip_non_args argc ?g"
    using assms by (subst skip_non_args.simps) (simp add: between_def nth_append)
  then have "getopt argc os g = getopt argc os ?g" using assms(1) by (simp add: getopt_def between_def)
  then have "getopt_all argc os g = getopt_all argc os ?g" by (simp add: getopt_all.simps [of argc os])
  moreover have "between pre (nons @ [s]) rest 1 ?g" using assms(1) by (auto simp: between_def split: if_splits)
  ultimately show ?thesis by blast
qed

lemma getopt_end:
  assumes "between pre nons [] 1 g" "argc = length (argv g)"
  shows "\<exists>g'. getopt_all argc os g = Some ([], g') \<and> argv g' = pre @ nons \<and> optind g' = length pre"
proof -
  have "skip_non_args argc g = g" using assms by (subst skip_non_args.simps) (simp add: between_def)
  then show ?thesis using assms by (subst getopt_all.simps) (auto simp: getopt_def between_def split: if_splits)
qed

text \<open>The results of a run that goes on after the options \<open>cs\<close>.\<close>

definition after_options ::
  "(char \<times> string option) list \<Rightarrow> ((int \<times> string option) list \<times> getopt_state) option \<Rightarrow> ((int \<times> string option) list \<times> getopt_state) option" where
  "after_options cs run = Option.bind run (\<lambda>(rs, g). Some (map (\<lambda>(c, a). (of_char c, a)) cs @ rs, g))"

lemma after_options_simps [simp]:
  "after_options [] run = run" "after_options cs (after_options ds run) = after_options (cs @ ds) run"
  "after_options cs (Some (rs, g)) = Some (map (\<lambda>(c, a). (of_char c, a)) cs @ rs, g)"
  by (cases run; auto simp: after_options_def)+

lemma getopt_all_step:
  "getopt argc os g = (of_char c, g') \<Longrightarrow> getopt_all argc os g = after_options [(c, optarg g')] (getopt_all argc os g')"
  by (subst getopt_all.simps) (simp add: after_options_def)

text \<open>The number of words does not change.\<close>

lemma between_argc: "between pre nons rest pos g \<Longrightarrow> length (argv g) = length pre + length nons + length rest"
  by (simp add: between_def)

lemma getopt_flags:
  assumes "between pre nons ((CHR ''-'' # fs' @ fs @ tail) # rest) (1 + length fs') g" "list_all (is_flag os) fs"
    "char_at tail 0 \<noteq> CHR 0x00" "argc = length pre + length nons + Suc (length rest)"
  shows "\<exists>g'. between pre nons ((CHR ''-'' # fs' @ fs @ tail) # rest) (1 + length fs' + length fs) g'
     \<and> getopt_all argc os g = after_options (map (\<lambda>f. (f, None)) fs) (getopt_all argc os g')"
  using assms
proof (induction fs arbitrary: fs' g)
  case Nil
  then show ?case by auto
next
  case (Cons f fs)
  let ?w = "CHR ''-'' # fs' @ (f # fs) @ tail"
  have f: "?w ! (1 + length fs') = f" "char_at ?w (1 + length fs' + 1) \<noteq> CHR 0x00"
    using Cons.prems(2,3) by (cases fs; auto simp: char_at_def nth_append is_flag_def)+
  then obtain g' where g': "getopt argc os g = (of_char f, g')" "optarg g' = None" "between pre nons (?w # rest) (1 + length fs' + 1) g'"
    using getopt_flag [OF Cons.prems(1), of argc os] Cons.prems(2,4) between_argc [OF Cons.prems(1)] by auto
  then show ?case
    using Cons.IH [of "fs' @ [f]" g'] Cons.prems(2-4) getopt_all_step [OF g'(1)] by (auto simp: ac_simps)
qed

lemma getopt_item:
  assumes g: "between pre nons (words it @ rest) 1 g" and v: "valid_item os it" and argc: "argc = length (argv g)"
  shows "\<exists>g'. getopt_all argc os g = after_options (options it) (getopt_all argc os g') \<and> length (argv g') = argc
     \<and> (if is_plain it then between pre (nons @ words it) rest 1 g' else between (pre @ words it) nons rest 1 g')"
proof (cases it)
  case (Plain s)
  then obtain g' where "getopt_all argc os g = getopt_all argc os g'" "between pre (nons @ [s]) rest 1 g'"
    using getopt_plain [of pre nons s rest g argc os] assms by auto
  then show ?thesis using between_argc [OF g] argc between_argc [of pre "nons @ [s]" rest 1 g'] by (intro exI [of _ g']) (simp add: Plain)
next
  case (Flags fs)
  then obtain fs1 f where fs: "fs = fs1 @ [f]" using v by (cases fs rule: rev_cases) auto
  let ?w = "CHR ''-'' # fs1 @ [f]"
  from g v argc between_argc [OF g] obtain g1 where g1: "between pre nons (?w # rest) (1 + length fs1) g1"
    "getopt_all argc os g = after_options (map (\<lambda>f. (f, None)) fs1) (getopt_all argc os g1)"
    using getopt_flags [of pre nons "[]" fs1 "[f]" rest g os argc] by (auto simp: Flags fs char_at_def is_flag_def)
  have "argc = length (argv g1)" using between_argc [OF g1(1)] between_argc [OF g] argc by (simp add: Flags)
  with getopt_flag [OF g1(1), of argc os] v obtain g2 where "getopt argc os g1 = (of_char f, g2)" "optarg g2 = None" "between (pre @ [?w]) nons rest 1 g2"
    by (auto simp: Flags fs nth_append char_at_def)
  then show ?thesis using g1(2) getopt_all_step [of argc os g1 f g2] between_argc [of "pre @ [?w]" nons rest 1 g2] between_argc [OF g] argc
    by (intro exI [of _ g2]) (simp add: Flags fs)
next
  case (Attached fs c a)
  let ?w = "CHR ''-'' # fs @ c # a"
  from g v argc between_argc [OF g] obtain g1 where g1: "between pre nons (?w # rest) (1 + length fs) g1"
    "getopt_all argc os g = after_options (map (\<lambda>f. (f, None)) fs) (getopt_all argc os g1)"
    using getopt_flags [of pre nons "[]" fs "c # a" rest g os argc] by (auto simp: Attached char_at_def takes_arg_def)
  have "argc = length (argv g1)" using between_argc [OF g1(1)] between_argc [OF g] argc by (simp add: Attached)
  with getopt_arg(1) [OF g1(1), of argc os] v obtain g2 where "getopt argc os g1 = (of_char c, g2)" "optarg g2 = Some a" "between (pre @ [?w]) nons rest 1 g2"
    by (auto simp: Attached nth_append char_at_def split: if_splits)
  then show ?thesis using g1(2) getopt_all_step [of argc os g1 c g2] between_argc [of "pre @ [?w]" nons rest 1 g2] between_argc [OF g] argc
    by (intro exI [of _ g2]) (simp add: Attached)
next
  case (Separate fs c a)
  let ?w = "CHR ''-'' # fs @ [c]"
  from g v argc between_argc [OF g] obtain g1 where g1: "between pre nons (?w # a # rest) (1 + length fs) g1"
    "getopt_all argc os g = after_options (map (\<lambda>f. (f, None)) fs) (getopt_all argc os g1)"
    using getopt_flags [of pre nons "[]" fs "[c]" "a # rest" g os argc] by (auto simp: Separate char_at_def takes_arg_def)
  have "argc = length (argv g1)" using between_argc [OF g1(1)] between_argc [OF g] argc by (simp add: Separate)
  with getopt_arg(2) [OF g1(1), of argc os a rest] v obtain g2 where "getopt argc os g1 = (of_char c, g2)" "optarg g2 = Some a" "between (pre @ [?w, a]) nons rest 1 g2"
    by (auto simp: Separate nth_append char_at_def)
  then show ?thesis using g1(2) getopt_all_step [of argc os g1 c g2] between_argc [of "pre @ [?w, a]" nons rest 1 g2] between_argc [OF g] argc
    by (intro exI [of _ g2]) (simp add: Separate)
qed

lemma getopt_items:
  assumes "between pre nons (concat (map words its)) 1 g" "list_all (valid_item os) its" "argc = length (argv g)"
  shows "\<exists>g'. getopt_all argc os g = Some (map (\<lambda>(c, a). (of_char c, a)) (concat (map options its)), g')
     \<and> argv g' = pre @ concat (map words (filter (Not \<circ> is_plain) its)) @ nons @ concat (map words (filter is_plain its))
     \<and> optind g' = length (pre @ concat (map words (filter (Not \<circ> is_plain) its)))"
  using assms
proof (induction its arbitrary: pre nons g)
  case Nil
  then show ?case using getopt_end [of pre nons g argc os] by auto
next
  case (Cons it its)
  then obtain g1 where g1: "getopt_all argc os g = after_options (options it) (getopt_all argc os g1)" "length (argv g1) = argc"
    "if is_plain it then between pre (nons @ words it) (concat (map words its)) 1 g1 else between (pre @ words it) nons (concat (map words its)) 1 g1"
    using getopt_item [of pre nons it "concat (map words its)" g os argc] by auto
  show ?case
  proof (cases "is_plain it")
    case True
    then show ?thesis using Cons.IH [of pre "nons @ words it" g1] Cons.prems(2) g1 by (cases it) auto
  next
    case False
    then show ?thesis using Cons.IH [of "pre @ words it" nons g1] Cons.prems(2) g1 by auto
  qed
qed

text \<open>
  C30. Option parsing. For a command line of plain arguments, words of flags, and words that end in an option
  with an argument, in any order, the calls of \<^verbatim>\<open>getopt\<close> return the options from left to right with their
  arguments and then -1; the argument vector then holds the name of the command, the options with their
  arguments, and the plain arguments, each in their original order, and \<^verbatim>\<open>optind\<close> is the index of the first
  plain argument.
\<close>

theorem getopt_parses:
  assumes "argv g = prog # concat (map words its)" "list_all (valid_item os) its"
  shows "\<exists>g'. getopt_all (length (argv g)) os (getopt_init g)
         = Some (map (\<lambda>(c, a). (of_char c, a)) (concat (map options its)), g')
     \<and> argv g' = prog # concat (map words (filter (Not \<circ> is_plain) its)) @ concat (map words (filter is_plain its))
     \<and> optind g' = 1 + length (concat (map words (filter (Not \<circ> is_plain) its)))"
proof -
  have "between [prog] [] (concat (map words its)) 1 (getopt_init g)" using assms(1) by (simp add: between_def getopt_init_def)
  from getopt_items [OF this assms(2), of "length (argv g)"] show ?thesis by (auto simp: getopt_init_def)
qed

definition demo_items :: "item list" where
  "demo_items = [Plain ''file'', Separate ''v'' CHR ''o'' ''out'', Plain '''', Flags ''vq'', Attached '''' CHR ''o'' ''-x'']"

theorem getopt_parses_witness:
  "\<exists>g'. getopt_all 7 ''vo:q'' (getopt_init \<lparr>argv = ''cmd'' # concat (map words demo_items), optarg = None, optind = 0, optopt = CHR 0x00,
         opt_pos = 0, non_arg_start = 5, non_arg_end = 0\<rparr>)
       = Some ([(of_char CHR ''v'', None), (of_char CHR ''o'', Some ''out''), (of_char CHR ''v'', None), (of_char CHR ''q'', None),
           (of_char CHR ''o'', Some ''-x'')], g')
     \<and> argv g' = [''cmd'', ''-vo'', ''out'', ''-vq'', ''-o-x'', ''file'', ''''] \<and> optind g' = 5"
proof -
  let ?g = "\<lparr>argv = ''cmd'' # concat (map words demo_items), optarg = None, optind = 0, optopt = CHR 0x00,
         opt_pos = 0, non_arg_start = 5, non_arg_end = 0\<rparr>"
  have "list_all (valid_item ''vo:q'') demo_items" by code_simp
  then show ?thesis using getopt_parses [of ?g "''cmd''" demo_items "''vo:q''"] by (simp add: demo_items_def eval_nat_numeral)
qed

end
