(* ===== verification/Tftp.thy ===== *)
theory Tftp
  imports Socket Loader Strex
begin

unbundle bit_operations_syntax

text \<open>
  The TFTP client, \<^verbatim>\<open>lib/net/tftp.c\<close>, over the sockets of \<open>Socket\<close>. The device or file at the other end of
  a transfer is reached through the parameter \<open>file_calls\<close> of \<open>Loader\<close>. \<open>pkt\<close> is the packet buffer: a short
  packet leaves the rest of it as it was. \<open>None\<close> is a call that does not return, the use of a null
  pointer, or a copy whose length has wrapped around.
\<close>

section \<open>Packets\<close>

definition TFTP_RRQ :: u16 where "TFTP_RRQ = CPU_TO_BE16 1"
definition TFTP_WRQ :: u16 where "TFTP_WRQ = CPU_TO_BE16 2"
definition TFTP_DAT :: u16 where "TFTP_DAT = CPU_TO_BE16 3"
definition TFTP_ACK :: u16 where "TFTP_ACK = CPU_TO_BE16 4"

abbreviation (input) TFTP_HDR_LEN :: nat where "TFTP_HDR_LEN \<equiv> 4"
abbreviation (input) TFTP_PKT_LEN :: nat where "TFTP_PKT_LEN \<equiv> 512"
abbreviation (input) TFTP_BUF_LEN :: nat where "TFTP_BUF_LEN \<equiv> 516"
abbreviation (input) STD_PORT_TFTP :: u16 where "STD_PORT_TFTP \<equiv> 69"

record tftp_opt =
  t_file_name :: "u8 list"
  t_dst :: "string option"
  t_src :: "string option"
  t_mode :: "u8 list"
  t_load_addr :: nat
  t_type :: "string option"

definition TFTP_MODE_OCTET :: "u8 list" where "TFTP_MODE_OCTET = map of_char ''octet''"

definition tftp_make_req :: "u16 \<Rightarrow> u8 list \<Rightarrow> u8 list \<Rightarrow> u8 list" where
  "tftp_make_req req name mode = bytes16 req @ name @ [0] @ mode @ [0]"

definition tftp_send_ack :: "(net \<Rightarrow> net option) \<Rightarrow> int \<Rightarrow> u16 \<Rightarrow> sockaddr_in \<Rightarrow> net \<Rightarrow> (int \<times> net) option" where
  "tftp_send_ack poll fd blk remote_addr n = sendto poll fd (bytes16 TFTP_ACK @ bytes16 (htons blk)) remote_addr n"

text \<open>The address that \<^verbatim>\<open>str_to_ip\<close> leaves in a field of zeros; a bad text fills only part of it.\<close>

fun ip_stored :: "string \<Rightarrow> u8 list \<Rightarrow> u32 \<Rightarrow> u8 list" where
  "ip_stored [] ip_val num = (if length ip_val < 3 \<or> num > 255 then ip_val else ip_val @ [ucast num])"
| "ip_stored (c # iter) ip_val num =
     (if isdigit c then ip_stored iter ip_val (10 * num + of_nat (of_char c) - 48)
      else if c = CHR ''.'' \<and> num \<le> 255 \<and> length ip_val < 3 then ip_stored iter (ip_val @ [ucast num]) 0
      else ip_val)"

lemma ip_stored_str_to_ip: "str_to_ip s = Inr b \<Longrightarrow> ip_stored s [] 0 = b"
proof -
  have "ip_loop s v num = Inr b \<Longrightarrow> ip_stored s v num = b" for v num
    by (induction s v num rule: ip_loop.induct) (auto split: if_splits)
  then show "str_to_ip s = Inr b \<Longrightarrow> ip_stored s [] 0 = b" by (simp add: str_to_ip_def)
qed

definition server_addr :: "string \<Rightarrow> sockaddr_in" where
  "server_addr ip_str =
     (let bs = ip_stored ip_str [] 0 @ [0, 0, 0, 0]
      in \<lparr> sin_family = 0, sin_port = htons STD_PORT_TFTP, sin_addr = load32 (\<lambda>k. bs ! k) 0 \<rparr>)"

definition local_addr :: sockaddr_in where
  "local_addr = \<lparr> sin_family = 0, sin_port = 0, sin_addr = htonl 0 \<rparr>"

section \<open>Download\<close>

record 'd tftp =
  tnet :: net
  pkt :: "nat \<Rightarrow> u8"
  tmem :: "nat \<Rightarrow> u8"
  tdev :: 'd
  remote_addr :: sockaddr_in
  blk_num :: u16
  buff_ptr :: nat
  load_len :: u32
  image :: image_t
  ret :: int

text \<open>A packet is in the buffer; \<open>pkt_len\<close> is the length of its data. \<open>True\<close> means that the loop goes on to its test.\<close>

definition tftp_packet ::
  "(net \<Rightarrow> net option) \<Rightarrow> 'd file_calls \<Rightarrow> tftp_opt \<Rightarrow> int \<Rightarrow> int \<Rightarrow> u32 \<Rightarrow> 'd tftp \<Rightarrow> (bool \<times> 'd tftp) option" where
  "tftp_packet poll fc opt sockfd fd pkt_len t =
     (let op_code = load16 (pkt t) 0; block = load16 (pkt t) 2; data = (\<lambda>i. pkt t (TFTP_HDR_LEN + i))
      in if op_code = TFTP_DAT
         then if ntohs block = blk_num t
              then do {
                (_, n) \<leftarrow> tftp_send_ack poll sockfd (blk_num t) (remote_addr t) (tnet t);
                let t = t\<lparr>tnet := n, blk_num := blk_num t + 1, load_len := load_len t + pkt_len\<rparr>;
                if pkt_len > 512 \<and> (buff_ptr t \<noteq> NULL \<or> t_dst opt \<noteq> None) then None
                else let t = (if buff_ptr t \<noteq> NULL
                              then t\<lparr>tmem := store_bytes (buff_ptr t) (map data [0..<unat pkt_len]) (tmem t), buff_ptr := buff_ptr t + unat pkt_len\<rparr>
                              else t)
                     in if t_dst opt = None then Some (True, t)
                        else let (r, img, d) = store_block fc fd data (unat pkt_len) (image t) (tdev t);
                                 t = t\<lparr>tdev := d, image := img, ret := r\<rparr>
                             in Some (\<not> r < 0, t) }
              else do {
                (_, n) \<leftarrow> tftp_send_ack poll sockfd (blk_num t - 1) (remote_addr t) (tnet t);
                Some (True, t\<lparr>tnet := n\<rparr>) }
         else Some (False, t\<lparr>ret := - EIO\<rparr>))"

text \<open>The loop of a download; the result tells whether it ended by its test, with the size to be reported.\<close>

partial_function (option) tftp_loop ::
  "(net \<Rightarrow> net option) \<Rightarrow> 'd file_calls \<Rightarrow> tftp_opt \<Rightarrow> int \<Rightarrow> int \<Rightarrow> 'd tftp \<Rightarrow> (bool \<times> 'd tftp) option" where
  "tftp_loop poll fc opt sockfd fd t = do {
     (r, bytes, addr, n) \<leftarrow> recvfrom poll sockfd TFTP_BUF_LEN (tnet t);
     let t = t\<lparr>tnet := n, pkt := store_bytes 0 bytes (pkt t), remote_addr := (case addr of None \<Rightarrow> remote_addr t | Some a \<Rightarrow> a)\<rparr>;
     if r = 0 then Some (False, t)
     else do {
       let pkt_len = word_of_int r - 4;
       (go, t) \<leftarrow> tftp_packet poll fc opt sockfd fd pkt_len t;
       if \<not> go then Some (False, t)
       else if pkt_len = 512 then tftp_loop poll fc opt sockfd fd t else Some (True, t) } }"

declare tftp_loop.simps [code]

definition image_of_type :: "string \<Rightarrow> image_t" where
  "image_of_type ty = (if ty = ''jffs2'' then IMG_JFFS2 else if ty = ''yffs2'' then IMG_YAFFS2
     else if ty = ''yffs1'' then IMG_YAFFS1 else IMG_UNKNOWN)"

text \<open>From the opening of the device to its closing, behind a request that has been sent.\<close>

definition tftp_receive :: "(net \<Rightarrow> net option) \<Rightarrow> 'd file_calls \<Rightarrow> tftp_opt \<Rightarrow> int \<Rightarrow> 'd tftp \<Rightarrow> (u32 option \<times> 'd tftp) option" where
  "tftp_receive poll fc opt sockfd t =
     (case t_dst opt of
        None \<Rightarrow> do { (done, t) \<leftarrow> tftp_loop poll fc opt sockfd (- 1) t; Some (if done then Some (load_len t) else None, t) }
      | Some path \<Rightarrow>
          let (fd, d) = f_open fc path (tdev t); t = t\<lparr>tdev := d\<rparr>
          in if fd < 0 then Some (None, t)
             else let t = (case t_type opt of
                        None \<Rightarrow> t
                      | Some ty \<Rightarrow>
                          let img = image_of_type ty; (r, d) = f_ioctl fc fd (oob_mode img) (tdev t)
                          in t\<lparr>image := img, tdev := d, ret := r\<rparr>)
                  in do {
                    (done, t) \<leftarrow> (if t_type opt \<noteq> None \<and> ret t < 0 then Some (False, t) else tftp_loop poll fc opt sockfd fd t);
                    Some (if done then Some (load_len t) else None, t\<lparr>tdev := f_close fc fd (tdev t)\<rparr>) })"

text \<open>
  \<^verbatim>\<open>tftp_download\<close>: the result and the reported size. \<open>junk\<close> is what the memory of a new socket holds, \<open>pkt\<close>
  of the state is the buffer on the stack.
\<close>

definition tftp_download ::
  "(net \<Rightarrow> net option) \<Rightarrow> 'd file_calls \<Rightarrow> Net.socket \<Rightarrow> tftp_opt \<Rightarrow> 'd tftp \<Rightarrow> (int \<times> u32 option \<times> 'd tftp) option" where
  "tftp_download poll fc junk opt t =
     (let (sockfd, n) = Socket.socket junk 2 SOCK_DGRAM 0 (tnet t); t = t\<lparr>tnet := n\<rparr>
      in if sockfd \<le> 0 then Some (- EIO, None, t)
         else do {
           let (r, n) = Socket.bind sockfd local_addr (tnet t);
           let t = t\<lparr>tnet := n, ret := r\<rparr>;
           (xmit_size, t) \<leftarrow>
             (if r < 0 then Some (None, t)
              else do {
                let req = tftp_make_req TFTP_RRQ (t_file_name opt) (if t_mode opt \<noteq> [] then t_mode opt else TFTP_MODE_OCTET);
                src \<leftarrow> t_src opt;
                let remote = server_addr src;
                (r, n) \<leftarrow> sendto poll sockfd req remote (tnet t);
                let t = t\<lparr>tnet := n, ret := r, pkt := store_bytes 0 req (pkt t), remote_addr := remote\<rparr>;
                if r < 0 then Some (None, t)
                else tftp_receive poll fc opt sockfd (t\<lparr>buff_ptr := t_load_addr opt, load_len := 0, blk_num := 1, image := IMG_MAX\<rparr>) });
           (_, n) \<leftarrow> sk_close poll sockfd (tnet t);
           Some (ret t, xmit_size, t\<lparr>tnet := n\<rparr>) })"

section \<open>Upload\<close>

partial_function (option) upload_loop ::
  "(net \<Rightarrow> net option) \<Rightarrow> 'd file_calls \<Rightarrow> int \<Rightarrow> int \<Rightarrow> 'd tftp \<Rightarrow> 'd tftp option" where
  "upload_loop poll fc sockfd fd t = do {
     (r, bytes, addr, n) \<leftarrow> recvfrom poll sockfd TFTP_BUF_LEN (tnet t);
     let t = t\<lparr>tnet := n, ret := r, pkt := store_bytes 0 bytes (pkt t), remote_addr := (case addr of None \<Rightarrow> remote_addr t | Some a \<Rightarrow> a)\<rparr>;
     if r \<le> 0 then Some t
     else if load16 (pkt t) 0 = TFTP_ACK
     then if ntohs (load16 (pkt t) 2) = blk_num t
          then let (r, bytes, d) = f_read fc fd TFTP_PKT_LEN (tdev t);
                   t = t\<lparr>tdev := d, ret := r, pkt := store_bytes TFTP_HDR_LEN bytes (pkt t)\<rparr>
               in if r \<le> 0 then Some t
                  else do {
                    let blk = blk_num t + 1;
                    let hdr = bytes16 TFTP_DAT @ bytes16 (htons blk);
                    let t = t\<lparr>blk_num := blk, pkt := store_bytes 0 hdr (pkt t)\<rparr>;
                    (r', n) \<leftarrow> sendto poll sockfd (map (pkt t) [0..<nat r + TFTP_HDR_LEN]) (remote_addr t) (tnet t);
                    upload_loop poll fc sockfd fd (t\<lparr>tnet := n, ret := r'\<rparr>) }
          else upload_loop poll fc sockfd fd t
     else Some (t\<lparr>ret := - EIO\<rparr>) }"

declare upload_loop.simps [code]

definition tftp_upload ::
  "(net \<Rightarrow> net option) \<Rightarrow> 'd file_calls \<Rightarrow> Net.socket \<Rightarrow> tftp_opt \<Rightarrow> 'd tftp \<Rightarrow> (int \<times> 'd tftp) option" where
  "tftp_upload poll fc junk opt t =
     (case t_src opt of
        None \<Rightarrow> Some (- EINVAL, t)
      | Some path \<Rightarrow>
          let (sockfd, n) = Socket.socket junk 2 SOCK_DGRAM 0 (tnet t); t = t\<lparr>tnet := n\<rparr>
          in if sockfd \<le> 0 then Some (- EIO, t)
             else do {
               let (fd, d) = f_open fc path (tdev t);
               let t = t\<lparr>tdev := d, ret := fd\<rparr>;
               t \<leftarrow> (if fd < 0 then Some t
                     else let (r, n) = Socket.bind sockfd local_addr (tnet t); t = t\<lparr>tnet := n, ret := r\<rparr>
                          in if r < 0 then Some t
                             else do {
                               let req = tftp_make_req TFTP_WRQ (t_file_name opt) (if t_mode opt \<noteq> [] then t_mode opt else TFTP_MODE_OCTET);
                               dst \<leftarrow> t_dst opt;
                               let remote = server_addr dst;
                               (r, n) \<leftarrow> sendto poll sockfd req remote (tnet t);
                               let t = t\<lparr>tnet := n, ret := r, pkt := store_bytes 0 req (pkt t), remote_addr := remote\<rparr>;
                               if r < 0 then Some t
                               else do {
                                 t \<leftarrow> upload_loop poll fc sockfd fd (t\<lparr>blk_num := 0\<rparr>);
                                 Some (t\<lparr>tdev := f_close fc fd (tdev t)\<rparr>) } });
               (_, n) \<leftarrow> sk_close poll sockfd (tnet t);
               Some (ret t, t\<lparr>tnet := n\<rparr>) })"

section \<open>The local address\<close>

lemma socket_cases:
  obtains (error) e where "e < 0" "fst (Socket.socket junk 2 SOCK_DGRAM 0 n) = e" "net.sent (snd (Socket.socket junk 2 SOCK_DGRAM 0 n)) = net.sent n"
  | (ok) fd sock where "0 < fd" "fd < MAX_SOCK_NUM" "fst (Socket.socket junk 2 SOCK_DGRAM 0 n) = int fd"
      "net.sent (snd (Socket.socket junk 2 SOCK_DGRAM 0 n)) = net.sent n"
      "socks (snd (Socket.socket junk 2 SOCK_DGRAM 0 n)) fd = Some sock" "state sock = state junk"
proof (cases "find (\<lambda>fd. socks n fd = None) [1..<MAX_SOCK_NUM]")
  case None
  then show ?thesis using error by (simp add: Socket.socket_def)
next
  case (Some fd)
  then have fd: "0 < fd" "fd < MAX_SOCK_NUM" by (auto simp: find_Some_iff)
  obtain b n' where m: "malloc_ok n = (b, n')" "net.sent n' = net.sent n" by (cases "mallocs n") (auto simp: malloc_ok_def)
  show ?thesis
  proof (cases b)
    case True
    with Some m fd show ?thesis 
      by (intro ok [of fd "the (socks (snd (Socket.socket junk 2 SOCK_DGRAM 0 n)) fd)"]) (simp_all add: Socket.socket_def Let_def)
  next
    case False
    with Some m show ?thesis by (intro error) (simp_all add: Socket.socket_def Let_def)
  qed
qed

text \<open>Binding to the local address the client uses: the family is missing.\<close>

lemma bind_local_addr:
  assumes "0 < fd" "fd < MAX_SOCK_NUM" "socks n fd = Some sock"
  shows "Socket.bind (int fd) local_addr n = (- ENOTSUPP, upd_sock fd (\<lambda>sock. sock\<lparr>SA_SRC := (SA_SRC sock)\<lparr>sin_family := 0\<rparr>\<rparr>) n)"
  using assms by (simp add: Socket.bind_def get_sock_def local_addr_def)

lemma free_skb_list_sent [simp]: "net.sent (free_skb_list qu n) = net.sent n"
  by (induction qu arbitrary: n) (simp_all add: skb_free_def)

lemma sk_close_closed:
  assumes "0 < fd" "fd < MAX_SOCK_NUM" "socks n fd = Some sock" "state sock = TCPS_CLOSED"
  shows "\<exists>n'. sk_close poll (int fd) n = Some (0, n') \<and> net.sent n' = net.sent n"
  using assms by (simp add: sk_close_def get_sock_def close_release_def)

text \<open>
  C31. No file is ever transferred. Both directions bind their socket to an address whose family is left
  zero, which \<^verbatim>\<open>bind\<close> does not support: whatever the network, the server, the device and the options are, as
  long as the memory of the new socket does not look like a connection, a download and an upload return with
  an error without putting a frame on the wire and without touching memory; a download does not touch the
  device, and its error is the one of \<^verbatim>\<open>bind\<close> unless there is no socket to be had.
\<close>

theorem tftp_never_transfers:
  assumes "state junk = TCPS_CLOSED"
  shows "(\<exists>r t'. tftp_download poll fc junk opt t = Some (r, None, t') \<and> r < 0 \<and> tmem t' = tmem t \<and> tdev t' = tdev t
        \<and> net.sent (tnet t') = net.sent (tnet t) \<and> (0 < fst (Socket.socket junk 2 SOCK_DGRAM 0 (tnet t)) \<longrightarrow> r = - ENOTSUPP))
    \<and> (\<exists>r t'. tftp_upload poll fc junk opt t = Some (r, t') \<and> r < 0 \<and> tmem t' = tmem t \<and> net.sent (tnet t') = net.sent (tnet t))"
proof -
  obtain sockfd n where s: "Socket.socket junk 2 SOCK_DGRAM 0 (tnet t) = (sockfd, n)" by fastforce
  show ?thesis
  proof (cases rule: socket_cases [of junk "tnet t"])
    case (error e)
    then show ?thesis by (cases "t_src opt") (simp_all add: s tftp_download_def tftp_upload_def)
  next
    case (ok fd sock)
    then have n: "sockfd = int fd" "net.sent n = net.sent (tnet t)" "socks n fd = Some sock" by (simp_all add: s)
    note b = bind_local_addr [OF ok(1,2) n(3)]
    obtain n1 where n1: "sk_close poll (int fd) (upd_sock fd (\<lambda>sock. sock\<lparr>SA_SRC := (SA_SRC sock)\<lparr>sin_family := 0\<rparr>\<rparr>) n) = Some (0, n1)"
        "net.sent n1 = net.sent n"
      using sk_close_closed [OF ok(1,2), of "upd_sock fd (\<lambda>sock. sock\<lparr>SA_SRC := (SA_SRC sock)\<lparr>sin_family := 0\<rparr>\<rparr>) n"
          "sock\<lparr>SA_SRC := (SA_SRC sock)\<lparr>sin_family := 0\<rparr>\<rparr>" poll] ok(6) assms n(3)
      by (auto simp: upd_sock_def)
    obtain n2 where n2: "sk_close poll (int fd) n = Some (0, n2)" "net.sent n2 = net.sent n"
      using sk_close_closed [OF ok(1,2) n(3)] ok(6) assms by auto
    have "\<exists>r t'. tftp_download poll fc junk opt t = Some (r, None, t') \<and> r < 0 \<and> tmem t' = tmem t \<and> tdev t' = tdev t
        \<and> net.sent (tnet t') = net.sent (tnet t) \<and> r = - ENOTSUPP"
      using ok(1) n b n1 by (simp add: tftp_download_def s)
    moreover have "\<exists>r t'. tftp_upload poll fc junk opt t = Some (r, t') \<and> r < 0 \<and> tmem t' = tmem t \<and> net.sent (tnet t') = net.sent (tnet t)"
      using ok(1) n b n1 n2 by (cases "t_src opt") (auto simp: tftp_upload_def s Let_def split: prod.splits)
    ultimately show ?thesis by blast
  qed
qed


definition demo_tftp :: "net \<Rightarrow> unit tftp" where
  "demo_tftp n = \<lparr> tnet = n, pkt = (\<lambda>_. 0), tmem = (\<lambda>_. 0), tdev = (), remote_addr = \<lparr> sin_family = 0, sin_port = 0, sin_addr = 0 \<rparr>,
     blk_num = 1, buff_ptr = 0x8000, load_len = 0, image = IMG_MAX, ret = 0 \<rparr>"

definition demo_tftp_opt :: tftp_opt where
  "demo_tftp_opt = \<lparr> t_file_name = map of_char ''linux'', t_dst = None, t_src = Some ''10.0.0.2'', t_mode = [], t_load_addr = 0x8000, t_type = None \<rparr>"

theorem tftp_never_transfers_witness:
  "\<exists>t'. tftp_download Some null_files ((demo_sock 2)\<lparr>state := TCPS_CLOSED\<rparr>) demo_tftp_opt (demo_tftp (demo_net 2)) = Some (- ENOTSUPP, None, t')
     \<and> net.sent (tnet t') = []"
proof -
  have "0 < fst (Socket.socket ((demo_sock 2)\<lparr>state := TCPS_CLOSED\<rparr>) 2 SOCK_DGRAM 0 (tnet (demo_tftp (demo_net 2))))"
    "net.sent (tnet (demo_tftp (demo_net 2))) = []" by code_simp+
  then show ?thesis
    using tftp_never_transfers [of "(demo_sock 2)\<lparr>state := TCPS_CLOSED\<rparr>" Some null_files demo_tftp_opt "demo_tftp (demo_net 2)"] by auto
qed

section \<open>The transfer loop\<close>

text \<open>
  A client waiting for packets: its socket, with the packets queued there, memory for the answers, the
  station of the server known, and no key pressed.
\<close>

definition waiting :: "int \<Rightarrow> nat \<Rightarrow> sock_buff list \<Rightarrow> net \<Rightarrow> bool" where
  "waiting sockfd s q n \<longleftrightarrow> get_sock sockfd n = Some s \<and>
     (case socks n s of None \<Rightarrow> False
      | Some sock \<Rightarrow> sk_type sock = SOCK_DGRAM \<and> rx_qu sock = q \<and> reachable_host (sin_addr (SA_DST sock)) n)
     \<and> mallocs n = [] \<and> keys n = []"

lemma recvfrom_queued:
  assumes "get_sock fd n = Some s" "socks n s = Some sock" "rx_qu sock = skb # q" "keys n = []"
  shows "recvfrom Some fd len n = Some (int (min (unat (skb_size skb)) len), rdn (buf skb) (data skb) (min (unat (skb_size skb)) len),
     Some (SA_DST sock), n\<lparr>socks := (socks n)(s \<mapsto> sock\<lparr>rx_qu := q\<rparr>), live := live n - 1\<rparr>)"
  using assms by (simp add: recvfrom_def sock_recv_packet_def recv_loop.simps uart_read_def take_first_def upd_sock_def skb_free_def Let_def)

lemma recvfrom_waiting:
  assumes "waiting sockfd s (skb # q) n" "length (payload_bytes skb) \<le> len"
  shows "\<exists>n' a. recvfrom Some sockfd len n = Some (int (length (payload_bytes skb)), payload_bytes skb, Some a, n')
     \<and> waiting sockfd s q n' \<and> map_option SA_DST (socks n' s) = Some a \<and> net.sent n' = net.sent n"
proof -
  obtain sock where s: "get_sock sockfd n = Some s" "socks n s = Some sock" "rx_qu sock = skb # q" "sk_type sock = SOCK_DGRAM"
      "reachable_host (sin_addr (SA_DST sock)) n" "mallocs n = []" "keys n = []"
    using assms(1) by (auto simp: waiting_def split: option.splits)
  have len: "min (unat (skb_size skb)) len = length (payload_bytes skb)"
    using assms(2) by (simp add: payload_bytes_def length_rdn)
  have p: "rdn (buf skb) (data skb) (length (payload_bytes skb)) = payload_bytes skb" by (simp add: payload_bytes_def length_rdn)
  show ?thesis
    using recvfrom_queued [OF s(1-3,7), of len, unfolded len p] s
    by (auto simp: waiting_def get_sock_def reachable_host_def getaddr_def split: if_splits)
qed

lemma ack_waiting:
  assumes "waiting sockfd s q n" "map_option SA_DST (socks n s) = Some a"
  shows "\<exists>n' frame. tftp_send_ack poll sockfd blk a n = Some (4, n') \<and> waiting sockfd s q n'
     \<and> net.sent n' = net.sent n @ [frame]"
proof -
  obtain sock where s: "get_sock sockfd n = Some s" "socks n s = Some sock" "rx_qu sock = q" "sk_type sock = SOCK_DGRAM"
      "reachable_host (sin_addr a) n" "mallocs n = []" "keys n = []"
    using assms by (auto simp: waiting_def split: option.splits)
  then show ?thesis
    using sendto_frame [OF s(1,2,4,5,6), of poll "bytes16 TFTP_ACK @ bytes16 (htons blk)"]
    by (fastforce simp: tftp_send_ack_def bytes16_def waiting_def get_sock_def reachable_host_def getaddr_def split: if_splits)
qed

definition data_packet :: "u16 \<Rightarrow> u8 list \<Rightarrow> u8 list" where
  "data_packet blk ds = bytes16 TFTP_DAT @ bytes16 (htons blk) @ ds"

lemma bytes16_word: "ucast (ucast v :: u8) OR push_bit 8 (ucast (ucast (drop_bit 8 v) :: u8)) = v" for v :: u16
  by (rule bit_word_eqI) (auto simp: bit_simps)

lemma data_packet_fields:
  fixes m blk ds
  defines "b \<equiv> store_bytes 0 (data_packet blk ds) m"
  shows "load16 b 0 = TFTP_DAT" "ntohs (load16 b 2) = blk" "map (\<lambda>i. b (4 + i)) [0..<length ds] = ds"
  by (auto simp: b_def data_packet_def store_bytes_apply load16_def bytes16_def bytes16_word intro: nth_equalityI)

text \<open>The blocks a client takes: those that carry the number it waits for.\<close>

fun accepted :: "u16 \<Rightarrow> (u16 \<times> u8 list) list \<Rightarrow> u8 list" where
  "accepted blk [] = []"
| "accepted blk ((b, ds) # ps) = (if b = blk then ds @ accepted (blk + 1) ps else accepted blk ps)"

lemma data_packet_length [simp]: "length (data_packet b ds) = length ds + 4"
  by (simp add: data_packet_def bytes16_def)

lemma tftp_packet_data:
  assumes "load16 (pkt t) 0 = TFTP_DAT" "ntohs (load16 (pkt t) 2) = b" "map (\<lambda>i. pkt t (4 + i)) [0..<length ds] = ds"
    and w: "waiting sockfd s q (tnet t)" and a: "map_option SA_DST (socks (tnet t) s) = Some (remote_addr t)"
    and ds: "length ds \<le> 512" and opt: "t_dst opt = None" "buff_ptr t \<noteq> NULL"
  shows "\<exists>t' frame. tftp_packet poll fc opt sockfd fd (of_nat (length ds)) t = Some (True, t')
     \<and> waiting sockfd s q (tnet t') \<and> net.sent (tnet t') = net.sent (tnet t) @ [frame] \<and> buff_ptr t' \<noteq> NULL \<and> ret t' = ret t \<and> tdev t' = tdev t
     \<and> (if b = blk_num t
         then blk_num t' = blk_num t + 1 \<and> load_len t' = load_len t + of_nat (length ds)
            \<and> tmem t' = store_bytes (buff_ptr t) ds (tmem t) \<and> buff_ptr t' = buff_ptr t + length ds
         else blk_num t' = blk_num t \<and> load_len t' = load_len t \<and> tmem t' = tmem t \<and> buff_ptr t' = buff_ptr t)"
proof -
  have len: "unat (of_nat (length ds) :: u32) = length ds" "\<not> (512 :: u32) < of_nat (length ds)"
    using ds by (simp_all add: unat_of_nat word_less_nat_alt)
  show ?thesis
  proof (cases "b = blk_num t")
    case True
    from ack_waiting [OF w a, of poll "blk_num t"] obtain n' frame where
      "tftp_send_ack poll sockfd (blk_num t) (remote_addr t) (tnet t) = Some (4, n')" "waiting sockfd s q n'" "net.sent n' = net.sent (tnet t) @ [frame]" by blast
    with assms True len show ?thesis by (simp add: tftp_packet_def Let_def)
  next
    case False
    from ack_waiting [OF w a, of poll "blk_num t - 1"] obtain n' frame where
      "tftp_send_ack poll sockfd (blk_num t - 1) (remote_addr t) (tnet t) = Some (4, n')" "waiting sockfd s q n'" "net.sent n' = net.sent (tnet t) @ [frame]" by blast
    with assms False show ?thesis by (simp add: tftp_packet_def Let_def)
  qed
qed

lemma tftp_round:
  assumes w: "waiting sockfd s (skb # q) (tnet t)" and p: "payload_bytes skb = data_packet b ds"
    and ds: "length ds \<le> 512" and opt: "t_dst opt = None" "buff_ptr t \<noteq> NULL"
  shows "\<exists>t' frame. tftp_loop Some fc opt sockfd fd t = (if length ds = 512 then tftp_loop Some fc opt sockfd fd t' else Some (True, t'))
     \<and> waiting sockfd s q (tnet t') \<and> net.sent (tnet t') = net.sent (tnet t) @ [frame] \<and> buff_ptr t' \<noteq> NULL \<and> ret t' = ret t \<and> tdev t' = tdev t
     \<and> (if b = blk_num t
         then blk_num t' = blk_num t + 1 \<and> load_len t' = load_len t + of_nat (length ds)
            \<and> tmem t' = store_bytes (buff_ptr t) ds (tmem t) \<and> buff_ptr t' = buff_ptr t + length ds
         else blk_num t' = blk_num t \<and> load_len t' = load_len t \<and> tmem t' = tmem t \<and> buff_ptr t' = buff_ptr t)"
proof -
  obtain n a where r: "recvfrom Some sockfd TFTP_BUF_LEN (tnet t) = Some (int (length ds + 4), data_packet b ds, Some a, n)"
      "waiting sockfd s q n" "map_option SA_DST (socks n s) = Some a" "net.sent n = net.sent (tnet t)"
    using recvfrom_waiting [OF w, of TFTP_BUF_LEN] ds by (auto simp: p)
  let ?t = "t\<lparr>tnet := n, pkt := store_bytes 0 (data_packet b ds) (pkt t), remote_addr := a\<rparr>"
  note f = data_packet_fields [of b ds "pkt t"]
  have "\<exists>t' frame. tftp_packet Some fc opt sockfd fd (of_nat (length ds)) ?t = Some (True, t')
     \<and> waiting sockfd s q (tnet t') \<and> net.sent (tnet t') = net.sent (tnet ?t) @ [frame] \<and> buff_ptr t' \<noteq> NULL \<and> ret t' = ret ?t \<and> tdev t' = tdev ?t
     \<and> (if b = blk_num ?t
         then blk_num t' = blk_num ?t + 1 \<and> load_len t' = load_len ?t + of_nat (length ds)
            \<and> tmem t' = store_bytes (buff_ptr ?t) ds (tmem ?t) \<and> buff_ptr t' = buff_ptr ?t + length ds
         else blk_num t' = blk_num ?t \<and> load_len t' = load_len ?t \<and> tmem t' = tmem ?t \<and> buff_ptr t' = buff_ptr ?t)"
    by (rule tftp_packet_data) (use f r opt ds in simp_all)
  then obtain t' frame where t': "tftp_packet Some fc opt sockfd fd (of_nat (length ds)) ?t = Some (True, t')"
     "waiting sockfd s q (tnet t')" "net.sent (tnet t') = net.sent (tnet t) @ [frame]" "buff_ptr t' \<noteq> NULL" "ret t' = ret t" "tdev t' = tdev t"
     "if b = blk_num t
         then blk_num t' = blk_num t + 1 \<and> load_len t' = load_len t + of_nat (length ds)
            \<and> tmem t' = store_bytes (buff_ptr t) ds (tmem t) \<and> buff_ptr t' = buff_ptr t + length ds
         else blk_num t' = blk_num t \<and> load_len t' = load_len t \<and> tmem t' = tmem t \<and> buff_ptr t' = buff_ptr t"
    using r(4) by auto
  have "(of_nat (length ds) = (512 :: u32)) = (length ds = 512)"
    using ds by (auto simp: unat_of_nat dest: arg_cong [where f = unat])
  then have "tftp_loop Some fc opt sockfd fd t = (if length ds = 512 then tftp_loop Some fc opt sockfd fd t' else Some (True, t'))"
    using t'(1) by (subst tftp_loop.simps, cases "length ds = 512") (simp_all add: r(1) Let_def)
  with t'(2-) show ?thesis by blast
qed

lemma tftp_loop_blocks:
  assumes "waiting sockfd s (map fst qs @ rest) (tnet t)"
    and "\<forall>(skb, b, ds)\<in>set qs. payload_bytes skb = data_packet b ds" "qs \<noteq> []" "\<forall>(skb, b, ds)\<in>set (butlast qs). length ds = 512"
    and "length (snd (snd (last qs))) < 512" "t_dst opt = None" "buff_ptr t \<noteq> NULL"
  shows "\<exists>t'. tftp_loop Some fc opt sockfd fd t = Some (True, t') \<and> waiting sockfd s rest (tnet t')
     \<and> tmem t' = store_bytes (buff_ptr t) (accepted (blk_num t) (map snd qs)) (tmem t)
     \<and> load_len t' = load_len t + of_nat (length (accepted (blk_num t) (map snd qs)))
     \<and> length (net.sent (tnet t')) = length (net.sent (tnet t)) + length qs \<and> ret t' = ret t \<and> tdev t' = tdev t"
  using assms
proof (induction qs arbitrary: t)
  case (Cons x qs)
  obtain skb b ds where x: "x = (skb, b, ds)" by (cases x)
  have p: "payload_bytes skb = data_packet b ds" "length ds \<le> 512" using Cons.prems by (auto simp: x split: if_splits)
  obtain t' frame where t': "tftp_loop Some fc opt sockfd fd t = (if length ds = 512 then tftp_loop Some fc opt sockfd fd t' else Some (True, t'))"
     "waiting sockfd s (map fst qs @ rest) (tnet t')" "net.sent (tnet t') = net.sent (tnet t) @ [frame]" "buff_ptr t' \<noteq> NULL" "ret t' = ret t" "tdev t' = tdev t"
     "if b = blk_num t
         then blk_num t' = blk_num t + 1 \<and> load_len t' = load_len t + of_nat (length ds)
            \<and> tmem t' = store_bytes (buff_ptr t) ds (tmem t) \<and> buff_ptr t' = buff_ptr t + length ds
         else blk_num t' = blk_num t \<and> load_len t' = load_len t \<and> tmem t' = tmem t \<and> buff_ptr t' = buff_ptr t"
    using tftp_round [of sockfd s skb "map fst qs @ rest" t b ds opt fc fd] Cons.prems p by (auto simp: x)
  show ?case
  proof (cases "qs = []")
    case True
    with Cons.prems(5) have "length ds \<noteq> 512" by (simp add: x)
    with t' True show ?thesis by (simp add: x split: if_splits)
  next
    case False
    then have "length ds = 512" using Cons.prems(4) by (simp add: x)
    with Cons.IH [OF t'(2)] Cons.prems False t' obtain t'' where "tftp_loop Some fc opt sockfd fd t = Some (True, t'')" "waiting sockfd s rest (tnet t'')"
      "tmem t'' = store_bytes (buff_ptr t') (accepted (blk_num t') (map snd qs)) (tmem t')"
      "load_len t'' = load_len t' + of_nat (length (accepted (blk_num t') (map snd qs)))"
      "length (net.sent (tnet t'')) = length (net.sent (tnet t')) + length qs" "ret t'' = ret t'" "tdev t'' = tdev t'" by auto
    with t'(3-7) show ?thesis
      by (intro exI [of _ t'']) (auto simp: x store_bytes_append split: if_splits)
  qed
qed simp

text \<open>
  C29. The download loop stores the blocks in order. When the packets of a server lie in the queue, blocks of
  512 bytes followed by a shorter one, among them any repetitions, the loop ends with the short block: memory
  holds, one behind the other, the blocks that carried the number the client was waiting for, and nothing else
  has changed; the size counts just these; every packet has been answered by one frame; and what follows in
  the queue is still there. The short block ends the transfer also when it is not the one waited for.
\<close>

theorem tftp_loop_stores:
  assumes "waiting sockfd s (map fst qs @ rest) (tnet t)"
    and "\<forall>(skb, b, ds)\<in>set qs. payload_bytes skb = data_packet b ds" "qs \<noteq> []" "\<forall>(skb, b, ds)\<in>set (butlast qs). length ds = 512"
    and "length (snd (snd (last qs))) < 512" "t_dst opt = None" "buff_ptr t \<noteq> NULL"
  shows "\<exists>t'. tftp_loop Some fc opt sockfd fd t = Some (True, t') \<and> waiting sockfd s rest (tnet t')
     \<and> (\<forall>p. tmem t' p = (let file = accepted (blk_num t) (map snd qs)
                          in if buff_ptr t \<le> p \<and> p < buff_ptr t + length file then file ! (p - buff_ptr t) else tmem t p))
     \<and> load_len t' = load_len t + of_nat (length (accepted (blk_num t) (map snd qs)))
     \<and> length (net.sent (tnet t')) = length (net.sent (tnet t)) + length qs \<and> ret t' = ret t \<and> tdev t' = tdev t"
  using tftp_loop_blocks [OF assms, of fc fd] by (auto simp: store_bytes_apply Let_def)

text \<open>A server that repeats its first block.\<close>

definition demo_skb :: "u8 list \<Rightarrow> sock_buff" where
  "demo_skb bs = \<lparr> buf = (\<lambda>i. bs ! nat i), data = 0, skb_size = of_nat (length bs) \<rparr>"

definition demo_blocks :: "(sock_buff \<times> u16 \<times> u8 list) list" where
  "demo_blocks = map (\<lambda>(b, ds). (demo_skb (data_packet b ds), b, ds)) [(1, replicate 512 7), (1, replicate 512 7), (2, [8, 9])]"

definition demo_waiting :: net where
  "demo_waiting = (demo_net 2)\<lparr>socks := [1 \<mapsto> (demo_sock 2)\<lparr>SA_DST := \<lparr> sin_family = 2, sin_port = 0x4500, sin_addr = 0x0A000002 \<rparr>,
     rx_qu := map fst demo_blocks\<rparr>]\<rparr>"

lemma payload_demo_skb: "length bs < 2 ^ 16 \<Longrightarrow> payload_bytes (demo_skb bs) = bs"
  by (intro nth_equalityI) (simp_all add: payload_bytes_def demo_skb_def rdn_def unat_of_nat)

theorem tftp_loop_stores_witness:
  "\<exists>t'. tftp_loop Some null_files demo_tftp_opt 1 (- 1) (demo_tftp demo_waiting) = Some (True, t')
     \<and> tmem t' 0x8000 = 7 \<and> tmem t' (0x8000 + 511) = 7 \<and> tmem t' (0x8000 + 512) = 8 \<and> tmem t' (0x8000 + 513) = 9
     \<and> load_len t' = 514 \<and> length (net.sent (tnet t')) = 3"
proof -
  have w: "waiting 1 1 (map fst demo_blocks @ []) (tnet (demo_tftp demo_waiting))"
    by (simp add: waiting_def demo_tftp_def demo_waiting_def demo_net_def demo_sock_def get_sock_def reachable_host_def getaddr_def)
  have q: "\<forall>(skb, b, ds)\<in>set demo_blocks. payload_bytes skb = data_packet b ds" "demo_blocks \<noteq> []"
    "\<forall>(skb, b, ds)\<in>set (butlast demo_blocks). length ds = 512" "length (snd (snd (last demo_blocks))) < 512"
    by (simp_all add: demo_blocks_def payload_demo_skb)
  have a: "accepted 1 (map snd demo_blocks) = replicate 512 7 @ [8, 9]" "length demo_blocks = 3" by (simp_all add: demo_blocks_def)
  have t: "t_dst demo_tftp_opt = None" "buff_ptr (demo_tftp demo_waiting) = 0x8000" "blk_num (demo_tftp demo_waiting) = 1"
    "load_len (demo_tftp demo_waiting) = 0" "net.sent (tnet (demo_tftp demo_waiting)) = []"
    by (simp_all add: demo_tftp_opt_def demo_tftp_def demo_waiting_def demo_net_def)
  show ?thesis
    using tftp_loop_stores [OF w q t(1), of null_files "- 1"] by (auto simp: t a nth_append)
qed

end
