(* ===== verification/Vfs.thy ===== *)
theory Vfs
  imports Prelude "HOL-Library.Monad_Syntax"
begin

unbundle bit_operations_syntax

text \<open>
  The virtual file system, \<^verbatim>\<open>fs/core\<close>. Pointers are addresses, \<open>NULL\<close> is zero; \<open>dentries\<close>, \<open>inodes\<close>, \<open>mounts\<close> and
  \<open>files\<close> hold the objects that have been allocated. The operation tables of the file systems are named by
  \<open>op_table\<close>, and what a table holds is the parameter \<open>fs_ops\<close> of the definitions, which \<open>Ramfs\<close> provides. \<open>None\<close> is
  the use of a null or uninitialised pointer, or a loop that does not end. \<open>mallocs\<close> are the outcomes of the allocations to
  come; when none is left, they succeed.
\<close>

section \<open>Objects\<close>

datatype op_table = NO_OPS | RAMFS_REG | RAMFS_DIR | DEVFS_BDEV | DEVFS_CDEV | DEVFS_DIR | OPS nat

record dentry =
  d_name :: string
  d_inode :: nat
  d_sb :: nat
  d_parent :: nat
  d_subdirs :: "nat list"

record inode =
  i_ino :: u32
  i_size :: u32
  i_mode :: u32
  i_rdev :: u32
  i_sb :: nat
  i_op :: op_table
  i_fop :: op_table

record mount =
  mnt_parent :: nat
  mountpoint :: nat
  mnt_root :: nat
  fstype :: string
  dev_name :: string

record path =
  p_mnt :: nat
  p_dentry :: nat

record file_t =
  f_pos :: u32
  f_flags :: u32
  f_op :: op_table
  f_dentry :: nat
  private_data :: nat

text \<open>
  \<open>mount_list\<close> is \<^verbatim>\<open>g_mount_list\<close>, \<open>fs_types\<close> the names in \<^verbatim>\<open>fs_type_list\<close>, \<open>dev_list\<close> is \<^verbatim>\<open>g_devfs_list\<close>, with the names of
  the devices and their inodes, \<open>inode_count\<close> is the counter of \<^verbatim>\<open>ramfs\<close>, \<open>cdev_types\<close> is \<^verbatim>\<open>g_cdev_type\<close>. The next object allocated has the address \<open>brk\<close>.
\<close>

text \<open>\<^verbatim>\<open>struct cdev_type\<close> with the minor numbers of its \<^verbatim>\<open>cdev_list\<close>, and \<^verbatim>\<open>struct linux_dirent\<close>.\<close>

record cdev_type =
  fops :: op_table
  cdt_name :: string
  cdev_list :: "u32 list"

record linux_dirent =
  d_ino :: u32
  d_off :: u32
  d_reclen :: "16 word"
  d_type :: u8
  l_name :: string

record vfs =
  dentries :: "nat \<Rightarrow> dentry option"
  inodes :: "nat \<Rightarrow> inode option"
  mounts :: "nat \<Rightarrow> mount option"
  files :: "nat \<Rightarrow> file_t option"
  mount_list :: "nat list"
  fd_array :: "nat \<Rightarrow> nat"
  fs_root :: path
  fs_pwd :: path
  fs_types :: "string list"
  dev_list :: "(string \<times> nat) list"
  inode_count :: u32
  cdev_types :: "nat \<Rightarrow> cdev_type option"
  brk :: nat
  mallocs :: "bool list"

record fs_ops =
  o_lookup :: "op_table \<Rightarrow> (nat \<Rightarrow> nat \<Rightarrow> vfs \<Rightarrow> (int \<times> vfs) option) option"
  o_mkdir :: "op_table \<Rightarrow> (nat \<Rightarrow> nat \<Rightarrow> u32 \<Rightarrow> vfs \<Rightarrow> (int \<times> vfs) option) option"
  o_mknod :: "op_table \<Rightarrow> (nat \<Rightarrow> nat \<Rightarrow> u32 \<Rightarrow> u32 \<Rightarrow> vfs \<Rightarrow> (int \<times> vfs) option) option"
  o_open :: "op_table \<Rightarrow> (nat \<Rightarrow> nat \<Rightarrow> vfs \<Rightarrow> (int \<times> vfs) option) option"
  o_close :: "op_table \<Rightarrow> (nat \<Rightarrow> vfs \<Rightarrow> (int \<times> vfs) option) option"
  o_read :: "op_table \<Rightarrow> (nat \<Rightarrow> nat \<Rightarrow> vfs \<Rightarrow> (int \<times> u8 list \<times> vfs) option) option"
  o_write :: "op_table \<Rightarrow> (nat \<Rightarrow> u8 list \<Rightarrow> vfs \<Rightarrow> (int \<times> vfs) option) option"
  o_ioctl :: "op_table \<Rightarrow> (nat \<Rightarrow> int \<Rightarrow> u32 \<Rightarrow> vfs \<Rightarrow> (int \<times> vfs) option) option"
  o_lseek :: "op_table \<Rightarrow> (nat \<Rightarrow> u32 \<Rightarrow> int \<Rightarrow> vfs \<Rightarrow> (u32 \<times> vfs) option) option"
  o_readdir :: "op_table \<Rightarrow> (nat \<Rightarrow> vfs \<Rightarrow> (int \<times> linux_dirent option \<times> vfs) option) option"
  o_mount :: "string \<Rightarrow> vfs \<Rightarrow> (nat \<times> vfs) option"

abbreviation (input) S_IFMT :: u32 where "S_IFMT \<equiv> 0xF000"
abbreviation (input) S_IFREG :: u32 where "S_IFREG \<equiv> 0x8000"
abbreviation (input) S_IFBLK :: u32 where "S_IFBLK \<equiv> 0x6000"
abbreviation (input) S_IFDIR :: u32 where "S_IFDIR \<equiv> 0x4000"
abbreviation (input) S_IFCHR :: u32 where "S_IFCHR \<equiv> 0x2000"
abbreviation (input) DNAME_INLINE_LEN :: nat where "DNAME_INLINE_LEN \<equiv> 36"
abbreviation (input) MAX_FDS :: nat where "MAX_FDS \<equiv> 256"
abbreviation (input) PATH_STACK_SIZE :: nat where "PATH_STACK_SIZE \<equiv> 256"


definition new_obj :: "vfs \<Rightarrow> nat \<times> vfs" where
  "new_obj v =
     (let (ok, v) = (case mallocs v of [] \<Rightarrow> (True, v) | b # bs \<Rightarrow> (b, v\<lparr>mallocs := bs\<rparr>))
      in if ok then (brk v, v\<lparr>brk := brk v + 1\<rparr>) else (NULL, v))"

definition upd_dentry :: "nat \<Rightarrow> (dentry \<Rightarrow> dentry) \<Rightarrow> vfs \<Rightarrow> vfs" where
  "upd_dentry a f v = v\<lparr>dentries := (dentries v)(a := map_option f (dentries v a))\<rparr>"

definition upd_inode :: "nat \<Rightarrow> (inode \<Rightarrow> inode) \<Rightarrow> vfs \<Rightarrow> vfs" where
  "upd_inode a f v = v\<lparr>inodes := (inodes v)(a := map_option f (inodes v a))\<rparr>"

definition upd_file :: "nat \<Rightarrow> (file_t \<Rightarrow> file_t) \<Rightarrow> vfs \<Rightarrow> vfs" where
  "upd_file a f v = v\<lparr>files := (files v)(a := map_option f (files v a))\<rparr>"

section \<open>Directory entries\<close>

text \<open>\<open>d_alloc_sb\<close> is \<^verbatim>\<open>__d_alloc\<close>: long names take a second allocation.\<close>

definition d_alloc_sb :: "nat \<Rightarrow> string \<Rightarrow> vfs \<Rightarrow> nat \<times> vfs" where
  "d_alloc_sb sb str v =
     (let (de, v) = new_obj v
      in if de = NULL then (NULL, v)
         else let (name, v) = (if length str \<ge> DNAME_INLINE_LEN then new_obj v else (de, v))
              in if name = NULL then (NULL, v)
                 else (de, v\<lparr>dentries := (dentries v)(de \<mapsto> \<lparr> d_name = str, d_inode = NULL, d_sb = sb, d_parent = de, d_subdirs = [] \<rparr>)\<rparr>))"

definition d_alloc :: "nat \<Rightarrow> string \<Rightarrow> vfs \<Rightarrow> (nat \<times> vfs) option" where
  "d_alloc parent str v = do {
     p \<leftarrow> dentries v parent;
     let (de, v) = d_alloc_sb (d_sb p) str v;
     if de = NULL then None
     else Some (de, upd_dentry parent (\<lambda>p. p\<lparr>d_subdirs := d_subdirs p @ [de]\<rparr>) (upd_dentry de (\<lambda>e. e\<lparr>d_parent := parent\<rparr>) v)) }"

definition d_make_root :: "nat \<Rightarrow> vfs \<Rightarrow> (nat \<times> vfs) option" where
  "d_make_root root_inode v =
     (if root_inode = NULL then Some (NULL, v)
      else do {
        i \<leftarrow> inodes v root_inode;
        let (root_dir, v) = d_alloc_sb (i_sb i) ''/'' v;
        Some (root_dir, if root_dir = NULL then v else upd_dentry root_dir (\<lambda>e. e\<lparr>d_inode := root_inode\<rparr>) v) })"

text \<open>\<^verbatim>\<open>list_del\<close> of the entry in its directory.\<close>

definition dput :: "nat \<Rightarrow> vfs \<Rightarrow> vfs option" where
  "dput de v = do { e \<leftarrow> dentries v de; Some (upd_dentry (d_parent e) (\<lambda>p. p\<lparr>d_subdirs := remove1 de (d_subdirs p)\<rparr>) v) }"

definition d_instantiate :: "nat \<Rightarrow> nat \<Rightarrow> vfs \<Rightarrow> vfs" where
  "d_instantiate entry inode v = upd_dentry entry (\<lambda>e. e\<lparr>d_inode := inode\<rparr>) v"

definition d_lookup :: "nat \<Rightarrow> string \<Rightarrow> vfs \<Rightarrow> nat option" where
  "d_lookup parent unit v = do {
     p \<leftarrow> dentries v parent;
     Some (case find (\<lambda>c. map_option d_name (dentries v c) = Some unit) (d_subdirs p) of None \<Rightarrow> NULL | Some c \<Rightarrow> c) }"

text \<open>\<^verbatim>\<open>iget\<close> does not check its allocation.\<close>

definition iget :: "nat \<Rightarrow> u32 \<Rightarrow> vfs \<Rightarrow> (nat \<times> vfs) option" where
  "iget sb ino v =
     (let (a, v) = new_obj v
      in if a = NULL then None
         else Some (a, v\<lparr>inodes := (inodes v)(a \<mapsto> \<lparr> i_ino = ino, i_size = 0, i_mode = 0, i_rdev = 0, i_sb = sb, i_op = NO_OPS, i_fop = NO_OPS \<rparr>)\<rparr>))"

section \<open>Path names\<close>

definition lookup_mnt :: "nat \<Rightarrow> vfs \<Rightarrow> nat" where
  "lookup_mnt dentry v =
     (case find (\<lambda>m. map_option mountpoint (mounts v m) = Some dentry) (mount_list v) of None \<Rightarrow> NULL | Some m \<Rightarrow> m)"

definition follow_mount :: "path \<Rightarrow> vfs \<Rightarrow> path option" where
  "follow_mount p v =
     (let m = lookup_mnt (p_dentry p) v
      in if m = NULL then Some p else do { mnt \<leftarrow> mounts v m; Some \<lparr> p_mnt = m, p_dentry = mnt_root mnt \<rparr> })"

definition follow_up :: "path \<Rightarrow> vfs \<Rightarrow> path option" where
  "follow_up p v = do { mnt \<leftarrow> mounts v (p_mnt p); Some \<lparr> p_mnt = mnt_parent mnt, p_dentry = mountpoint mnt \<rparr> }"

definition real_lookup :: "fs_ops \<Rightarrow> nat \<Rightarrow> string \<Rightarrow> vfs \<Rightarrow> (int \<times> nat \<times> vfs) option" where
  "real_lookup ops parent unit v = do {
     (dentry, v) \<leftarrow> d_alloc parent unit v;
     p \<leftarrow> dentries v parent;
     dir \<leftarrow> inodes v (d_inode p);
     lookup \<leftarrow> o_lookup ops (i_op dir);
     (ret, v) \<leftarrow> lookup (d_inode p) dentry v;
     if ret < 0 then do { v \<leftarrow> dput dentry v; Some (ret, NULL, v) } else Some (0, dentry, v) }"

text \<open>
  \<^verbatim>\<open>do_lookup\<close>: \<open>next\<close> is what \<^verbatim>\<open>path\<close> points to, which is uninitialised at the first component. It returns the
  error, or zero with the new value of \<^verbatim>\<open>*path\<close>.
\<close>

definition do_lookup :: "fs_ops \<Rightarrow> path \<Rightarrow> string \<Rightarrow> path option \<Rightarrow> vfs \<Rightarrow> ((int + path) \<times> vfs) option" where
  "do_lookup ops nd name next v =
     (if name = ''.'' then Some (Inr nd, v)
      else if name = ''..'' then do {
        p \<leftarrow> next;
        mnt \<leftarrow> mounts v (p_mnt p);
        nd \<leftarrow> (if p_dentry p = mnt_root mnt \<and> mnt_parent mnt \<noteq> NULL then follow_up nd v else Some nd);
        e \<leftarrow> dentries v (p_dentry nd);
        Some (Inr \<lparr> p_mnt = p_mnt nd, p_dentry = d_parent e \<rparr>, v) }
      else do {
        dentry \<leftarrow> d_lookup (p_dentry nd) name v;
        (ret, dentry, v) \<leftarrow> (if dentry = NULL then real_lookup ops (p_dentry nd) name v else Some (0, dentry, v));
        if ret < 0 then Some (Inl ret, v)
        else do { p \<leftarrow> follow_mount \<lparr> p_mnt = p_mnt nd, p_dentry = dentry \<rparr> v; Some (Inr p, v) } })"

text \<open>The table of operations behind a pointer that may be null.\<close>

definition table :: "op_table \<Rightarrow> op_table option" where
  "table t = (if t = NO_OPS then None else Some t)"

definition cannot_lookup :: "fs_ops \<Rightarrow> inode \<Rightarrow> bool option" where
  "cannot_lookup ops i = do { t \<leftarrow> table (i_op i); Some (o_lookup ops t = None) }"

function walk_loop :: "fs_ops \<Rightarrow> string \<Rightarrow> path \<Rightarrow> path option \<Rightarrow> vfs \<Rightarrow> ((int + path) \<times> vfs) option" where
  "walk_loop ops s nd next v =
     (case dropWhile (\<lambda>c. c = CHR ''/'') s of
        [] \<Rightarrow> Some (Inr nd, v)
      | c # s \<Rightarrow> do {
          let unit = c # takeWhile (\<lambda>c. c \<noteq> CHR ''/'') s;
          e \<leftarrow> dentries v (p_dentry nd);
          i \<leftarrow> inodes v (d_inode e);
          notdir \<leftarrow> cannot_lookup ops i;
          if notdir then Some (Inl (- ENOTDIR), v)
          else do {
            (r, v) \<leftarrow> do_lookup ops nd unit next v;
            case r of Inl ret \<Rightarrow> Some (Inl ret, v)
            | Inr next \<Rightarrow> walk_loop ops (dropWhile (\<lambda>c. c \<noteq> CHR ''/'') s) next (Some next) v } })"
  by pat_completeness auto
termination
proof (relation "measure (\<lambda>(ops, s, nd, next, v). length s)", goal_cases)
  case (2 ops s nd nx v c s')
  have "length (dropWhile (\<lambda>c. c \<noteq> CHR ''/'') s') \<le> length s'" by (rule length_dropWhile_le)
  moreover have "length (dropWhile (\<lambda>c. c = CHR ''/'') s) \<le> length s" by (rule length_dropWhile_le)
  ultimately show ?case using 2 by simp
qed simp

declare walk_loop.simps [simp del]

definition path_walk :: "fs_ops \<Rightarrow> string \<Rightarrow> vfs \<Rightarrow> ((int + path) \<times> vfs) option" where
  "path_walk ops s v =
     walk_loop ops s (case s of CHR ''/'' # _ \<Rightarrow> fs_root v | _ \<Rightarrow> fs_pwd v) None v"


section \<open>Directories\<close>

definition vfs_mkdir :: "fs_ops \<Rightarrow> nat \<Rightarrow> nat \<Rightarrow> u32 \<Rightarrow> vfs \<Rightarrow> (int \<times> vfs) option" where
  "vfs_mkdir ops dir dentry mode v = do {
     i \<leftarrow> inodes v dir;
     t \<leftarrow> table (i_op i);
     case o_mkdir ops t of None \<Rightarrow> Some (- ENOTSUPP, v) | Some f \<Rightarrow> f dir dentry mode v }"

definition vfs_mknod :: "fs_ops \<Rightarrow> nat \<Rightarrow> nat \<Rightarrow> u32 \<Rightarrow> u32 \<Rightarrow> vfs \<Rightarrow> (int \<times> vfs) option" where
  "vfs_mknod ops dir dentry mode devt v = do {
     i \<leftarrow> inodes v dir;
     t \<leftarrow> table (i_op i);
     case o_mknod ops t of None \<Rightarrow> Some (- ENOTSUPP, v) | Some f \<Rightarrow> f dir dentry mode devt v }"

text \<open>\<^verbatim>\<open>sys_mkdir\<close>: the name is taken in the working directory; a failed entry is unlinked and freed.\<close>

definition sys_mkdir :: "fs_ops \<Rightarrow> string \<Rightarrow> u32 \<Rightarrow> vfs \<Rightarrow> (int \<times> vfs) option" where
  "sys_mkdir ops name mode v = do {
     let dir = p_dentry (fs_pwd v);
     (de, v) \<leftarrow> d_alloc dir (dropWhile (\<lambda>c. c = CHR ''/'') name) v;
     d \<leftarrow> dentries v dir;
     (ret, v) \<leftarrow> vfs_mkdir ops (d_inode d) de (mode OR S_IFDIR) v;
     if ret < 0 then do { v \<leftarrow> dput de v; Some (ret, v\<lparr>dentries := (dentries v)(de := None)\<rparr>) } else Some (ret, v) }"

definition dev_mknod :: "fs_ops \<Rightarrow> string \<Rightarrow> u32 \<Rightarrow> u32 \<Rightarrow> vfs \<Rightarrow> (int \<times> vfs) option" where
  "dev_mknod ops name mode devt v = do {
     (r, v) \<leftarrow> path_walk ops ''/dev'' v;
     case r of Inl ret \<Rightarrow> Some (ret, v)
     | Inr nd \<Rightarrow> do {
         (dentry, v) \<leftarrow> d_alloc (p_dentry nd) name v;
         d \<leftarrow> dentries v (p_dentry nd);
         (ret, v) \<leftarrow> vfs_mknod ops (d_inode d) dentry mode devt v;
         Some (if ret < 0 then ret else 0, v) } }"

definition sys_chdir :: "fs_ops \<Rightarrow> string \<Rightarrow> vfs \<Rightarrow> (int \<times> vfs) option" where
  "sys_chdir ops s v = do {
     (r, v) \<leftarrow> path_walk ops s v;
     Some (case r of Inl ret \<Rightarrow> (ret, v) | Inr p \<Rightarrow> (0, v\<lparr>fs_pwd := p\<rparr>)) }"

text \<open>The names \<^verbatim>\<open>sys_getcwd\<close> collects on its way to the root, the last one first; at most \<^verbatim>\<open>PATH_STACK_SIZE\<close>.\<close>

partial_function (option) cwd_loop :: "path \<Rightarrow> string list \<Rightarrow> vfs \<Rightarrow> string list option" where
  "cwd_loop cwd stack v =
     (if p_dentry cwd = p_dentry (fs_root v) then Some stack
      else do {
        mnt \<leftarrow> mounts v (p_mnt cwd);
        if p_dentry cwd = mnt_root mnt then do { cwd \<leftarrow> follow_up cwd v; cwd_loop cwd stack v }
        else do {
          e \<leftarrow> dentries v (p_dentry cwd);
          let stack = d_name e # stack;
          if length stack \<ge> PATH_STACK_SIZE then Some stack
          else cwd_loop (cwd\<lparr>p_dentry := d_parent e\<rparr>) stack v } })"

declare cwd_loop.simps [code]

text \<open>The characters written: the loop stops once \<^verbatim>\<open>size\<close> have been.\<close>

fun cwd_text :: "nat \<Rightarrow> nat \<Rightarrow> string list \<Rightarrow> string" where
  "cwd_text sz count [] = []"
| "cwd_text sz count (name # stack) =
     (let count = count + 1 + length name in CHR ''/'' # name @ (if count \<ge> sz then [] else cwd_text sz count stack))"

definition sys_getcwd :: "nat \<Rightarrow> vfs \<Rightarrow> (nat \<times> string) option" where
  "sys_getcwd sz v = do {
     stack \<leftarrow> cwd_loop (fs_pwd v) [] v;
     let s = (if stack = [] then ''/'' else cwd_text sz 0 stack);
     Some (length s, s) }"

section \<open>Mounting\<close>

definition register_filesystem :: "string \<Rightarrow> vfs \<Rightarrow> int \<times> vfs" where
  "register_filesystem name v = (if name \<in> set (fs_types v) then (- EBUSY, v) else (0, v\<lparr>fs_types := fs_types v @ [name]\<rparr>))"

definition get_fs_type :: "string \<Rightarrow> vfs \<Rightarrow> string option" where
  "get_fs_type name v = find (\<lambda>n. n = name) (fs_types v)"

text \<open>\<^verbatim>\<open>do_mount\<close>: the error, or zero and the root of the mounted file system.\<close>

definition do_mount :: "fs_ops \<Rightarrow> string \<Rightarrow> vfs \<Rightarrow> (int \<times> nat \<times> vfs) option" where
  "do_mount ops type v =
     (case get_fs_type type v of
        None \<Rightarrow> Some (- ENOENT, NULL, v)
      | Some t \<Rightarrow> do { (root, v) \<leftarrow> o_mount ops t v; Some (if root = NULL then - EIO else 0, root, v) })"

definition add_mount :: "nat \<Rightarrow> path \<Rightarrow> vfs \<Rightarrow> vfs" where
  "add_mount mnt p v = v\<lparr>mounts := (mounts v)(mnt := map_option (\<lambda>m. m\<lparr>mountpoint := p_dentry p, mnt_parent := p_mnt p\<rparr>) (mounts v mnt)),
     mount_list := mount_list v @ [mnt]\<rparr>"

text \<open>The part that \<^verbatim>\<open>sys_mount\<close> and \<^verbatim>\<open>mount_root\<close> share: the new mount, \<open>NULL\<close> with an error.\<close>

definition new_mount :: "fs_ops \<Rightarrow> string \<Rightarrow> string \<Rightarrow> path \<Rightarrow> vfs \<Rightarrow> (int \<times> nat \<times> vfs) option" where
  "new_mount ops dev type p v = do {
     let (mnt, v) = new_obj v;
     if mnt = NULL then Some (- ENOMEM, NULL, v)
     else do {
       (ret, root, v) \<leftarrow> do_mount ops type v;
       if ret < 0 then Some (ret, NULL, v)
       else let m = \<lparr> mnt_parent = NULL, mountpoint = NULL, mnt_root = root, fstype = type, dev_name = dev \<rparr>
            in Some (0, mnt, add_mount mnt p (v\<lparr>mounts := (mounts v)(mnt \<mapsto> m)\<rparr>)) } }"

definition sys_mount :: "fs_ops \<Rightarrow> string \<Rightarrow> string \<Rightarrow> string \<Rightarrow> vfs \<Rightarrow> (int \<times> vfs) option" where
  "sys_mount ops dev s type v = do {
     (r, v) \<leftarrow> path_walk ops s v;
     case r of Inl ret \<Rightarrow> Some (ret, v)
     | Inr p \<Rightarrow> do { (ret, _, v) \<leftarrow> new_mount ops dev type p v; Some (ret, v) } }"

definition mount_root :: "fs_ops \<Rightarrow> string \<Rightarrow> string \<Rightarrow> vfs \<Rightarrow> (int \<times> vfs) option" where
  "mount_root ops dev type v = do {
     (ret, mnt, v) \<leftarrow> new_mount ops dev type \<lparr> p_mnt = NULL, p_dentry = NULL \<rparr> v;
     if ret < 0 then Some (ret, v)
     else do {
       m \<leftarrow> mounts v mnt;
       let sysroot = \<lparr> p_mnt = mnt, p_dentry = mnt_root m \<rparr>;
       Some (0, v\<lparr>fs_root := sysroot, fs_pwd := sysroot\<rparr>) } }"

section \<open>Files\<close>

definition get_unused_fd :: "vfs \<Rightarrow> int" where
  "get_unused_fd v = (case find (\<lambda>fd. fd_array v fd = NULL) [0..<MAX_FDS] of None \<Rightarrow> - EBUSY | Some fd \<Rightarrow> int fd)"

definition fget :: "int \<Rightarrow> vfs \<Rightarrow> nat" where
  "fget fd v = (if fd < 0 \<or> fd \<ge> int MAX_FDS then NULL else fd_array v (nat fd))"

definition fd_install :: "nat \<Rightarrow> nat \<Rightarrow> vfs \<Rightarrow> vfs" where
  "fd_install fd fp v = v\<lparr>fd_array := (fd_array v)(fd := fp)\<rparr>"

definition dentry_open :: "fs_ops \<Rightarrow> nat \<Rightarrow> nat \<Rightarrow> vfs \<Rightarrow> (int \<times> vfs) option" where
  "dentry_open ops dir fp v = do {
     e \<leftarrow> dentries v dir;
     i \<leftarrow> inodes v (d_inode e);
     let v = upd_file fp (\<lambda>f. f\<lparr>f_dentry := dir, f_pos := 0, f_op := i_fop i\<rparr>) v;
     if i_fop i = NO_OPS then Some (- ENODEV, v)
     else case o_open ops (i_fop i) of None \<Rightarrow> Some (0, v)
          | Some f \<Rightarrow> do { (ret, v) \<leftarrow> f fp (d_inode e) v; Some (if ret < 0 then ret else 0, v) } }"

definition sys_open :: "fs_ops \<Rightarrow> string \<Rightarrow> u32 \<Rightarrow> vfs \<Rightarrow> (int \<times> vfs) option" where
  "sys_open ops s flags v =
     (let fd = get_unused_fd v
      in if fd < 0 then Some (fd, v)
         else do {
           (r, v) \<leftarrow> path_walk ops s v;
           case r of Inl ret \<Rightarrow> Some (ret, v)
           | Inr p \<Rightarrow>
               let (fp, v) = new_obj v
               in if fp = NULL then Some (- ENOMEM, v)
                  else do {
                    let v = v\<lparr>files := (files v)(fp \<mapsto> \<lparr> f_pos = 0, f_flags = flags, f_op = NO_OPS, f_dentry = NULL, private_data = NULL \<rparr>)\<rparr>;
                    (ret, v) \<leftarrow> dentry_open ops (p_dentry p) fp v;
                    Some (if ret < 0 then (ret, v\<lparr>files := (files v)(fp := None)\<rparr>) else (fd, fd_install (nat fd) fp v)) } })"

definition file_close :: "fs_ops \<Rightarrow> int \<Rightarrow> vfs \<Rightarrow> (int \<times> vfs) option" where
  "file_close ops fd v =
     (let fp = fget fd v
      in if fp = NULL then Some (- ENOENT, v)
         else do {
           let v = fd_install (nat fd) NULL v;
           f \<leftarrow> files v fp;
           case (if f_op f = NO_OPS then None else o_close ops (f_op f)) of None \<Rightarrow> Some (0, v) | Some c \<Rightarrow> c fp v })"

definition file_read :: "fs_ops \<Rightarrow> int \<Rightarrow> nat \<Rightarrow> vfs \<Rightarrow> (int \<times> u8 list \<times> vfs) option" where
  "file_read ops fd sz v =
     (let fp = fget fd v
      in if fp = NULL then Some (- ENOENT, [], v)
         else do { f \<leftarrow> files v fp; t \<leftarrow> table (f_op f); case o_read ops t of None \<Rightarrow> Some (- ENOENT, [], v) | Some r \<Rightarrow> r fp sz v })"

definition file_write :: "fs_ops \<Rightarrow> int \<Rightarrow> u8 list \<Rightarrow> vfs \<Rightarrow> (int \<times> vfs) option" where
  "file_write ops fd buff v =
     (let fp = fget fd v
      in if fp = NULL then Some (- ENOENT, v)
         else do { f \<leftarrow> files v fp; t \<leftarrow> table (f_op f); case o_write ops t of None \<Rightarrow> Some (- ENOENT, v) | Some w \<Rightarrow> w fp buff v })"

definition sys_ioctl :: "fs_ops \<Rightarrow> int \<Rightarrow> int \<Rightarrow> u32 \<Rightarrow> vfs \<Rightarrow> (int \<times> vfs) option" where
  "sys_ioctl ops fd cmd arg v =
     (let fp = fget fd v
      in if fp = NULL then Some (- ENOENT, v)
         else do { f \<leftarrow> files v fp; t \<leftarrow> table (f_op f); case o_ioctl ops t of None \<Rightarrow> Some (- ENOENT, v) | Some c \<Rightarrow> c fp cmd arg v })"

text \<open>\<^verbatim>\<open>lseek\<close>: the code behind the call of the table is not reached.\<close>

definition lseek :: "fs_ops \<Rightarrow> int \<Rightarrow> u32 \<Rightarrow> int \<Rightarrow> vfs \<Rightarrow> (u32 \<times> vfs) option" where
  "lseek ops fd off whence v =
     (let fp = fget fd v
      in if fp = NULL then Some (word_of_int (- ENOENT), v)
         else do { f \<leftarrow> files v fp; t \<leftarrow> table (f_op f); case o_lseek ops t of None \<Rightarrow> Some (word_of_int (- ENOENT), v) | Some c \<Rightarrow> c fp off whence v })"

definition fstat :: "int \<Rightarrow> vfs \<Rightarrow> (int \<times> u32 option) option" where
  "fstat fd v =
     (let fp = fget fd v
      in if fp = NULL then Some (- ENOENT, None)
         else do { f \<leftarrow> files v fp; e \<leftarrow> dentries v (f_dentry f); i \<leftarrow> inodes v (d_inode e); Some (0, Some (i_size i)) })"

text \<open>
  \<^verbatim>\<open>filldir\<close>: the type is cut to a byte; \<^verbatim>\<open>d_name\<close> has the offset 11 and room for 256 characters. \<^verbatim>\<open>sys_getdents\<close> returns
  the entry it stores, if any.
\<close>

definition filldir :: "string \<Rightarrow> u32 \<Rightarrow> u32 \<Rightarrow> u32 \<Rightarrow> linux_dirent option" where
  "filldir name offset ino type =
     (if length name \<ge> 256 then None
      else Some \<lparr> d_ino = ino, d_off = offset, d_reclen = of_nat ((11 + length name + 2 + 3) div 4 * 4), d_type = ucast type, l_name = name \<rparr>)"

definition sys_getdents :: "fs_ops \<Rightarrow> int \<Rightarrow> vfs \<Rightarrow> (int \<times> linux_dirent option \<times> vfs) option" where
  "sys_getdents ops fd v =
     (let fp = fget fd v
      in if fp = NULL then Some (- ENODEV, None, v)
         else do {
           f \<leftarrow> files v fp;
           if f_op f = NO_OPS then Some (- ENODEV, None, v)
           else case o_readdir ops (f_op f) of None \<Rightarrow> Some (- ENOTSUPP, None, v) | Some r \<Rightarrow> r fp v })"

section \<open>Well-formed trees\<close>

text \<open>What the shape of the tree depends on: all of an entry but its inode.\<close>

definition tree_part :: "dentry \<Rightarrow> string \<times> nat \<times> nat \<times> nat list" where
  "tree_part e = (d_name e, d_sb e, d_parent e, d_subdirs e)"

definition same_tree :: "vfs \<Rightarrow> vfs \<Rightarrow> bool" where
  "same_tree v v' \<longleftrightarrow> (\<forall>a. map_option tree_part (dentries v' a) = map_option tree_part (dentries v a))
     \<and> mounts v' = mounts v \<and> mount_list v' = mount_list v \<and> fs_root v' = fs_root v \<and> fs_pwd v' = fs_pwd v \<and> brk v \<le> brk v'"

definition sb_of :: "vfs \<Rightarrow> nat \<Rightarrow> nat option" where
  "sb_of v a = map_option d_sb (dentries v a)"

text \<open>
  Entries and super blocks lie below \<open>brk\<close>; a child is listed once, an entry whose parent is the directory that lists it,
  and both belong to the same super block, as an entry and its parent always do. Parents are older than their entries,
  so have lower addresses, except that the root of a mounted file system is its own parent.
\<close>

definition entry_ok :: "vfs \<Rightarrow> nat \<Rightarrow> dentry \<Rightarrow> bool" where
  "entry_ok v a e \<longleftrightarrow> 0 < a \<and> a < brk v \<and> d_sb e < brk v \<and> sb_of v (d_parent e) = Some (d_sb e) \<and> distinct (d_subdirs e)
     \<and> d_parent e \<le> a \<and> (d_parent e = a \<longrightarrow> (\<exists>m\<in>set (mount_list v). map_option mnt_root (mounts v m) = Some a))
     \<and> (\<forall>c\<in>set (d_subdirs e). c \<noteq> a \<and> sb_of v c = Some (d_sb e) \<and> map_option d_parent (dentries v c) = Some a)"

definition root_sb :: "vfs \<Rightarrow> nat \<Rightarrow> nat option" where
  "root_sb v m = Option.bind (mounts v m) (\<lambda>M. sb_of v (mnt_root M))"

text \<open>The entry of a path belongs to the file system mounted there.\<close>

definition path_ok :: "vfs \<Rightarrow> path \<Rightarrow> bool" where
  "path_ok v p \<longleftrightarrow> p_mnt p \<in> set (mount_list v) \<and> sb_of v (p_dentry p) = root_sb v (p_mnt p)"

definition mount_ok :: "vfs \<Rightarrow> nat \<Rightarrow> bool" where
  "mount_ok v m \<longleftrightarrow> 0 < m \<and> m < brk v
     \<and> (case mounts v m of None \<Rightarrow> False
        | Some M \<Rightarrow> map_option d_parent (dentries v (mnt_root M)) = Some (mnt_root M) \<and> mountpoint M < mnt_root M
            \<and> (if mnt_parent M = NULL then mountpoint M = NULL \<and> m = p_mnt (fs_root v)
               else mountpoint M \<noteq> NULL \<and> path_ok v \<lparr> p_mnt = mnt_parent M, p_dentry = mountpoint M \<rparr>))"

definition wf_vfs :: "vfs \<Rightarrow> bool" where
  "wf_vfs v \<longleftrightarrow> 0 < brk v \<and> (\<forall>a e. dentries v a = Some e \<longrightarrow> entry_ok v a e)
     \<and> (\<forall>m\<in>set (mount_list v). mount_ok v m) \<and> inj_on (root_sb v) (set (mount_list v))
     \<and> path_ok v (fs_root v) \<and> path_ok v (fs_pwd v)
     \<and> (\<exists>M. mounts v (p_mnt (fs_root v)) = Some M \<and> mnt_root M = p_dentry (fs_root v) \<and> mnt_parent M = NULL)"

lemma same_tree_refl [simp]: "same_tree v v"
  by (simp add: same_tree_def)

lemma same_tree_trans: "same_tree v v' \<Longrightarrow> same_tree v' v'' \<Longrightarrow> same_tree v v''"
  by (simp add: same_tree_def)

lemma map_option_tree_part:
  assumes "map_option tree_part x = map_option tree_part y"
  shows "map_option d_sb x = map_option d_sb y" "map_option d_parent x = map_option d_parent y"
    "map_option d_name x = map_option d_name y" "map_option d_subdirs x = map_option d_subdirs y"
  using assms by (cases x; cases y; simp add: tree_part_def)+

lemma same_tree_parts:
  assumes "same_tree v v'"
  shows "sb_of v' a = sb_of v a" "map_option d_parent (dentries v' a) = map_option d_parent (dentries v a)"
    "map_option d_name (dentries v' a) = map_option d_name (dentries v a)"
    "map_option d_subdirs (dentries v' a) = map_option d_subdirs (dentries v a)"
    "root_sb v' m = root_sb v m" "path_ok v' p = path_ok v p"
proof -
  have t: "map_option tree_part (dentries v' a) = map_option tree_part (dentries v a)" for a using assms by (simp add: same_tree_def)
  note p = map_option_tree_part [OF t]
  show sb: "sb_of v' a = sb_of v a" for a by (simp add: sb_of_def p)
  show "map_option d_parent (dentries v' a) = map_option d_parent (dentries v a)"
    "map_option d_name (dentries v' a) = map_option d_name (dentries v a)"
    "map_option d_subdirs (dentries v' a) = map_option d_subdirs (dentries v a)" by (rule p)+
  show "root_sb v' m = root_sb v m" for m using assms by (simp add: root_sb_def sb same_tree_def)
  then show "path_ok v' p = path_ok v p" using assms by (simp add: path_ok_def sb same_tree_def)
qed

lemma wf_same_tree: assumes "wf_vfs v" "same_tree v v'" shows "wf_vfs v'"
proof -
  note p = same_tree_parts [OF assms(2)]
  have b: "brk v \<le> brk v'" "mounts v' = mounts v" "mount_list v' = mount_list v" "fs_root v' = fs_root v" "fs_pwd v' = fs_pwd v"
    using assms(2) by (simp_all add: same_tree_def)
  have "entry_ok v' a e" if "dentries v' a = Some e" for a e
  proof -
    from that assms(2) obtain e' where e': "dentries v a = Some e'" "tree_part e' = tree_part e"
      unfolding same_tree_def by (metis map_option_eq_Some option.simps(9))
    then have "entry_ok v a e'" using assms(1) by (simp add: wf_vfs_def)
    then show ?thesis using e'(2) b(1) by (auto simp: entry_ok_def p tree_part_def b(2,3))
  qed
  moreover have "mount_ok v' m" if "m \<in> set (mount_list v)" for m
  proof -
    have "mount_ok v m" using that assms(1) by (simp add: wf_vfs_def)
    then show ?thesis using b(1) unfolding mount_ok_def b p by auto
  qed
  moreover have "root_sb v' = root_sb v" by (rule ext) (rule p)
  ultimately show ?thesis using assms(1) b(1) unfolding wf_vfs_def b p by auto
qed

text \<open>A step that keeps the tree well formed, the entries in their file systems, and the mounts.\<close>

definition keeps_tree :: "vfs \<Rightarrow> vfs \<Rightarrow> bool" where
  "keeps_tree v v' \<longleftrightarrow> wf_vfs v' \<and> (\<forall>a s. sb_of v a = Some s \<longrightarrow> sb_of v' a = Some s)
     \<and> mounts v' = mounts v \<and> mount_list v' = mount_list v \<and> fs_root v' = fs_root v \<and> fs_pwd v' = fs_pwd v \<and> brk v \<le> brk v'"

lemma keeps_tree_refl: "wf_vfs v \<Longrightarrow> keeps_tree v v"
  by (simp add: keeps_tree_def)

lemma keeps_tree_trans: "keeps_tree v v' \<Longrightarrow> keeps_tree v' v'' \<Longrightarrow> keeps_tree v v''"
  by (auto simp: keeps_tree_def)

lemma same_tree_keeps: "wf_vfs v \<Longrightarrow> same_tree v v' \<Longrightarrow> keeps_tree v v'"
  using wf_same_tree [of v v'] same_tree_parts [of v v'] by (auto simp: keeps_tree_def same_tree_def)

lemma wf_entry: "wf_vfs v \<Longrightarrow> dentries v a = Some e \<Longrightarrow> entry_ok v a e"
  by (simp add: wf_vfs_def)

lemma wf_mount:
  assumes "wf_vfs v" "m \<in> set (mount_list v)"
  obtains M s where "mounts v m = Some M" "root_sb v m = Some s" "0 < m" "m < brk v"
    "map_option d_parent (dentries v (mnt_root M)) = Some (mnt_root M)" "mountpoint M < mnt_root M"
    "mnt_parent M = NULL \<Longrightarrow> mountpoint M = NULL \<and> m = p_mnt (fs_root v)"
    "mnt_parent M \<noteq> NULL \<Longrightarrow> mountpoint M \<noteq> NULL \<and> path_ok v \<lparr> p_mnt = mnt_parent M, p_dentry = mountpoint M \<rparr>"
proof -
  have "mount_ok v m" using assms by (simp add: wf_vfs_def)
  then show ?thesis using that by (auto simp: mount_ok_def root_sb_def sb_of_def split: option.splits if_splits)
qed

lemma path_ok_entry:
  assumes "wf_vfs v" "path_ok v p"
  obtains e where "dentries v (p_dentry p) = Some e" "root_sb v (p_mnt p) = Some (d_sb e)" "entry_ok v (p_dentry p) e"
proof -
  obtain s where "root_sb v (p_mnt p) = Some s" using assms wf_mount [of v "p_mnt p"] by (auto simp: path_ok_def)
  then obtain e where "dentries v (p_dentry p) = Some e" "d_sb e = s" using assms(2) by (auto simp: path_ok_def sb_of_def)
  then show ?thesis using that \<open>root_sb v (p_mnt p) = Some s\<close> wf_entry [OF assms(1)] by blast
qed

lemma keeps_root_sb: "wf_vfs v \<Longrightarrow> keeps_tree v v' \<Longrightarrow> m \<in> set (mount_list v) \<Longrightarrow> root_sb v' m = root_sb v m"
  by (erule wf_mount) (auto simp: keeps_tree_def root_sb_def)

lemma keeps_path_ok:
  assumes "wf_vfs v" "keeps_tree v v'" "path_ok v p"
  shows "path_ok v' p"
proof -
  obtain e where e: "dentries v (p_dentry p) = Some e" "root_sb v (p_mnt p) = Some (d_sb e)"
    using path_ok_entry [OF assms(1,3)] by blast
  have "p_mnt p \<in> set (mount_list v)" using assms(3) by (simp add: path_ok_def)
  with keeps_root_sb [OF assms(1,2) this] e assms(2) show ?thesis by (simp add: path_ok_def keeps_tree_def sb_of_def)
qed

lemma new_obj_cases:
  assumes "new_obj v = (a, v')"
  shows "same_tree v v'" "dentries v' = dentries v" "inodes v' = inodes v" "files v' = files v"
    "a = NULL \<and> brk v' = brk v \<or> a = brk v \<and> brk v' = Suc (brk v)"
  using assms by (auto simp: new_obj_def same_tree_def split: list.splits if_splits)

lemma d_alloc_sb_cases:
  assumes "d_alloc_sb sb str v = (de, v')" "0 < brk v"
  shows "de = NULL \<and> same_tree v v' \<and> inodes v' = inodes v \<or> brk v \<le> de \<and> de < brk v' \<and> inodes v' = inodes v
     \<and> dentries v' = (dentries v)(de \<mapsto> \<lparr> d_name = str, d_inode = NULL, d_sb = sb, d_parent = de, d_subdirs = [] \<rparr>)
     \<and> same_tree v (v'\<lparr>dentries := dentries v\<rparr>)"
proof -
  obtain a v1 where z: "new_obj v = (a, v1)" by fastforce
  obtain n v2 where z2: "(if length str \<ge> DNAME_INLINE_LEN then new_obj v1 else (a, v1)) = (n, v2)" by fastforce
  note c = new_obj_cases [OF z]
  have c2: "same_tree v1 v2" "dentries v2 = dentries v1" "inodes v2 = inodes v1" "brk v1 \<le> brk v2"
    using z2 new_obj_cases [of v1 n v2] by (auto simp: same_tree_def split: if_splits)
  show ?thesis
    using assms z z2 c c2 by (auto simp: d_alloc_sb_def Let_def same_tree_def split: if_splits)
qed

lemma d_alloc_cases:
  assumes "d_alloc parent str v = Some (de, v')" "wf_vfs v"
  obtains p where "dentries v parent = Some p" "brk v \<le> de" "de < brk v'" "inodes v' = inodes v" "parent \<noteq> de"
    "dentries v' = (dentries v)(de \<mapsto> \<lparr> d_name = str, d_inode = NULL, d_sb = d_sb p, d_parent = parent, d_subdirs = [] \<rparr>,
       parent \<mapsto> p\<lparr>d_subdirs := d_subdirs p @ [de]\<rparr>)"
    "same_tree v (v'\<lparr>dentries := dentries v\<rparr>)"
proof -
  obtain p de' v1 where a: "dentries v parent = Some p" "d_alloc_sb (d_sb p) str v = (de', v1)" "de' \<noteq> NULL" "de' = de"
    "v' = upd_dentry parent (\<lambda>p. p\<lparr>d_subdirs := d_subdirs p @ [de]\<rparr>) (upd_dentry de (\<lambda>e. e\<lparr>d_parent := parent\<rparr>) v1)"
    using assms(1) by (auto simp: d_alloc_def Let_def split: bind_splits prod.splits if_splits)
  have pos: "0 < brk v" using assms(2) by (simp add: wf_vfs_def)
  from d_alloc_sb_cases [OF a(2) pos] a(3,4) have d: "brk v \<le> de" "de < brk v1" "inodes v1 = inodes v"
     "dentries v1 = (dentries v)(de \<mapsto> \<lparr> d_name = str, d_inode = NULL, d_sb = d_sb p, d_parent = de, d_subdirs = [] \<rparr>)"
     "same_tree v (v1\<lparr>dentries := dentries v\<rparr>)" by auto
  have ne: "parent \<noteq> de" using wf_entry [OF assms(2) a(1)] d(1) by (auto simp: entry_ok_def)
  show ?thesis
    using that [OF a(1) d(1)] a(1,5) d(2-5) ne by (simp add: upd_dentry_def same_tree_def fun_upd_twist)
qed

lemma wf_fresh: "wf_vfs v \<Longrightarrow> brk v \<le> a \<Longrightarrow> dentries v a = None"
  by (cases "dentries v a") (auto dest: wf_entry simp: entry_ok_def)

lemma d_alloc_keeps:
  assumes "d_alloc parent str v = Some (de, v')" "wf_vfs v"
  shows "keeps_tree v v'"
proof -
  obtain p where p: "dentries v parent = Some p" "brk v \<le> de" "de < brk v'" "parent \<noteq> de"
    "dentries v' = (dentries v)(de \<mapsto> \<lparr> d_name = str, d_inode = NULL, d_sb = d_sb p, d_parent = parent, d_subdirs = [] \<rparr>,
       parent \<mapsto> p\<lparr>d_subdirs := d_subdirs p @ [de]\<rparr>)"
    "same_tree v (v'\<lparr>dentries := dentries v\<rparr>)"
    using d_alloc_cases [OF assms] by blast
  have same: "mounts v' = mounts v" "mount_list v' = mount_list v" "fs_root v' = fs_root v" "fs_pwd v' = fs_pwd v" "brk v \<le> brk v'"
    using p(6) by (simp_all add: same_tree_def)
  have fresh: "dentries v de = None" by (rule wf_fresh [OF assms(2) p(2)])
  have sb: "sb_of v' a = (if a = de then Some (d_sb p) else sb_of v a)" for a using p(1,4) fresh by (simp add: sb_of_def p(5))
  have par: "map_option d_parent (dentries v' a) = (if a = de then Some parent else map_option d_parent (dentries v a))" for a
    using p(1,4) fresh by (simp add: p(5))
  have nosb: "sb_of v de = None" using fresh by (simp add: sb_of_def)
  then have new: "de \<notin> set (d_subdirs p)" using wf_entry [OF assms(2) p(1)] by (auto simp: entry_ok_def)
  have kept: "sb_of v a = Some s \<Longrightarrow> sb_of v' a = Some s" for a s using nosb by (cases "a = de") (simp_all add: sb)
  have root: "root_sb v' m = root_sb v m" if m: "m \<in> set (mount_list v)" for m
  proof -
    obtain M s where M: "mounts v m = Some M" "root_sb v m = Some s" using wf_mount [OF assms(2) m] by blast
    then have "sb_of v (mnt_root M) = Some s" by (simp add: root_sb_def)
    from kept [OF this] M show ?thesis by (simp add: root_sb_def same)
  qed
  have pok: "path_ok v' q" if q: "path_ok v q" for q
  proof -
    obtain e where e: "dentries v (p_dentry q) = Some e" "root_sb v (p_mnt q) = Some (d_sb e)" "entry_ok v (p_dentry q) e"
      by (rule path_ok_entry [OF assms(2) q])
    with q have s: "sb_of v (p_dentry q) = Some (d_sb e)" "p_mnt q \<in> set (mount_list v)" by (simp_all add: path_ok_def)
    with kept [OF s(1)] root [OF s(2)] e(2) show ?thesis by (simp add: path_ok_def same)
  qed
  have entry: "entry_ok v' a e" if "dentries v' a = Some e" for a e
  proof -
    consider "a = de" | "a = parent" "a \<noteq> de" | "a \<noteq> parent" "a \<noteq> de" by blast
    then show ?thesis
    proof cases
      case 1
      then have e: "e = \<lparr> d_name = str, d_inode = NULL, d_sb = d_sb p, d_parent = parent, d_subdirs = [] \<rparr>" using that p(4,5) by simp
      have "parent < de" "d_sb p < brk v" "sb_of v parent = Some (d_sb p)"
        using wf_entry [OF assms(2) p(1)] p(1,2) by (auto simp: entry_ok_def sb_of_def)
      then show ?thesis using 1 e p(2,3) same(5) by (simp add: entry_ok_def sb)
    next
      case 2
      then show ?thesis using that p(1-5) sb par kept wf_entry [OF assms(2) p(1)] same(5) new by (auto simp: entry_ok_def same(1,2))
    next
      case 3
      then have "dentries v a = Some e" using that p(5) by simp
      from wf_entry [OF assms(2) this] show ?thesis
        using same(5) nosb by (auto simp: entry_ok_def par kept same(1,2))
    qed
  qed
  have "mount_ok v' m" if "m \<in> set (mount_list v)" for m
    using that
  proof (rule wf_mount [OF assms(2)])
    fix M s
    assume *: "mounts v m = Some M" "0 < m" "m < brk v" "map_option d_parent (dentries v (mnt_root M)) = Some (mnt_root M)" "mountpoint M < mnt_root M"
      "mnt_parent M = NULL \<Longrightarrow> mountpoint M = NULL \<and> m = p_mnt (fs_root v)"
      "mnt_parent M \<noteq> NULL \<Longrightarrow> mountpoint M \<noteq> NULL \<and> path_ok v \<lparr> p_mnt = mnt_parent M, p_dentry = mountpoint M \<rparr>"
    then have "mnt_root M \<noteq> de" using fresh by auto
    with * show ?thesis using same pok by (simp add: mount_ok_def par)
  qed
  moreover have "inj_on (root_sb v') (set (mount_list v))"
    using assms(2) root by (simp add: wf_vfs_def inj_on_def)
  ultimately have "wf_vfs v'"
    using assms(2) entry pok p(3) by (auto simp: wf_vfs_def same)
  then show ?thesis using kept same by (simp add: keeps_tree_def)
qed

lemma dput_keeps:
  assumes "dput de v = Some v'" "wf_vfs v"
  shows "keeps_tree v v'"
proof -
  obtain e where e: "dentries v de = Some e" "v' = upd_dentry (d_parent e) (\<lambda>p. p\<lparr>d_subdirs := remove1 de (d_subdirs p)\<rparr>) v"
    using assms(1) by (auto simp: dput_def split: bind_splits)
  have same: "mounts v' = mounts v" "mount_list v' = mount_list v" "fs_root v' = fs_root v" "fs_pwd v' = fs_pwd v" "brk v' = brk v"
    by (simp_all add: e(2) upd_dentry_def)
  have sb: "sb_of v' = sb_of v" by (rule ext) (auto simp: e(2) upd_dentry_def sb_of_def option.map_comp comp_def)
  have par: "map_option d_parent (dentries v' a) = map_option d_parent (dentries v a)" for a
    by (auto simp: e(2) upd_dentry_def option.map_comp comp_def)
  have root: "root_sb v' = root_sb v" by (rule ext) (simp add: root_sb_def same sb)
  have pok: "path_ok v' = path_ok v" by (rule ext) (simp add: path_ok_def same sb root)
  have "entry_ok v' a x" if x: "dentries v' a = Some x" for a x
  proof -
    obtain y where y: "dentries v a = Some y" "d_sb x = d_sb y" "d_parent x = d_parent y" "set (d_subdirs x) \<subseteq> set (d_subdirs y)"
      "distinct (d_subdirs y) \<longrightarrow> distinct (d_subdirs x)"
      using x set_remove1_subset by (fastforce simp: e(2) upd_dentry_def split: if_splits)
    from wf_entry [OF assms(2) y(1)] y(2-5) show ?thesis by (auto simp: entry_ok_def same sb par)
  qed
  then have "wf_vfs v'"
    using assms(2) unfolding wf_vfs_def mount_ok_def same root pok par by simp
  then show ?thesis by (simp add: keeps_tree_def sb same)
qed

section \<open>File systems\<close>

text \<open>
  What the core relies on: the calls of a file system leave the tree alone, except that mounting returns
  a fresh root with a super block of its own.
\<close>

locale file_system =
  fixes ops :: fs_ops
  assumes lookup_tree: "o_lookup ops t = Some lookup \<Longrightarrow> lookup dir de v = Some (r, v') \<Longrightarrow> same_tree v v'"
    and mkdir_tree: "o_mkdir ops t = Some mkdir \<Longrightarrow> mkdir dir de mode v = Some (r, v') \<Longrightarrow> same_tree v v'"
    and mknod_tree: "o_mknod ops t = Some mknod \<Longrightarrow> mknod dir de mode devt v = Some (r, v') \<Longrightarrow> same_tree v v'"
    and open_tree: "o_open ops t = Some open \<Longrightarrow> open fp dir v = Some (r, v') \<Longrightarrow> same_tree v v'"
    and close_tree: "o_close ops t = Some close \<Longrightarrow> close fp v = Some (r, v') \<Longrightarrow> same_tree v v'"
    and read_tree: "o_read ops t = Some read \<Longrightarrow> read fp sz v = Some (r, bs, v') \<Longrightarrow> same_tree v v'"
    and write_tree: "o_write ops t = Some wr \<Longrightarrow> wr fp buff v = Some (r, v') \<Longrightarrow> same_tree v v'"
    and ioctl_tree: "o_ioctl ops t = Some ioctl \<Longrightarrow> ioctl fp cmd arg v = Some (r, v') \<Longrightarrow> same_tree v v'"
    and lseek_tree: "o_lseek ops t = Some seek \<Longrightarrow> seek fp off whence v = Some (pos, v') \<Longrightarrow> same_tree v v'"
    and readdir_tree: "o_readdir ops t = Some readdir \<Longrightarrow> readdir fp v = Some (r, d, v') \<Longrightarrow> same_tree v v'"
    and mount_tree: "o_mount ops name v = Some (root, v') \<Longrightarrow> 0 < brk v \<Longrightarrow>
      root = NULL \<and> same_tree v v' \<or>
      (\<exists>e. brk v \<le> root \<and> root < brk v' \<and> brk v \<le> d_sb e \<and> d_sb e < brk v' \<and> d_parent e = root \<and> d_subdirs e = []
         \<and> same_tree (v\<lparr>dentries := (dentries v)(root \<mapsto> e)\<rparr>) v')"
begin

lemma real_lookup_keeps:
  assumes "real_lookup ops parent unit v = Some (r, de, v')" "wf_vfs v"
  shows "keeps_tree v v'" "r \<ge> 0 \<Longrightarrow> sb_of v' de = sb_of v parent \<and> sb_of v' de \<noteq> None"
proof -
  obtain d v1 p dir lookup r1 v2 where a: "d_alloc parent unit v = Some (d, v1)" "dentries v1 parent = Some p" "inodes v1 (d_inode p) = Some dir"
    "o_lookup ops (i_op dir) = Some lookup" "lookup (d_inode p) d v1 = Some (r1, v2)"
    "if r1 < 0 then \<exists>v3. dput d v2 = Some v3 \<and> (r, de, v') = (r1, NULL, v3) else (r, de, v') = (0, d, v2)"
    using assms(1) by (auto simp: real_lookup_def split: bind_splits if_splits)
  have k1: "keeps_tree v v1" by (rule d_alloc_keeps [OF a(1) assms(2)])
  have s: "same_tree v1 v2" by (rule lookup_tree [OF a(4,5)])
  have k2: "keeps_tree v1 v2" using k1 s by (intro same_tree_keeps) (simp_all add: keeps_tree_def)
  note k = keeps_tree_trans [OF k1 k2]
  show "keeps_tree v v'"
  proof (cases "r1 < 0")
    case True
    with a(6) obtain v3 where "dput d v2 = Some v3" "v' = v3" by auto
    with dput_keeps [of d v2 v3] k show ?thesis using keeps_tree_trans [OF k] by (simp add: keeps_tree_def)
  qed (use a(6) k in simp)
  assume "r \<ge> 0"
  then have v': "v' = v2" "de = d" using a(6) by (auto split: if_splits)
  obtain q where "dentries v parent = Some q" "dentries v1 = (dentries v)(d \<mapsto> \<lparr> d_name = unit, d_inode = NULL, d_sb = d_sb q, d_parent = parent, d_subdirs = [] \<rparr>,
       parent \<mapsto> q\<lparr>d_subdirs := d_subdirs q @ [d]\<rparr>)" "parent \<noteq> d"
    using d_alloc_cases [OF a(1) assms(2)] by blast
  then have "sb_of v1 d = sb_of v parent" "sb_of v1 d \<noteq> None" by (auto simp: sb_of_def)
  then show "sb_of v' de = sb_of v parent \<and> sb_of v' de \<noteq> None" by (simp add: v' same_tree_parts(1) [OF s])
qed

end

lemma follow_up_ok:
  assumes "wf_vfs v" "path_ok v p" "mounts v (p_mnt p) = Some M" "mnt_parent M \<noteq> NULL" "follow_up p v = Some q"
  shows "path_ok v q"
proof -
  have "q = \<lparr> p_mnt = mnt_parent M, p_dentry = mountpoint M \<rparr>" using assms(3,5) by (simp add: follow_up_def)
  moreover have "p_mnt p \<in> set (mount_list v)" using assms(2) by (simp add: path_ok_def)
  ultimately show ?thesis using wf_mount [OF assms(1)] assms(3,4) by (metis option.inject)
qed

lemma parent_ok: "wf_vfs v \<Longrightarrow> path_ok v p \<Longrightarrow> dentries v (p_dentry p) = Some e \<Longrightarrow> path_ok v \<lparr> p_mnt = p_mnt p, p_dentry = d_parent e \<rparr>"
  by (frule (1) wf_entry) (simp add: path_ok_def entry_ok_def sb_of_def)

lemma d_lookup_child:
  assumes "wf_vfs v" "d_lookup parent name v = Some c" "c \<noteq> NULL"
  obtains p e where "dentries v parent = Some p" "c \<in> set (d_subdirs p)" "dentries v c = Some e" "d_name e = name" "d_parent e = parent"
    "d_sb e = d_sb p" "c \<noteq> parent"
proof -
  from assms(2,3) obtain p where p: "dentries v parent = Some p" "c \<in> set (d_subdirs p)" "map_option d_name (dentries v c) = Some name"
    by (auto simp: d_lookup_def find_Some_iff split: bind_splits option.splits)
  then show ?thesis using wf_entry [OF assms(1) p(1)] that by (auto simp: entry_ok_def sb_of_def)
qed

lemma follow_mount_ok:
  assumes "wf_vfs v" "path_ok v p" "follow_mount p v = Some q"
  shows "path_ok v q"
proof (cases "lookup_mnt (p_dentry p) v = NULL")
  case True
  then show ?thesis using assms by (simp add: follow_mount_def)
next
  case False
  then obtain M where "lookup_mnt (p_dentry p) v \<in> set (mount_list v)" "mounts v (lookup_mnt (p_dentry p) v) = Some M"
    "q = \<lparr> p_mnt = lookup_mnt (p_dentry p) v, p_dentry = mnt_root M \<rparr>"
    using assms(3) by (auto simp: follow_mount_def lookup_mnt_def find_Some_iff Let_def split: bind_splits option.splits)
  then show ?thesis by (simp add: path_ok_def root_sb_def)
qed

context file_system
begin

lemma do_lookup_keeps:
  assumes d: "do_lookup ops nd name nxt v = Some (r, v')" and wf: "wf_vfs v" and nd: "path_ok v nd" and nxt: "nxt = None \<or> nxt = Some nd"
  shows "keeps_tree v v' \<and> (\<forall>p. r = Inr p \<longrightarrow> path_ok v' p)"
proof -
  consider "name = ''.''" | "name = ''..''" | "name \<noteq> ''.''" "name \<noteq> ''..''" by blast
  then show ?thesis
  proof cases
    case 1
    then show ?thesis using d wf nd by (auto simp: do_lookup_def keeps_tree_refl)
  next
    case 2
    then have nx: "nxt = Some nd" using d nxt by (auto simp: do_lookup_def)
    obtain M where M: "mounts v (p_mnt nd) = Some M" using d nx 2 by (cases "mounts v (p_mnt nd)") (simp_all add: do_lookup_def)
    define q where "q = (if p_dentry nd = mnt_root M \<and> mnt_parent M \<noteq> NULL then \<lparr> p_mnt = mnt_parent M, p_dentry = mountpoint M \<rparr> else nd)"
    have q: "(if p_dentry nd = mnt_root M \<and> mnt_parent M \<noteq> NULL then follow_up nd v else Some nd) = Some q"
      using M by (simp add: q_def follow_up_def)
    have ok: "path_ok v q" using follow_up_ok [OF wf nd M] q nd by (simp add: q_def follow_up_def M split: if_splits)
    obtain e where e: "dentries v (p_dentry q) = Some e" "root_sb v (p_mnt q) = Some (d_sb e)" "entry_ok v (p_dentry q) e"
      by (rule path_ok_entry [OF wf ok])
    have "r = Inr \<lparr> p_mnt = p_mnt q, p_dentry = d_parent e \<rparr> \<and> v' = v"
      using d unfolding do_lookup_def 2 nx Option.bind.bind_lunit M q e(1) by simp
    then show ?thesis using parent_ok [OF wf ok e(1)] keeps_tree_refl [OF wf] by simp
  next
    case 3
    obtain c where c: "d_lookup (p_dentry nd) name v = Some c" using d 3 by (auto simp: do_lookup_def split: bind_splits)
    obtain ret de v1 where l: "(if c = NULL then real_lookup ops (p_dentry nd) name v else Some (0, c, v)) = Some (ret, de, v1)"
      "if ret < 0 then r = Inl ret \<and> v' = v1 else (\<exists>p. follow_mount \<lparr> p_mnt = p_mnt nd, p_dentry = de \<rparr> v1 = Some p \<and> r = Inr p \<and> v' = v1)"
      using d 3 c by (auto simp: do_lookup_def split: bind_splits if_splits)
    have k: "keeps_tree v v1 \<and> (ret \<ge> 0 \<longrightarrow> sb_of v1 de = sb_of v (p_dentry nd))"
    proof (cases "c = NULL")
      case True
      with l(1) real_lookup_keeps [of "p_dentry nd" name v ret de v1] wf show ?thesis by simp
    next
      case False
      obtain p e where "dentries v (p_dentry nd) = Some p" "c \<in> set (d_subdirs p)" "dentries v c = Some e" "d_name e = name" "d_parent e = p_dentry nd"
          "d_sb e = d_sb p" "c \<noteq> p_dentry nd"
        by (rule d_lookup_child [OF wf c False])
      with False l(1) keeps_tree_refl [OF wf] show ?thesis by (simp add: sb_of_def)
    qed
    then have wf1: "wf_vfs v1" "path_ok v1 nd" using keeps_path_ok [OF wf _ nd] by (auto simp: keeps_tree_def)
    have "path_ok v' p" if r: "r = Inr p" for p
    proof -
      have ret: "\<not> ret < 0" "follow_mount \<lparr> p_mnt = p_mnt nd, p_dentry = de \<rparr> v1 = Some p" "v' = v1" using l(2) r by (auto split: if_splits)
      moreover from ret k wf1(2) nd keeps_root_sb [OF wf, of v1 "p_mnt nd"] have "path_ok v1 \<lparr> p_mnt = p_mnt nd, p_dentry = de \<rparr>"
        by (simp add: path_ok_def)
      ultimately show ?thesis using follow_mount_ok [OF wf1(1)] by simp
    qed
    moreover have "v' = v1" using l(2) by (auto split: if_splits)
    ultimately show ?thesis using k by simp
  qed
qed

lemma walk_loop_keeps:
  "walk_loop ops s nd nxt v = Some (r, v') \<Longrightarrow> wf_vfs v \<Longrightarrow> path_ok v nd \<Longrightarrow> nxt = None \<or> nxt = Some nd
     \<Longrightarrow> keeps_tree v v' \<and> (\<forall>p. r = Inr p \<longrightarrow> path_ok v' p)"
proof (induction "length s" arbitrary: s nd nxt v rule: less_induct)
  case less
  show ?case
  proof (cases "dropWhile (\<lambda>c. c = CHR ''/'') s")
    case Nil
    then have "walk_loop ops s nd nxt v = Some (Inr nd, v)" by (simp only: walk_loop.simps [of ops s] list.case)
    then show ?thesis using less.prems by (auto simp: keeps_tree_refl)
  next
    case (Cons c s')
    let ?s = "dropWhile (\<lambda>c. c \<noteq> CHR ''/'') s'"
    have len: "length ?s < length s"
      using length_dropWhile_le [of "\<lambda>c. c \<noteq> CHR ''/''" s'] length_dropWhile_le [of "\<lambda>c. c = CHR ''/''" s] Cons by simp
    from less.prems(1) Cons consider "r = Inl (- ENOTDIR)" "v' = v"
      | x v1 where "do_lookup ops nd (c # takeWhile (\<lambda>c. c \<noteq> CHR ''/'') s') nxt v = Some (x, v1)"
          "case x of Inl ret \<Rightarrow> r = Inl ret \<and> v' = v1 | Inr q \<Rightarrow> walk_loop ops ?s q (Some q) v1 = Some (r, v')"
      by (subst (asm) walk_loop.simps) (auto simp: Let_def split: bind_splits if_splits sum.splits)
    then show ?thesis
    proof cases
      case 1
      then show ?thesis using less.prems(2) keeps_tree_refl by simp
    next
      case 2
      note d = do_lookup_keeps [OF 2(1) less.prems(2-4)]
      show ?thesis
      proof (cases x)
        case (Inl ret)
        then show ?thesis using 2(2) d by simp
      next
        case (Inr q)
        with 2(2) d less.hyps [OF len, of q "Some q" v1] have "keeps_tree v1 v' \<and> (\<forall>p. r = Inr p \<longrightarrow> path_ok v' p)"
          by (simp add: keeps_tree_def)
        with d show ?thesis using keeps_tree_trans by blast
      qed
    qed
  qed
qed

lemma path_walk_keeps:
  assumes "path_walk ops s v = Some (r, v')" "wf_vfs v"
  shows "keeps_tree v v'" "r = Inr p \<Longrightarrow> path_ok v' p"
proof -
  have "path_ok v (case s of CHR ''/'' # _ \<Rightarrow> fs_root v | _ \<Rightarrow> fs_pwd v)"
    using assms(2) by (auto simp: wf_vfs_def split: list.splits char.splits bool.splits)
  from walk_loop_keeps [OF assms(1) [unfolded path_walk_def] assms(2) this] show "keeps_tree v v'" "r = Inr p \<Longrightarrow> path_ok v' p" by auto
qed

end

section \<open>Mounting keeps the tree\<close>

lemma wf_add_mount:
  assumes wf: "wf_vfs v" and p: "path_ok v p" and new: "brk v \<le> mnt" "mnt < b" "brk v \<le> root" "root < b" "brk v \<le> d_sb e" "d_sb e < b"
    and e: "d_parent e = root" "d_subdirs e = []" and M: "mnt_root M = root" "mnt_parent M = p_mnt p" "mountpoint M = p_dentry p"
  shows "wf_vfs (v\<lparr>dentries := (dentries v)(root \<mapsto> e), mounts := (mounts v)(mnt \<mapsto> M), mount_list := mount_list v @ [mnt], brk := b\<rparr>)"
    (is "wf_vfs ?w")
proof -
  have fresh: "dentries v root = None" by (rule wf_fresh [OF wf new(3)])
  have sb: "sb_of ?w a = (if a = root then Some (d_sb e) else sb_of v a)" for a by (simp add: sb_of_def)
  have nosb: "sb_of v root = None" using fresh by (simp add: sb_of_def)
  have kept: "sb_of v a = Some s \<Longrightarrow> sb_of ?w a = Some s" for a s using nosb by (cases "a = root") (simp_all add: sb)
  have old: "m \<noteq> mnt" "mounts ?w m = mounts v m" "root_sb ?w m = root_sb v m" "\<exists>s<brk v. root_sb v m = Some s" if m: "m \<in> set (mount_list v)" for m
  proof -
    obtain N s where N: "mounts v m = Some N" "root_sb v m = Some s" "m < brk v" using wf_mount [OF wf m] by blast
    then show *: "m \<noteq> mnt" "mounts ?w m = mounts v m" using new(1) by auto
    from N have s: "sb_of v (mnt_root N) = Some s" by (simp add: root_sb_def)
    then show "root_sb ?w m = root_sb v m" using N * kept by (simp add: root_sb_def)
    from s obtain x where "dentries v (mnt_root N) = Some x" "d_sb x = s" by (auto simp: sb_of_def)
    then show "\<exists>s<brk v. root_sb v m = Some s" using wf_entry [OF wf] N(2) by (auto simp: entry_ok_def)
  qed
  have pok: "path_ok ?w q" if q: "path_ok v q" for q
  proof -
    have i: "p_mnt q \<in> set (mount_list v)" using q by (simp add: path_ok_def)
    obtain s where "root_sb v (p_mnt q) = Some s" using old(4) [OF i] by auto
    then show ?thesis using q i old(3) [OF i] kept by (simp add: path_ok_def)
  qed
  have "entry_ok ?w a x" if x: "dentries ?w a = Some x" for a x
  proof (cases "a = root")
    case True
    moreover have "0 < brk v" using wf by (simp add: wf_vfs_def)
    ultimately show ?thesis using x e new M(1) by (auto simp: entry_ok_def sb_of_def)
  next
    case False
    then have x': "dentries v a = Some x" using x by simp
    have "map_option d_parent (dentries ?w c) = map_option d_parent (dentries v c)" if "sb_of v c \<noteq> None" for c
      using that nosb by (cases "c = root") simp_all
    then show ?thesis using wf_entry [OF wf x'] new(3,4) kept old(1) by (auto simp: entry_ok_def)
  qed
  moreover have "mount_ok ?w m" if m: "m \<in> set (mount_list v @ [mnt])" for m
  proof (cases "m = mnt")
    case True
    obtain x where x: "dentries v (p_dentry p) = Some x" "root_sb v (p_mnt p) = Some (d_sb x)" "entry_ok v (p_dentry p) x"
      by (rule path_ok_entry [OF wf p])
    have "0 < p_mnt p" using p wf_mount [OF wf, of "p_mnt p"] by (auto simp: path_ok_def)
    moreover have "0 < brk v" "0 < p_dentry p" "p_dentry p < root" using wf x(3) new(3) by (simp_all add: wf_vfs_def entry_ok_def)
    moreover have eq: "\<lparr> p_mnt = p_mnt p, p_dentry = p_dentry p \<rparr> = p" by simp
    ultimately show ?thesis using True M e pok [OF p] new by (simp add: mount_ok_def eq)
  next
    case False
    then have i: "m \<in> set (mount_list v)" using m by simp
    have "mount_ok v m" using wf i by (simp add: wf_vfs_def)
    then show ?thesis using old(2) [OF i] pok new(1,2) fresh unfolding mount_ok_def by (auto split: option.splits if_splits)
  qed
  moreover have "root_sb ?w mnt = Some (d_sb e)" by (simp add: root_sb_def M(1) sb)
  then have "inj_on (root_sb ?w) (set (mount_list v @ [mnt]))"
    using wf old(3,4) new(5) by (fastforce simp: inj_on_def wf_vfs_def)
  moreover have "p_mnt (fs_root v) \<in> set (mount_list v)" using wf by (simp add: wf_vfs_def path_ok_def)
  ultimately show ?thesis using wf pok old(2) new(2) by (auto simp: wf_vfs_def)
qed

context file_system
begin

lemma new_mount_cases:
  assumes "new_mount ops dev type p v = Some (ret, mnt, v')" "0 < brk v"
  obtains "ret < 0" "same_tree v v'"
  | root e M b where "ret = 0" "brk v \<le> mnt" "mnt < b" "brk v \<le> root" "root < b" "brk v \<le> d_sb e" "d_sb e < b" "d_parent e = root" "d_subdirs e = []"
      "mnt_root M = root" "mnt_parent M = p_mnt p" "mountpoint M = p_dentry p" "mounts v' mnt = Some M"
      "same_tree (v\<lparr>dentries := (dentries v)(root \<mapsto> e), mounts := (mounts v)(mnt \<mapsto> M), mount_list := mount_list v @ [mnt], brk := b\<rparr>) v'"
proof -
  obtain a v1 where z: "new_obj v = (a, v1)" by fastforce
  note c = new_obj_cases [OF z]
  show thesis
  proof (cases "a = NULL")
    case True
    then show ?thesis using assms(1) c(1) z that(1) by (simp add: new_mount_def)
  next
    case False
    then have a: "a = brk v" "brk v1 = Suc (brk v)" using c(5) by auto
    obtain r root v2 where m: "do_mount ops type v1 = Some (r, root, v2)" using assms(1) z False by (auto simp: new_mount_def split: bind_splits)
    show ?thesis
    proof (cases "r < 0")
      case True
      then have r: "ret = r" "v' = v2" using assms(1) z False m by (auto simp: new_mount_def)
      have "same_tree v1 v2"
        using m True mount_tree [of type v1 root v2] a(2)
        by (auto simp: do_mount_def get_fs_type_def find_Some_iff split: option.splits bind_splits if_splits)
      then show ?thesis using that(1) True r same_tree_trans [OF c(1)] by simp
    next
      case False
      define M where "M = \<lparr> mnt_parent = p_mnt p, mountpoint = p_dentry p, mnt_root = root, fstype = type, dev_name = dev \<rparr>"
      have v': "ret = 0" "mnt = a" "v' = v2\<lparr>mounts := (mounts v2)(a \<mapsto> M), mount_list := mount_list v2 @ [a]\<rparr>"
        using assms(1) z \<open>a \<noteq> NULL\<close> m False by (auto simp: new_mount_def add_mount_def Let_def M_def)
      have o: "o_mount ops type v1 = Some (root, v2)" "root \<noteq> NULL"
        using m False by (auto simp: do_mount_def get_fs_type_def find_Some_iff split: option.splits bind_splits if_splits)
      with mount_tree [OF o(1)] a(2) obtain e where e: "brk v1 \<le> root" "root < brk v2" "brk v1 \<le> d_sb e" "d_sb e < brk v2" "d_parent e = root" "d_subdirs e = []"
          "same_tree (v1\<lparr>dentries := (dentries v1)(root \<mapsto> e)\<rparr>) v2" by auto
      show ?thesis
        by (rule that(2) [of "brk v2" root e M]) (use v' e a c(1,2) in \<open>auto simp: M_def same_tree_def\<close>)
    qed
  qed
qed

lemma new_mount_wf:
  assumes "new_mount ops dev type p v = Some (ret, mnt, v')" "wf_vfs v" "path_ok v p"
  shows "wf_vfs v'"
  using assms(1) wf_vfs_def [THEN iffD1, OF assms(2), THEN conjunct1]
proof (rule new_mount_cases)
  assume "same_tree v v'"
  then show ?thesis by (rule wf_same_tree [OF assms(2)])
qed (rule wf_same_tree [OF wf_add_mount [OF assms(2,3)]])

end

section \<open>System calls\<close>

text \<open>Every system call that returns is a step; the system starts with the root mounted on an empty tree.\<close>

inductive vfs_step :: "fs_ops \<Rightarrow> vfs \<Rightarrow> vfs \<Rightarrow> bool" for ops where
  mkdir: "sys_mkdir ops name mode v = Some (r, v') \<Longrightarrow> vfs_step ops v v'"
| mknod: "dev_mknod ops name mode devt v = Some (r, v') \<Longrightarrow> vfs_step ops v v'"
| chdir: "sys_chdir ops s v = Some (r, v') \<Longrightarrow> vfs_step ops v v'"
| mount: "sys_mount ops dev s type v = Some (r, v') \<Longrightarrow> vfs_step ops v v'"
| opened: "sys_open ops s flags v = Some (r, v') \<Longrightarrow> vfs_step ops v v'"
| closed: "file_close ops fd v = Some (r, v') \<Longrightarrow> vfs_step ops v v'"
| reads: "file_read ops fd sz v = Some (r, bs, v') \<Longrightarrow> vfs_step ops v v'"
| writes: "file_write ops fd buff v = Some (r, v') \<Longrightarrow> vfs_step ops v v'"
| ioctl: "sys_ioctl ops fd cmd arg v = Some (r, v') \<Longrightarrow> vfs_step ops v v'"
| seeks: "lseek ops fd off whence v = Some (pos, v') \<Longrightarrow> vfs_step ops v v'"
| getdents: "sys_getdents ops fd v = Some (r, d, v') \<Longrightarrow> vfs_step ops v v'"

inductive vfs_reach :: "fs_ops \<Rightarrow> vfs \<Rightarrow> bool" for ops where
  boot: "dentries v0 = Map.empty \<Longrightarrow> mount_list v0 = [] \<Longrightarrow> 0 < brk v0 \<Longrightarrow> mount_root ops dev type v0 = Some (0, v) \<Longrightarrow> vfs_reach ops v"
| step: "vfs_reach ops v \<Longrightarrow> vfs_step ops v v' \<Longrightarrow> vfs_reach ops v'"

text \<open>An entry that is taken back leaves the tree as it was.\<close>

lemma d_alloc_undone:
  assumes "d_alloc parent str v = Some (de, v1)" "wf_vfs v" "same_tree v1 v2" "dput de v2 = Some v3"
  shows "same_tree v (v3\<lparr>dentries := (dentries v3)(de := None)\<rparr>)"
proof -
  obtain p where p: "dentries v parent = Some p" "brk v \<le> de" "parent \<noteq> de"
    "dentries v1 = (dentries v)(de \<mapsto> \<lparr> d_name = str, d_inode = NULL, d_sb = d_sb p, d_parent = parent, d_subdirs = [] \<rparr>,
       parent \<mapsto> p\<lparr>d_subdirs := d_subdirs p @ [de]\<rparr>)"
    "same_tree v (v1\<lparr>dentries := dentries v\<rparr>)"
    using d_alloc_cases [OF assms(1,2)] by blast
  have fresh: "dentries v de = None" by (rule wf_fresh [OF assms(2) p(2)])
  then have "de \<notin> set (d_subdirs p)" using wf_entry [OF assms(2) p(1)] by (auto simp: entry_ok_def sb_of_def)
  then have undo: "remove1 de (d_subdirs p @ [de]) = d_subdirs p" by (simp add: remove1_append)
  have t: "map_option tree_part (dentries v2 a) = map_option tree_part (dentries v1 a)" for a
    using assms(3) by (simp add: same_tree_def)
  obtain e where e: "dentries v2 de = Some e" "v3 = upd_dentry (d_parent e) (\<lambda>p. p\<lparr>d_subdirs := remove1 de (d_subdirs p)\<rparr>) v2"
    using assms(4) by (auto simp: dput_def split: bind_splits)
  have par: "d_parent e = parent" using t [of de] e(1) p(3) by (simp add: p(4) tree_part_def)
  have "map_option tree_part (((dentries v3)(de := None)) a) = map_option tree_part (dentries v a)" for a
  proof -
    consider "a = de" | "a = parent" "a \<noteq> de" | "a \<noteq> parent" "a \<noteq> de" by blast
    then show ?thesis
    proof cases
      case 1
      then show ?thesis using fresh by simp
    next
      case 2
      obtain q where q: "dentries v2 parent = Some q" "tree_part q = tree_part (p\<lparr>d_subdirs := d_subdirs p @ [de]\<rparr>)"
        using t [of parent] by (auto simp: p(4))
      then show ?thesis using 2 p(1) undo by (simp add: e(2) par upd_dentry_def tree_part_def)
    next
      case 3
      then show ?thesis using t [of a] by (simp add: e(2) par upd_dentry_def p(4))
    qed
  qed
  then show ?thesis using p(5) assms(3) by (auto simp: same_tree_def e(2) upd_dentry_def)
qed

lemma wf_fs_pwd:
  assumes "wf_vfs v" "path_ok v p"
  shows "wf_vfs (v\<lparr>fs_pwd := p\<rparr>)"
proof -
  let ?w = "v\<lparr>fs_pwd := p\<rparr>"
  have sb: "sb_of ?w = sb_of v" by (simp add: fun_eq_iff sb_of_def)
  then have r: "root_sb ?w = root_sb v" by (simp add: fun_eq_iff root_sb_def)
  then have ok: "path_ok ?w = path_ok v" using sb by (simp add: fun_eq_iff path_ok_def)
  then have "mount_ok ?w = mount_ok v" "entry_ok ?w = entry_ok v"
    using sb by (simp_all add: fun_eq_iff mount_ok_def entry_ok_def split: option.split)
  then show ?thesis using assms by (simp add: wf_vfs_def ok r)
qed

context file_system
begin

lemma sys_mkdir_wf: assumes "sys_mkdir ops name mode v = Some (r, v')" "wf_vfs v" shows "wf_vfs v'"
proof -
  let ?dir = "p_dentry (fs_pwd v)" and ?n = "dropWhile (\<lambda>c. c = CHR ''/'') name"
  obtain de v1 where a: "d_alloc ?dir ?n v = Some (de, v1)"
    using assms(1) by (cases "d_alloc ?dir ?n v") (auto simp: sys_mkdir_def Let_def)
  obtain d where d: "dentries v1 ?dir = Some d"
    using assms(1) a by (cases "dentries v1 ?dir") (simp_all add: sys_mkdir_def Let_def)
  obtain ret v2 where m: "vfs_mkdir ops (d_inode d) de (mode OR S_IFDIR) v1 = Some (ret, v2)"
    using assms(1) a d by (cases "vfs_mkdir ops (d_inode d) de (mode OR S_IFDIR) v1") (auto simp: sys_mkdir_def Let_def)
  have r: "(if ret < 0 then dput de v2 \<bind> (\<lambda>v. Some (ret, v\<lparr>dentries := (dentries v)(de := None)\<rparr>)) else Some (ret, v2)) = Some (r, v')"
    using assms(1) by (simp add: sys_mkdir_def Let_def a d m)
  have s: "same_tree v1 v2"
    using m mkdir_tree by (auto simp: vfs_mkdir_def split: bind_splits option.splits)
  show ?thesis
  proof (cases "ret < 0")
    case True
    with r obtain v3 where "dput de v2 = Some v3" "v' = v3\<lparr>dentries := (dentries v3)(de := None)\<rparr>" by (auto split: bind_splits)
    then show ?thesis using wf_same_tree [OF assms(2) d_alloc_undone [OF a assms(2) s]] by simp
  next
    case False
    then show ?thesis using r wf_same_tree [OF _ s] d_alloc_keeps [OF a assms(2)] by (simp add: keeps_tree_def)
  qed
qed

lemma dev_mknod_wf: assumes "dev_mknod ops name mode devt v = Some (r, v')" "wf_vfs v" shows "wf_vfs v'"
proof -
  obtain x v1 where w: "path_walk ops ''/dev'' v = Some (x, v1)" using assms(1) by (auto simp: dev_mknod_def split: bind_splits)
  have wf1: "wf_vfs v1" using path_walk_keeps(1) [OF w assms(2)] by (simp add: keeps_tree_def)
  show ?thesis
  proof (cases x)
    case (Inl ret)
    then show ?thesis using assms(1) w wf1 by (simp add: dev_mknod_def)
  next
    case (Inr nd)
    with assms(1) w obtain de v2 where a: "d_alloc (p_dentry nd) name v1 = Some (de, v2)"
      by (cases "d_alloc (p_dentry nd) name v1") (auto simp: dev_mknod_def)
    obtain d where d: "dentries v2 (p_dentry nd) = Some d"
      using assms(1) w a Inr by (cases "dentries v2 (p_dentry nd)") (simp_all add: dev_mknod_def)
    obtain ret where m: "vfs_mknod ops (d_inode d) de mode devt v2 = Some (ret, v')"
      using assms(1) w a Inr d by (cases "vfs_mknod ops (d_inode d) de mode devt v2") (auto simp: dev_mknod_def)
    have "same_tree v2 v'" using m mknod_tree by (auto simp: vfs_mknod_def split: bind_splits option.splits)
    then show ?thesis using wf_same_tree d_alloc_keeps [OF a wf1] by (auto simp: keeps_tree_def)
  qed
qed

lemma sys_chdir_wf: assumes "sys_chdir ops s v = Some (r, v')" "wf_vfs v" shows "wf_vfs v'"
proof -
  obtain x v1 where w: "path_walk ops s v = Some (x, v1)" "(r, v') = (case x of Inl ret \<Rightarrow> (ret, v1) | Inr p \<Rightarrow> (0, v1\<lparr>fs_pwd := p\<rparr>))"
    using assms(1) by (auto simp: sys_chdir_def split: bind_splits)
  have wf1: "wf_vfs v1" using path_walk_keeps(1) [OF w(1) assms(2)] by (simp add: keeps_tree_def)
  note pwd = wf_fs_pwd [OF wf1]
  show ?thesis using w(2) wf1 pwd path_walk_keeps(2) [OF w(1) assms(2)] by (cases x) auto
qed

lemma sys_mount_wf: assumes "sys_mount ops dev s type v = Some (r, v')" "wf_vfs v" shows "wf_vfs v'"
proof -
  obtain x v1 where w: "path_walk ops s v = Some (x, v1)" using assms(1) by (auto simp: sys_mount_def split: bind_splits)
  have wf1: "wf_vfs v1" using path_walk_keeps(1) [OF w assms(2)] by (simp add: keeps_tree_def)
  show ?thesis
    using assms(1) w wf1 path_walk_keeps(2) [OF w assms(2)] new_mount_wf [OF _ wf1]
    by (cases x) (auto simp: sys_mount_def split: bind_splits)
qed

lemma dentry_open_tree: "dentry_open ops d fp v = Some (r, v') \<Longrightarrow> same_tree v v'"
proof -
  assume a: "dentry_open ops d fp v = Some (r, v')"
  have u: "same_tree v (upd_file fp f v)" for f by (simp add: same_tree_def upd_file_def)
  from a show ?thesis
    by (auto simp: dentry_open_def Let_def u split: bind_splits if_splits option.splits intro: same_tree_trans [OF u open_tree])
qed

lemma sys_open_wf: assumes "sys_open ops s flags v = Some (r, v')" "wf_vfs v" shows "wf_vfs v'"
proof (cases "get_unused_fd v < 0")
  case True
  then show ?thesis using assms by (simp add: sys_open_def)
next
  case False
  then obtain x v1 where w: "path_walk ops s v = Some (x, v1)" using assms(1) by (auto simp: sys_open_def Let_def split: bind_splits)
  have wf1: "wf_vfs v1" using path_walk_keeps(1) [OF w assms(2)] by (simp add: keeps_tree_def)
  show ?thesis
  proof (cases x)
    case (Inl ret)
    then show ?thesis using assms(1) w wf1 False by (simp add: sys_open_def)
  next
    case (Inr p)
    obtain fp v2 where z: "new_obj v1 = (fp, v2)" by fastforce
    have t: "same_tree v1 v2" by (rule new_obj_cases(1) [OF z])
    show ?thesis
    proof (cases "fp = NULL")
      case True
      then show ?thesis using assms(1) w Inr z wf_same_tree [OF wf1 t] False by (simp add: sys_open_def)
    next
      case fp: False
      let ?v = "v2\<lparr>files := (files v2)(fp \<mapsto> \<lparr> f_pos = 0, f_flags = flags, f_op = NO_OPS, f_dentry = NULL, private_data = NULL \<rparr>)\<rparr>"
      obtain ret v3 where o: "dentry_open ops (p_dentry p) fp ?v = Some (ret, v3)"
        "v' = (if ret < 0 then v3\<lparr>files := (files v3)(fp := None)\<rparr> else fd_install (nat (get_unused_fd v)) fp v3)"
        using assms(1) w Inr z fp False by (auto simp: sys_open_def Let_def split: bind_splits if_splits)
      have "same_tree v2 ?v" "same_tree v3 v'" by (auto simp: same_tree_def o(2) fd_install_def)
      then have "same_tree v1 v'" using t dentry_open_tree [OF o(1)] by (blast intro: same_tree_trans)
      then show ?thesis by (rule wf_same_tree [OF wf1])
    qed
  qed
qed

lemma step_wf: "vfs_step ops v v' \<Longrightarrow> wf_vfs v \<Longrightarrow> wf_vfs v'"
proof (induction rule: vfs_step.induct)
  case (closed fd v r v')
  have u: "same_tree v (fd_install a NULL v)" for a by (simp add: same_tree_def fd_install_def)
  have "same_tree v v'" using closed(1) u
    by (auto simp: file_close_def Let_def split: bind_splits if_splits option.splits intro: same_tree_trans [OF u close_tree])
  then show ?case by (rule wf_same_tree [OF closed(2)])
qed (auto intro: sys_mkdir_wf dev_mknod_wf sys_chdir_wf sys_mount_wf sys_open_wf
  simp: file_read_def file_write_def sys_ioctl_def lseek_def sys_getdents_def Let_def split: bind_splits if_splits option.splits
  dest: read_tree write_tree ioctl_tree lseek_tree readdir_tree wf_same_tree)

lemma mount_root_wf:
  assumes "mount_root ops dev type v0 = Some (0, v)" "dentries v0 = Map.empty" "mount_list v0 = []" "0 < brk v0"
  shows "wf_vfs v"
proof -
  obtain ret mnt v1 where n: "new_mount ops dev type \<lparr> p_mnt = NULL, p_dentry = NULL \<rparr> v0 = Some (ret, mnt, v1)"
    using assms(1) by (cases "new_mount ops dev type \<lparr> p_mnt = NULL, p_dentry = NULL \<rparr> v0") (auto simp: mount_root_def)
  have ret: "\<not> ret < 0" using assms(1) n by (auto simp: mount_root_def)
  show ?thesis
    using n assms(4)
  proof (rule new_mount_cases)
    fix root e M b
    let ?p = "\<lparr> p_mnt = mnt, p_dentry = root \<rparr>"
    let ?w = "v0\<lparr>dentries := (dentries v0)(root \<mapsto> e), mounts := (mounts v0)(mnt \<mapsto> M), mount_list := mount_list v0 @ [mnt], brk := b\<rparr>"
    assume a: "ret = 0" "brk v0 \<le> mnt" "mnt < b" "brk v0 \<le> root" "root < b" "brk v0 \<le> d_sb e" "d_sb e < b" "d_parent e = root" "d_subdirs e = []"
      "mnt_root M = root" "mnt_parent M = p_mnt \<lparr> p_mnt = NULL, p_dentry = NULL \<rparr>" "mountpoint M = p_dentry \<lparr> p_mnt = NULL, p_dentry = NULL \<rparr>"
      "mounts v1 mnt = Some M" "same_tree ?w v1"
    have v: "v = v1\<lparr>fs_root := ?p, fs_pwd := ?p\<rparr>" using assms(1) n a(1,10,13) by (simp add: mount_root_def Let_def)
    have "wf_vfs (?w\<lparr>fs_root := ?p, fs_pwd := ?p\<rparr>)"
      using a(2-12) assms(2-4) by (simp add: wf_vfs_def entry_ok_def mount_ok_def path_ok_def root_sb_def sb_of_def)
    moreover have "same_tree (?w\<lparr>fs_root := ?p, fs_pwd := ?p\<rparr>) v" using a(14) by (simp add: v same_tree_def)
    ultimately show ?thesis by (rule wf_same_tree)
  qed (use ret in simp)
qed

lemma reach_wf: "vfs_reach ops v \<Longrightarrow> wf_vfs v"
  by (induction rule: vfs_reach.induct) (auto intro: mount_root_wf step_wf)

end

section \<open>Absolute paths\<close>

text \<open>
  The abstract view of the tree: from a directory, a name leads to the entry that the directory lists under it, or to the root
  of the file system mounted there; \<open>resolve\<close> follows a list of names.
\<close>

definition enter :: "fs_ops \<Rightarrow> vfs \<Rightarrow> path \<Rightarrow> string \<Rightarrow> path option" where
  "enter ops v p n = do {
     e \<leftarrow> dentries v (p_dentry p);
     i \<leftarrow> inodes v (d_inode e);
     c \<leftarrow> d_lookup (p_dentry p) n v;
     if cannot_lookup ops i \<noteq> Some False \<or> c = NULL then None else follow_mount \<lparr> p_mnt = p_mnt p, p_dentry = c \<rparr> v }"

fun resolve :: "fs_ops \<Rightarrow> vfs \<Rightarrow> path \<Rightarrow> string list \<Rightarrow> path option" where
  "resolve ops v p [] = Some p"
| "resolve ops v p (n # ns) = enter ops v p n \<bind> (\<lambda>q. resolve ops v q ns)"

definition path_name :: "string \<Rightarrow> bool" where
  "path_name n \<longleftrightarrow> n \<noteq> [] \<and> CHR ''/'' \<notin> set n \<and> n \<noteq> ''.'' \<and> n \<noteq> ''..''"

definition path_text :: "string list \<Rightarrow> string" where
  "path_text ns = (if ns = [] then ''/'' else concat (map ((#) CHR ''/'') ns))"

lemma resolve_snoc: "resolve ops v p (ns @ [n]) = resolve ops v p ns \<bind> (\<lambda>q. enter ops v q n)"
  by (induction ns arbitrary: p) (auto simp: Option.bind_assoc)

lemma follow_mount_pwd [simp]: "follow_mount p (v\<lparr>fs_pwd := x\<rparr>) = follow_mount p v"
  by (simp add: follow_mount_def lookup_mnt_def Let_def)

lemma d_lookup_pwd [simp]: "d_lookup a n (v\<lparr>fs_pwd := x\<rparr>) = d_lookup a n v"
  by (simp add: d_lookup_def)

lemma enter_pwd [simp]: "enter ops (v\<lparr>fs_pwd := x\<rparr>) p n = enter ops v p n"
  by (simp add: enter_def cong: if_cong)

lemma resolve_pwd [simp]: "resolve ops (v\<lparr>fs_pwd := x\<rparr>) p ns = resolve ops v p ns"
  by (induction ns arbitrary: p) simp_all

lemma enter_cases:
  assumes "enter ops v p n = Some q"
  obtains e i c where "dentries v (p_dentry p) = Some e" "inodes v (d_inode e) = Some i" "cannot_lookup ops i = Some False"
    "d_lookup (p_dentry p) n v = Some c" "c \<noteq> NULL" "follow_mount \<lparr> p_mnt = p_mnt p, p_dentry = c \<rparr> v = Some q"
proof -
  obtain e where e: "dentries v (p_dentry p) = Some e" using assms by (cases "dentries v (p_dentry p)") (simp_all add: enter_def)
  obtain i where i: "inodes v (d_inode e) = Some i" using assms e by (cases "inodes v (d_inode e)") (simp_all add: enter_def)
  obtain c where c: "d_lookup (p_dentry p) n v = Some c" using assms e i by (cases "d_lookup (p_dentry p) n v") (simp_all add: enter_def)
  show ?thesis using that [OF e i _ c] assms e i c by (simp add: enter_def split: if_splits)
qed

lemma walk_text:
  "resolve ops v p ns = Some q \<Longrightarrow> list_all path_name ns \<Longrightarrow> walk_loop ops (concat (map ((#) CHR ''/'') ns)) p nx v = Some (Inr q, v)"
proof (induction ns arbitrary: p nx)
  case Nil
  then show ?case by (simp add: walk_loop.simps)
next
  case (Cons n ns)
  from Cons.prems(1) obtain r where r: "enter ops v p n = Some r" "resolve ops v r ns = Some q" by (auto split: bind_splits)
  obtain e i c where e: "dentries v (p_dentry p) = Some e" "inodes v (d_inode e) = Some i" "cannot_lookup ops i = Some False"
    "d_lookup (p_dentry p) n v = Some c" "c \<noteq> NULL" "follow_mount \<lparr> p_mnt = p_mnt p, p_dentry = c \<rparr> v = Some r"
    by (rule enter_cases [OF r(1)])
  from Cons.prems(2) obtain h t where n: "n = h # t" "h \<noteq> CHR ''/''" "CHR ''/'' \<notin> set t" "n \<noteq> ''.''" "n \<noteq> ''..''"
    by (cases n) (auto simp: path_name_def)
  let ?rest = "concat (map ((#) CHR ''/'') ns)"
  have sep: "?rest = [] \<or> (\<exists>s. ?rest = CHR ''/'' # s)" by (cases ns) simp_all
  have all: "c \<in> set t \<Longrightarrow> c \<noteq> CHR ''/''" for c using n(3) by metis
  have t: "takeWhile (\<lambda>c. c \<noteq> CHR ''/'') (t @ ?rest) = t"
    using sep by (subst takeWhile_append2) (fastforce dest: all)+
  have r': "dropWhile (\<lambda>c. c \<noteq> CHR ''/'') (t @ ?rest) = ?rest"
    using sep by (subst dropWhile_append2) (fastforce dest: all)+
  have d: "do_lookup ops p n nx v = Some (Inr r, v)" using n(4,5) e(4,5,6) by (simp add: do_lookup_def)
  show ?case
    by (subst walk_loop.simps) (simp add: n(1,2) t r' e(1-3) d [unfolded n(1)] Cons.IH [OF r(2)] Cons.prems(2) [simplified])
qed

lemma path_walk_text:
  assumes "resolve ops v (fs_root v) ns = Some p" "list_all path_name ns"
  shows "path_walk ops (path_text ns) v = Some (Inr p, v)"
proof (cases ns)
  case Nil
  then show ?thesis using assms(1) by (simp add: path_walk_def path_text_def walk_loop.simps)
next
  case (Cons n ms)
  then show ?thesis using walk_text [OF assms, of None] by (simp add: path_walk_def path_text_def)
qed

lemma enter_ok:
  assumes "enter ops v p n = Some q" "wf_vfs v" "path_ok v p"
  shows "path_ok v q"
proof -
  obtain e i c where e: "dentries v (p_dentry p) = Some e" "inodes v (d_inode e) = Some i" "cannot_lookup ops i = Some False"
    "d_lookup (p_dentry p) n v = Some c" "c \<noteq> NULL" "follow_mount \<lparr> p_mnt = p_mnt p, p_dentry = c \<rparr> v = Some q"
    by (rule enter_cases [OF assms(1)])
  obtain d x where d: "dentries v (p_dentry p) = Some d" "c \<in> set (d_subdirs d)" "dentries v c = Some x" "d_name x = n" "d_parent x = p_dentry p"
    "d_sb x = d_sb d" "c \<noteq> p_dentry p" by (rule d_lookup_child [OF assms(2) e(4,5)])
  have "path_ok v \<lparr> p_mnt = p_mnt p, p_dentry = c \<rparr>" using assms(3) d by (simp add: path_ok_def sb_of_def)
  then show ?thesis by (rule follow_mount_ok [OF assms(2) _ e(6)])
qed

lemma path_ok_mnt_unique:
  assumes "wf_vfs v" "path_ok v p" "path_ok v q" "sb_of v (p_dentry p) = sb_of v (p_dentry q)"
  shows "p_mnt p = p_mnt q"
  using assms unfolding wf_vfs_def path_ok_def by (metis inj_onD)

text \<open>Going up from the entry named \<open>n\<close> takes note of the name and comes to the directory it was found in.\<close>

lemma cwd_loop_child:
  assumes "wf_vfs v" "path_ok v p" "d_lookup (p_dentry p) n v = Some c" "c \<noteq> NULL" "length st + 1 < PATH_STACK_SIZE"
  shows "cwd_loop \<lparr> p_mnt = p_mnt p, p_dentry = c \<rparr> st v = cwd_loop p (n # st) v"
proof -
  obtain d x where d: "dentries v (p_dentry p) = Some d" "c \<in> set (d_subdirs d)" "dentries v c = Some x" "d_name x = n" "d_parent x = p_dentry p"
    "d_sb x = d_sb d" "c \<noteq> p_dentry p" by (rule d_lookup_child [OF assms(1,3,4)])
  have notroot: "c \<noteq> mnt_root M" if M: "m \<in> set (mount_list v)" "mounts v m = Some M" for m M
    using wf_mount [OF assms(1) M(1)] M(2) d(3,5,7) by force
  obtain M where M: "mounts v (p_mnt p) = Some M" using wf_mount [OF assms(1), of "p_mnt p"] assms(2) by (auto simp: path_ok_def)
  have "c \<noteq> mnt_root M" using notroot [OF _ M] assms(2) by (simp add: path_ok_def)
  moreover have "c \<noteq> p_dentry (fs_root v)" using notroot assms(1) unfolding wf_vfs_def path_ok_def by metis
  ultimately show ?thesis using M d(3,4,5) assms(5) by (subst cwd_loop.simps) (cases p; simp add: Let_def)
qed

lemma cwd_loop_enter:
  assumes "wf_vfs v" "path_ok v p" "enter ops v p n = Some q" "length st + 1 < PATH_STACK_SIZE"
  shows "cwd_loop q st v = cwd_loop p (n # st) v"
proof -
  obtain e i c where e: "dentries v (p_dentry p) = Some e" "inodes v (d_inode e) = Some i" "cannot_lookup ops i = Some False"
    "d_lookup (p_dentry p) n v = Some c" "c \<noteq> NULL" "follow_mount \<lparr> p_mnt = p_mnt p, p_dentry = c \<rparr> v = Some q"
    by (rule enter_cases [OF assms(3)])
  note up = cwd_loop_child [OF assms(1,2) e(4,5) assms(4)]
  show ?thesis
  proof (cases "lookup_mnt c v = NULL")
    case True
    then show ?thesis using e(6) up by (simp add: follow_mount_def)
  next
    case False
    let ?m = "lookup_mnt c v"
    obtain M where M: "?m \<in> set (mount_list v)" "mounts v ?m = Some M" "mountpoint M = c" "q = \<lparr> p_mnt = ?m, p_dentry = mnt_root M \<rparr>"
      using False e(6) by (auto simp: follow_mount_def lookup_mnt_def find_Some_iff Let_def split: bind_splits option.splits)
    have ok: "mnt_parent M \<noteq> NULL" "path_ok v \<lparr> p_mnt = mnt_parent M, p_dentry = c \<rparr>"
      using wf_mount [OF assms(1) M(1)] M(2,3) e(5) by force+
    obtain d x where d: "dentries v (p_dentry p) = Some d" "c \<in> set (d_subdirs d)" "dentries v c = Some x" "d_name x = n" "d_parent x = p_dentry p"
      "d_sb x = d_sb d" "c \<noteq> p_dentry p" by (rule d_lookup_child [OF assms(1) e(4,5)])
    have "path_ok v \<lparr> p_mnt = p_mnt p, p_dentry = c \<rparr>" using assms(2) d by (simp add: path_ok_def sb_of_def)
    then have par: "mnt_parent M = p_mnt p" using path_ok_mnt_unique [OF assms(1) ok(2)] by simp
    have "path_ok v q" "path_ok v (fs_root v)" using enter_ok [OF assms(3,1,2)] assms(1) by (simp_all add: wf_vfs_def)
    then have "p_dentry q \<noteq> p_dentry (fs_root v)"
      using path_ok_mnt_unique [OF assms(1)] M(2,4) ok(1) assms(1) unfolding wf_vfs_def by (metis option.inject path.select_convs(1))
    then have "cwd_loop q st v = cwd_loop \<lparr> p_mnt = p_mnt p, p_dentry = c \<rparr> st v"
      using M par by (subst cwd_loop.simps) (simp add: follow_up_def)
    with up show ?thesis by simp
  qed
qed

lemma resolve_ok: "resolve ops v p ns = Some q \<Longrightarrow> wf_vfs v \<Longrightarrow> path_ok v p \<Longrightarrow> path_ok v q"
  by (induction ns arbitrary: p) (auto dest: enter_ok split: bind_splits)

lemma cwd_loop_resolve:
  "resolve ops v (fs_root v) ns = Some p \<Longrightarrow> wf_vfs v \<Longrightarrow> length ns + length st < PATH_STACK_SIZE \<Longrightarrow> cwd_loop p st v = Some (ns @ st)"
proof (induction ns arbitrary: p st rule: rev_induct)
  case Nil
  then show ?case by (simp add: cwd_loop.simps)
next
  case (snoc n ns)
  then obtain q where q: "resolve ops v (fs_root v) ns = Some q" "enter ops v q n = Some p" by (auto simp: resolve_snoc split: bind_splits)
  have "path_ok v q" using resolve_ok [OF q(1) snoc.prems(2)] snoc.prems(2) by (simp add: wf_vfs_def)
  then have "cwd_loop p st v = cwd_loop q (n # st) v" using cwd_loop_enter [OF snoc.prems(2) _ q(2)] snoc.prems(3) by simp
  then show ?case using snoc.IH [OF q(1) snoc.prems(2), of "n # st"] snoc.prems(3) by simp
qed

lemma cwd_text_all: "count + length (concat (map ((#) CHR ''/'') ns)) < sz \<Longrightarrow> cwd_text sz count ns = concat (map ((#) CHR ''/'') ns)"
  by (induction ns arbitrary: count) (simp_all add: Let_def)

lemma getcwd_resolve:
  assumes "resolve ops v (fs_root v) ns = Some (fs_pwd v)" "wf_vfs v" "length ns < PATH_STACK_SIZE" "length (path_text ns) < sz"
  shows "sys_getcwd sz v = Some (length (path_text ns), path_text ns)"
  using cwd_loop_resolve [OF assms(1,2), of "[]"] assms(3,4) cwd_text_all [of 0 ns sz]
  by (cases "ns = []") (simp_all add: sys_getcwd_def path_text_def Let_def)

text \<open>The way up ends: addresses fall until it comes to the root.\<close>

lemma cwd_loop_returns: "wf_vfs v \<Longrightarrow> path_ok v p \<Longrightarrow> \<exists>ns. cwd_loop p st v = Some ns"
proof (induction "p_dentry p" arbitrary: p st rule: less_induct)
  case less
  have i: "p_mnt p \<in> set (mount_list v)" using less.prems(2) by (simp add: path_ok_def)
  obtain M s where M: "mounts v (p_mnt p) = Some M" "root_sb v (p_mnt p) = Some s" "mountpoint M < mnt_root M"
    "mnt_parent M = NULL \<Longrightarrow> mountpoint M = NULL \<and> p_mnt p = p_mnt (fs_root v)"
    using wf_mount [OF less.prems(1) i] by metis
  obtain e where e: "dentries v (p_dentry p) = Some e" "root_sb v (p_mnt p) = Some (d_sb e)" "entry_ok v (p_dentry p) e"
    by (rule path_ok_entry [OF less.prems])
  consider "p_dentry p = p_dentry (fs_root v)" | "p_dentry p \<noteq> p_dentry (fs_root v)" "p_dentry p = mnt_root M" | "p_dentry p \<noteq> p_dentry (fs_root v)" "p_dentry p \<noteq> mnt_root M"
    by blast
  then show ?case
  proof cases
    case 1
    then show ?thesis by (simp add: cwd_loop.simps)
  next
    case 2
    have par: "mnt_parent M \<noteq> NULL"
    proof
      assume "mnt_parent M = NULL"
      then have "p_mnt p = p_mnt (fs_root v)" using M(4) by simp
      then show False using 2 M(1) less.prems(1) by (auto simp: wf_vfs_def)
    qed
    let ?q = "\<lparr> p_mnt = mnt_parent M, p_dentry = mountpoint M \<rparr>"
    have q: "follow_up p v = Some ?q" using M(1) by (simp add: follow_up_def)
    have "\<exists>ns. cwd_loop ?q st v = Some ns"
      by (rule less.hyps) (use M(3) 2 follow_up_ok [OF less.prems M(1) par q] less.prems(1) in simp_all)
    then show ?thesis using 2 M(1) q by (subst cwd_loop.simps) simp
  next
    case 3
    have "d_parent e \<noteq> p_dentry p"
    proof
      assume "d_parent e = p_dentry p"
      then obtain m N where m: "m \<in> set (mount_list v)" "mounts v m = Some N" "mnt_root N = p_dentry p" using e(3) by (auto simp: entry_ok_def)
      then have "root_sb v m = root_sb v (p_mnt p)" using e(1,2) by (simp add: root_sb_def sb_of_def)
      then have "m = p_mnt p" using less.prems(1) m(1) i by (auto simp: wf_vfs_def inj_on_def)
      then show False using m M(1) 3 by simp
    qed
    then have up: "d_parent e < p_dentry p" using e(3) by (simp add: entry_ok_def)
    have "\<exists>ns. cwd_loop (p\<lparr>p_dentry := d_parent e\<rparr>) (d_name e # st) v = Some ns"
    proof (rule less.hyps)
      show "path_ok v (p\<lparr>p_dentry := d_parent e\<rparr>)" using parent_ok [OF less.prems e(1)] by (cases p) simp
    qed (use up less.prems(1) in simp_all)
    then show ?thesis using 3 M(1) e(1) by (subst cwd_loop.simps) (simp add: Let_def)
  qed
qed

end
