(* ===== verification/Ramfs.thy ===== *)
theory Ramfs
  imports Vfs
begin

unbundle bit_operations_syntax

text \<open>
  The file systems without a medium, \<^verbatim>\<open>fs/ramfs/ramfs.c\<close> and \<^verbatim>\<open>fs/devfs\<close> with the character devices. \<open>std_ops drv\<close>
  are their operation tables, for drivers whose tables \<open>drv\<close> holds; they satisfy the laws of \<open>file_system\<close> when the drivers do.
\<close>

section \<open>RAM file system\<close>

definition blank_inode :: "nat \<Rightarrow> u32 \<Rightarrow> inode" where
  "blank_inode sb ino = \<lparr> i_ino = ino, i_size = 0, i_mode = 0, i_rdev = 0, i_sb = sb, i_op = NO_OPS, i_fop = NO_OPS \<rparr>"

definition ramfs_alloc_inode :: "nat \<Rightarrow> vfs \<Rightarrow> nat \<times> vfs" where
  "ramfs_alloc_inode sb v =
     (let (rin, v) = new_obj v
      in if rin = NULL then (NULL, v)
         else (rin, v\<lparr>inodes := (inodes v)(rin \<mapsto> blank_inode sb (inode_count v)), inode_count := inode_count v + 1\<rparr>))"

text \<open>A mode that is neither that of a file nor of a directory is a \<^verbatim>\<open>BUG\<close>.\<close>

definition ramfs_inode_create :: "nat \<Rightarrow> u32 \<Rightarrow> vfs \<Rightarrow> (nat \<times> vfs) option" where
  "ramfs_inode_create sb mode v =
     (let (inode, v) = ramfs_alloc_inode sb v
      in if inode = NULL then Some (NULL, v)
         else if mode AND S_IFMT = S_IFREG
           then Some (inode, upd_inode inode (\<lambda>i. i\<lparr>i_mode := mode, i_op := RAMFS_REG, i_fop := RAMFS_REG\<rparr>) v)
         else if mode AND S_IFMT = S_IFDIR
           then Some (inode, upd_inode inode (\<lambda>i. i\<lparr>i_mode := mode, i_op := RAMFS_DIR, i_fop := RAMFS_DIR\<rparr>) v)
         else None)"

text \<open>\<^verbatim>\<open>sget\<close> and the information of the super block are one allocation each.\<close>

definition mount_with :: "(nat \<Rightarrow> u32 \<Rightarrow> vfs \<Rightarrow> (nat \<times> vfs) option) \<Rightarrow> vfs \<Rightarrow> (nat \<times> vfs) option" where
  "mount_with inode_create v =
     (let (sb, v) = new_obj v
      in if sb = NULL then Some (NULL, v)
         else let (info, v) = new_obj v
              in if info = NULL then Some (NULL, v) else do { (in', v) \<leftarrow> inode_create sb S_IFDIR v; d_make_root in' v })"

definition ramfs_mount :: "vfs \<Rightarrow> (nat \<times> vfs) option" where
  "ramfs_mount = mount_with ramfs_inode_create"

text \<open>Files hold nothing.\<close>

definition ramfs_open :: "nat \<Rightarrow> nat \<Rightarrow> vfs \<Rightarrow> (int \<times> vfs) option" where
  "ramfs_open fp inode v = Some (0, v)"

definition ramfs_close :: "nat \<Rightarrow> vfs \<Rightarrow> (int \<times> vfs) option" where
  "ramfs_close fp v = Some (0, v)"

definition ramfs_read :: "nat \<Rightarrow> nat \<Rightarrow> vfs \<Rightarrow> (int \<times> u8 list \<times> vfs) option" where
  "ramfs_read fp sz v = Some (0, [], v)"

definition ramfs_write :: "nat \<Rightarrow> u8 list \<Rightarrow> vfs \<Rightarrow> (int \<times> vfs) option" where
  "ramfs_write fp buff v = Some (0, v)"

definition ramfs_lookup :: "nat \<Rightarrow> nat \<Rightarrow> vfs \<Rightarrow> (int \<times> vfs) option" where
  "ramfs_lookup parent dentry v = Some (0, v)"

definition ramfs_mkdir :: "nat \<Rightarrow> nat \<Rightarrow> u32 \<Rightarrow> vfs \<Rightarrow> (int \<times> vfs) option" where
  "ramfs_mkdir parent de mode v = do {
     p \<leftarrow> inodes v parent;
     let (inode, v) = ramfs_alloc_inode (i_sb p) v;
     if inode = NULL then Some (- ENOMEM, v)
     else Some (0, upd_inode parent (\<lambda>i. i\<lparr>i_size := i_size i + 1\<rparr>) (upd_dentry de (\<lambda>e. e\<lparr>d_inode := inode\<rparr>)
       (upd_inode inode (\<lambda>i. i\<lparr>i_mode := mode, i_op := RAMFS_DIR, i_fop := RAMFS_DIR\<rparr>) v))) }"

text \<open>
  An open directory keeps in \<open>private_data\<close> the node of the list to be read next: an entry, or the directory itself for the head of the
  list. Reading goes on with the successor in the list of the directory.
\<close>

definition dir_open :: "nat \<Rightarrow> nat \<Rightarrow> vfs \<Rightarrow> (int \<times> vfs) option" where
  "dir_open fp inode v = do {
     f \<leftarrow> files v fp;
     e \<leftarrow> dentries v (f_dentry f);
     Some (0, upd_file fp (\<lambda>f. f\<lparr>private_data := hd (d_subdirs e @ [f_dentry f])\<rparr>) v) }"

definition child_after :: "nat \<Rightarrow> nat list \<Rightarrow> nat \<Rightarrow> nat option" where
  "child_after head cs iter = (case dropWhile (\<lambda>c. c \<noteq> iter) cs of [] \<Rightarrow> None | _ # cs \<Rightarrow> Some (hd (cs @ [head])))"

definition dir_read :: "int \<Rightarrow> nat \<Rightarrow> vfs \<Rightarrow> (int \<times> linux_dirent option \<times> vfs) option" where
  "dir_read ret fp v = do {
     f \<leftarrow> files v fp;
     e \<leftarrow> dentries v (f_dentry f);
     i \<leftarrow> inodes v (d_inode e);
     if f_pos f \<ge> i_size i then Some (0, None, v)
     else if private_data f = f_dentry f then None
     else do {
       de \<leftarrow> dentries v (private_data f);
       in' \<leftarrow> inodes v (d_inode de);
       lde \<leftarrow> filldir (d_name de) 0 (i_ino in') (i_mode in');
       iter \<leftarrow> child_after (f_dentry f) (d_subdirs e) (private_data f);
       Some (ret, Some lde, upd_file fp (\<lambda>f. f\<lparr>private_data := iter, f_pos := f_pos f + 1\<rparr>) v) } }"

text \<open>\<^verbatim>\<open>ramfs_readdir\<close> returns the size of \<^verbatim>\<open>struct dentry\<close>.\<close>

definition ramfs_opendir :: "nat \<Rightarrow> nat \<Rightarrow> vfs \<Rightarrow> (int \<times> vfs) option" where
  "ramfs_opendir = dir_open"

definition ramfs_readdir :: "nat \<Rightarrow> vfs \<Rightarrow> (int \<times> linux_dirent option \<times> vfs) option" where
  "ramfs_readdir = dir_read 72"

definition ramfs_init :: "vfs \<Rightarrow> int \<times> vfs" where
  "ramfs_init = register_filesystem ''ramfs''"

section \<open>Device file system\<close>

definition devfs_alloc_inode :: "nat \<Rightarrow> vfs \<Rightarrow> nat \<times> vfs" where
  "devfs_alloc_inode sb v =
     (let (di, v) = new_obj v in if di = NULL then (NULL, v) else (di, v\<lparr>inodes := (inodes v)(di \<mapsto> blank_inode sb 1234)\<rparr>))"

definition devfs_inode_create :: "nat \<Rightarrow> u32 \<Rightarrow> vfs \<Rightarrow> (nat \<times> vfs) option" where
  "devfs_inode_create sb mode v =
     (let (inode, v) = devfs_alloc_inode sb v
      in if inode = NULL then Some (NULL, v)
         else if mode AND S_IFMT = S_IFCHR
           then Some (inode, upd_inode inode (\<lambda>i. i\<lparr>i_mode := mode, i_op := DEVFS_CDEV, i_fop := DEVFS_CDEV\<rparr>) v)
         else if mode AND S_IFMT = S_IFBLK
           then Some (inode, upd_inode inode (\<lambda>i. i\<lparr>i_mode := mode, i_op := DEVFS_BDEV, i_fop := DEVFS_BDEV\<rparr>) v)
         else if mode AND S_IFMT = S_IFDIR
           then Some (inode, upd_inode inode (\<lambda>i. i\<lparr>i_mode := mode, i_op := DEVFS_DIR, i_fop := DEVFS_DIR\<rparr>) v)
         else None)"

definition devfs_mount :: "vfs \<Rightarrow> (nat \<times> vfs) option" where
  "devfs_mount = mount_with devfs_inode_create"

text \<open>\<^verbatim>\<open>strncmp\<close> over the length of the name that is looked for; over no characters it compares all.\<close>

definition dev_match :: "string \<Rightarrow> string \<Rightarrow> bool" where
  "dev_match name n \<longleftrightarrow> (if n = [] then name = [] else take (length n) name = n)"

definition devfs_lookup :: "nat \<Rightarrow> nat \<Rightarrow> vfs \<Rightarrow> (int \<times> vfs) option" where
  "devfs_lookup parent dentry v = do {
     e \<leftarrow> dentries v dentry;
     Some (case find (\<lambda>(name, di). dev_match name (d_name e)) (dev_list v) of
       None \<Rightarrow> (- ENOENT, v)
     | Some (name, di) \<Rightarrow> (0, upd_dentry dentry (\<lambda>e. e\<lparr>d_inode := di\<rparr>) v)) }"

text \<open>\<^verbatim>\<open>di->name\<close> has \<^verbatim>\<open>FILE_NAME_SIZE\<close> characters, the terminating one included.\<close>

definition devfs_mknod :: "nat \<Rightarrow> nat \<Rightarrow> u32 \<Rightarrow> u32 \<Rightarrow> vfs \<Rightarrow> (int \<times> vfs) option" where
  "devfs_mknod dir dentry mode dev v = do {
     d \<leftarrow> inodes v dir;
     (in', v) \<leftarrow> devfs_inode_create (i_sb d) mode v;
     if in' = NULL then Some (- ENOMEM, v)
     else do {
       e \<leftarrow> dentries v dentry;
       if length (d_name e) \<ge> 256 then None
       else Some (0, upd_inode dir (\<lambda>i. i\<lparr>i_size := i_size i + 1\<rparr>) (upd_inode in' (\<lambda>i. i\<lparr>i_rdev := dev\<rparr>) v)
         \<lparr>dev_list := dev_list v @ [(d_name e, in')]\<rparr>) } }"

definition devfs_opendir :: "nat \<Rightarrow> nat \<Rightarrow> vfs \<Rightarrow> (int \<times> vfs) option" where
  "devfs_opendir = dir_open"

definition devfs_readdir :: "nat \<Rightarrow> vfs \<Rightarrow> (int \<times> linux_dirent option \<times> vfs) option" where
  "devfs_readdir = dir_read 1"

definition devfs_init :: "vfs \<Rightarrow> int \<times> vfs" where
  "devfs_init = register_filesystem ''devfs''"

definition devfs_bdev_open :: "nat \<Rightarrow> nat \<Rightarrow> vfs \<Rightarrow> (int \<times> vfs) option" where
  "devfs_bdev_open fp inode v = Some (0, v)"

section \<open>Character devices\<close>

abbreviation (input) MAX_CDEV :: nat where "MAX_CDEV \<equiv> 256"

definition MAJOR :: "u32 \<Rightarrow> nat" where
  "MAJOR dev = unat (drop_bit 20 dev)"

definition MINOR :: "u32 \<Rightarrow> u32" where
  "MINOR dev = dev AND 0xFFFFF"

definition MKDEV :: "u32 \<Rightarrow> u32 \<Rightarrow> u32" where
  "MKDEV ma mi = push_bit 20 ma OR mi"

text \<open>\<^verbatim>\<open>register_chrdev\<close>: without a major number, the highest free one; the allocation is not checked.\<close>

definition register_chrdev :: "int \<Rightarrow> op_table \<Rightarrow> string \<Rightarrow> vfs \<Rightarrow> (int \<times> vfs) option" where
  "register_chrdev major fops' name v =
     (let major = (if major = 0 then case find (\<lambda>i. cdev_types v i = None) (rev [1..<MAX_CDEV]) of None \<Rightarrow> 0 | Some i \<Rightarrow> int i else major)
      in if major \<le> 0 \<or> major \<ge> int MAX_CDEV \<or> cdev_types v (nat major) \<noteq> None then Some (- EBUSY, v)
         else let (cdt, v) = new_obj v
              in if cdt = NULL then None
                 else Some (major, v\<lparr>cdev_types := (cdev_types v)(nat major \<mapsto> \<lparr> fops = fops', cdt_name = name, cdev_list = [] \<rparr>)\<rparr>))"

definition device_create :: "fs_ops \<Rightarrow> u32 \<Rightarrow> string \<Rightarrow> vfs \<Rightarrow> (int \<times> vfs) option" where
  "device_create ops devt fmt v =
     (let major = MAJOR devt; (cdev, v) = new_obj v
      in if cdev = NULL \<or> major \<ge> MAX_CDEV then None
         else do {
           t \<leftarrow> cdev_types v major;
           if MINOR devt \<in> set (cdev_list t) then Some (- EBUSY, v)
           else do {
             let v = v\<lparr>cdev_types := (cdev_types v)(major \<mapsto> t\<lparr>cdev_list := cdev_list t @ [MINOR devt]\<rparr>)\<rparr>;
             (_, v) \<leftarrow> dev_mknod ops fmt (0x1B6 OR S_IFCHR) devt v;
             Some (0, v) } })"

definition devfs_cdev_open :: "fs_ops \<Rightarrow> nat \<Rightarrow> nat \<Rightarrow> vfs \<Rightarrow> (int \<times> vfs) option" where
  "devfs_cdev_open drv fp inode v = do {
     i \<leftarrow> inodes v inode;
     case (if MAJOR (i_rdev i) \<ge> MAX_CDEV then None else cdev_types v (MAJOR (i_rdev i))) of
       None \<Rightarrow> Some (- ENODEV, v)
     | Some t \<Rightarrow>
         if MINOR (i_rdev i) \<notin> set (cdev_list t) then Some (- ENODEV, v)
         else let v = upd_file fp (\<lambda>f. f\<lparr>f_op := fops t\<rparr>) v
              in if fops t = NO_OPS then Some (- ENOTSUPP, v)
                 else case o_open drv (fops t) of None \<Rightarrow> Some (0, v) | Some f \<Rightarrow> f fp inode v }"

section \<open>Operation tables\<close>

definition no_drivers :: fs_ops where
  "no_drivers = \<lparr> o_lookup = (\<lambda>_. None), o_mkdir = (\<lambda>_. None), o_mknod = (\<lambda>_. None), o_open = (\<lambda>_. None), o_close = (\<lambda>_. None),
     o_read = (\<lambda>_. None), o_write = (\<lambda>_. None), o_ioctl = (\<lambda>_. None), o_lseek = (\<lambda>_. None), o_readdir = (\<lambda>_. None),
     o_mount = (\<lambda>_ _. None) \<rparr>"

definition std_ops :: "fs_ops \<Rightarrow> fs_ops" where
  "std_ops drv =
     \<lparr> o_lookup = (\<lambda>t. case t of RAMFS_DIR \<Rightarrow> Some ramfs_lookup | DEVFS_DIR \<Rightarrow> Some devfs_lookup | OPS n \<Rightarrow> o_lookup drv t | _ \<Rightarrow> None),
       o_mkdir = (\<lambda>t. case t of RAMFS_DIR \<Rightarrow> Some ramfs_mkdir | OPS n \<Rightarrow> o_mkdir drv t | _ \<Rightarrow> None),
       o_mknod = (\<lambda>t. case t of DEVFS_DIR \<Rightarrow> Some devfs_mknod | OPS n \<Rightarrow> o_mknod drv t | _ \<Rightarrow> None),
       o_open = (\<lambda>t. case t of RAMFS_REG \<Rightarrow> Some ramfs_open | RAMFS_DIR \<Rightarrow> Some ramfs_opendir | DEVFS_BDEV \<Rightarrow> Some devfs_bdev_open
         | DEVFS_CDEV \<Rightarrow> Some (devfs_cdev_open drv) | DEVFS_DIR \<Rightarrow> Some devfs_opendir | OPS n \<Rightarrow> o_open drv t | _ \<Rightarrow> None),
       o_close = (\<lambda>t. case t of RAMFS_REG \<Rightarrow> Some ramfs_close | OPS n \<Rightarrow> o_close drv t | _ \<Rightarrow> None),
       o_read = (\<lambda>t. case t of RAMFS_REG \<Rightarrow> Some ramfs_read | OPS n \<Rightarrow> o_read drv t | _ \<Rightarrow> None),
       o_write = (\<lambda>t. case t of RAMFS_REG \<Rightarrow> Some ramfs_write | OPS n \<Rightarrow> o_write drv t | _ \<Rightarrow> None),
       o_ioctl = (\<lambda>t. case t of OPS n \<Rightarrow> o_ioctl drv t | _ \<Rightarrow> None),
       o_lseek = (\<lambda>t. case t of OPS n \<Rightarrow> o_lseek drv t | _ \<Rightarrow> None),
       o_readdir = (\<lambda>t. case t of RAMFS_DIR \<Rightarrow> Some ramfs_readdir | DEVFS_DIR \<Rightarrow> Some devfs_readdir | OPS n \<Rightarrow> o_readdir drv t | _ \<Rightarrow> None),
       o_mount = (\<lambda>name. if name = ''ramfs'' then ramfs_mount else if name = ''devfs'' then devfs_mount else o_mount drv name) \<rparr>"

section \<open>The laws\<close>

lemma same_tree_upd [simp, intro]:
  "same_tree v (upd_inode a g v)" "same_tree v (upd_file a h v)" "same_tree v (upd_dentry a (\<lambda>e. e\<lparr>d_inode := x\<rparr>) v)"
  by (auto simp: same_tree_def upd_inode_def upd_file_def upd_dentry_def tree_part_def [abs_def] option.map_comp comp_def)

lemma same_tree_inodes [simp]: "same_tree v (v\<lparr>inodes := x\<rparr>)" "same_tree v (v\<lparr>inode_count := c\<rparr>)" "same_tree v (v\<lparr>dev_list := l\<rparr>)" "same_tree v (v\<lparr>cdev_types := t\<rparr>)"
  by (simp_all add: same_tree_def)

lemma ramfs_alloc_inode_tree: "ramfs_alloc_inode sb v = (a, v') \<Longrightarrow> same_tree v v'"
  using new_obj_cases(1) [of v] by (auto simp: ramfs_alloc_inode_def same_tree_def split: prod.splits if_splits)

lemma devfs_alloc_inode_tree: "devfs_alloc_inode sb v = (a, v') \<Longrightarrow> same_tree v v'"
  using new_obj_cases(1) [of v] by (auto simp: devfs_alloc_inode_def same_tree_def split: prod.splits if_splits)

lemma same_tree_step: "same_tree v v' \<Longrightarrow> same_tree v (upd_inode a g v')" "same_tree v v' \<Longrightarrow> same_tree v (upd_dentry a (\<lambda>e. e\<lparr>d_inode := x\<rparr>) v')"
  "same_tree v v' \<Longrightarrow> same_tree v (v'\<lparr>dev_list := l\<rparr>)"
  using same_tree_trans [OF _ same_tree_upd(1)] same_tree_trans [OF _ same_tree_upd(3)] same_tree_trans [OF _ same_tree_inodes(3)] by auto

lemma ramfs_inode_create_tree: "ramfs_inode_create sb mode v = Some (a, v') \<Longrightarrow> same_tree v v' \<and> (a \<noteq> NULL \<longrightarrow> map_option i_sb (inodes v' a) = Some sb)"
  by (auto simp: ramfs_inode_create_def ramfs_alloc_inode_def blank_inode_def upd_inode_def same_tree_def split: prod.splits if_splits dest!: new_obj_cases(1))

lemma devfs_inode_create_tree: "devfs_inode_create sb mode v = Some (a, v') \<Longrightarrow> same_tree v v' \<and> (a \<noteq> NULL \<longrightarrow> map_option i_sb (inodes v' a) = Some sb)"
  by (auto simp: devfs_inode_create_def devfs_alloc_inode_def blank_inode_def upd_inode_def same_tree_def split: prod.splits if_splits dest!: new_obj_cases(1))

lemma mount_with_tree:
  assumes m: "mount_with create v = Some (root, v')" "0 < brk v"
    and create: "\<And>sb v a v'. create sb S_IFDIR v = Some (a, v') \<Longrightarrow> same_tree v v' \<and> (a \<noteq> NULL \<longrightarrow> map_option i_sb (inodes v' a) = Some sb)"
  shows "root = NULL \<and> same_tree v v' \<or>
      (\<exists>e. brk v \<le> root \<and> root < brk v' \<and> brk v \<le> d_sb e \<and> d_sb e < brk v' \<and> d_parent e = root \<and> d_subdirs e = []
         \<and> same_tree (v\<lparr>dentries := (dentries v)(root \<mapsto> e)\<rparr>) v')"
proof -
  obtain sb v1 where z1: "new_obj v = (sb, v1)" by fastforce
  obtain info v2 where z2: "new_obj v1 = (info, v2)" by fastforce
  note c1 = new_obj_cases [OF z1] and c2 = new_obj_cases [OF z2]
  have t2: "same_tree v v2" using same_tree_trans [OF c1(1) c2(1)] .
  consider "sb = NULL" | "sb \<noteq> NULL" "info = NULL" | "sb \<noteq> NULL" "info \<noteq> NULL" by blast
  then show ?thesis
  proof cases
    case 3
    then obtain a v3 where a: "create sb S_IFDIR v2 = Some (a, v3)" "d_make_root a v3 = Some (root, v')"
      using m(1) z1 z2 by (auto simp: mount_with_def split: bind_splits)
    have t3: "same_tree v v3" "a \<noteq> NULL \<longrightarrow> map_option i_sb (inodes v3 a) = Some sb"
      using create [OF a(1)] same_tree_trans [OF t2] by auto
    have b: "sb = brk v" "brk v < brk v2" "brk v2 \<le> brk v3"
      using 3 c1(5) c2(5) create [OF a(1)] by (auto simp: same_tree_def)
    show ?thesis
    proof (cases "a = NULL")
      case True
      then show ?thesis using a(2) t3(1) by (simp add: d_make_root_def)
    next
      case False
      then obtain i where i: "inodes v3 a = Some i" "i_sb i = sb" using t3(2) by auto
      obtain d v4 where d: "d_alloc_sb sb ''/'' v3 = (d, v4)" by fastforce
      have r: "root = d" "v' = (if d = NULL then v4 else upd_dentry d (\<lambda>e. e\<lparr>d_inode := a\<rparr>) v4)"
        using a(2) False i d by (auto simp: d_make_root_def)
      have pos: "0 < brk v3" using b by simp
      from d_alloc_sb_cases [OF d pos] show ?thesis
      proof (elim disjE conjE)
        assume "d = NULL" "same_tree v3 v4"
        then show ?thesis using r same_tree_trans [OF t3(1)] by simp
      next
        let ?e = "\<lparr> d_name = ''/'', d_inode = NULL, d_sb = sb, d_parent = d, d_subdirs = [] \<rparr>"
        assume f: "brk v3 \<le> d" "d < brk v4" "dentries v4 = (dentries v3)(d \<mapsto> ?e)" "same_tree v3 (v4\<lparr>dentries := dentries v3\<rparr>)"
        have ne: "d \<noteq> NULL" using f(1) pos by simp
        have "same_tree (v\<lparr>dentries := (dentries v)(d \<mapsto> ?e)\<rparr>) v4" using f(3,4) t3(1) by (auto simp: same_tree_def)
        then have t: "same_tree (v\<lparr>dentries := (dentries v)(d \<mapsto> ?e)\<rparr>) v'" using ne r by (simp add: same_tree_step)
        have "brk v' = brk v4" using ne r by (simp add: upd_dentry_def)
        then show ?thesis using t f(1,2) b r(1) by (intro disjI2 exI [of _ ?e]) auto
      qed
    qed
  qed (use m(1) z1 z2 c1(1) t2 in \<open>simp_all add: mount_with_def\<close>)
qed

lemma ramfs_mkdir_tree: "ramfs_mkdir dir de mode v = Some (r, v') \<Longrightarrow> same_tree v v'"
  by (auto simp: ramfs_mkdir_def split: bind_splits prod.splits if_splits dest!: ramfs_alloc_inode_tree intro: same_tree_step)

lemma devfs_lookup_tree: "devfs_lookup dir de v = Some (r, v') \<Longrightarrow> same_tree v v'"
  by (auto simp: devfs_lookup_def split: bind_splits option.splits)

lemma devfs_mknod_tree:
  assumes "devfs_mknod dir de mode devt v = Some (r, v')"
  shows "same_tree v v'"
proof -
  obtain d a v1 where a: "inodes v dir = Some d" "devfs_inode_create (i_sb d) mode v = Some (a, v1)"
    using assms by (auto simp: devfs_mknod_def split: bind_splits)
  have t: "same_tree v v1" using devfs_inode_create_tree [OF a(2)] by simp
  show ?thesis
    using assms a t by (auto simp: devfs_mknod_def split: if_splits bind_splits intro!: same_tree_step)
qed

lemma dir_open_tree: "dir_open fp i v = Some (r, v') \<Longrightarrow> same_tree v v'"
  by (auto simp: dir_open_def split: bind_splits)

lemma dir_read_tree: "dir_read n fp v = Some (r, d, v') \<Longrightarrow> same_tree v v'"
  by (auto simp: dir_read_def split: bind_splits if_splits)

lemma devfs_cdev_open_tree:
  assumes "file_system drv" "devfs_cdev_open drv fp inode v = Some (r, v')"
  shows "same_tree v v'"
  using assms(2) same_tree_trans [OF same_tree_upd(2) file_system.open_tree [OF assms(1)]]
  by (auto simp: devfs_cdev_open_def Let_def split: bind_splits option.splits if_splits)

lemmas std_op_defs = ramfs_lookup_def ramfs_open_def ramfs_close_def ramfs_read_def ramfs_write_def ramfs_opendir_def ramfs_readdir_def
  devfs_opendir_def devfs_readdir_def devfs_bdev_open_def ramfs_mount_def devfs_mount_def

lemmas std_op_trees = ramfs_mkdir_tree devfs_lookup_tree devfs_mknod_tree dir_open_tree dir_read_tree devfs_cdev_open_tree

lemma file_system_std:
  assumes "file_system drv"
  shows "file_system (std_ops drv)"
proof -
  note laws = file_system.lookup_tree [OF assms] file_system.mkdir_tree [OF assms] file_system.mknod_tree [OF assms] file_system.open_tree [OF assms]
    file_system.close_tree [OF assms] file_system.read_tree [OF assms] file_system.write_tree [OF assms] file_system.ioctl_tree [OF assms]
    file_system.lseek_tree [OF assms] file_system.readdir_tree [OF assms] std_op_trees devfs_cdev_open_tree [OF assms]
  show ?thesis
  proof (unfold_locales, goal_cases)
    case (11 name v root v')
    then show ?case
      using mount_with_tree [OF _ _ ramfs_inode_create_tree, where v = v and root = root and v' = v'] mount_with_tree [OF _ _ devfs_inode_create_tree, where v = v and root = root and v' = v']
        file_system.mount_tree [OF assms, of name v root v']
      by (simp add: std_ops_def std_op_defs split: if_splits)
  qed (auto simp: std_ops_def std_op_defs split: op_table.splits intro: laws)
qed

interpretation nodrv: file_system no_drivers
  by unfold_locales (simp_all add: no_drivers_def)

interpretation std: file_system "std_ops no_drivers"
  by (rule file_system_std) (rule nodrv.file_system_axioms)

section \<open>The directories of the C library and the commands\<close>

text \<open>\<^verbatim>\<open>lib/unistd/dir.c\<close>: a \<^verbatim>\<open>DIR\<close> is its descriptor, and \<open>None\<close> inside the result is \<^verbatim>\<open>NULL\<close>.\<close>

definition opendir :: "fs_ops \<Rightarrow> string \<Rightarrow> vfs \<Rightarrow> (int option \<times> vfs) option" where
  "opendir ops name v = do {
     (fd, v) \<leftarrow> sys_open ops name 0 v;
     if fd < 0 then Some (None, v)
     else let (dir, v) = new_obj v in Some (if dir = NULL then None else Some fd, v) }"

definition readdir :: "fs_ops \<Rightarrow> int \<Rightarrow> vfs \<Rightarrow> (linux_dirent option \<times> vfs) option" where
  "readdir ops fd v = do {
     (ret, lde, v) \<leftarrow> sys_getdents ops fd v;
     if ret \<le> 0 then Some (None, v)
     else do { l \<leftarrow> lde; let (de, v) = new_obj v; Some (if de = NULL then None else Some l, v) } }"

definition closedir :: "fs_ops \<Rightarrow> int \<Rightarrow> vfs \<Rightarrow> (int \<times> vfs) option" where
  "closedir ops fd v = do { (_, v) \<leftarrow> file_close ops fd v; Some (0, v) }"

definition get_current_dir_name :: "vfs \<Rightarrow> (string option \<times> vfs) option" where
  "get_current_dir_name v = do {
     (n, cwd) \<leftarrow> sys_getcwd 256 v;
     if n \<ge> 256 then None else let (s, v) = new_obj v in Some (if s = NULL then None else Some cwd, v) }"

text \<open>The command \<^verbatim>\<open>ls\<close> on a path: the lines it prints.\<close>

partial_function (option) ls_loop :: "fs_ops \<Rightarrow> int \<Rightarrow> string list \<Rightarrow> vfs \<Rightarrow> (string list \<times> vfs) option" where
  "ls_loop ops fd out v = do {
     (entry, v) \<leftarrow> readdir ops fd v;
     case entry of None \<Rightarrow> Some (out, v) | Some e \<Rightarrow> ls_loop ops fd (out @ [l_name e]) v }"

definition ls_command :: "fs_ops \<Rightarrow> string \<Rightarrow> vfs \<Rightarrow> (int \<times> string list \<times> vfs) option" where
  "ls_command ops path v = do {
     (dir, v) \<leftarrow> opendir ops path v;
     case dir of None \<Rightarrow> Some (- ENOENT, [], v)
     | Some fd \<Rightarrow> do { (out, v) \<leftarrow> ls_loop ops fd [] v; (_, v) \<leftarrow> closedir ops fd v; Some (0, out, v) } }"

text \<open>\<^verbatim>\<open>cd\<close> with a path, \<^verbatim>\<open>mkdir\<close> and \<^verbatim>\<open>pwd\<close>.\<close>

definition cd_command :: "fs_ops \<Rightarrow> string \<Rightarrow> vfs \<Rightarrow> (int \<times> vfs) option" where
  "cd_command ops path v = do {
     (s, v) \<leftarrow> get_current_dir_name v;
     cwd \<leftarrow> s;
     if path = cwd then Some (0, v) else sys_chdir ops path v }"

definition mkdir_command :: "fs_ops \<Rightarrow> string \<Rightarrow> vfs \<Rightarrow> (int \<times> vfs) option" where
  "mkdir_command ops name v = do { (_, v) \<leftarrow> sys_mkdir ops name 0x1ED v; Some (0, v) }"

definition pwd_command :: "vfs \<Rightarrow> string option" where
  "pwd_command v = do { (n, s) \<leftarrow> sys_getcwd 256 v; if n \<ge> 256 then None else Some s }"

section \<open>The whole system\<close>

inductive sys_step :: "fs_ops \<Rightarrow> vfs \<Rightarrow> vfs \<Rightarrow> bool" for drv where
  call: "vfs_step (std_ops drv) v v' \<Longrightarrow> sys_step drv v v'"
| chrdev: "register_chrdev major t name v = Some (r, v') \<Longrightarrow> sys_step drv v v'"
| device: "device_create (std_ops drv) devt name v = Some (r, v') \<Longrightarrow> sys_step drv v v'"
| fstype: "register_filesystem name v = (r, v') \<Longrightarrow> sys_step drv v v'"

inductive sys_reach :: "fs_ops \<Rightarrow> vfs \<Rightarrow> bool" for drv where
  boot: "dentries v0 = Map.empty \<Longrightarrow> mount_list v0 = [] \<Longrightarrow> 0 < brk v0 \<Longrightarrow> mount_root (std_ops drv) dev type v0 = Some (0, v) \<Longrightarrow> sys_reach drv v"
| step: "sys_reach drv v \<Longrightarrow> sys_step drv v v' \<Longrightarrow> sys_reach drv v'"

lemma register_chrdev_tree: "register_chrdev major t name v = Some (r, v') \<Longrightarrow> same_tree v v'"
  using new_obj_cases(1) [of v] by (auto simp: register_chrdev_def Let_def same_tree_def split: prod.splits if_splits)

lemma device_create_wf:
  assumes "file_system drv" "device_create (std_ops drv) devt name v = Some (r, v')" "wf_vfs v"
  shows "wf_vfs v'"
proof -
  obtain a v1 where z: "new_obj v = (a, v1)" by fastforce
  have wf1: "wf_vfs v1" by (rule wf_same_tree [OF assms(3) new_obj_cases(1) [OF z]])
  obtain t where t: "cdev_types v1 (MAJOR devt) = Some t"
    using assms(2) z by (cases "cdev_types v1 (MAJOR devt)") (auto simp: device_create_def Let_def split: if_splits)
  let ?v = "v1\<lparr>cdev_types := (cdev_types v1)(MAJOR devt \<mapsto> t\<lparr>cdev_list := cdev_list t @ [MINOR devt]\<rparr>)\<rparr>"
  have wf2: "wf_vfs ?v" by (rule wf_same_tree [OF wf1]) simp
  consider "v' = v1" | x where "dev_mknod (std_ops drv) name (0x1B6 OR S_IFCHR) devt ?v = Some (x, v')"
    using assms(2) z t by (cases "dev_mknod (std_ops drv) name (0x1B6 OR S_IFCHR) devt ?v") (auto simp: device_create_def Let_def split: if_splits)
  then show ?thesis
    using wf1 file_system.dev_mknod_wf [OF file_system_std [OF assms(1)] _ wf2] by cases auto
qed

lemma sys_step_wf: "sys_step drv v v' \<Longrightarrow> file_system drv \<Longrightarrow> wf_vfs v \<Longrightarrow> wf_vfs v'"
proof (induction rule: sys_step.induct)
  case (call v v')
  then show ?case using file_system.step_wf [OF file_system_std] by blast
next
  case (chrdev major t name v r v')
  then show ?case using register_chrdev_tree wf_same_tree by blast
next
  case (device devt name v r v')
  then show ?case using device_create_wf by blast
next
  case (fstype name v r v')
  then have "same_tree v v'" by (auto simp: register_filesystem_def same_tree_def split: if_splits)
  then show ?case by (rule wf_same_tree [OF fstype(3)])
qed

lemma sys_reach_wf: "sys_reach drv v \<Longrightarrow> file_system drv \<Longrightarrow> wf_vfs v"
  by (induction rule: sys_reach.induct)
    (blast intro: file_system.mount_root_wf [OF file_system_std] sys_step_wf)+

text \<open>
  A concrete system, from the static data as they are loaded: the root is mounted, with the directories \<^verbatim>\<open>dev\<close>, where \<^verbatim>\<open>devfs\<close> is
  mounted, and \<^verbatim>\<open>usr\<close>.
\<close>

definition zero_vfs :: vfs where
  "zero_vfs = \<lparr> dentries = Map.empty, inodes = Map.empty, mounts = Map.empty, files = Map.empty, mount_list = [], fd_array = (\<lambda>_. NULL),
     fs_root = \<lparr> p_mnt = NULL, p_dentry = NULL \<rparr>, fs_pwd = \<lparr> p_mnt = NULL, p_dentry = NULL \<rparr>, fs_types = [], dev_list = [],
     inode_count = 1, cdev_types = Map.empty, brk = 100, mallocs = [] \<rparr>"

definition root_vfs :: vfs where
  "root_vfs = snd (the (mount_root (std_ops no_drivers) ''none'' ''ramfs'' (snd (devfs_init (snd (ramfs_init zero_vfs))))))"

definition dev_vfs :: vfs where
  "dev_vfs = snd (the (sys_mkdir (std_ops no_drivers) ''dev'' 0x1ED root_vfs))"

definition mnt_vfs :: vfs where
  "mnt_vfs = snd (the (sys_mount (std_ops no_drivers) ''none'' ''/dev'' ''devfs'' dev_vfs))"

definition usr_vfs :: vfs where
  "usr_vfs = snd (the (sys_mkdir (std_ops no_drivers) ''usr'' 0x1ED mnt_vfs))"

lemmas run_defs = devfs_init_def ramfs_init_def register_filesystem_def mount_root_def new_mount_def new_obj_def do_mount_def get_fs_type_def
   std_ops_def ramfs_mount_def devfs_mount_def mount_with_def ramfs_inode_create_def ramfs_alloc_inode_def devfs_inode_create_def devfs_alloc_inode_def
   blank_inode_def d_make_root_def d_alloc_sb_def upd_inode_def upd_dentry_def upd_file_def add_mount_def sys_mkdir_def d_alloc_def vfs_mkdir_def table_def ramfs_mkdir_def
   sys_mount_def path_walk_def walk_loop.simps do_lookup_def d_lookup_def cannot_lookup_def follow_mount_def lookup_mnt_def Let_def
   root_vfs_def dev_vfs_def mnt_vfs_def usr_vfs_def zero_vfs_def

lemma usr_reach: "sys_reach no_drivers usr_vfs"
proof -
  have "mount_root (std_ops no_drivers) ''none'' ''ramfs'' (snd (devfs_init (snd (ramfs_init zero_vfs)))) = Some (0, root_vfs)" by (simp add: run_defs)
  then have "sys_reach no_drivers root_vfs" by (rule sys_reach.boot [rotated 3]) (simp_all add: run_defs)
  moreover have "sys_mkdir (std_ops no_drivers) ''dev'' 0x1ED root_vfs = Some (0, dev_vfs)" by (simp add: run_defs)
  ultimately have "sys_reach no_drivers dev_vfs" by (meson sys_reach.step sys_step.call vfs_step.mkdir)
  moreover have "sys_mount (std_ops no_drivers) ''none'' ''/dev'' ''devfs'' dev_vfs = Some (0, mnt_vfs)" by (simp add: run_defs)
  ultimately have "sys_reach no_drivers mnt_vfs" by (meson sys_reach.step sys_step.call vfs_step.mount)
  moreover have "sys_mkdir (std_ops no_drivers) ''usr'' 0x1ED mnt_vfs = Some (0, usr_vfs)" by (simp add: run_defs)
  ultimately show ?thesis by (meson sys_reach.step sys_step.call vfs_step.mkdir)
qed

section \<open>Working directory\<close>

text \<open>
  C20: in every state that the system calls reach, with drivers that leave the tree alone, the tree is well formed and
  \<^verbatim>\<open>sys_getcwd\<close> comes to the root and returns.
\<close>

theorem vfs_getcwd_returns:
  assumes "file_system drv" "sys_reach drv v"
  shows "wf_vfs v \<and> (\<exists>ns s. sys_getcwd sz v = Some (ns, s))"
proof -
  have wf: "wf_vfs v" by (rule sys_reach_wf [OF assms(2,1)])
  then obtain ns where "cwd_loop (fs_pwd v) [] v = Some ns" using cwd_loop_returns [of v "fs_pwd v" "[]"] by (auto simp: wf_vfs_def)
  then show ?thesis using wf by (simp add: sys_getcwd_def Let_def)
qed

theorem vfs_getcwd_returns_witness:
  "file_system no_drivers \<and> sys_reach no_drivers usr_vfs \<and> wf_vfs usr_vfs \<and> (\<exists>ns s. sys_getcwd 10 usr_vfs = Some (ns, s))"
  using vfs_getcwd_returns [OF nodrv.file_system_axioms usr_reach, of 10] nodrv.file_system_axioms usr_reach by blast

text \<open>
  C19: after \<^verbatim>\<open>sys_chdir\<close> to an absolute path, \<^verbatim>\<open>sys_getcwd\<close> returns that path, across any mounts on the way: for
  fewer names than the stack holds, none of them \<^verbatim>\<open>.\<close> or \<^verbatim>\<open>..\<close>, and a buffer that holds the text.
\<close>

theorem chdir_getcwd:
  assumes "file_system drv" "sys_reach drv v" "resolve (std_ops drv) v (fs_root v) ns = Some p" "list_all path_name ns"
    and "length ns < PATH_STACK_SIZE" "length (path_text ns) < sz"
  shows "sys_chdir (std_ops drv) (path_text ns) v = Some (0, v\<lparr>fs_pwd := p\<rparr>)
     \<and> sys_getcwd sz (v\<lparr>fs_pwd := p\<rparr>) = Some (length (path_text ns), path_text ns)"
proof -
  have wf: "wf_vfs v" by (rule sys_reach_wf [OF assms(2,1)])
  then have "path_ok v p" using resolve_ok [OF assms(3)] by (simp add: wf_vfs_def)
  then have wf': "wf_vfs (v\<lparr>fs_pwd := p\<rparr>)" by (rule wf_fs_pwd [OF wf])
  have "sys_getcwd sz (v\<lparr>fs_pwd := p\<rparr>) = Some (length (path_text ns), path_text ns)"
    by (rule getcwd_resolve [OF _ wf' assms(5,6), of "std_ops drv"]) (simp add: assms(3))
  then show ?thesis using path_walk_text [OF assms(3,4)] by (simp add: sys_chdir_def)
qed

theorem chdir_getcwd_witness:
  "resolve (std_ops no_drivers) usr_vfs (fs_root usr_vfs) [''dev''] = Some \<lparr> p_mnt = 107, p_dentry = 111 \<rparr>
   \<and> sys_getcwd 10 (usr_vfs\<lparr>fs_pwd := \<lparr> p_mnt = 107, p_dentry = 111 \<rparr>\<rparr>) = Some (4, ''/dev'')"
proof -
  have r: "resolve (std_ops no_drivers) usr_vfs (fs_root usr_vfs) [''dev''] = Some \<lparr> p_mnt = 107, p_dentry = 111 \<rparr>"
    by (simp add: enter_def run_defs)
  show ?thesis using chdir_getcwd [OF nodrv.file_system_axioms usr_reach r, of 10] r by (simp add: path_name_def path_text_def)
qed

section \<open>Making and listing directories\<close>

lemma new_obj_ok: "mallocs v = [] \<Longrightarrow> new_obj v = (brk v, v\<lparr>brk := brk v + 1\<rparr>)"
  by (simp add: new_obj_def)

lemma d_alloc_ok:
  assumes "mallocs v = []" "dentries v parent = Some p" "0 < brk v"
  obtains de v1 where "d_alloc parent str v = Some (de, v1)" "mallocs v1 = []"
proof -
  obtain de v1 where d: "d_alloc_sb (d_sb p) str v = (de, v1)" by fastforce
  then have "de = brk v" "mallocs v1 = []" using assms(1,3) by (auto simp: d_alloc_sb_def new_obj_ok split: if_splits)
  with d assms(2,3) have "d_alloc parent str v = Some (de, upd_dentry parent (\<lambda>p. p\<lparr>d_subdirs := d_subdirs p @ [de]\<rparr>) (upd_dentry de (\<lambda>e. e\<lparr>d_parent := parent\<rparr>) v1))"
    by (simp add: d_alloc_def)
  then show ?thesis by (rule that) (simp add: upd_dentry_def \<open>mallocs v1 = []\<close>)
qed

lemma lookup_mnt_young: "wf_vfs v \<Longrightarrow> brk v \<le> a \<Longrightarrow> mounts v' = mounts v \<Longrightarrow> mount_list v' = mount_list v \<Longrightarrow> lookup_mnt a v' = NULL"
proof -
  assume a: "wf_vfs v" "brk v \<le> a" "mounts v' = mounts v" "mount_list v' = mount_list v"
  have "mountpoint M < brk v" if M: "m \<in> set (mount_list v)" "mounts v m = Some M" for m M
  proof -
    obtain z where "dentries v (mnt_root M) = Some z" "mountpoint M < mnt_root M" using wf_mount [OF a(1) M(1)] M(2) by force
    then show ?thesis using wf_entry [OF a(1)] by (fastforce simp: entry_ok_def)
  qed
  then have "find (\<lambda>m. map_option mountpoint (mounts v m) = Some a) (mount_list v) = None"
    using a(2) by (fastforce simp: find_None_iff)
  then show ?thesis using a(3,4) by (simp add: lookup_mnt_def)
qed

lemma find_snoc: "find P (xs @ [x]) = (case find P xs of None \<Rightarrow> if P x then Some x else None | Some y \<Rightarrow> Some y)"
  by (induction xs) auto

text \<open>An entry that a directory lists last is found under its name, and the others as before.\<close>

lemma d_lookup_added:
  assumes wf: "wf_vfs v" and e: "dentries v dir = Some e" and de: "brk v \<le> de"
    and d: "dentries v' dir = Some (e\<lparr>d_subdirs := d_subdirs e @ [de]\<rparr>)" "dentries v' de = Some x" "d_name x = name"
    and names: "\<And>c. c \<noteq> de \<Longrightarrow> map_option d_name (dentries v' c) = map_option d_name (dentries v c)"
    and new: "\<forall>c\<in>set (d_subdirs e). map_option d_name (dentries v c) \<noteq> Some name"
  shows "d_lookup dir n v' = (if n = name then Some de else d_lookup dir n v)"
proof -
  have "c \<noteq> de" if "c \<in> set (d_subdirs e)" for c
    using that wf_entry [OF wf e] wf_fresh [OF wf de] by (auto simp: entry_ok_def)
  then have "find (\<lambda>c. map_option d_name (dentries v' c) = Some n) (d_subdirs e) = find (\<lambda>c. map_option d_name (dentries v c) = Some n) (d_subdirs e)" for n
    using names by (intro find_cong) auto
  moreover have "find (\<lambda>c. map_option d_name (dentries v c) = Some name) (d_subdirs e) = None" using new by (simp add: find_None_iff)
  ultimately show ?thesis using d e by (auto simp: d_lookup_def find_snoc split: option.split)
qed

lemma sys_mkdir_state:
  assumes wf: "wf_vfs v" and "mallocs v = []" "path_name name"
    and e: "dentries v (p_dentry (fs_pwd v)) = Some e" "inodes v (d_inode e) = Some i" "i_op i = RAMFS_DIR" "d_inode e < brk v"
  obtains v' de x j where "sys_mkdir (std_ops drv) name mode v = Some (0, v')" "brk v \<le> de"
    "dentries v' = (dentries v)(p_dentry (fs_pwd v) \<mapsto> e\<lparr>d_subdirs := d_subdirs e @ [de]\<rparr>, de \<mapsto> x)" "d_name x = name" "d_subdirs x = []"
    "p_dentry (fs_pwd v) \<noteq> de" "inodes v' (d_inode e) = Some (i\<lparr>i_size := i_size i + 1\<rparr>)" "inodes v' (d_inode x) = Some j"
    "i_mode j = mode OR S_IFDIR" "i_size j = 0" "i_op j = RAMFS_DIR" "i_fop j = RAMFS_DIR"
    "fs_pwd v' = fs_pwd v" "mounts v' = mounts v" "mount_list v' = mount_list v"
proof -
  have pos: "0 < brk v" using wf by (simp add: wf_vfs_def)
  let ?dir = "p_dentry (fs_pwd v)"
  have strip: "dropWhile (\<lambda>c. c = CHR ''/'') name = name" using assms(3) by (cases name) (auto simp: path_name_def)
  obtain de v1 where a: "d_alloc ?dir name v = Some (de, v1)" "mallocs v1 = []" by (rule d_alloc_ok [OF assms(2) e(1) pos])
  obtain p where p: "dentries v ?dir = Some p" "brk v \<le> de" "de < brk v1" "inodes v1 = inodes v" "?dir \<noteq> de"
    "dentries v1 = (dentries v)(de \<mapsto> \<lparr> d_name = name, d_inode = NULL, d_sb = d_sb p, d_parent = ?dir, d_subdirs = [] \<rparr>,
       ?dir \<mapsto> p\<lparr>d_subdirs := d_subdirs p @ [de]\<rparr>)"
    "same_tree v (v1\<lparr>dentries := dentries v\<rparr>)"
    by (rule d_alloc_cases [OF a(1) wf])
  have pe: "p = e" using p(1) e(1) by simp
  have same: "fs_pwd v1 = fs_pwd v" "mounts v1 = mounts v" "mount_list v1 = mount_list v" "brk v \<le> brk v1" using p(7) by (simp_all add: same_tree_def)
  define j where "j = \<lparr> i_ino = inode_count v1, i_size = 0, i_mode = mode OR S_IFDIR, i_rdev = 0, i_sb = i_sb i, i_op = RAMFS_DIR, i_fop = RAMFS_DIR \<rparr>"
  define x where "x = \<lparr> d_name = name, d_inode = brk v1, d_sb = d_sb e, d_parent = ?dir, d_subdirs = [] \<rparr>"
  define v' where "v' = v1\<lparr>dentries := (dentries v1)(de \<mapsto> x), inodes := (inodes v)(brk v1 \<mapsto> j, d_inode e \<mapsto> i\<lparr>i_size := i_size i + 1\<rparr>),
    inode_count := inode_count v1 + 1, brk := brk v1 + 1\<rparr>"
  have ne: "d_inode e \<noteq> brk v1" "brk v1 \<noteq> NULL" using e(4) same(4) pos by auto
  have "ramfs_mkdir (d_inode e) de (mode OR S_IFDIR) v1 = Some (0, v')"
    using ne e(2) p(1,4-6) pe
    by (simp add: ramfs_mkdir_def ramfs_alloc_inode_def new_obj_ok [OF a(2)] blank_inode_def upd_inode_def upd_dentry_def v'_def x_def j_def fun_upd_twist)
  then have "sys_mkdir (std_ops drv) name mode v = Some (0, v')"
    using a(1) p(1,4,6) pe e(2,3) by (simp add: sys_mkdir_def strip vfs_mkdir_def table_def std_ops_def)
  then show ?thesis
    by (rule that [OF _ p(2), of v' x j]) (use ne p(5,6) pe same in \<open>simp_all add: v'_def x_def j_def fun_upd_twist\<close>)
qed

text \<open>
  \<^verbatim>\<open>sys_mkdir\<close> of a new name in a directory of \<^verbatim>\<open>ramfs\<close>, with memory for it, returns zero; the name then leads to a new, empty
  directory, and every other name leads where it did.
\<close>

theorem mkdir_creates:
  assumes "file_system drv" "sys_reach drv v" "mallocs v = []" "path_name name"
    and "dentries v (p_dentry (fs_pwd v)) = Some e" "inodes v (d_inode e) = Some i" "i_op i = RAMFS_DIR" "d_inode e < brk v"
    and "\<forall>c\<in>set (d_subdirs e). map_option d_name (dentries v c) \<noteq> Some name"
  shows "\<exists>v' de x j. sys_mkdir (std_ops drv) name mode v = Some (0, v')
     \<and> enter (std_ops drv) v' (fs_pwd v') name = Some \<lparr> p_mnt = p_mnt (fs_pwd v), p_dentry = de \<rparr>
     \<and> dentries v' de = Some x \<and> d_subdirs x = [] \<and> inodes v' (d_inode x) = Some j
     \<and> i_mode j = mode OR S_IFDIR \<and> i_size j = 0 \<and> i_op j = RAMFS_DIR \<and> i_fop j = RAMFS_DIR
     \<and> (\<forall>n. n \<noteq> name \<longrightarrow> enter (std_ops drv) v' (fs_pwd v') n = enter (std_ops drv) v (fs_pwd v) n)"
proof -
  have wf: "wf_vfs v" by (rule sys_reach_wf [OF assms(2,1)])
  obtain v' de x j where m: "sys_mkdir (std_ops drv) name mode v = Some (0, v')" "brk v \<le> de"
    "dentries v' = (dentries v)(p_dentry (fs_pwd v) \<mapsto> e\<lparr>d_subdirs := d_subdirs e @ [de]\<rparr>, de \<mapsto> x)" "d_name x = name" "d_subdirs x = []"
    "p_dentry (fs_pwd v) \<noteq> de" "inodes v' (d_inode e) = Some (i\<lparr>i_size := i_size i + 1\<rparr>)" "inodes v' (d_inode x) = Some j"
    "i_mode j = mode OR S_IFDIR" "i_size j = 0" "i_op j = RAMFS_DIR" "i_fop j = RAMFS_DIR"
    "fs_pwd v' = fs_pwd v" "mounts v' = mounts v" "mount_list v' = mount_list v"
    by (rule sys_mkdir_state [OF wf assms(3-8)])
  let ?dir = "p_dentry (fs_pwd v)"
  have l: "d_lookup ?dir n v' = (if n = name then Some de else d_lookup ?dir n v)" for n
    by (rule d_lookup_added [OF wf assms(5) m(2) _ _ m(4) _ assms(9)]) (use m(3,6) assms(5) in auto)
  have look: "cannot_lookup (std_ops drv) k = Some False" if "i_op k = RAMFS_DIR" for k using that by (simp add: cannot_lookup_def table_def std_ops_def)
  have f: "follow_mount q v' = follow_mount q v" for q by (simp add: follow_mount_def lookup_mnt_def m(14,15) Let_def)
  have "lookup_mnt de v = NULL" "de \<noteq> NULL" using lookup_mnt_young [OF wf m(2)] m(2) wf by (simp_all add: wf_vfs_def)
  then have "enter (std_ops drv) v' (fs_pwd v') name = Some \<lparr> p_mnt = p_mnt (fs_pwd v), p_dentry = de \<rparr>"
    using m(3,6,7,13) look assms(7) l [of name] by (simp add: enter_def f) (simp add: follow_mount_def)
  moreover have "enter (std_ops drv) v' (fs_pwd v') n = enter (std_ops drv) v (fs_pwd v) n" if "n \<noteq> name" for n
    using that m(3,6,7,13) look assms(5-7) l [of n] by (simp add: enter_def f cong: if_cong)
  ultimately show ?thesis using m(1,3,5,8-12) by (intro exI [of _ v'] exI [of _ de] exI [of _ x] exI [of _ j]) simp
qed

theorem mkdir_creates_witness:
  "\<exists>v' de. sys_mkdir (std_ops no_drivers) ''tmp'' 0x1ED usr_vfs = Some (0, v')
     \<and> enter (std_ops no_drivers) v' (fs_pwd v') ''tmp'' = Some \<lparr> p_mnt = 100, p_dentry = de \<rparr>"
proof -
  let ?e = "\<lparr> d_name = ''/'', d_inode = 103, d_sb = 101, d_parent = 104, d_subdirs = [105, 112] \<rparr>"
  let ?i = "\<lparr> i_ino = 1, i_size = 2, i_mode = 16384, i_rdev = 0, i_sb = 101, i_op = RAMFS_DIR, i_fop = RAMFS_DIR \<rparr>"
  have "dentries usr_vfs (p_dentry (fs_pwd usr_vfs)) = Some ?e" "inodes usr_vfs (d_inode ?e) = Some ?i" "mallocs usr_vfs = []" "p_mnt (fs_pwd usr_vfs) = 100"
    "d_inode ?e < brk usr_vfs" "\<forall>c\<in>set (d_subdirs ?e). map_option d_name (dentries usr_vfs c) \<noteq> Some ''tmp''"
    by (simp_all add: run_defs)
  with mkdir_creates [OF nodrv.file_system_axioms usr_reach, of "''tmp''" ?e ?i "0x1ED"] show ?thesis
    by (simp add: path_name_def) blast
qed

section \<open>Listing\<close>

text \<open>An open directory from which the entries \<open>seen\<close> have been read and the entries \<open>rest\<close> have not.\<close>

definition reading :: "fs_ops \<Rightarrow> int \<Rightarrow> nat \<Rightarrow> dentry \<Rightarrow> nat list \<Rightarrow> nat list \<Rightarrow> vfs \<Rightarrow> bool" where
  "reading ops fd dir e seen rest v \<longleftrightarrow> fget fd v \<noteq> NULL \<and> d_subdirs e = seen @ rest \<and> dentries v dir = Some e \<and> mallocs v = [] \<and> 0 < brk v
     \<and> (\<exists>f. files v (fget fd v) = Some f \<and> f_dentry f = dir \<and> f_pos f = of_nat (length seen) \<and> private_data f = hd (rest @ [dir])
          \<and> f_op f \<in> {RAMFS_DIR, DEVFS_DIR})"

text \<open>A directory whose size is the number of its entries, and whose entries have inodes and names that fit.\<close>

definition full_dir :: "nat \<Rightarrow> dentry \<Rightarrow> (nat \<Rightarrow> dentry option) \<Rightarrow> (nat \<Rightarrow> inode option) \<Rightarrow> bool" where
  "full_dir dir e ds is \<longleftrightarrow> map_option i_size (is (d_inode e)) = Some (of_nat (length (d_subdirs e))) \<and> length (d_subdirs e) < 2 ^ 32
     \<and> distinct (d_subdirs e) \<and> dir \<notin> set (d_subdirs e)
     \<and> (\<forall>c\<in>set (d_subdirs e). case ds c of None \<Rightarrow> False | Some x \<Rightarrow> is (d_inode x) \<noteq> None \<and> length (d_name x) < 256)"

definition child_names :: "(nat \<Rightarrow> dentry option) \<Rightarrow> nat list \<Rightarrow> string list" where
  "child_names ds cs = map (\<lambda>c. d_name (the (ds c))) cs"

lemma readdir_end:
  assumes "reading (std_ops drv) fd dir e seen [] v" "full_dir dir e (dentries v) (inodes v)"
  shows "readdir (std_ops drv) fd v = Some (None, v)"
proof -
  obtain f where f: "files v (fget fd v) = Some f" "f_dentry f = dir" "f_pos f = of_nat (length seen)" "f_op f \<in> {RAMFS_DIR, DEVFS_DIR}"
    using assms(1) by (auto simp: reading_def)
  obtain i where i: "inodes v (d_inode e) = Some i" "i_size i = of_nat (length seen)" using assms by (auto simp: full_dir_def reading_def)
  have r: "dir_read n (fget fd v) v = Some (0, None, v)" for n using f i assms(1) by (simp add: dir_read_def reading_def)
  show ?thesis using f(1,4) assms(1) by (auto simp: readdir_def sys_getdents_def Let_def reading_def std_ops_def ramfs_readdir_def devfs_readdir_def r)
qed

lemma child_after_mid: "distinct (seen @ c # rest) \<Longrightarrow> child_after dir (seen @ c # rest) c = Some (hd (rest @ [dir]))"
  by (induction seen) (auto simp: child_after_def)

lemma readdir_next:
  assumes r: "reading (std_ops drv) fd dir e seen (c # rest) v" and d: "full_dir dir e (dentries v) (inodes v)"
  shows "\<exists>l v'. readdir (std_ops drv) fd v = Some (Some l, v') \<and> [l_name l] = child_names (dentries v) [c]
     \<and> reading (std_ops drv) fd dir e (seen @ [c]) rest v' \<and> dentries v' = dentries v \<and> inodes v' = inodes v"
proof -
  let ?fp = "fget fd v"
  obtain f where f: "files v ?fp = Some f" "f_dentry f = dir" "f_pos f = of_nat (length seen)" "private_data f = c" "f_op f \<in> {RAMFS_DIR, DEVFS_DIR}"
    using r by (auto simp: reading_def)
  have s: "d_subdirs e = seen @ c # rest" "dentries v dir = Some e" "?fp \<noteq> NULL" "mallocs v = []" "0 < brk v" using r by (auto simp: reading_def)
  have n: "distinct (seen @ c # rest)" "dir \<noteq> c" "length seen + Suc (length rest) < 2 ^ 32" using d s(1) by (auto simp: full_dir_def)
  obtain i where i: "inodes v (d_inode e) = Some i" "i_size i = of_nat (length (seen @ c # rest))" using d s(1) by (auto simp: full_dir_def)
  have "unat (i_size i) = length (seen @ c # rest)" unfolding i(2) unat_of_nat using n(3) by (intro mod_less) simp
  moreover have "unat (f_pos f) = length seen" unfolding f(3) unat_of_nat using n(3) by (intro mod_less) simp
  ultimately have pos: "\<not> f_pos f \<ge> i_size i" by (simp add: word_le_nat_alt)
  obtain x j where x: "dentries v c = Some x" "inodes v (d_inode x) = Some j" "length (d_name x) < 256"
    using d s(1) by (auto simp: full_dir_def split: option.splits)
  obtain l where l: "filldir (d_name x) 0 (i_ino j) (i_mode j) = Some l" "l_name l = d_name x" using x(3) by (simp add: filldir_def)
  let ?w = "upd_file ?fp (\<lambda>f. f\<lparr>private_data := hd (rest @ [dir]), f_pos := f_pos f + 1\<rparr>) v"
  let ?v = "?w\<lparr>brk := brk v + 1\<rparr>"
  have rd: "dir_read m ?fp v = Some (m, Some l, ?w)" for m
    using f s(1,2) i(1) pos n(2) x l(1) child_after_mid [OF n(1), of dir] by (simp add: dir_read_def)
  have "new_obj ?w = (brk v, ?v)" using s(4) by (simp add: new_obj_def upd_file_def)
  then have "readdir (std_ops drv) fd v = Some (Some l, ?v)"
    using f(1,5) s(3,5) by (auto simp: readdir_def sys_getdents_def Let_def std_ops_def ramfs_readdir_def devfs_readdir_def rd)
  moreover have "reading (std_ops drv) fd dir e (seen @ [c]) rest ?v"
  proof -
    have "fget fd ?v = ?fp" by (simp add: fget_def upd_file_def)
    then show ?thesis using f s by (simp add: reading_def) (simp add: upd_file_def add.commute)
  qed
  ultimately show ?thesis using l(2) x(1) by (intro exI [of _ l] exI [of _ ?v]) (simp add: child_names_def upd_file_def)
qed

lemma ls_loop_lists:
  "reading (std_ops drv) fd dir e seen rest v \<Longrightarrow> full_dir dir e (dentries v) (inodes v)
     \<Longrightarrow> \<exists>v'. ls_loop (std_ops drv) fd out v = Some (out @ child_names (dentries v) rest, v') \<and> reading (std_ops drv) fd dir e (seen @ rest) [] v'"
proof (induction rest arbitrary: seen out v)
  case Nil
  then show ?case by (subst ls_loop.simps) (simp add: readdir_end child_names_def)
next
  case (Cons c rest)
  from readdir_next [OF Cons.prems] obtain l v1 where l: "readdir (std_ops drv) fd v = Some (Some l, v1)" "[l_name l] = child_names (dentries v) [c]"
    "reading (std_ops drv) fd dir e (seen @ [c]) rest v1" "dentries v1 = dentries v" "inodes v1 = inodes v" by blast
  have "child_names (dentries v) (c # rest) = l_name l # child_names (dentries v) rest" using l(2) by (simp add: child_names_def)
  then show ?case using Cons.IH [OF l(3), of "out @ [l_name l]"] Cons.prems(2) l(1,4,5) by (subst ls_loop.simps) simp
qed

lemma get_unused_fd_range: "0 \<le> get_unused_fd v \<Longrightarrow> get_unused_fd v < 256"
  by (auto simp: get_unused_fd_def find_Some_iff split: option.splits)

lemma opendir_reading:
  assumes "0 \<le> get_unused_fd v" "path_walk (std_ops drv) s v = Some (Inr p, v1)" "mallocs v1 = []" "0 < brk v1"
    and "dentries v1 (p_dentry p) = Some e" "inodes v1 (d_inode e) = Some i" "i_fop i \<in> {RAMFS_DIR, DEVFS_DIR}"
  shows "\<exists>v2. opendir (std_ops drv) s v = Some (Some (get_unused_fd v), v2)
     \<and> reading (std_ops drv) (get_unused_fd v) (p_dentry p) e [] (d_subdirs e) v2 \<and> dentries v2 = dentries v1 \<and> inodes v2 = inodes v1"
proof -
  let ?fd = "get_unused_fd v" and ?fp = "brk v1" and ?d = "p_dentry p"
  define f where "f = \<lparr> f_pos = 0, f_flags = 0, f_op = i_fop i, f_dentry = ?d, private_data = hd (d_subdirs e @ [?d]) \<rparr>"
  define v2 where "v2 = v1\<lparr>files := (files v1)(?fp \<mapsto> f), fd_array := (fd_array v1)(nat ?fd := ?fp), brk := brk v1 + 2\<rparr>"
  have "\<exists>g. o_open (std_ops drv) (i_fop i) = Some g \<and> g = dir_open" using assms(7) by (auto simp: std_ops_def ramfs_opendir_def devfs_opendir_def)
  then have o: "o_open (std_ops drv) (i_fop i) = Some dir_open" by blast
  have "i_fop i \<noteq> NO_OPS" using assms(7) by auto
  then have "opendir (std_ops drv) s v = Some (Some ?fd, v2)"
    using assms(1-6) o
    by (simp add: opendir_def sys_open_def Let_def new_obj_ok dentry_open_def upd_file_def dir_open_def fd_install_def f_def v2_def not_less)
  moreover have "fget ?fd v2 = ?fp" using assms(1) get_unused_fd_range [OF assms(1)] by (simp add: fget_def v2_def)
  then have "reading (std_ops drv) ?fd ?d e [] (d_subdirs e) v2"
    using assms(3-5,7) by (simp add: reading_def) (simp add: v2_def f_def)
  ultimately show ?thesis by (simp add: v2_def)
qed

text \<open>
  C25: \<^verbatim>\<open>ls\<close> on a path that leads to a directory of \<^verbatim>\<open>ramfs\<close> or \<^verbatim>\<open>devfs\<close> ends, and prints the names of its entries in order; for a
  directory whose entries all have inodes and are counted by its size, a free descriptor and memory.
\<close>

theorem ls_lists:
  assumes "file_system drv" "sys_reach drv v" "0 \<le> get_unused_fd v" "path_walk (std_ops drv) s v = Some (Inr p, v1)" "mallocs v1 = []"
    and "dentries v1 (p_dentry p) = Some e" "inodes v1 (d_inode e) = Some i" "i_fop i \<in> {RAMFS_DIR, DEVFS_DIR}"
    and "full_dir (p_dentry p) e (dentries v1) (inodes v1)"
  shows "\<exists>v'. ls_command (std_ops drv) s v = Some (0, child_names (dentries v1) (d_subdirs e), v')"
proof -
  have "wf_vfs v1"
    using file_system.path_walk_keeps(1) [OF file_system_std [OF assms(1)] assms(4) sys_reach_wf [OF assms(2,1)]] by (simp add: keeps_tree_def)
  then have pos: "0 < brk v1" by (simp add: wf_vfs_def)
  obtain v2 where v2: "opendir (std_ops drv) s v = Some (Some (get_unused_fd v), v2)"
    "reading (std_ops drv) (get_unused_fd v) (p_dentry p) e [] (d_subdirs e) v2" "dentries v2 = dentries v1" "inodes v2 = inodes v1"
    using opendir_reading [OF assms(3-5) pos assms(6-8)] by blast
  obtain v3 where v3: "ls_loop (std_ops drv) (get_unused_fd v) [] v2 = Some (child_names (dentries v1) (d_subdirs e), v3)"
    "reading (std_ops drv) (get_unused_fd v) (p_dentry p) e (d_subdirs e) [] v3"
    using ls_loop_lists [OF v2(2), of "[]"] assms(9) v2(3,4) by auto
  obtain v4 where "closedir (std_ops drv) (get_unused_fd v) v3 = Some (0, v4)"
    using v3(2) by (auto simp: closedir_def file_close_def reading_def Let_def fd_install_def std_ops_def)
  then show ?thesis using v2(1) v3(1) by (simp add: ls_command_def)
qed

theorem ls_lists_witness:
  "\<exists>v'. ls_command (std_ops no_drivers) ''/'' usr_vfs = Some (0, [''dev'', ''usr''], v')"
proof -
  let ?e = "\<lparr> d_name = ''/'', d_inode = 103, d_sb = 101, d_parent = 104, d_subdirs = [105, 112] \<rparr>"
  let ?i = "\<lparr> i_ino = 1, i_size = 2, i_mode = 16384, i_rdev = 0, i_sb = 101, i_op = RAMFS_DIR, i_fop = RAMFS_DIR \<rparr>"
  let ?p = "\<lparr> p_mnt = 100, p_dentry = 104 \<rparr>"
  have fd: "0 \<le> get_unused_fd usr_vfs" by (simp add: get_unused_fd_def run_defs upt_conv_Cons)
  have w: "path_walk (std_ops no_drivers) ''/'' usr_vfs = Some (Inr ?p, usr_vfs)" "mallocs usr_vfs = []"
    "dentries usr_vfs (p_dentry ?p) = Some ?e" "inodes usr_vfs (d_inode ?e) = Some ?i"
    by (simp_all add: run_defs)
  have f: "full_dir (p_dentry ?p) ?e (dentries usr_vfs) (inodes usr_vfs)" by (simp add: full_dir_def run_defs)
  have "child_names (dentries usr_vfs) (d_subdirs ?e) = [''dev'', ''usr'']" by (simp add: child_names_def run_defs)
  then show ?thesis using ls_lists [OF nodrv.file_system_axioms usr_reach fd w _ f] by simp
qed

section \<open>Device nodes\<close>

lemma devfs_mknod_dentries:
  assumes "devfs_mknod dir de mode devt v = Some (0, v')" "inodes v NULL = None"
  shows "dentries v' = dentries v" "inodes v' NULL = None"
proof -
  obtain d a v1 where a: "inodes v dir = Some d" "devfs_inode_create (i_sb d) mode v = Some (a, v1)"
    using assms(1) by (auto simp: devfs_mknod_def split: bind_splits)
  have c: "dentries v1 = dentries v" "inodes v1 NULL = None"
    using a(2) assms(2) by (auto simp: devfs_inode_create_def devfs_alloc_inode_def upd_inode_def new_obj_def Let_def split: prod.splits if_splits list.splits)
  show "dentries v' = dentries v" "inodes v' NULL = None"
    using assms(1) a c by (auto simp: devfs_mknod_def upd_inode_def split: if_splits bind_splits)
qed

text \<open>
  C26: a node that \<^verbatim>\<open>dev_mknod\<close> has made in a directory of \<^verbatim>\<open>devfs\<close> is found under its name but has no inode: opening it follows a null pointer.
\<close>

theorem mknod_cannot_open:
  assumes "file_system drv" "sys_reach drv v" "path_walk (std_ops drv) ''/dev'' v = Some (Inr nd, v1)" "inodes v1 NULL = None"
    and "dentries v1 (p_dentry nd) = Some e" "inodes v1 (d_inode e) = Some i" "i_op i = DEVFS_DIR"
    and "\<forall>c\<in>set (d_subdirs e). map_option d_name (dentries v1 c) \<noteq> Some name"
    and "dev_mknod (std_ops drv) name mode devt v = Some (0, v')"
  shows "\<exists>de. de \<noteq> NULL \<and> d_lookup (p_dentry nd) name v' = Some de \<and> (\<forall>fp. dentry_open (std_ops drv) de fp v' = None)"
proof -
  let ?dir = "p_dentry nd"
  have wf: "wf_vfs v1"
    using file_system.path_walk_keeps(1) [OF file_system_std [OF assms(1)] assms(3) sys_reach_wf [OF assms(2,1)]] by (simp add: keeps_tree_def)
  obtain de v2 where a: "d_alloc ?dir name v1 = Some (de, v2)" using assms(3,9) by (cases "d_alloc ?dir name v1") (auto simp: dev_mknod_def)
  obtain p where p: "dentries v1 ?dir = Some p" "brk v1 \<le> de" "de < brk v2" "inodes v2 = inodes v1" "?dir \<noteq> de"
    "dentries v2 = (dentries v1)(de \<mapsto> \<lparr> d_name = name, d_inode = NULL, d_sb = d_sb p, d_parent = ?dir, d_subdirs = [] \<rparr>,
       ?dir \<mapsto> p\<lparr>d_subdirs := d_subdirs p @ [de]\<rparr>)"
    "same_tree v1 (v2\<lparr>dentries := dentries v1\<rparr>)"
    by (rule d_alloc_cases [OF a wf])
  have pe: "p = e" using p(1) assms(5) by simp
  have "vfs_mknod (std_ops drv) (d_inode e) de mode devt v2 = devfs_mknod (d_inode e) de mode devt v2"
    using assms(6,7) p(4) by (simp add: vfs_mknod_def table_def std_ops_def)
  then obtain ret where m: "devfs_mknod (d_inode e) de mode devt v2 = Some (ret, v')" "\<not> ret < 0"
    using assms(3,9) a p(6) pe by (cases "devfs_mknod (d_inode e) de mode devt v2") (auto simp: dev_mknod_def split: if_splits)
  have "ret = 0" using m by (auto simp: devfs_mknod_def split: bind_splits if_splits)
  with m(1) have m: "devfs_mknod (d_inode e) de mode devt v2 = Some (0, v')" by simp
  have v': "dentries v' = dentries v2" "inodes v' NULL = None" using devfs_mknod_dentries [OF m] assms(4) p(4) by simp_all
  have d: "dentries v' ?dir = Some (e\<lparr>d_subdirs := d_subdirs e @ [de]\<rparr>)"
    "dentries v' de = Some \<lparr> d_name = name, d_inode = NULL, d_sb = d_sb e, d_parent = ?dir, d_subdirs = [] \<rparr>"
    using p(5,6) pe v'(1) by simp_all
  have "d_lookup ?dir name v' = Some de"
    using d_lookup_added [OF wf assms(5) p(2) d(1,2) _ _ assms(8), of name] p(5,6) pe v'(1) assms(5) by simp
  moreover have "dentry_open (std_ops drv) de fp v' = None" for fp using d(2) v'(2) by (simp add: dentry_open_def)
  moreover have "de \<noteq> NULL" using p(2) wf by (simp add: wf_vfs_def)
  ultimately show ?thesis by blast
qed

theorem mknod_cannot_open_witness:
  "\<exists>v' de. dev_mknod (std_ops no_drivers) ''tty'' 0x21B6 0x400000 usr_vfs = Some (0, v') \<and> d_lookup 111 ''tty'' v' = Some de
     \<and> (\<forall>fp. dentry_open (std_ops no_drivers) de fp v' = None)"
proof -
  let ?e = "\<lparr> d_name = ''/'', d_inode = 110, d_sb = 108, d_parent = 111, d_subdirs = [] \<rparr>"
  let ?i = "\<lparr> i_ino = 1234, i_size = 0, i_mode = 16384, i_rdev = 0, i_sb = 108, i_op = DEVFS_DIR, i_fop = DEVFS_DIR \<rparr>"
  have w: "path_walk (std_ops no_drivers) ''/dev'' usr_vfs = Some (Inr \<lparr> p_mnt = 107, p_dentry = 111 \<rparr>, usr_vfs)" "inodes usr_vfs NULL = None"
    by (simp_all add: run_defs)
  have d: "dentries usr_vfs (p_dentry \<lparr> p_mnt = 107, p_dentry = 111 \<rparr>) = Some ?e" "inodes usr_vfs (d_inode ?e) = Some ?i" "i_op ?i = DEVFS_DIR"
    "\<forall>c\<in>set (d_subdirs ?e). map_option d_name (dentries usr_vfs c) \<noteq> Some ''tty''"
    by (simp_all add: run_defs)
  have "\<exists>v'. dev_mknod (std_ops no_drivers) ''tty'' 0x21B6 0x400000 usr_vfs = Some (0, v')"
    by (simp add: dev_mknod_def run_defs vfs_mknod_def devfs_mknod_def)
  then obtain v' where m: "dev_mknod (std_ops no_drivers) ''tty'' 0x21B6 0x400000 usr_vfs = Some (0, v')" by blast
  show ?thesis using mknod_cannot_open [OF nodrv.file_system_axioms usr_reach w d m] m by auto
qed

end
