(* ===== verification/Shell.thy ===== *)
theory Shell
  imports Getopt "HOL-Library.Monad_Syntax" "HOL-Library.Sublist"
begin

text \<open>
  The shell, \<^verbatim>\<open>shell/shell.c\<close>: the line editor with its history and the completion of command names, the
  division of a line into arguments, and the execution of commands. Characters typed come from a list. What the editor
  echoes on the terminal is left out. \<open>None\<close> is an access outside of an array, a null or uninitialised pointer, or the wait for a
  character that is not typed. \<open>alloc_ok\<close> are the outcomes of the allocations to come; when none is left, they succeed.
\<close>

section \<open>State\<close>

abbreviation (input) MAX_ARG_LEN :: nat where "MAX_ARG_LEN \<equiv> 512"
abbreviation (input) MAX_ARGC :: nat where "MAX_ARGC \<equiv> 64"
abbreviation (input) APP_HIST_DEPTH :: nat where "APP_HIST_DEPTH \<equiv> 16"
abbreviation (input) ENOEXEC :: int where "ENOEXEC \<equiv> 8"

abbreviation (input) NUL :: char where "NUL \<equiv> CHR 0x00"
abbreviation (input) ESC :: char where "ESC \<equiv> CHR 0x1B"
abbreviation (input) CR :: char where "CR \<equiv> CHR 0x0D"
abbreviation (input) LF :: char where "LF \<equiv> CHR 0x0A"

text \<open>\<^verbatim>\<open>g_cmd_stack\<close>, and the variables of \<^verbatim>\<open>command_read_line\<close>.\<close>

record command_stack =
  stack :: "string option list"
  hist :: nat
  alloc_ok :: "bool list"

record line =
  buf :: string
  cur_pos :: nat
  cur_max :: nat
  hst_pos :: nat

definition cstr :: "string \<Rightarrow> string" where
  "cstr b = takeWhile (\<lambda>c. c \<noteq> NUL) b"

definition put_char :: "string \<Rightarrow> nat \<Rightarrow> char \<Rightarrow> string option" where
  "put_char b i c = (if i < length b then Some (b[i := c]) else None)"

definition store_str :: "string \<Rightarrow> string \<Rightarrow> string option" where
  "store_str b s = (if length s < length b then Some (s @ NUL # drop (length s + 1) b) else None)"

definition hist_alloc :: "command_stack \<Rightarrow> bool \<times> command_stack" where
  "hist_alloc sh = (case alloc_ok sh of [] \<Rightarrow> (True, sh) | ok # oks \<Rightarrow> (ok, sh\<lparr>alloc_ok := oks\<rparr>))"

section \<open>Editing\<close>

fun shift_up :: "nat \<Rightarrow> nat \<Rightarrow> string \<Rightarrow> string option" where
  "shift_up 0 pos b = Some b"
| "shift_up (Suc i) pos b = (if Suc i > pos then do { b \<leftarrow> put_char b (Suc i) (b ! i); shift_up i pos b } else Some b)"

fun shift_down :: "nat list \<Rightarrow> string \<Rightarrow> string option" where
  "shift_down [] b = Some b"
| "shift_down (i # is) b = (if i + 1 < length b then shift_down is (b[i := b ! (i + 1)]) else None)"

definition insert_one_key :: "char \<Rightarrow> line \<Rightarrow> line option" where
  "insert_one_key c l = do {
     b \<leftarrow> shift_up (cur_max l) (cur_pos l) (buf l);
     b \<leftarrow> put_char b (min (cur_max l) (cur_pos l)) c;
     Some (l\<lparr>buf := b, cur_pos := cur_pos l + 1, cur_max := cur_max l + 1\<rparr>) }"

definition backspace_one_key :: "line \<Rightarrow> line option" where
  "backspace_one_key l = do {
     b \<leftarrow> shift_down [cur_pos l - 1..<cur_max l - 1] (buf l);
     b \<leftarrow> put_char b (cur_max l - 1) NUL;
     Some (l\<lparr>buf := b, cur_pos := cur_pos l - 1, cur_max := cur_max l - 1\<rparr>) }"

definition delete_one_key :: "line \<Rightarrow> line option" where
  "delete_one_key l =
     (if cur_pos l = cur_max l then Some l
      else do {
        b \<leftarrow> shift_down [cur_pos l..<cur_max l - 1] (buf l);
        b \<leftarrow> put_char b (cur_max l) NUL;
        Some (l\<lparr>buf := b, cur_max := cur_max l - 1\<rparr>) })"

definition print_input :: "char \<Rightarrow> line \<Rightarrow> line option" where
  "print_input c l = (if cur_pos l < MAX_ARG_LEN - 1 then insert_one_key c l else Some l)"

definition cmd_right_key :: "line \<Rightarrow> line" where
  "cmd_right_key l = (if cur_pos l < cur_max l then l\<lparr>cur_pos := cur_pos l + 1\<rparr> else l)"

definition cmd_left_key :: "line \<Rightarrow> line" where
  "cmd_left_key l = (if cur_pos l > 0 then l\<lparr>cur_pos := cur_pos l - 1\<rparr> else l)"

section \<open>Completion\<close>

text \<open>
  \<^verbatim>\<open>str_match\<close> is \<^verbatim>\<open>strncmp (s, t, count) == 0\<close>. The names of the commands, \<open>exes\<close>, are those registered between \<^verbatim>\<open>g_exe_begin\<close>
  and \<^verbatim>\<open>g_exe_end\<close>; \<^verbatim>\<open>help\<close> is built in, and the memory for the matches is measured without it.
\<close>

definition get_pre_space_count :: "string \<Rightarrow> nat" where
  "get_pre_space_count b = length (takeWhile (\<lambda>c. c = CHR '' '') b)"

definition str_match :: "string \<Rightarrow> string \<Rightarrow> nat \<Rightarrow> bool" where
  "str_match s t count \<longleftrightarrow> (if count = 0 then s = t else take count s = take count t)"

definition cmd_names :: "string list \<Rightarrow> string list" where
  "cmd_names exes = ''help'' # exes"

definition cmd_matches :: "string list \<Rightarrow> line \<Rightarrow> string list" where
  "cmd_matches exes l =
     (let pre = get_pre_space_count (buf l); count = nat ((int (cur_pos l) - int pre) mod 2 ^ 32)
      in filter (\<lambda>n. cur_pos l = 0 \<or> str_match n (cstr (drop pre (buf l))) count) (cmd_names exes))"

fun insert_keys :: "string \<Rightarrow> line \<Rightarrow> line option" where
  "insert_keys [] l = Some l"
| "insert_keys (c # cs) l = do { l \<leftarrow> insert_one_key c l; insert_keys cs l }"

text \<open>The characters of the first match, from the position \<open>n\<close>, that the other matches share.\<close>

fun common_ext :: "string \<Rightarrow> string list \<Rightarrow> nat \<Rightarrow> string" where
  "common_ext [] rs n = []"
| "common_ext (ch # cs) rs n = (if list_all (\<lambda>r. n < length r \<and> r ! n = ch) rs then ch # common_ext cs rs (n + 1) else [])"

definition cmd_match :: "string list \<Rightarrow> line \<Rightarrow> command_stack \<Rightarrow> (int \<times> line \<times> command_stack) option" where
  "cmd_match exes l sh = do {
     let (ok, sh) = hist_alloc sh;
     if \<not> ok then Some (- ENOMEM, l, sh)
     else do {
       let pre = get_pre_space_count (buf l);
       let rs = cmd_matches exes l;
       if length rs > length exes then None
       else case rs of
         [] \<Rightarrow> Some (0, l, sh)
       | [r] \<Rightarrow>
           if cur_pos l < pre then None
           else do {
             l \<leftarrow> insert_keys (drop (cur_pos l - pre) r) l;
             l \<leftarrow> (if cur_pos l = cur_max l then insert_one_key (CHR '' '') l else Some l);
             Some (0, l, sh) }
       | r # rs \<Rightarrow>
           if cur_pos l < pre then None
           else do { l \<leftarrow> insert_keys (common_ext (drop (cur_pos l - pre) r) rs (cur_pos l - pre)) l; Some (0, l, sh) } } }"

fun opt_scan :: "char \<Rightarrow> string \<Rightarrow> bool" where
  "opt_scan p [] = False"
| "opt_scan p (c # cs) = (c = CHR ''-'' \<and> p = CHR '' '' \<or> opt_scan c cs)"

text \<open>\<^verbatim>\<open>cmd_line_status\<close>: whether an option begins before the cursor. A \<^verbatim>\<open>-\<close> at the start makes it read what precedes the buffer.\<close>

definition cmd_line_status :: "line \<Rightarrow> bool option" where
  "cmd_line_status l =
     (case cstr (take (cur_pos l) (buf l)) of [] \<Rightarrow> Some False | c # cs \<Rightarrow> if c = CHR ''-'' then None else Some (opt_scan c cs))"

section \<open>History\<close>

definition set_stack :: "nat \<Rightarrow> string \<Rightarrow> command_stack \<Rightarrow> command_stack" where
  "set_stack i s sh = sh\<lparr>stack := (stack sh)[i := Some s]\<rparr>"

text \<open>Storing a line in the current slot, which is allocated when it is first used.\<close>

definition save_line :: "string \<Rightarrow> command_stack \<Rightarrow> bool \<times> command_stack" where
  "save_line b sh =
     (let (ok, sh) = (if stack sh ! hist sh = None then hist_alloc sh else (True, sh))
      in if ok then (True, set_stack (hist sh) (cstr b) sh) else (False, sh))"

definition show_history :: "nat \<Rightarrow> string \<Rightarrow> line \<Rightarrow> line option" where
  "show_history index s l = do {
     b \<leftarrow> store_str (replicate (cur_pos l) NUL @ drop (cur_pos l) (buf l)) s;
     Some (l\<lparr>buf := b, hst_pos := index, cur_pos := length s, cur_max := length s\<rparr>) }"

definition cmd_up_key :: "line \<Rightarrow> command_stack \<Rightarrow> (int \<times> line \<times> command_stack) option" where
  "cmd_up_key l sh = do {
     (ok, l, sh) \<leftarrow> (if hst_pos l = hist sh then do {
         b \<leftarrow> put_char (buf l) (cur_pos l) NUL;
         let (ok, sh) = save_line b sh;
         Some (ok, l\<lparr>buf := b\<rparr>, sh) }
       else Some (True, l, sh));
     if \<not> ok then Some (- 1, l, sh)
     else do {
       let index = (hst_pos l + (APP_HIST_DEPTH - 1)) mod APP_HIST_DEPTH;
       case (if index = hist sh then None else stack sh ! index) of
         None \<Rightarrow> Some (- 1, l, sh)
       | Some s \<Rightarrow> do { l \<leftarrow> show_history index s l; Some (0, l, sh) } } }"

definition cmd_down_key :: "line \<Rightarrow> command_stack \<Rightarrow> line option" where
  "cmd_down_key l sh =
     (if hst_pos l = hist sh then Some l
      else do {
        let index = (hst_pos l + 1) mod APP_HIST_DEPTH;
        s \<leftarrow> stack sh ! index;
        show_history index s l })"

definition cmd_update_history :: "string \<Rightarrow> command_stack \<Rightarrow> int \<times> command_stack" where
  "cmd_update_history b sh =
     (let (ok, sh) = save_line b sh in if ok then (0, sh\<lparr>hist := (hist sh + 1) mod APP_HIST_DEPTH\<rparr>) else (- 1, sh))"

section \<open>Reading a line\<close>

text \<open>
  A key: its last character, \<open>spec_key\<close> and \<open>esc_sequence\<close>, which keeps its value after an escape that no bracket follows, and the
  input that is left.
\<close>

definition get_key :: "string \<Rightarrow> bool \<Rightarrow> (char \<times> bool \<times> bool \<times> string) option" where
  "get_key inp esc =
     (case inp of [] \<Rightarrow> None
      | c # inp \<Rightarrow>
          if c \<noteq> ESC then Some (c, False, False, inp)
          else case inp of [] \<Rightarrow> None
            | c # inp \<Rightarrow>
                if c \<noteq> CHR ''['' then Some (c, True, esc, inp)
                else case inp of [] \<Rightarrow> None | c # inp \<Rightarrow> Some (c, True, True, inp))"

definition special_key :: "char \<Rightarrow> line \<Rightarrow> line" where
  "special_key c l = (if c = CHR ''H'' then l\<lparr>cur_pos := 0\<rparr> else if c = CHR ''F'' then l\<lparr>cur_pos := cur_max l\<rparr> else l)"

text \<open>What the loop does with a key; it returns the value of \<^verbatim>\<open>input_c\<close> that the loop tests next.\<close>

definition press ::
  "string list \<Rightarrow> char \<Rightarrow> bool \<Rightarrow> bool \<Rightarrow> string \<Rightarrow> line \<Rightarrow> command_stack \<Rightarrow> (char \<times> line \<times> command_stack \<times> string) option"
where
  "press exes c spec esc inp l sh =
     (if c = CHR 0x09 then do {
        opt \<leftarrow> cmd_line_status l;
        if opt then Some (c, l, sh, inp) else do { (_, l, sh) \<leftarrow> cmd_match exes l sh; Some (c, l, sh, inp) } }
      else if c = CR \<or> c = LF then Some (c, l, sh, inp)
      else if c = CHR 0x03 then Some (LF, l\<lparr>cur_pos := 0, cur_max := 0\<rparr>, sh, inp)
      else if c = CHR 0x08 \<or> c = CHR 0x7F then
        (if cur_pos l > 0 then do { l \<leftarrow> backspace_one_key l; Some (c, l, sh, inp) } else Some (c, l, sh, inp))
      else if c = CHR ''A'' \<and> esc then do { (_, l, sh) \<leftarrow> cmd_up_key l sh; Some (c, l, sh, inp) }
      else if c = CHR ''B'' \<and> esc then do { l \<leftarrow> cmd_down_key l sh; Some (c, l, sh, inp) }
      else if c = CHR ''C'' \<and> esc then Some (c, cmd_right_key l, sh, inp)
      else if c = CHR ''D'' \<and> esc then Some (c, cmd_left_key l, sh, inp)
      else if c = CHR ''O'' \<and> spec then (case inp of [] \<Rightarrow> None | c # inp \<Rightarrow> Some (c, special_key c l, sh, inp))
      else if c = CHR ''3'' \<and> spec then
        (case inp of [] \<Rightarrow> None
         | c # inp \<Rightarrow> do { l \<leftarrow> (if c = CHR ''~'' then delete_one_key l else Some l); Some (c, l, sh, inp) })
      else if 0x20 \<le> (of_char c :: nat) \<and> (of_char c :: nat) \<le> 0x7F then do { l \<leftarrow> print_input c l; Some (c, l, sh, inp) }
      else Some (c, l, sh, inp))"

partial_function (option) edit_loop ::
  "string list \<Rightarrow> string \<Rightarrow> bool \<Rightarrow> line \<Rightarrow> command_stack \<Rightarrow> (line \<times> command_stack \<times> string \<times> bool) option"
where
  "edit_loop exes inp esc l sh = do {
     (c, spec, esc, inp) \<leftarrow> get_key inp esc;
     (c, l, sh, inp) \<leftarrow> press exes c spec esc inp l sh;
     if c = CR \<or> c = LF then Some (l, sh, inp, esc) else edit_loop exes inp esc l sh }"

partial_function (option) read_loop ::
  "string list \<Rightarrow> string \<Rightarrow> bool \<Rightarrow> line \<Rightarrow> command_stack \<Rightarrow> (line \<times> command_stack \<times> string) option"
where
  "read_loop exes inp esc l sh =
     (if cur_max l \<noteq> 0 then Some (l, sh, inp)
      else do { (l, sh, inp, esc) \<leftarrow> edit_loop exes inp esc l sh; read_loop exes inp esc l sh })"

definition command_read_line :: "string list \<Rightarrow> string \<Rightarrow> command_stack \<Rightarrow> (string \<times> command_stack \<times> string) option" where
  "command_read_line exes inp sh = do {
     (l, sh, inp) \<leftarrow> read_loop exes inp False \<lparr> buf = replicate MAX_ARG_LEN NUL, cur_pos = 0, cur_max = 0, hst_pos = hist sh \<rparr> sh;
     b \<leftarrow> put_char (buf l) (cur_max l) NUL;
     Some (cstr b, snd (cmd_update_history b sh), inp) }"

section \<open>Arguments\<close>

text \<open>\<^verbatim>\<open>cmd_line\<close> receives the characters, each at its place in the line; \<^verbatim>\<open>argv\<close> holds offsets into it.\<close>

definition put_arg :: "nat list \<Rightarrow> nat \<Rightarrow> nat \<Rightarrow> nat list option" where
  "put_arg av n off = (if n < MAX_ARGC then Some (take n av @ [off]) else None)"

fun translate_loop :: "string \<Rightarrow> nat \<Rightarrow> nat \<Rightarrow> nat list \<Rightarrow> string \<Rightarrow> nat \<Rightarrow> (int + nat \<times> nat list \<times> string \<times> nat) option" where
  "translate_loop [] i argc av cmd flag = Some (Inr (argc, av, cmd, flag))"
| "translate_loop (c # cs) i argc av cmd flag =
     (if c = CHR '' '' then
        (if flag = 0 then translate_loop cs (i + 1) argc av cmd flag
         else if flag = 1 then do { cmd \<leftarrow> put_char cmd i NUL; translate_loop cs (i + 1) (argc + 1) av cmd 0 }
         else do { cmd \<leftarrow> put_char cmd i c; translate_loop cs (i + 1) argc av cmd flag })
      else if c = CHR 0x22 then
        (if flag = 0 then do { av \<leftarrow> put_arg av argc (i + 1); translate_loop cs (i + 1) argc av cmd 2 }
         else if flag = 1 then Some (Inl (- EINVAL))
         else do { cmd \<leftarrow> put_char cmd i NUL; translate_loop cs (i + 1) (argc + 1) av cmd 0 })
      else do {
        av \<leftarrow> (if flag = 0 then put_arg av argc i else Some av);
        cmd \<leftarrow> put_char cmd i c;
        translate_loop cs (i + 1) argc av cmd (if flag = 0 then 1 else flag) })"

text \<open>The error, or the arguments: the strings that the first \<^verbatim>\<open>argc\<close> pointers point to.\<close>

definition command_translate :: "string \<Rightarrow> string \<Rightarrow> (int + string list) option" where
  "command_translate s cmd = do {
     r \<leftarrow> translate_loop s 0 0 [] cmd 0;
     case r of Inl e \<Rightarrow> Some (Inl e)
     | Inr (argc, av, cmd, flag) \<Rightarrow>
         if flag = 1 then do { cmd \<leftarrow> put_char cmd (length s) NUL; Some (Inr (map (\<lambda>off. cstr (drop off cmd)) (take (argc + 1) av))) }
         else if flag = 2 then Some (Inl (- EINVAL))
         else Some (Inr (map (\<lambda>off. cstr (drop off cmd)) (take argc av))) }"

section \<open>Commands\<close>

text \<open>
  A command is its name and its \<^verbatim>\<open>main\<close>, which sees the state of \<^verbatim>\<open>getopt\<close>, the arguments of the current task, and the rest of the
  machine, \<open>'s\<close>.
\<close>

record 's task_env =
  opt_state :: getopt_state
  current_task :: "string list option"
  machine :: 's

type_synonym 's command = "string \<times> (string list \<Rightarrow> 's task_env \<Rightarrow> int \<times> 's task_env) option"

definition exec :: "'s command list \<Rightarrow> bool \<Rightarrow> string list \<Rightarrow> 's task_env \<Rightarrow> (int \<times> 's task_env) option" where
  "exec cmds mem args st =
     (case args of [] \<Rightarrow> None
      | a # _ \<Rightarrow>
          (case find (\<lambda>(name, main). str_match name a MAX_ARG_LEN) cmds of
             None \<Rightarrow> Some (- ENOEXEC, st)
           | Some (name, None) \<Rightarrow> Some (- EINVAL, st)
           | Some (name, Some main) \<Rightarrow>
               if \<not> mem then Some (- ENOMEM, st)
               else let (ret, st) = main args (st\<lparr>current_task := Some args, opt_state := getopt_init (opt_state st)\<rparr>)
                    in Some (ret, st\<lparr>current_task := None\<rparr>)))"

definition shell_init :: "command_stack \<Rightarrow> command_stack" where
  "shell_init sh = sh\<lparr>stack := replicate APP_HIST_DEPTH None, hist := 0\<rparr>"

text \<open>One round of \<^verbatim>\<open>shell\<close>: the result of the command, or the error of the line.\<close>

definition shell_round ::
  "'s command list \<Rightarrow> 's command list \<Rightarrow> bool \<Rightarrow> string \<Rightarrow> string \<Rightarrow> command_stack \<Rightarrow> 's task_env
     \<Rightarrow> (int \<times> string \<times> command_stack \<times> 's task_env) option"
where
  "shell_round build_in exes mem cmd inp sh st = do {
     (s, sh, inp) \<leftarrow> command_read_line (map fst exes) inp sh;
     r \<leftarrow> command_translate s cmd;
     case r of Inl e \<Rightarrow> Some (e, inp, sh, st)
     | Inr args \<Rightarrow> do { (ret, st) \<leftarrow> exec (build_in @ exes) mem args st; Some (ret, inp, sh, st) } }"

section \<open>The line as two strings\<close>

text \<open>The abstract line: what precedes the cursor and what follows it.\<close>

definition holds :: "line \<Rightarrow> string \<Rightarrow> string \<Rightarrow> bool" where
  "holds l xs ys \<longleftrightarrow> (\<exists>zs. buf l = xs @ ys @ zs \<and> length (buf l) = MAX_ARG_LEN \<and> zs \<noteq> []) \<and> cur_pos l = length xs \<and> cur_max l = length xs + length ys
     \<and> NUL \<notin> set xs \<union> set ys"

lemma shift_up_moves: "shift_up (length xs + length ys) (length xs) (xs @ ys @ z # zs) = Some (xs @ (if ys = [] then z else hd ys) # ys @ zs)"
proof (induction ys arbitrary: z zs rule: rev_induct)
  case Nil
  then show ?case by (cases "length xs") simp_all
next
  case (snoc y ys)
  have "put_char (xs @ (ys @ [y]) @ z # zs) (Suc (length xs + length ys)) ((xs @ (ys @ [y]) @ z # zs) ! (length xs + length ys)) = Some (xs @ ys @ y # y # zs)"
    by (simp add: put_char_def list_update_append nth_append)
  then show ?case using snoc.IH [of y "y # zs"] by (cases ys) simp_all
qed

lemma shift_down_moves: "shift_down [length xs..<length xs + length ys] (xs @ y # ys @ zs) = Some (xs @ ys @ last (y # ys) # zs)"
proof (induction ys arbitrary: xs y)
  case (Cons y' ys)
  have "[length xs..<length xs + length (y' # ys)] = length xs # [length (xs @ [y'])..<length (xs @ [y']) + length ys]"
    by (subst upt_conv_Cons) simp_all
  moreover have "(xs @ y # (y' # ys) @ zs)[length xs := (xs @ y # (y' # ys) @ zs) ! (length xs + 1)] = (xs @ [y']) @ y' # ys @ zs"
    by (simp add: nth_append)
  ultimately show ?case using Cons.IH [of "xs @ [y']" y'] by simp
qed simp

lemma insert_holds:
  assumes "holds l xs ys" "c \<noteq> NUL" "length xs + length ys < MAX_ARG_LEN - 1"
  shows "\<exists>l'. insert_one_key c l = Some l' \<and> holds l' (xs @ [c]) ys \<and> hst_pos l' = hst_pos l"
proof -
  obtain zs where z: "buf l = xs @ ys @ zs" "length (buf l) = MAX_ARG_LEN" using assms(1) by (auto simp: holds_def)
  then obtain z1 z2 zs' where zs: "zs = z1 # z2 # zs'"
    using assms(3) by (cases zs; cases "tl zs") auto
  have p: "cur_pos l = length xs" "cur_max l = length xs + length ys" using assms(1) by (simp_all add: holds_def)
  have "insert_one_key c l = Some (l\<lparr>buf := xs @ c # ys @ z2 # zs', cur_pos := cur_pos l + 1, cur_max := cur_max l + 1\<rparr>)"
    using shift_up_moves [of xs ys z1 "z2 # zs'"] by (simp add: insert_one_key_def p z(1) zs put_char_def)
  then show ?thesis using assms(1,2) z zs by (simp add: holds_def)
qed

lemma backspace_holds:
  assumes "holds l (xs @ [x]) ys"
  shows "\<exists>l'. backspace_one_key l = Some l' \<and> holds l' xs ys \<and> hst_pos l' = hst_pos l"
proof -
  obtain zs where z: "buf l = (xs @ [x]) @ ys @ zs" "length (buf l) = MAX_ARG_LEN" using assms(1) by (auto simp: holds_def)
  have p: "cur_pos l = Suc (length xs)" "cur_max l = Suc (length xs + length ys)" using assms(1) by (simp_all add: holds_def)
  have "backspace_one_key l = Some (l\<lparr>buf := xs @ ys @ NUL # zs, cur_pos := cur_pos l - 1, cur_max := cur_max l - 1\<rparr>)"
    using shift_down_moves [of xs ys x zs] by (simp add: backspace_one_key_def p z(1) put_char_def list_update_append)
  then show ?thesis using assms z by (auto simp: holds_def)
qed

lemma delete_holds:
  assumes "holds l xs (y # ys)"
  shows "\<exists>l'. delete_one_key l = Some l' \<and> holds l' xs ys \<and> hst_pos l' = hst_pos l"
proof -
  obtain z zs where z: "buf l = xs @ (y # ys) @ z # zs" "length (buf l) = MAX_ARG_LEN"
    using assms(1) by (auto simp: holds_def neq_Nil_conv)
  have p: "cur_pos l = length xs" "cur_max l = Suc (length xs + length ys)" using assms(1) by (simp_all add: holds_def)
  have "delete_one_key l = Some (l\<lparr>buf := xs @ ys @ last (y # ys) # NUL # zs, cur_max := cur_max l - 1\<rparr>)"
    using shift_down_moves [of xs ys y "z # zs"] by (simp add: delete_one_key_def p z(1) put_char_def list_update_append)
  then show ?thesis using assms z by (auto simp: holds_def)
qed

datatype edit_key = Type char | Backspace | Delete | Left | Right | Home | End

fun key_text :: "edit_key \<Rightarrow> string" where
  "key_text (Type c) = [c]"
| "key_text Backspace = [CHR 0x7F]"
| "key_text Delete = [ESC, CHR ''['', CHR ''3'', CHR ''~'']"
| "key_text Left = [ESC, CHR ''['', CHR ''D'']"
| "key_text Right = [ESC, CHR ''['', CHR ''C'']"
| "key_text Home = [ESC, CHR ''O'', CHR ''H'']"
| "key_text End = [ESC, CHR ''O'', CHR ''F'']"

fun edit :: "edit_key \<Rightarrow> string \<times> string \<Rightarrow> string \<times> string" where
  "edit (Type c) (xs, ys) = (xs @ [c], ys)"
| "edit Backspace (xs, ys) = (butlast xs, ys)"
| "edit Delete (xs, ys) = (xs, tl ys)"
| "edit Left (xs, ys) = (if xs = [] then ([], ys) else (butlast xs, last xs # ys))"
| "edit Right (xs, ys) = (if ys = [] then (xs, []) else (xs @ [hd ys], tl ys))"
| "edit Home (xs, ys) = ([], xs @ ys)"
| "edit End (xs, ys) = (xs @ ys, [])"

fun key_ok :: "edit_key \<Rightarrow> bool" where
  "key_ok (Type c) = (0x20 \<le> (of_char c :: nat) \<and> (of_char c :: nat) < 0x7F)"
| "key_ok _ = True"

definition typed :: "edit_key list \<Rightarrow> nat" where
  "typed ks = length (filter (\<lambda>k. \<exists>c. k = Type c) ks)"

definition edits :: "edit_key list \<Rightarrow> string \<times> string \<Rightarrow> string \<times> string" where
  "edits ks z = fold edit ks z"

lemma holds_move: "holds l xs ys \<Longrightarrow> xs @ ys = xs' @ ys' \<Longrightarrow> holds (l\<lparr>cur_pos := length xs'\<rparr>) xs' ys'"
proof -
  assume a: "holds l xs ys" "xs @ ys = xs' @ ys'"
  then have "length xs + length ys = length xs' + length ys'" "set xs \<union> set ys = set xs' \<union> set ys'"
    by (metis length_append, metis set_append)
  then show ?thesis using a by (auto simp: holds_def append_assoc [symmetric] simp del: append_assoc)
qed

lemma press_type:
  assumes "key_ok (Type c)" "holds l xs ys" "length xs + length ys < MAX_ARG_LEN - 1"
  shows "\<exists>l'. press exes c False False inp l sh = Some (c, l', sh, inp) \<and> holds l' (xs @ [c]) ys \<and> hst_pos l' = hst_pos l \<and> c \<noteq> CR \<and> c \<noteq> LF \<and> c \<noteq> ESC"
proof -
  have ne: "c \<noteq> NUL" "c \<noteq> CR" "c \<noteq> LF" "c \<noteq> ESC" "c \<noteq> CHR 0x09" "c \<noteq> CHR 0x03" "c \<noteq> CHR 0x08" "c \<noteq> CHR 0x7F" using assms(1) by auto
  have pos: "cur_pos l < MAX_ARG_LEN - 1" using assms(2,3) by (simp add: holds_def)
  obtain l' where l: "insert_one_key c l = Some l'" "holds l' (xs @ [c]) ys" "hst_pos l' = hst_pos l"
    using insert_holds [OF assms(2) ne(1) assms(3)] by blast
  have "press exes c False False inp l sh = Some (c, l', sh, inp)"
    using ne assms(1) pos l(1) by (simp add: press_def print_input_def)
  then show ?thesis using l ne by blast
qed

lemma edit_key_step:
  assumes "key_ok k" "holds l xs ys" "length xs + length ys + typed [k] < MAX_ARG_LEN"
  shows "\<exists>l' esc'. edit_loop exes (key_text k @ inp) esc l sh = edit_loop exes inp esc' l' sh
     \<and> holds l' (fst (edit k (xs, ys))) (snd (edit k (xs, ys))) \<and> hst_pos l' = hst_pos l"
proof (cases k)
  case (Type c)
  then obtain l' where "press exes c False False inp l sh = Some (c, l', sh, inp)" "holds l' (xs @ [c]) ys" "hst_pos l' = hst_pos l" "c \<noteq> CR" "c \<noteq> LF" "c \<noteq> ESC"
    using press_type [of c l xs ys exes inp sh] assms by (auto simp: typed_def)
  then show ?thesis using Type by (subst edit_loop.simps) (auto simp: get_key_def)
next
  case Backspace
  show ?thesis
  proof (cases "xs = []")
    case True
    then have "cur_pos l = 0" using assms(2) by (simp add: holds_def)
    then show ?thesis using Backspace True assms(2) by (subst edit_loop.simps) (auto simp: get_key_def press_def)
  next
    case False
    then have s: "holds l (butlast xs @ [last xs]) ys" "0 < cur_pos l" using assms(2) by (auto simp: holds_def)
    obtain l' where "backspace_one_key l = Some l'" "holds l' (butlast xs) ys" "hst_pos l' = hst_pos l" using backspace_holds [OF s(1)] by blast
    then show ?thesis using Backspace s(2) by (subst edit_loop.simps) (auto simp: get_key_def press_def)
  qed
next
  case Delete
  have "\<exists>l'. delete_one_key l = Some l' \<and> holds l' xs (tl ys) \<and> hst_pos l' = hst_pos l"
  proof (cases ys)
    case Nil
    then show ?thesis using assms(2) by (simp add: delete_one_key_def holds_def)
  next
    case (Cons y ys')
    then show ?thesis using delete_holds assms(2) by simp
  qed
  then obtain l' where l: "delete_one_key l = Some l'" "holds l' xs (tl ys)" "hst_pos l' = hst_pos l" by blast
  then have "edit_loop exes (key_text k @ inp) esc l sh = edit_loop exes inp True l' sh"
    using Delete by (subst edit_loop.simps) (simp add: get_key_def press_def)
  then show ?thesis using l Delete by auto
next
  case Left
  have "holds (cmd_left_key l) (fst (edit Left (xs, ys))) (snd (edit Left (xs, ys)))"
    using assms(2) holds_move [OF assms(2), of "butlast xs" "last xs # ys"] by (cases "xs = []") (auto simp: cmd_left_key_def holds_def)
  moreover have "hst_pos (cmd_left_key l) = hst_pos l" by (simp add: cmd_left_key_def)
  ultimately show ?thesis using Left by (subst edit_loop.simps) (auto simp: get_key_def press_def)
next
  case Right
  have "holds (cmd_right_key l) (fst (edit Right (xs, ys))) (snd (edit Right (xs, ys)))"
    using assms(2) holds_move [OF assms(2), of "xs @ [hd ys]" "tl ys"] by (cases ys) (auto simp: cmd_right_key_def holds_def)
  moreover have "hst_pos (cmd_right_key l) = hst_pos l" by (simp add: cmd_right_key_def)
  ultimately show ?thesis using Right by (subst edit_loop.simps) (auto simp: get_key_def press_def)
next
  case Home
  then show ?thesis using holds_move [OF assms(2), of "[]" "xs @ ys"] by (subst edit_loop.simps) (auto simp: get_key_def press_def special_key_def)
next
  case End
  have "cur_max l = length (xs @ ys)" using assms(2) by (simp add: holds_def)
  then show ?thesis using End holds_move [OF assms(2), of "xs @ ys" "[]"] by (subst edit_loop.simps) (auto simp: get_key_def press_def special_key_def)
qed

lemma edit_length: "key_ok k \<Longrightarrow> length (fst (edit k (xs, ys))) + length (snd (edit k (xs, ys))) \<le> length xs + length ys + typed [k]"
  by (cases k) (auto simp: typed_def)

lemma typed_Cons: "typed (k # ks) = typed [k] + typed ks"
  by (simp add: typed_def)

lemma edit_keys_run:
  "list_all key_ok ks \<Longrightarrow> holds l xs ys \<Longrightarrow> length xs + length ys + typed ks < MAX_ARG_LEN
     \<Longrightarrow> \<exists>l' esc'. edit_loop exes (concat (map key_text ks) @ inp) esc l sh = edit_loop exes inp esc' l' sh
       \<and> holds l' (fst (edits ks (xs, ys))) (snd (edits ks (xs, ys))) \<and> hst_pos l' = hst_pos l"
proof (induction ks arbitrary: l xs ys esc)
  case Nil
  then show ?case by (auto simp: edits_def)
next
  case (Cons k ks)
  let ?z = "edit k (xs, ys)"
  have ok: "key_ok k" "length xs + length ys + typed [k] < MAX_ARG_LEN" using Cons.prems typed_Cons [of k ks] by auto
  obtain l1 esc1 where s: "edit_loop exes (key_text k @ concat (map key_text ks) @ inp) esc l sh = edit_loop exes (concat (map key_text ks) @ inp) esc1 l1 sh"
    "holds l1 (fst ?z) (snd ?z)" "hst_pos l1 = hst_pos l"
    using edit_key_step [OF ok(1) Cons.prems(2) ok(2)] by blast
  have "length (fst ?z) + length (snd ?z) + typed ks < MAX_ARG_LEN"
    using edit_length [OF ok(1), of xs ys] Cons.prems(3) typed_Cons [of k ks] by simp
  from Cons.IH [OF _ s(2) this, of esc1] Cons.prems(1) s(1,3) show ?case by (auto simp: edits_def)
qed

lemma edit_loop_line:
  assumes "list_all key_ok ks" "holds l xs ys" "length xs + length ys + typed ks < MAX_ARG_LEN"
  shows "\<exists>l'. edit_loop exes (concat (map key_text ks) @ CR # inp) esc l sh = Some (l', sh, inp, False)
     \<and> holds l' (fst (edits ks (xs, ys))) (snd (edits ks (xs, ys))) \<and> hst_pos l' = hst_pos l"
proof -
  obtain l' esc' where l: "edit_loop exes (concat (map key_text ks) @ CR # inp) esc l sh = edit_loop exes (CR # inp) esc' l' sh"
    "holds l' (fst (edits ks (xs, ys))) (snd (edits ks (xs, ys)))" "hst_pos l' = hst_pos l"
    using edit_keys_run [OF assms] by blast
  have "edit_loop exes (CR # inp) esc' l' sh = Some (l', sh, inp, False)" by (subst edit_loop.simps) (simp add: get_key_def press_def)
  then show ?thesis using l by auto
qed

text \<open>The history: \<open>lines\<close> are the last lines entered, the latest first.\<close>

definition history :: "command_stack \<Rightarrow> string list \<Rightarrow> bool" where
  "history sh lines \<longleftrightarrow> length (stack sh) = APP_HIST_DEPTH \<and> hist sh < APP_HIST_DEPTH \<and> alloc_ok sh = []
     \<and> (\<forall>k < min (length lines) (APP_HIST_DEPTH - 1). stack sh ! ((hist sh + (APP_HIST_DEPTH - 1 - k)) mod APP_HIST_DEPTH) = Some (lines ! k))"

lemma cstr_held: "holds l xs ys \<Longrightarrow> put_char (buf l) (cur_max l) NUL = Some b \<Longrightarrow> cstr b = xs @ ys"
proof -
  assume a: "holds l xs ys" "put_char (buf l) (cur_max l) NUL = Some b"
  then obtain zs z where "buf l = (xs @ ys) @ z # zs" by (auto simp: holds_def neq_Nil_conv)
  with a have "b = (xs @ ys) @ NUL # zs" "\<forall>c\<in>set (xs @ ys). c \<noteq> NUL" by (auto simp: holds_def put_char_def list_update_append split: if_splits)
  then show ?thesis by (simp add: cstr_def takeWhile_tail del: append_assoc)
qed

lemma mod16: "a < 32 \<Longrightarrow> a mod 16 = (if a < 16 then a else a - 16 :: nat)"
  by (simp add: le_mod_geq)

lemma mod16_hit: "h < 16 \<Longrightarrow> k < 15 \<Longrightarrow> (Suc h mod 16 + (15 - k)) mod 16 = h \<longleftrightarrow> k = (0::nat)"
  by (cases "h = 15") (auto simp: mod16)

lemma update_history:
  assumes "history sh lines" "cstr b = s"
  shows "history (snd (cmd_update_history b sh)) (s # lines)"
proof -
  have h: "length (stack sh) = 16" "hist sh < 16" "alloc_ok sh = []" using assms(1) by (simp_all add: history_def)
  have u: "snd (cmd_update_history b sh) = sh\<lparr>stack := (stack sh)[hist sh := Some s], hist := Suc (hist sh) mod 16\<rparr>"
    using h(3) assms(2) by (simp add: cmd_update_history_def save_line_def hist_alloc_def set_stack_def)
  have "((stack sh)[hist sh := Some s]) ! ((Suc (hist sh) mod 16 + (15 - k)) mod 16) = Some ((s # lines) ! k)" if k: "k < Suc (length lines)" "k < 15" for k
  proof (cases k)
    case 0
    then show ?thesis using h mod16_hit [OF h(2), of 0] by simp
  next
    case (Suc j)
    have ne: "(Suc (hist sh) mod 16 + (15 - k)) mod 16 \<noteq> hist sh" using mod16_hit [OF h(2) k(2)] Suc by simp
    have "(Suc (hist sh) mod 16 + (15 - Suc j)) mod 16 = (hist sh + (15 - j)) mod 16" using k(2) Suc
      by (metis Suc_diff_Suc add_Suc add_Suc_right mod_add_left_eq Suc_lessD)
    then show ?thesis using assms(1) k Suc ne by (simp add: history_def)
  qed
  then show ?thesis using h by (simp add: u history_def)
qed

lemma empty_line: "holds \<lparr> buf = replicate MAX_ARG_LEN NUL, cur_pos = 0, cur_max = 0, hst_pos = h \<rparr> [] []"
  by (simp add: holds_def)

lemma line_entered:
  assumes "edit_loop exes inp False \<lparr> buf = replicate MAX_ARG_LEN NUL, cur_pos = 0, cur_max = 0, hst_pos = hist sh \<rparr> sh = Some (l, sh1, inp', esc)"
    and "holds l xs ys" "xs @ ys \<noteq> []" "history sh1 lines"
  shows "\<exists>sh'. command_read_line exes inp sh = Some (xs @ ys, sh', inp') \<and> history sh' ((xs @ ys) # lines)"
proof -
  have m: "cur_max l \<noteq> 0" "cur_max l < length (buf l)" using assms(2,3) by (auto simp: holds_def simp flip: length_greater_0_conv)
  then obtain b where b: "put_char (buf l) (cur_max l) NUL = Some b" by (simp add: put_char_def)
  have "read_loop exes inp False \<lparr> buf = replicate MAX_ARG_LEN NUL, cur_pos = 0, cur_max = 0, hst_pos = hist sh \<rparr> sh = Some (l, sh1, inp')"
    using assms(1) m(1) by (subst read_loop.simps) (simp add: read_loop.simps)
  then show ?thesis using b cstr_held [OF assms(2) b] update_history [OF assms(4) cstr_held [OF assms(2) b]] by (simp add: command_read_line_def)
qed

text \<open>
  C21: a line typed with characters, rubouts and cursor keys is the text that these keys make of an empty line, and becomes the latest
  entry of the history; when fewer characters are typed than the buffer holds and some are left.
\<close>

theorem read_line_edits:
  assumes "history sh lines" "list_all key_ok ks" "typed ks < MAX_ARG_LEN" "edits ks ([], []) = (xs, ys)" "xs @ ys \<noteq> []"
  shows "\<exists>sh'. command_read_line exes (concat (map key_text ks) @ CR # inp) sh = Some (xs @ ys, sh', inp) \<and> history sh' ((xs @ ys) # lines)"
proof -
  let ?l = "\<lparr> buf = replicate MAX_ARG_LEN NUL, cur_pos = 0, cur_max = 0, hst_pos = hist sh \<rparr>"
  obtain l' where l: "edit_loop exes (concat (map key_text ks) @ CR # inp) False ?l sh = Some (l', sh, inp, False)" "holds l' xs ys"
    using edit_loop_line [OF assms(2) empty_line [of "hist sh"], of exes inp False sh] assms(3,4) by auto
  then show ?thesis using line_entered [OF l assms(5,1)] by blast
qed

theorem read_line_edits_witness:
  "\<exists>sh'. command_read_line [''ls''] (''lt'' @ [CHR 0x7F] @ ''s'' @ CR # []) \<lparr> stack = replicate 16 None, hist = 0, alloc_ok = [] \<rparr> = Some (''ls'', sh', [])
     \<and> history sh' [''ls'']"
  using read_line_edits [of "\<lparr> stack = replicate 16 None, hist = 0, alloc_ok = [] \<rparr>" "[]"
      "[Type (CHR ''l''), Type (CHR ''t''), Backspace, Type (CHR ''s'')]" "''ls''" "[]" "[''ls'']" "[]"]
  by (simp add: history_def typed_def edits_def)

section \<open>Recalling lines\<close>

definition up_text :: string where
  "up_text = [ESC, CHR ''['', CHR ''A'']"

lemma show_history_holds:
  assumes "holds l xs ys" "NUL \<notin> set s" "length s < MAX_ARG_LEN"
  shows "\<exists>l'. show_history index s l = Some l' \<and> holds l' s [] \<and> hst_pos l' = index"
proof -
  let ?b = "replicate (cur_pos l) NUL @ drop (cur_pos l) (buf l)"
  have "length ?b = MAX_ARG_LEN" using assms(1) by (auto simp: holds_def)
  then show ?thesis using assms(2,3) by (simp add: show_history_def store_str_def holds_def)
qed

lemma slot_not_current: "h < 16 \<Longrightarrow> k < 15 \<Longrightarrow> (h + (15 - k)) mod 16 \<noteq> (h :: nat)"
  by (auto simp: mod16)

lemma slot_before: "h < 16 \<Longrightarrow> k < 14 \<Longrightarrow> ((h + (15 - k)) mod 16 + 15) mod 16 = (h + (15 - Suc k)) mod (16 :: nat)"
  by (auto simp: mod16)

lemma history_nth: "history sh lines \<Longrightarrow> k < length lines \<Longrightarrow> k < 15 \<Longrightarrow> stack sh ! ((hist sh + (15 - k)) mod 16) = Some (lines ! k)"
  by (simp add: history_def)

lemma history_current: "history sh lines \<Longrightarrow> history (sh\<lparr>stack := (stack sh)[hist sh := x]\<rparr>) lines"
  using slot_not_current [of "hist sh", THEN not_sym] by (simp add: history_def)

lemma concat_replicate_snoc: "concat (replicate (Suc n) u) = concat (replicate n u) @ u"
  by (induction n) simp_all

definition recallable :: "string list \<Rightarrow> bool" where
  "recallable lines \<longleftrightarrow> list_all (\<lambda>s. NUL \<notin> set s \<and> length s < MAX_ARG_LEN) lines"

lemma up_first:
  assumes "history sh lines" "recallable lines" "lines \<noteq> []" "holds l [] []" "hst_pos l = hist sh"
  shows "\<exists>l' sh'. edit_loop exes (up_text @ inp) esc l sh = edit_loop exes inp True l' sh' \<and> history sh' lines \<and> hist sh' = hist sh
     \<and> holds l' (lines ! 0) [] \<and> hst_pos l' = (hist sh + 15) mod 16"
proof -
  have h: "length (stack sh) = 16" "hist sh < 16" "alloc_ok sh = []" using assms(1) by (simp_all add: history_def)
  define sh' where "sh' = sh\<lparr>stack := (stack sh)[hist sh := Some []]\<rparr>"
  have hist': "history sh' lines"
    unfolding sh'_def by (rule history_current [OF assms(1)])
  have p: "cur_pos l = 0" "length (buf l) = MAX_ARG_LEN" using assms(4) by (auto simp: holds_def)
  let ?l = "l\<lparr>buf := (buf l)[0 := NUL]\<rparr>"
  have s: "save_line ((buf l)[0 := NUL]) sh = (True, sh')"
    using h(3) p(2) by (cases "buf l") (simp_all add: save_line_def hist_alloc_def set_stack_def cstr_def sh'_def)
  have "holds ?l [] []" using assms(4) by (auto simp: holds_def)
  moreover have r: "NUL \<notin> set (lines ! 0)" "length (lines ! 0) < MAX_ARG_LEN" using assms(2,3) by (auto simp: recallable_def list_all_length)
  ultimately obtain l' where l': "show_history ((hist sh + 15) mod 16) (lines ! 0) ?l = Some l'" "holds l' (lines ! 0) []" "hst_pos l' = (hist sh + 15) mod 16"
    using show_history_holds by blast
  have "stack sh' ! ((hist sh + 15) mod 16) = Some (lines ! 0)" using history_nth [OF hist', of 0] assms(3) by (simp add: sh'_def)
  then have "cmd_up_key l sh = Some (0, l', sh')"
    using assms(5) p s l'(1) slot_not_current [OF h(2), of 0] by (simp add: cmd_up_key_def put_char_def sh'_def)
  then have "edit_loop exes (up_text @ inp) esc l sh = edit_loop exes inp True l' sh'"
    by (subst edit_loop.simps) (simp add: up_text_def get_key_def press_def)
  moreover have "hist sh' = hist sh" by (simp add: sh'_def)
  ultimately show ?thesis using hist' l' by blast
qed

lemma up_next:
  assumes "history sh lines" "recallable lines" "Suc n < length lines" "Suc n < 15" "holds l xs []" "hst_pos l = (hist sh + (15 - n)) mod 16"
  shows "\<exists>l'. edit_loop exes (up_text @ inp) esc l sh = edit_loop exes inp True l' sh \<and> holds l' (lines ! Suc n) [] \<and> hst_pos l' = (hist sh + (15 - Suc n)) mod 16"
proof -
  have h: "hist sh < 16" using assms(1) by (simp add: history_def)
  have i: "(hst_pos l + 15) mod 16 = (hist sh + (15 - Suc n)) mod 16" using slot_before [OF h, of n] assms(4,6) by simp
  have ne: "hst_pos l \<noteq> hist sh" "(hist sh + (15 - Suc n)) mod 16 \<noteq> hist sh"
    using slot_not_current [OF h, of n] slot_not_current [OF h, of "Suc n"] assms(4,6) by simp_all
  have "NUL \<notin> set (lines ! Suc n)" "length (lines ! Suc n) < MAX_ARG_LEN" using assms(2,3) by (auto simp: recallable_def list_all_length)
  then obtain l' where l': "show_history ((hist sh + (15 - Suc n)) mod 16) (lines ! Suc n) l = Some l'" "holds l' (lines ! Suc n) []"
    "hst_pos l' = (hist sh + (15 - Suc n)) mod 16"
    using show_history_holds [OF assms(5)] by blast
  have "stack sh ! ((hist sh + (15 - Suc n)) mod 16) = Some (lines ! Suc n)" by (rule history_nth [OF assms(1,3,4)])
  then have "cmd_up_key l sh = Some (0, l', sh)" using ne i l'(1) by (simp add: cmd_up_key_def)
  then have "edit_loop exes (up_text @ inp) esc l sh = edit_loop exes inp True l' sh"
    by (subst edit_loop.simps) (simp add: up_text_def get_key_def press_def)
  then show ?thesis using l' by auto
qed

lemma ups:
  assumes "history sh lines" "recallable lines" "n < length lines" "n < 15" "holds l [] []" "hst_pos l = hist sh"
  shows "\<exists>l' sh'. edit_loop exes (concat (replicate (Suc n) up_text) @ inp) esc l sh = edit_loop exes inp True l' sh' \<and> history sh' lines
     \<and> hist sh' = hist sh \<and> holds l' (lines ! n) [] \<and> hst_pos l' = (hist sh + (15 - n)) mod 16"
  using assms(3,4)
proof (induction n arbitrary: inp)
  case 0
  then show ?case using up_first [OF assms(1,2) _ assms(5,6), of exes inp esc] by auto
next
  case (Suc n)
  then obtain l' sh' where l: "edit_loop exes (concat (replicate (Suc n) up_text) @ up_text @ inp) esc l sh = edit_loop exes (up_text @ inp) True l' sh'"
    "history sh' lines" "hist sh' = hist sh" "holds l' (lines ! n) []" "hst_pos l' = (hist sh + (15 - n)) mod 16"
    by (metis Suc_lessD)
  obtain l2 where l2: "edit_loop exes (up_text @ inp) True l' sh' = edit_loop exes inp True l2 sh'" "holds l2 (lines ! Suc n) []"
    "hst_pos l2 = (hist sh + (15 - Suc n)) mod 16"
    using up_next [OF l(2) assms(2) Suc.prems l(4)] l(3,5) by (metis (no_types))
  have "concat (replicate (Suc (Suc n)) up_text) @ inp = concat (replicate (Suc n) up_text) @ up_text @ inp"
    by (simp only: concat_replicate_snoc append_assoc)
  then show ?case using l(1-3) l2 by metis
qed

text \<open>
  C23: pressing the up key \<open>n + 1\<close> times on an empty line, for \<open>n\<close> below 15, and then enter, reads the line entered \<open>n\<close> lines before the last
  again.
\<close>

theorem history_recall:
  assumes "history sh lines" "recallable lines" "n < length lines" "n < APP_HIST_DEPTH - 1" "lines ! n \<noteq> []"
  shows "\<exists>sh'. command_read_line exes (concat (replicate (Suc n) up_text) @ CR # inp) sh = Some (lines ! n, sh', inp) \<and> history sh' (lines ! n # lines)"
proof -
  let ?l = "\<lparr> buf = replicate MAX_ARG_LEN NUL, cur_pos = 0, cur_max = 0, hst_pos = hist sh \<rparr>"
  have n: "n < 15" using assms(4) by simp
  obtain l' sh1 where l: "edit_loop exes (concat (replicate (Suc n) up_text) @ CR # inp) False ?l sh = edit_loop exes (CR # inp) True l' sh1"
    "history sh1 lines" "holds l' (lines ! n) []"
    using ups [OF assms(1-3) n empty_line [of "hist sh"], of exes "CR # inp" False] by auto
  have "edit_loop exes (CR # inp) True l' sh1 = Some (l', sh1, inp, False)" by (subst edit_loop.simps) (simp add: get_key_def press_def)
  with l(1) have e: "edit_loop exes (concat (replicate (Suc n) up_text) @ CR # inp) False ?l sh = Some (l', sh1, inp, False)" by simp
  show ?thesis using line_entered [OF e l(3) _ l(2)] assms(5) by simp
qed

theorem history_recall_witness:
  "\<exists>sh'. command_read_line [''ls''] (up_text @ up_text @ [CR]) \<lparr> stack = Some ''pwd'' # Some ''ls'' # replicate 14 None, hist = 2, alloc_ok = [] \<rparr>
      = Some (''pwd'', sh', []) \<and> history sh' [''pwd'', ''ls'', ''pwd'']"
proof -
  let ?sh = "\<lparr> stack = Some ''pwd'' # Some ''ls'' # replicate 14 None, hist = 2, alloc_ok = [] \<rparr>"
  have "stack ?sh ! ((hist ?sh + (APP_HIST_DEPTH - 1 - k)) mod APP_HIST_DEPTH) = Some ([''ls'', ''pwd''] ! k)" if "k < 2" for k
    using less_2_cases [OF that] by auto
  then have "history ?sh [''ls'', ''pwd'']" by (simp add: history_def)
  from history_recall [OF this, of 1 "[''ls'']" "[]"] show ?thesis by (simp add: recallable_def)
qed

section \<open>Words of a line\<close>

datatype arg = Plain string | Quoted string

fun arg_text :: "arg \<Rightarrow> string" where
  "arg_text (Plain w) = w"
| "arg_text (Quoted w) = CHR 0x22 # w @ [CHR 0x22]"

fun arg_val :: "arg \<Rightarrow> string" where
  "arg_val (Plain w) = w"
| "arg_val (Quoted w) = w"

fun arg_ok :: "arg \<Rightarrow> bool" where
  "arg_ok (Plain w) = (w \<noteq> [] \<and> set w \<inter> {CHR '' '', CHR 0x22, NUL} = {})"
| "arg_ok (Quoted w) = (set w \<inter> {CHR 0x22, NUL} = {})"

text \<open>A line: its arguments, each after a number of blanks, and blanks at the end.\<close>

definition line_text :: "(nat \<times> arg) list \<Rightarrow> nat \<Rightarrow> string" where
  "line_text ws m = concat (map (\<lambda>(n, w). replicate n (CHR '' '') @ arg_text w) ws) @ replicate m (CHR '' '')"

definition separated :: "(nat \<times> arg) list \<Rightarrow> bool" where
  "separated ws \<longleftrightarrow> list_all (\<lambda>(n, w). 0 < n) (tl ws) \<and> list_all (\<lambda>(n, w). arg_ok w) ws"

definition write_at :: "nat \<Rightarrow> string \<Rightarrow> string \<Rightarrow> string" where
  "write_at i w cmd = take i cmd @ w @ drop (i + length w) cmd"

definition args_at :: "nat \<Rightarrow> string \<Rightarrow> nat list \<Rightarrow> string list \<Rightarrow> bool" where
  "args_at i cmd av vals \<longleftrightarrow> list_all2 (\<lambda>off v. off + length v < i \<and> take (length v + 1) (drop off cmd) = v @ [NUL] \<and> NUL \<notin> set v) av vals"

lemma put_char_write: "i < length cmd \<Longrightarrow> put_char cmd i c = Some (write_at i [c] cmd)"
  by (simp add: put_char_def write_at_def upd_conv_take_nth_drop)

lemma length_write [simp]: "i + length w \<le> length cmd \<Longrightarrow> length (write_at i w cmd) = length cmd"
  by (simp add: write_at_def)

lemma write_write: "i + length (c # w) \<le> length cmd \<Longrightarrow> write_at (i + 1) w (write_at i [c] cmd) = write_at i (c # w) cmd"
  by (simp add: write_at_def add.commute)

lemma write_nil [simp]: "write_at i [] cmd = cmd"
  by (simp add: write_at_def)

lemma write_snoc: "i + length w < length cmd \<Longrightarrow> write_at (i + length w) [c] (write_at i w cmd) = write_at i (w @ [c]) cmd"
  by (simp add: write_at_def)

lemma args_at_write:
  assumes "args_at i cmd av vals" "i \<le> j" "j \<le> length cmd"
  shows "args_at i (write_at j w cmd) av vals"
proof -
  have "take k (write_at j w cmd) = take k cmd" if "k \<le> j" for k using that assms(3) by (simp add: write_at_def)
  then have "take (length v + 1) (drop off (write_at j w cmd)) = take (length v + 1) (drop off cmd)" if "off + length v < i" for off and v :: string
    using that assms(2) by (simp add: take_drop)
  then show ?thesis using assms(1) by (auto simp: args_at_def elim!: list_all2_mono)
qed

lemma args_at_snoc:
  assumes "args_at i cmd av vals" "i \<le> j" "j + length v < length cmd" "NUL \<notin> set v"
  shows "args_at (j + length v + 1) (write_at j (v @ [NUL]) cmd) (av @ [j]) (vals @ [v])"
proof -
  have "args_at i (write_at j (v @ [NUL]) cmd) av vals" using args_at_write [OF assms(1,2)] assms(3) by simp
  then have "args_at (j + length v + 1) (write_at j (v @ [NUL]) cmd) av vals" using assms(2) by (auto simp: args_at_def elim!: list_all2_mono)
  moreover have "take (length v + 1) (drop j (write_at j (v @ [NUL]) cmd)) = v @ [NUL]" using assms(3) by (simp add: write_at_def)
  ultimately show ?thesis using assms(4) list_all2_lengthD [OF assms(1) [unfolded args_at_def]] by (simp add: args_at_def list_all2_append)
qed

lemma cstr_prefix: "take (length v + 1) b = v @ [NUL] \<Longrightarrow> NUL \<notin> set v \<Longrightarrow> cstr b = v"
proof -
  assume a: "take (length v + 1) b = v @ [NUL]" "NUL \<notin> set v"
  then have "b = v @ NUL # drop (length v + 1) b" by (metis append_Cons append_Nil append_assoc append_take_drop_id)
  moreover have "takeWhile (\<lambda>c. c \<noteq> NUL) (v @ NUL # zs) = v" for zs using a(2) by (subst takeWhile_append2) auto
  ultimately show ?thesis by (metis cstr_def)
qed

lemma args_at_strings: "args_at i cmd av vals \<Longrightarrow> map (\<lambda>off. cstr (drop off cmd)) av = vals"
  unfolding args_at_def by (induction rule: list_all2_induct) (simp_all add: cstr_prefix)

lemma translate_blanks: "translate_loop (replicate n (CHR '' '') @ cs) i argc av cmd 0 = translate_loop cs (i + n) argc av cmd 0"
  by (induction n arbitrary: i) simp_all

lemma translate_plain:
  "set w \<inter> {CHR '' '', CHR 0x22} = {} \<Longrightarrow> i + length w \<le> length cmd
     \<Longrightarrow> translate_loop (w @ cs) i argc av cmd 1 = translate_loop cs (i + length w) argc av (write_at i w cmd) 1"
proof (induction w arbitrary: i cmd)
  case (Cons c w)
  then have "translate_loop ((c # w) @ cs) i argc av cmd 1 = translate_loop (w @ cs) (i + 1) argc av (write_at i [c] cmd) 1"
    by (auto simp: put_char_write)
  then show ?case using Cons write_write [of i c w cmd] by simp
qed simp

lemma translate_quoted:
  "CHR 0x22 \<notin> set w \<Longrightarrow> i + length w \<le> length cmd
     \<Longrightarrow> translate_loop (w @ cs) i argc av cmd 2 = translate_loop cs (i + length w) argc av (write_at i w cmd) 2"
proof (induction w arbitrary: i cmd)
  case (Cons c w)
  then have "translate_loop ((c # w) @ cs) i argc av cmd 2 = translate_loop (w @ cs) (i + 1) argc av (write_at i [c] cmd) 2"
    by (auto simp: put_char_write)
  then show ?case using Cons write_write [of i c w cmd] by simp
qed simp

lemma translate_word:
  assumes "arg_ok (Plain w)" "i + length w \<le> length cmd" "length av < MAX_ARGC"
  shows "translate_loop (w @ cs) i (length av) av cmd 0 = translate_loop cs (i + length w) (length av) (av @ [i]) (write_at i w cmd) 1"
proof -
  obtain c w' where w: "w = c # w'" using assms(1) by (cases w) auto
  have "translate_loop (w @ cs) i (length av) av cmd 0 = translate_loop (w' @ cs) (i + 1) (length av) (av @ [i]) (write_at i [c] cmd) 1"
    using assms by (auto simp: w put_arg_def put_char_write)
  then show ?thesis using translate_plain [of w' "i + 1" "write_at i [c] cmd" cs "length av" "av @ [i]"] write_write [of i c w' cmd] assms(1,2) w by simp
qed

lemma translate_quotes:
  assumes "arg_ok (Quoted w)" "i + length w + 2 \<le> length cmd" "length av < MAX_ARGC"
  shows "translate_loop (arg_text (Quoted w) @ cs) i (length av) av cmd 0
    = translate_loop cs (i + length w + 2) (length av + 1) (av @ [i + 1]) (write_at (i + 1) (w @ [NUL]) cmd) 0"
proof -
  have "translate_loop (arg_text (Quoted w) @ cs) i (length av) av cmd 0 = translate_loop (w @ CHR 0x22 # cs) (i + 1) (length av) (av @ [i + 1]) cmd 2"
    using assms(3) by (simp add: put_arg_def)
  also have "\<dots> = translate_loop (CHR 0x22 # cs) (i + 1 + length w) (length av) (av @ [i + 1]) (write_at (i + 1) w cmd) 2"
    using assms(1,2) by (intro translate_quoted) auto
  also have "\<dots> = translate_loop cs (i + length w + 2) (length av + 1) (av @ [i + 1]) (write_at (i + 1 + length w) [NUL] (write_at (i + 1) w cmd)) 0"
    using assms(2) by (simp add: put_char_write)
  finally show ?thesis using write_snoc [of "i + 1" w cmd NUL] assms(2) by simp
qed

text \<open>The state at the end of a line: the last argument ended by a blank or a quote, or by the end of the line.\<close>

definition parsed :: "nat \<Rightarrow> nat \<Rightarrow> nat list \<Rightarrow> string \<Rightarrow> nat \<Rightarrow> string list \<Rightarrow> bool" where
  "parsed n argc av cmd flag vals \<longleftrightarrow>
     (flag = 0 \<and> argc = length av \<and> args_at n cmd av vals \<or>
      flag = 1 \<and> argc + 1 = length av \<and> n < length cmd \<and> args_at (n + 1) (write_at n [NUL] cmd) av vals)"

lemma line_text_Cons: "line_text ((n, w) # ws) m = replicate n (CHR '' '') @ arg_text w @ line_text ws m"
  by (simp add: line_text_def)

lemma rest_blank:
  assumes "separated ((n, w) # ws)" "line_text ws m \<noteq> []"
  obtains ws' m' where "line_text ws m = CHR '' '' # line_text ws' m'" "separated ws'" "map snd ws' = map snd ws"
proof (cases ws)
  case Nil
  then obtain m' where "m = Suc m'" using assms(2) by (cases m) (auto simp: line_text_def)
  then show ?thesis using that [of "[]" m'] Nil by (simp add: line_text_def separated_def)
next
  case (Cons x ws1)
  obtain k v where "x = (Suc k, v)" using assms(1) Cons by (cases x; cases "fst x") (auto simp: separated_def)
  then show ?thesis using that [of "(k, v) # ws1" m] Cons assms(1) by (auto simp: line_text_Cons separated_def)
qed

lemma translate_words:
  "separated ws \<Longrightarrow> args_at i cmd av vals \<Longrightarrow> i + length (line_text ws m) < length cmd \<Longrightarrow> length av + length ws \<le> MAX_ARGC
     \<Longrightarrow> \<exists>argc' av' cmd' flag. translate_loop (line_text ws m) i (length av) av cmd 0 = Some (Inr (argc', av', cmd', flag))
       \<and> parsed (i + length (line_text ws m)) argc' av' cmd' flag (vals @ map (arg_val \<circ> snd) ws)"
proof (induction "length ws" arbitrary: ws i cmd av vals m)
  case 0
  then show ?case using translate_blanks [of m "[]" i "length av" av cmd]
    by (auto simp: line_text_def parsed_def args_at_def elim!: list_all2_mono)
next
  case (Suc k)
  then obtain n w ws1 where ws: "ws = (n, w) # ws1" by (cases ws) auto
  have ok: "arg_ok w" "separated ws1" using Suc.prems(1) by (cases ws1; auto simp: ws separated_def)+
  let ?i = "i + n" and ?rest = "line_text ws1 m"
  have len: "?i + length (arg_text w) + length ?rest < length cmd" using Suc.prems(3) by (simp add: ws line_text_Cons)
  have start: "translate_loop (line_text ws m) i (length av) av cmd 0 = translate_loop (arg_text w @ ?rest) ?i (length av) av cmd 0"
    using translate_blanks by (simp add: ws line_text_Cons)
  show ?case
  proof (cases w)
    case (Quoted v)
    have v: "?i + length v + 2 + length ?rest < length cmd" "NUL \<notin> set v" using len ok(1) Quoted by auto
    let ?cmd = "write_at (?i + 1) (v @ [NUL]) cmd"
    have go: "translate_loop (line_text ws m) i (length av) av cmd 0 = translate_loop ?rest (?i + length v + 2) (length (av @ [?i + 1])) (av @ [?i + 1]) ?cmd 0"
      using start translate_quotes [of v ?i cmd av ?rest] ok(1) v Suc.prems(4) Quoted by (simp add: ws)
    have "args_at (?i + length v + 2) ?cmd (av @ [?i + 1]) (vals @ [v])"
      using args_at_snoc [OF Suc.prems(2), of "?i + 1" v] v by simp
    from Suc.hyps(1) [OF _ ok(2) this, of m] Suc.hyps(2) v Suc.prems(4) go Quoted show ?thesis by (simp add: ws line_text_Cons add_ac)
  next
    case (Plain v)
    have v: "?i + length v + length ?rest < length cmd" "NUL \<notin> set v" "arg_ok (Plain v)" using len ok(1) Plain by auto
    let ?cmd = "write_at ?i v cmd"
    have go: "translate_loop (line_text ws m) i (length av) av cmd 0 = translate_loop ?rest (?i + length v) (length av) (av @ [?i]) ?cmd 1"
      using start translate_word [of v ?i cmd av ?rest] v Suc.prems(4) Plain by (simp add: ws)
    have a: "args_at (?i + length v + 1) (write_at ?i (v @ [NUL]) cmd) (av @ [?i]) (vals @ [v])"
      using args_at_snoc [OF Suc.prems(2), of ?i v] v by simp
    have nul: "write_at (?i + length v) [NUL] ?cmd = write_at ?i (v @ [NUL]) cmd" using write_snoc v by simp
    show ?thesis
    proof (cases "?rest = []")
      case True
      then have "ws1 = []" using Suc.prems(1) by (cases ws1) (auto simp: ws line_text_Cons separated_def)
      then show ?thesis using go True a nul v by (simp add: parsed_def ws Plain line_text_Cons add_ac)
    next
      case False
      then obtain ws2 m2 where r: "?rest = CHR '' '' # line_text ws2 m2" "separated ws2" "map snd ws2 = map snd ws1"
        using rest_blank Suc.prems(1) ws by metis
      have l: "length ws2 = length ws1" using r(3) by (metis length_map)
      have vals: "map (arg_val \<circ> snd) ws2 = map (arg_val \<circ> snd) ws1" using r(3) by (metis map_map)
      have "translate_loop (line_text ws m) i (length av) av cmd 0
          = translate_loop (line_text ws2 m2) (?i + length v + 1) (length (av @ [?i])) (av @ [?i]) (write_at ?i (v @ [NUL]) cmd) 0"
        using go r(1) v(1) nul by (simp add: put_char_write)
      with Suc.hyps(1) [OF _ r(2) a, of m2] Suc.hyps(2) v Suc.prems(4) r(1) l vals show ?thesis
        by (simp add: ws Plain line_text_Cons add_ac)
    qed
  qed
qed

text \<open>
  C22: a line of at most 64 arguments, plain words or texts in quotes, with blanks between them, is divided into exactly these arguments, in
  order, whatever \<^verbatim>\<open>cmd_line\<close> held before.
\<close>

theorem translate_arguments:
  assumes "separated ws" "length ws \<le> MAX_ARGC" "length (line_text ws m) < MAX_ARG_LEN" "length cmd = MAX_ARG_LEN"
  shows "command_translate (line_text ws m) cmd = Some (Inr (map (arg_val \<circ> snd) ws))"
proof -
  have "args_at 0 cmd [] []" by (simp add: args_at_def)
  then obtain argc av cmd' flag where r: "translate_loop (line_text ws m) 0 0 [] cmd 0 = Some (Inr (argc, av, cmd', flag))"
    "parsed (length (line_text ws m)) argc av cmd' flag (map (arg_val \<circ> snd) ws)"
    using translate_words [OF assms(1), of 0 cmd "[]" "[]" m] assms(2-4) by auto
  from r(2) show ?thesis
    unfolding parsed_def
  proof (elim disjE conjE)
    assume "flag = 0" "argc = length av" "args_at (length (line_text ws m)) cmd' av (map (arg_val \<circ> snd) ws)"
    then show ?thesis using r(1) args_at_strings by (simp add: command_translate_def)
  next
    let ?n = "length (line_text ws m)"
    assume "flag = 1" "argc + 1 = length av" "?n < length cmd'" "args_at (?n + 1) (write_at ?n [NUL] cmd') av (map (arg_val \<circ> snd) ws)"
    then show ?thesis using r(1) args_at_strings put_char_write [of ?n cmd' NUL] by (simp add: command_translate_def)
  qed
qed

theorem translate_arguments_witness:
  "command_translate (''go  '' @ [CHR 0x22] @ ''a b'' @ [CHR 0x22] @ '' '') (replicate 512 NUL) = Some (Inr [''go'', ''a b''])"
  using translate_arguments [of "[(0, Plain ''go''), (2, Quoted ''a b'')]" 1 "replicate 512 NUL"]
  by (simp add: separated_def line_text_def numeral_2_eq_2)

text \<open>
  A line of blanks alone has no arguments, and \<^verbatim>\<open>exec\<close> then compares the names of the commands with an argument that does not exist.
\<close>

theorem blank_line_faults:
  "command_translate (replicate m (CHR '' '')) cmd = Some (Inr []) \<and> exec cmds mem [] st = None"
proof -
  have "translate_loop (replicate m (CHR '' '')) 0 0 [] cmd 0 = Some (Inr (0, [], cmd, 0))"
    using translate_blanks [of m "[]" 0 0 "[]" cmd] by simp
  then show ?thesis by (simp add: command_translate_def exec_def)
qed

section \<open>Completing commands\<close>

lemma insert_keys_holds:
  "holds l xs ys \<Longrightarrow> NUL \<notin> set cs \<Longrightarrow> length xs + length ys + length cs < MAX_ARG_LEN
     \<Longrightarrow> \<exists>l'. insert_keys cs l = Some l' \<and> holds l' (xs @ cs) ys \<and> hst_pos l' = hst_pos l"
proof (induction cs arbitrary: l xs)
  case (Cons c cs)
  then obtain l1 where l1: "insert_one_key c l = Some l1" "holds l1 (xs @ [c]) ys" "hst_pos l1 = hst_pos l"
    using insert_holds [of l xs ys c] by auto
  from Cons.IH [OF l1(2)] Cons.prems l1(1,3) show ?case by auto
qed simp

lemma common_ext_shared: "length p = n \<Longrightarrow> r \<in> set rs \<Longrightarrow> take n r = p \<Longrightarrow> prefix (p @ common_ext cs rs n) r"
proof (induction cs arbitrary: p n)
  case Nil
  then show ?case by (metis append.right_neutral common_ext.simps(1) take_is_prefix)
next
  case (Cons c cs)
  show ?case
  proof (cases "list_all (\<lambda>r. n < length r \<and> r ! n = c) rs")
    case True
    then have "n < length r" "r ! n = c" using Cons.prems(2) by (auto simp: list_all_iff)
    then have "take (Suc n) r = p @ [c]" using Cons.prems(3) by (simp add: take_Suc_conv_app_nth)
    then show ?thesis using Cons.IH [of "p @ [c]" "Suc n"] Cons.prems True by simp
  next
    case False
    then have "common_ext (c # cs) rs n = []" by simp
    then show ?thesis using Cons.prems(3) take_is_prefix [of n r] by simp
  qed
qed

lemma common_ext_prefix: "prefix (common_ext cs rs n) cs"
  by (induction cs arbitrary: n) auto

text \<open>No common prefix of the first match \<open>p @ cs\<close> and the others is longer.\<close>

lemma common_ext_longest:
  "length p = n \<Longrightarrow> prefix q (p @ cs) \<Longrightarrow> \<forall>r\<in>set rs. prefix q r \<and> take n r = p \<Longrightarrow> length q \<le> length (p @ common_ext cs rs n)"
proof (induction cs arbitrary: p n)
  case Nil
  then show ?case using prefix_length_le by fastforce
next
  case (Cons c cs)
  show ?case
  proof (cases "length q \<le> n")
    case False
    obtain zs where "p @ c # cs = q @ zs" using Cons.prems(2) by (auto simp: prefix_def)
    then have "(q @ zs) ! n = c" using Cons.prems(1) by (metis nth_append_length)
    then have n: "n < length q" "q ! n = c" using False by (auto simp: nth_append)
    have "n < length r \<and> r ! n = c" if "r \<in> set rs" for r
      using Cons.prems(3) that n by (auto simp: prefix_def nth_append)
    then have all: "list_all (\<lambda>r. n < length r \<and> r ! n = c) rs" by (simp add: list_all_iff)
    moreover have "\<forall>r\<in>set rs. prefix q r \<and> take (Suc n) r = p @ [c]" using Cons.prems(3) all by (simp add: list_all_iff take_Suc_conv_app_nth)
    ultimately show ?thesis using Cons.IH [of "p @ [c]" "Suc n"] Cons.prems(1,2) by simp
  qed (use Cons.prems(1) in simp)
qed

lemma common_ext_lcp:
  assumes "take n r = p" "length p = n" "\<forall>s\<in>set rs. take n s = p"
  shows "p @ common_ext (drop n r) rs n = Longest_common_prefix (set (r # rs))"
proof (rule sym, rule Longest_common_prefix_eq)
  have r: "r = p @ drop n r" using assms(1) by (metis append_take_drop_id)
  show "\<forall>xs\<in>set (r # rs). prefix (p @ common_ext (drop n r) rs n) xs"
    using common_ext_shared assms(2,3) common_ext_prefix [of "drop n r" rs n] r by (metis same_prefix_prefix set_ConsD)
  show "\<forall>qs. (\<forall>xs\<in>set (r # rs). prefix qs xs) \<longrightarrow> length qs \<le> length (p @ common_ext (drop n r) rs n)"
    using common_ext_longest [OF assms(2), of _ "drop n r" rs] assms(3) r by auto
qed simp

definition completion :: "string list \<Rightarrow> string" where
  "completion rs = (if length rs = 1 then hd rs @ '' '' else Longest_common_prefix (set rs))"

lemma opt_scan_none: "CHR ''-'' \<notin> set cs \<Longrightarrow> \<not> opt_scan c cs"
  by (induction cs arbitrary: c) auto

lemma edits_type: "edits (map Type s) (xs, ys) = (xs @ s, ys)"
  by (induction s arbitrary: xs) (simp_all add: edits_def)

lemma text_type: "concat (map key_text (map Type s)) = s"
  by (induction s) simp_all

lemma typed_type: "typed (map Type s) = length s"
  by (induction s) (simp_all add: typed_def)

lemma prefix_take: "prefix w n \<longleftrightarrow> take (length w) n = w"
  by (auto simp: prefix_def append_eq_conv_conj) (metis append_take_drop_id)

lemma line_no_option: "holds l xs [] \<Longrightarrow> CHR ''-'' \<notin> set xs \<Longrightarrow> cmd_line_status l = Some False"
proof -
  assume a: "holds l xs []" "CHR ''-'' \<notin> set xs"
  have "\<forall>c\<in>set xs. c \<noteq> NUL" using a(1) by (auto simp: holds_def)
  then have "cstr xs = xs" by (simp add: cstr_def)
  moreover have "take (cur_pos l) (buf l) = xs" using a(1) by (auto simp: holds_def)
  ultimately show ?thesis using a(2) by (cases xs) (auto simp: cmd_line_status_def opt_scan_none)
qed

lemma matches_word:
  assumes "holds l (replicate p (CHR '' '') @ w) []" "w \<noteq> []" "hd w \<noteq> CHR '' ''"
  shows "get_pre_space_count (buf l) = p" "cmd_matches exes l = filter (prefix w) (cmd_names exes)"
proof -
  obtain zs where z: "buf l = replicate p (CHR '' '') @ w @ zs" "length (buf l) = MAX_ARG_LEN" using assms(1) by (auto simp: holds_def)
  have pos: "cur_pos l = p + length w" using assms(1) by (simp add: holds_def)
  have "takeWhile (\<lambda>c. c = CHR '' '') (w @ zs) = []" using assms(2,3) by (cases w) simp_all
  then show pre: "get_pre_space_count (buf l) = p" by (simp add: get_pre_space_count_def z(1) takeWhile_append)
  have "\<forall>c\<in>set w. c \<noteq> NUL" using assms(1) by (auto simp: holds_def)
  then have c: "cstr (drop p (buf l)) = w @ cstr zs" by (simp add: z(1) cstr_def takeWhile_append)
  have "length w < 2 ^ 32" using z by (simp add: z(1))
  then have n: "nat ((int (cur_pos l) - int p) mod 2 ^ 32) = length w" using pos by simp
  have "str_match s (w @ cstr zs) (length w) = prefix w s" for s using assms(2) by (simp add: str_match_def prefix_take)
  then show "cmd_matches exes l = filter (prefix w) (cmd_names exes)"
    unfolding cmd_matches_def Let_def pre n c using assms(2) pos by simp
qed

lemma match_completes:
  assumes l: "holds l (replicate p (CHR '' '') @ w) []" and w: "w \<noteq> []" "hd w \<noteq> CHR '' ''" and a: "alloc_ok sh = []"
    and rs: "filter (prefix w) (cmd_names exes) = rs" "rs \<noteq> []" "length rs \<le> length exes" "\<forall>r\<in>set rs. NUL \<notin> set r"
    and len: "p + length (completion rs) < MAX_ARG_LEN"
  shows "\<exists>l'. cmd_match exes l sh = Some (0, l', sh) \<and> holds l' (replicate p (CHR '' '') @ completion rs) []"
proof -
  note m = matches_word [OF l w]
  have pos: "cur_pos l = p + length w" using l by (simp add: holds_def)
  have pre: "\<forall>r\<in>set rs. take (length w) r = w" using rs(1) by (auto simp: prefix_take [symmetric])
  obtain r rs' where r: "rs = r # rs'" using rs(2) by (cases rs) auto
  have rw: "r = w @ drop (length w) r" "NUL \<notin> set (drop (length w) r)"
    using pre rs(4) r by (metis append_take_drop_id list.set_intros(1), metis in_set_dropD list.set_intros(1))
  show ?thesis
  proof (cases rs')
    case Nil
    then have c: "completion rs = w @ drop (length w) r @ '' ''" using rw(1) r by (simp add: completion_def)
    have len1: "p + length w + length (drop (length w) r) < MAX_ARG_LEN - 1" using len unfolding c by simp
    obtain l1 where l1: "insert_keys (drop (length w) r) l = Some l1" "holds l1 ((replicate p (CHR '' '') @ w) @ drop (length w) r) []"
      using insert_keys_holds [OF l rw(2)] len1 by auto
    obtain l2 where l2: "insert_one_key (CHR '' '') l1 = Some l2" "holds l2 (((replicate p (CHR '' '') @ w) @ drop (length w) r) @ '' '') []"
      using insert_holds [OF l1(2), of "CHR '' ''"] len1 by auto
    have "cur_pos l1 = cur_max l1" "exes \<noteq> []" using l1(2) rs(3) r by (auto simp: holds_def)
    then have "cmd_match exes l sh = Some (0, l2, sh)"
      using a m rs(1,3) r Nil pos l1(1) l2(1) by (simp add: cmd_match_def hist_alloc_def)
    then show ?thesis using l2(2) c by simp
  next
    case (Cons r2 rs2)
    let ?c = "common_ext (drop (length w) r) rs' (length w)"
    have c: "completion rs = w @ ?c"
      using common_ext_lcp [of "length w" r w rs'] pre r Cons by (simp add: completion_def)
    have "NUL \<notin> set ?c" using set_mono_prefix [OF common_ext_prefix [of "drop (length w) r" rs' "length w"]] rw(2) by blast
    then obtain l1 where l1: "insert_keys ?c l = Some l1" "holds l1 ((replicate p (CHR '' '') @ w) @ ?c) []"
      using insert_keys_holds [OF l, of ?c] len unfolding c by auto
    have "cmd_match exes l sh = Some (0, l1, sh)"
      using a m rs(1,3) r Cons pos l1(1) by (simp add: cmd_match_def hist_alloc_def)
    then show ?thesis using l1(2) c by simp
  qed
qed

text \<open>
  C24: the tab key after a word completes it: to the only command that begins with it, and a blank, or to the longest common prefix of the
  commands that do; as long as these are not more than the registered commands.
\<close>

theorem tab_completes:
  assumes "history sh lines" "list_all key_ok (map Type w)" "w \<noteq> []" "hd w \<noteq> CHR '' ''" "CHR ''-'' \<notin> set w"
    and "filter (prefix w) (cmd_names exes) = rs" "rs \<noteq> []" "length rs \<le> length exes" "\<forall>r\<in>set rs. NUL \<notin> set r"
    and "p + length (completion rs) < MAX_ARG_LEN" "p + length w < MAX_ARG_LEN"
  shows "\<exists>sh'. command_read_line exes (replicate p (CHR '' '') @ w @ CHR 0x09 # CR # inp) sh = Some (replicate p (CHR '' '') @ completion rs, sh', inp)
     \<and> history sh' ((replicate p (CHR '' '') @ completion rs) # lines)"
proof -
  let ?l = "\<lparr> buf = replicate MAX_ARG_LEN NUL, cur_pos = 0, cur_max = 0, hst_pos = hist sh \<rparr>" and ?s = "replicate p (CHR '' '') @ w"
  have ok: "list_all key_ok (map Type ?s)" using assms(2) by (auto simp: list_all_iff)
  obtain l esc where l: "edit_loop exes (?s @ CHR 0x09 # CR # inp) False ?l sh = edit_loop exes (CHR 0x09 # CR # inp) esc l sh" "holds l ?s []"
    using edit_keys_run [OF ok empty_line [of "hist sh"], of exes "CHR 0x09 # CR # inp" False sh] assms(11)
    unfolding text_type typed_type edits_type by auto
  have a: "alloc_ok sh = []" using assms(1) by (simp add: history_def)
  obtain l' where m: "cmd_match exes l sh = Some (0, l', sh)" "holds l' (replicate p (CHR '' '') @ completion rs) []"
    using match_completes [OF l(2) assms(3,4) a assms(6-10)] by blast
  have "cmd_line_status l = Some False" using line_no_option [OF l(2)] assms(5) by auto
  then have "edit_loop exes (CHR 0x09 # CR # inp) esc l sh = edit_loop exes (CR # inp) False l' sh"
    using m(1) by (subst edit_loop.simps) (simp add: get_key_def press_def)
  moreover have "edit_loop exes (CR # inp) False l' sh = Some (l', sh, inp, False)" by (subst edit_loop.simps) (simp add: get_key_def press_def)
  ultimately have e: "edit_loop exes (?s @ CHR 0x09 # CR # inp) False ?l sh = Some (l', sh, inp, False)" using l(1) by simp
  have "length w \<le> length (completion rs)"
  proof (cases "length rs = 1")
    case True
    then obtain r where r: "rs = [r]" by (cases rs) auto
    then have "r \<in> set (filter (prefix w) (cmd_names exes))" using assms(6) by simp
    then show ?thesis using r prefix_length_le [of w r] by (simp add: completion_def)
  next
    case False
    have "prefix w (Longest_common_prefix (set rs))" using assms(6,7) by (intro Longest_common_prefix_max_prefix) auto
    then show ?thesis using False prefix_length_le by (auto simp: completion_def)
  qed
  then have "completion rs \<noteq> []" using assms(3) by auto
  then show ?thesis using line_entered [OF e m(2) _ assms(1)] by simp
qed

theorem tab_completes_witness:
  "\<exists>sh'. command_read_line [''ls'', ''ping''] ('' '' @ ''p'' @ [CHR 0x09, CR]) \<lparr> stack = replicate 16 None, hist = 0, alloc_ok = [] \<rparr> = Some ('' ping '', sh', [])
     \<and> history sh' ['' ping '']"
  using tab_completes [of "\<lparr> stack = replicate 16 None, hist = 0, alloc_ok = [] \<rparr>" "[]" "''p''" "[''ls'', ''ping'']" "[''ping'']" 1 "[]"]
  by (simp add: history_def cmd_names_def completion_def)

section \<open>Overruns\<close>

text \<open>
  The tab key on an empty line overruns the memory for the matches: it has room for the registered commands, and the built-in one
  matches too.
\<close>

theorem tab_overruns:
  assumes "alloc_ok sh = []"
  shows "command_read_line exes (CHR 0x09 # inp) sh = None"
proof -
  let ?l = "\<lparr> buf = replicate MAX_ARG_LEN NUL, cur_pos = 0, cur_max = 0, hst_pos = hist sh \<rparr>"
  have "length (cmd_matches exes ?l) > length exes" by (simp add: cmd_matches_def cmd_names_def Let_def)
  then have "cmd_match exes ?l sh = None" using assms by (simp add: cmd_match_def hist_alloc_def)
  moreover have "cmd_line_status ?l = Some False" by (simp add: cmd_line_status_def cstr_def)
  ultimately have "edit_loop exes (CHR 0x09 # inp) False ?l sh = None" by (subst edit_loop.simps) (simp add: get_key_def press_def)
  then show ?thesis by (simp add: command_read_line_def read_loop.simps)
qed

theorem tab_overruns_witness: "command_read_line [''ls''] [CHR 0x09, CR] \<lparr> stack = replicate 16 None, hist = 0, alloc_ok = [] \<rparr> = None"
  by (rule tab_overruns) simp

text \<open>
  The length of a line is limited by the position of the cursor, so that one more character can be typed before the end of a full line, and
  the terminator is then written behind the buffer.
\<close>

theorem full_line_overruns:
  assumes "length cs = MAX_ARG_LEN - 1" "list_all key_ok (map Type (cs @ [c]))"
  shows "command_read_line exes (cs @ key_text Left @ [c] @ CR # inp) sh = None"
proof -
  let ?l = "\<lparr> buf = replicate MAX_ARG_LEN NUL, cur_pos = 0, cur_max = 0, hst_pos = hist sh \<rparr>"
  have ok: "list_all key_ok (map Type cs @ [Left])" "key_ok (Type c)" using assms(2) by auto
  have t: "typed (map Type cs @ [Left]) = length cs" using typed_type [of cs] by (simp add: typed_def)
  have e: "edits (map Type cs @ [Left]) ([], []) = (butlast cs, [last cs])"
    using edits_type [of cs "[]" "[]"] assms(1) by (auto simp: edits_def)
  have x: "concat (map key_text (map Type cs @ [Left])) @ rest = cs @ key_text Left @ rest" for rest
    using text_type [of cs] by simp
  obtain l esc where l: "edit_loop exes (cs @ key_text Left @ [c] @ CR # inp) False ?l sh = edit_loop exes ([c] @ CR # inp) esc l sh"
    "holds l (butlast cs) [last cs]"
    using edit_keys_run [OF ok(1) empty_line [of "hist sh"], of exes "[c] @ CR # inp" False sh] assms(1) unfolding t e x by auto
  obtain zs where z: "buf l = butlast cs @ [last cs] @ zs" "length (buf l) = 512" "zs \<noteq> []" using l(2) by (auto simp: holds_def)
  then obtain z0 where zs: "zs = [z0]" using assms(1) by (cases zs) auto
  have p: "cur_pos l = 510" "cur_max l = 511" using l(2) assms(1) by (simp_all add: holds_def)
  have len: "length (butlast cs) = 510" using assms(1) by simp
  have "510 + length [last cs] = 511" by simp
  with shift_up_moves [of "butlast cs" "[last cs]" z0 "[]", unfolded len]
  have "shift_up 511 510 (butlast cs @ [last cs, z0]) = Some (butlast cs @ [last cs, last cs])" by (simp del: shift_up.simps)
  moreover have "(butlast cs @ [last cs, last cs])[510 := c] = butlast cs @ [c, last cs]" using len by (metis list_update_length)
  ultimately have "insert_one_key c l = Some (l\<lparr>buf := butlast cs @ [c, last cs], cur_pos := 511, cur_max := 512\<rparr>)"
    using assms(1) by (simp add: insert_one_key_def p z(1) zs put_char_def)
  moreover have "c \<noteq> ESC" "c \<noteq> CR" "c \<noteq> LF" "c \<noteq> CHR 0x09" "c \<noteq> CHR 0x03" "c \<noteq> CHR 0x08" "c \<noteq> CHR 0x7F" using ok(2) by auto
  ultimately have "edit_loop exes ([c] @ CR # inp) esc l sh = edit_loop exes (CR # inp) False (l\<lparr>buf := butlast cs @ [c, last cs], cur_pos := 511, cur_max := 512\<rparr>) sh"
    using ok(2) p(1) by (subst edit_loop.simps) (simp add: get_key_def press_def print_input_def)
  also have "\<dots> = Some (l\<lparr>buf := butlast cs @ [c, last cs], cur_pos := 511, cur_max := 512\<rparr>, sh, inp, False)"
    by (subst edit_loop.simps) (simp add: get_key_def press_def)
  finally show ?thesis using l(1) len by (simp add: command_read_line_def read_loop.simps put_char_def)
qed

theorem full_line_overruns_witness:
  "command_read_line [''ls''] (replicate 511 (CHR ''a'') @ key_text Left @ [CHR ''b''] @ CR # []) \<lparr> stack = replicate 16 None, hist = 0, alloc_ok = [] \<rparr> = None"
  by (rule full_line_overruns) (auto simp: list_all_iff)

end
