(* ===== verification/Spec2Isabelle.thy ===== *)
theory Spec2Isabelle
  imports Prelude ListHead Heap NandEcc Image CString Stdio Strex Net Socket Sysconf Ndev Loader Kermit Ymodem Block NandChip NandCore NandBbt Getopt Tftp Vfs Ramfs Shell
begin

text \<open>
  \<^bold>\<open>g-bios, a boot loader: its memory, text, network, file and shell services.\<close>

  The program is a boot loader for 32-bit little-endian ARM boards. It is compiled with unsigned plain \<^verbatim>\<open>char\<close>, without
  \<^verbatim>\<open>CONFIG_DEBUG\<close>, so debugging output is empty, and code under \<^verbatim>\<open>#if 0\<close> is not part of it. An \<^verbatim>\<open>unsigned long\<close> has 32 bits.

  \<^bold>\<open>Parts and how they interact.\<close> All parts allocate from one heap. The shell reads lines from the serial line, divides them into
  arguments, and runs commands, which parse their options with \<^verbatim>\<open>getopt\<close>. Commands load images over the serial line (Kermit, Ymodem) or the network
  (TFTP), look at the type of the image, and store it in memory or in a device that the file system opened. TFTP uses
  datagram sockets; sockets use the network layers; these send frames through a device and receive them by polling it. Devices are
  configured from the attributes of the board. The NAND core drives chips through the registers of a controller, protects their
  data with the error-correcting code and keeps a table of their bad blocks.

  \<^bold>\<open>Theories.\<close>

  \<^item> \<open>Prelude\<close>: machine types, error numbers, byte-order macros (\<^verbatim>\<open>include/types.h\<close>), shared lemmas on lists, options and words.
  \<^item> \<open>ListHead\<close>: intrusive lists (\<^verbatim>\<open>include/list.h\<close>) over a memory of words. Shows that every operation implements the one on
    abstract lists; the locale states that interface, and its interpretation discharges it.
  \<^item> \<open>Heap\<close>: \<^verbatim>\<open>mm/heap/malloc.c\<close> over a memory of words, sizes kept at 32 bits. Shows a well-formedness invariant, the behaviour of \<^verbatim>\<open>malloc\<close>,
    \<^verbatim>\<open>free\<close> and \<^verbatim>\<open>zalloc\<close>, and, through a locale for clients, that allocations never overlap, for requests of 1 to \<open>2 ^ 32 - 8\<close>
    bytes; for those of zero bytes and those above it shows how they break the heap.
  \<^item> \<open>NandEcc\<close>: \<^verbatim>\<open>driver/flash/nand/nand_ecc.c\<close>. Shows that the unrolled loop computes the parities of the code, that one wrong bit is
    repaired and two are detected.
  \<^item> \<open>Image\<close>: \<^verbatim>\<open>lib/extra/image.c\<close>: recognition of images and the code of the YAFFS tags.
  \<^item> \<open>CString\<close>, \<open>Stdio\<close>, \<open>Strex\<close>: \<^verbatim>\<open>lib/std/string.c\<close>, \<^verbatim>\<open>lib/std/stdio.c\<close>, \<^verbatim>\<open>lib/extra/strex.c\<close>: string operations over a memory of
    bytes, formatted output, line input, and the conversions of numbers, sizes and addresses, which are read back as printed.
  \<^item> \<open>Net\<close>: \<^verbatim>\<open>driver/net/core/net.c\<close>, \<^verbatim>\<open>skb.c\<close>: Ethernet, ARP, IP, ICMP, UDP and TCP. Shows the transitions of TCP connections with the
    segments that cause them (they are not all those of RFC 793), what polling leaves alone, the checksum, address resolution, and which segments stop the program.
  \<^item> \<open>Socket\<close>: \<^verbatim>\<open>lib/net/socket.c\<close>: all socket calls, with delivery end to end between two machines.
  \<^item> \<open>Sysconf\<close>, \<open>Ndev\<close>: \<^verbatim>\<open>core/sysconf.c\<close>, \<^verbatim>\<open>driver/net/core/ndev.c\<close>, \<^verbatim>\<open>mii.c\<close>: board attributes and network devices.
  \<^item> \<open>Loader\<close>, \<open>Kermit\<close>, \<open>Ymodem\<close>, \<open>Tftp\<close>: \<^verbatim>\<open>driver/uart/uart.c\<close>, \<^verbatim>\<open>lib/uart/kermit.c\<close>, \<^verbatim>\<open>ymodem.c\<close>, \<^verbatim>\<open>lib/net/tftp.c\<close>: transfers, and where they go wrong.
  \<^item> \<open>Block\<close>: \<^verbatim>\<open>driver/block\<close>: block devices, requests for sectors, drives and their partitions. A locale states what a drive with sectors does; a partition
    of such a drive is one again inside of its bounds, which nothing checks, and registering a disk makes one for each entry of its table.
  \<^item> \<open>NandChip\<close>, \<open>NandCore\<close>, \<open>NandBbt\<close>: \<^verbatim>\<open>driver/flash/nand/nand_core.c\<close>, \<^verbatim>\<open>nand_bbt.c\<close>: commands, pages with and without codes, spare
    bytes, transfers, erasing and bad-block tables, over the registers of a driver. The locale \<open>nand_device\<close> states what data sheets say of a chip, and that its busy time ends
    within the ten polls of the ready line that the code makes before it goes on regardless; chips with
    large and small pages give one contract on whole commands, \<open>nand_commands\<close>, and simulated chips satisfy both. In it, what is written is read
    back unless the chip reports a failure, erasing keeps to its range and spares bad blocks, and the scan finds exactly the blocks marked by the maker.
  \<^item> \<open>Getopt\<close>: \<^verbatim>\<open>lib/extra/getopt.c\<close>, shown to return the options of a command line in order.
  \<^item> \<open>Vfs\<close>: \<^verbatim>\<open>fs/core\<close>: directory entries, path names, mounts, directories, files. The operation tables of file systems are a parameter;
    the locale \<open>file_system\<close> states what the core relies on, and in it every system call keeps the tree well formed. \<open>resolve\<close> is the abstract
    view of paths.
  \<^item> \<open>Ramfs\<close>: \<^verbatim>\<open>fs/ramfs\<close>, \<^verbatim>\<open>fs/devfs\<close>, the character devices, \<^verbatim>\<open>lib/unistd/dir.c\<close> and the commands on directories. Its tables satisfy
    \<open>file_system\<close> when those of the drivers do. Shows the way from a path to the working directory and back, listing and making directories.
  \<^item> \<open>Shell\<close>: \<^verbatim>\<open>shell/shell.c\<close>: the line editor, shown to implement the editing of two strings, its history and completion, the
    division into arguments, and the execution of commands.

  \<^bold>\<open>State, errors, loops.\<close> State is passed explicitly: memories are functions from addresses, structures are records, tables of pointers to
  functions are parameters. Error numbers are negative integers as in the code. \<open>None\<close>
  is what has no result in the code: a null or uninitialised pointer, an access outside of an array, \<^verbatim>\<open>BUG()\<close>, which stops the program, and a loop that
  does not end; each theory says which of these occur. Loops that wait for a device or for a peer are partial functions into
  optional values; where they do return, that is proved. Elsewhere the bound is the code's: 100000 rounds of waiting for a byte, 100
  rounds for an address, 10000 for the reset of a transceiver. A frame that arrives can make the layers send, and what is sent can be
  looped back. The depth of such nested polling is fuel, an argument of \<open>ndev_poll\<close>, and \<open>None\<close> stands for its end as well; a depth above the number of
  polls that find something is enough, and any greater one gives the same (\<open>ndev_poll_enough\<close>). The model has one network device, where the code polls each
  registered one in turn. Frames, bytes and keys that arrive are lists in the state.

  \<^bold>\<open>Code outside of the sources.\<close> Device drivers, boards and commands are arguments of the definitions: the transmission of a frame, the registers
  of a transceiver, the operation tables, the main functions. What is assumed of them is written in the locales and in the hypotheses of the properties.

  \<^bold>\<open>Not modelled.\<close> Drivers and boards (registers and timing), interrupts and timers, the probing of NAND chips, the MTD and flash
  layer, MMC, USB and display; the commands other than those on directories; YAFFS2, ext4 and the configuration
  tools, which come from elsewhere; FAT and ext2, of which FAT no longer matches the structures it uses; the echo of the shell on the terminal.
\<close>

end
